(* ===== verification/EDS_Prelude.thy ===== *)
theory EDS_Prelude
  imports Main "HOL-Library.Word" "HOL-Library.Multiset" "HOL-Library.Sublist"
begin

text \<open>
  The shared base of the development: the types every component uses (bytes, C strings, the
  32-bit registers of the codecs), the ASCII helpers of the C library the sources call, generic
  lemmas on lists and on the bits of words, and the interfaces (locales) that several components
  implement:

  \<^item> \<open>first_match\<close>: the contract of a linear search for the first matching element of an array,
    provided by \<^verbatim>\<open>camel_name_value_array_find_named\<close> and \<^verbatim>\<open>camel_named_flags_find\<close>;
  \<^item> \<open>byte_machine\<close>: the contract of a routine that processes its input byte by byte and keeps
    its state between calls, provided by the \<^verbatim>\<open>*_step\<close> functions and by the MIME filters:
    feeding a stream in pieces gives the same result as feeding it at once.
\<close>

unbundle bit_operations_syntax

named_theorems codec_defs \<open>definitions of the byte codecs, unfolded together\<close>
named_theorems bit_blast \<open>facts that decide one bit of a machine word\<close>

section \<open>Types of the C sources\<close>

text \<open>
  A \<^verbatim>\<open>guchar\<close> is an 8-bit word and a \<^verbatim>\<open>guint32\<close> a 32-bit word. A NUL-terminated string is
  the list of the bytes before the NUL, so \<^verbatim>\<open>strlen\<close> is \<open>length\<close>.
\<close>

type_synonym byte = "8 word"
type_synonym guint32 = "32 word"
type_synonym cstring = "byte list"

text \<open>String literals of the sources, and the control characters they name.\<close>

abbreviation bytes :: "string \<Rightarrow> cstring" where
  "bytes s \<equiv> map of_char s"

abbreviation NUL :: byte where "NUL \<equiv> 0"
abbreviation TAB :: byte where "TAB \<equiv> 9"
abbreviation LF :: byte where "LF \<equiv> 10"
abbreviation CR :: byte where "CR \<equiv> 13"
abbreviation SP :: byte where "SP \<equiv> 32"
abbreviation DOT :: byte where "DOT \<equiv> 46"
abbreviation EQUALS :: byte where "EQUALS \<equiv> 61"

text \<open>The ASCII classification and case functions of the C library (\<^verbatim>\<open>isxdigit\<close>,
  \<^verbatim>\<open>isspace\<close> and \<^verbatim>\<open>toupper\<close> in the C locale, \<^verbatim>\<open>g_ascii_toupper\<close>).\<close>

definition ascii_toupper :: "byte \<Rightarrow> byte" where
  "ascii_toupper c = (if 97 \<le> c \<and> c \<le> 122 then c - 32 else c)"

definition isxdigit :: "byte \<Rightarrow> bool" where
  "isxdigit c \<longleftrightarrow> (48 \<le> c \<and> c \<le> 57) \<or> (65 \<le> c \<and> c \<le> 70) \<or> (97 \<le> c \<and> c \<le> 102)"

definition isspace :: "byte \<Rightarrow> bool" where
  "isspace c \<longleftrightarrow> c = SP \<or> (9 \<le> c \<and> c \<le> 13)"

section \<open>Lists\<close>

text \<open>\<^verbatim>\<open>g_array_remove_index\<close>: the later elements move down by one.\<close>

definition remove_index :: "nat \<Rightarrow> 'a list \<Rightarrow> 'a list" where
  "remove_index i xs = take i xs @ drop (Suc i) xs"

lemma remove_index_append [simp]: "remove_index (length ys) (ys @ e # zs) = ys @ zs"
  by (simp add: remove_index_def)

lemma length_remove_index: "i < length xs \<Longrightarrow> length (remove_index i xs) < length xs"
  by (simp add: remove_index_def)

lemma split_at_index:
  assumes "i < length xs"
  obtains ys zs where "xs = ys @ xs ! i # zs" and "length ys = i"
proof
  show "xs = take i xs @ xs ! i # drop (Suc i) xs"
    using assms by (rule id_take_nth_drop)
  show "length (take i xs) = i"
    using assms by simp
qed

section \<open>Searching an array\<close>

text \<open>
  The contract of a linear search: \<open>find xs k\<close> is the index of the first element of \<open>xs\<close> that
  \<open>hit k\<close> accepts, and \<open>None\<close> (the sources' \<^verbatim>\<open>(guint) -1\<close>) when there is none.
\<close>

locale first_match =
  fixes hit :: "'k \<Rightarrow> 'e \<Rightarrow> bool"
    and find :: "'e list \<Rightarrow> 'k \<Rightarrow> nat option"
  assumes find_None: "find xs k = None \<longleftrightarrow> (\<forall>e\<in>set xs. \<not> hit k e)"
    and find_Some: "find xs k = Some i \<Longrightarrow>
      i < length xs \<and> hit k (xs ! i) \<and> (\<forall>j<i. \<not> hit k (xs ! j))"
begin

lemma find_split:
  assumes "find xs k = Some i"
  obtains ys e zs where "xs = ys @ e # zs" and "length ys = i" and "hit k e"
    and "\<forall>y\<in>set ys. \<not> hit k y"
proof -
  from find_Some [OF assms] have i: "i < length xs" and h: "hit k (xs ! i)"
    and before: "\<forall>j<i. \<not> hit k (xs ! j)" by auto
  from i obtain ys zs where xs: "xs = ys @ xs ! i # zs" and len: "length ys = i"
    by (rule split_at_index)
  have "\<not> hit k y" if "y \<in> set ys" for y
  proof -
    from that obtain j where "j < i" and "y = ys ! j"
      using len by (auto simp: in_set_conv_nth)
    then have "xs ! j = y"
      using xs len by (metis nth_append)
    with before \<open>j < i\<close> show ?thesis by blast
  qed
  with xs len h show ?thesis using that by blast
qed

lemma find_appendI:
  assumes "hit k e" and "\<forall>y\<in>set ys. \<not> hit k y"
  shows "find (ys @ e # zs) k = Some (length ys)"
proof -
  have "find (ys @ e # zs) k \<noteq> None"
    using assms(1) by (simp add: find_None)
  then obtain i where i: "find (ys @ e # zs) k = Some i" by auto
  note f = find_Some [OF i]
  have "\<not> length ys < i"
    using f assms(1) by (metis nth_append_length)
  moreover have "\<not> i < length ys"
    using f assms(2) by (metis nth_append nth_mem)
  ultimately show ?thesis using i by simp
qed

lemma removed_keeps_others:
  "find xs k = Some i \<Longrightarrow> filter (\<lambda>e. \<not> hit k e) (remove_index i xs) = filter (\<lambda>e. \<not> hit k e) xs"
  by (erule find_split) auto

lemma removed_count:
  "find xs k = Some i \<Longrightarrow>
     Suc (length (filter (hit k) (remove_index i xs))) = length (filter (hit k) xs)"
  by (erule find_split) auto

end

section \<open>Machines that process a stream byte by byte\<close>

text \<open>
  \<open>run s xs\<close> is one call of the routine on the input \<open>xs\<close> in the state \<open>s\<close>: the new state and
  what the call outputs. The two laws say that a call consumes its input from left to right.
\<close>

locale byte_machine =
  fixes run :: "'s \<Rightarrow> 'a list \<Rightarrow> 's \<times> 'b list"
  assumes run_Nil: "run s [] = (s, [])"
    and run_append: "run s (xs @ ys) =
      (fst (run (fst (run s xs)) ys), snd (run s xs) @ snd (run (fst (run s xs)) ys))"
begin

fun run_chunks :: "'s \<Rightarrow> 'a list list \<Rightarrow> 's \<times> 'b list" where
  "run_chunks s [] = (s, [])"
| "run_chunks s (c # cs) =
     (let (s1, o1) = run s c; (s2, o2) = run_chunks s1 cs in (s2, o1 @ o2))"

text \<open>Feeding a stream in pieces is feeding it at once.\<close>

lemma run_chunks_concat: "run_chunks s cs = run s (concat cs)"
  by (induction cs arbitrary: s) (simp_all add: run_Nil run_append split_def Let_def)

lemma run_Cons:
  "run s (x # xs) =
     (fst (run (fst (run s [x])) xs), snd (run s [x]) @ snd (run (fst (run s [x])) xs))"
  using run_append [of s "[x]" xs] by simp

text \<open>An invariant kept by every single byte is kept by every call.\<close>

lemma run_invariant:
  assumes "P s" and "\<And>s x. P s \<Longrightarrow> P (fst (run s [x]))"
  shows "P (fst (run s xs))"
proof (induction xs rule: rev_induct)
  case Nil
  with assms(1) show ?case by (simp add: run_Nil)
next
  case (snoc x xs)
  then show ?case
    using assms(2) [of "fst (run s xs)" x] by (simp add: run_append)
qed

text \<open>The outputs of a call are bounded when each byte pays for its own output out of a budget
  that the state carries.\<close>

lemma run_budget:
  fixes credit :: "'s \<Rightarrow> nat"
  assumes "I s" and "\<And>s x. I s \<Longrightarrow> I (fst (run s [x]))"
    and "\<And>s x. I s \<Longrightarrow> length (snd (run s [x])) + credit (fst (run s [x])) \<le> k + credit s"
  shows "length (snd (run s xs)) + credit (fst (run s xs)) \<le> k * length xs + credit s"
proof (induction xs rule: rev_induct)
  case Nil
  show ?case by (simp add: run_Nil)
next
  case (snoc x xs)
  have "I (fst (run s xs))"
    using assms(1,2) by (rule run_invariant)
  note step = assms(3) [OF this, of x]
  show ?case
    using snoc step by (simp add: run_append)
qed

end

text \<open>A routine given by its step on one byte satisfies the contract.\<close>

fun run_steps :: "('s \<Rightarrow> 'a \<Rightarrow> 's \<times> 'b list) \<Rightarrow> 's \<Rightarrow> 'a list \<Rightarrow> 's \<times> 'b list" where
  "run_steps f s [] = (s, [])"
| "run_steps f s (x # xs) =
     (let (s1, o1) = f s x; (s2, o2) = run_steps f s1 xs in (s2, o1 @ o2))"

lemma run_steps_append:
  "run_steps f s (xs @ ys) =
     (fst (run_steps f (fst (run_steps f s xs)) ys),
      snd (run_steps f s xs) @ snd (run_steps f (fst (run_steps f s xs)) ys))"
  by (induction xs arbitrary: s) (simp_all add: split_def Let_def)

lemma byte_machine_run_steps: "byte_machine (run_steps f)"
  by unfold_locales (simp_all add: run_steps_append)

section \<open>Lines of a byte stream\<close>

text \<open>\<open>column k bs\<close> is the column a cursor at column \<open>k\<close> has after printing \<open>bs\<close>, and \<open>fits n k bs\<close>
  says that no line grows longer than \<open>n\<close> on the way.\<close>

fun column :: "nat \<Rightarrow> byte list \<Rightarrow> nat" where
  "column k [] = k"
| "column k (b # bs) = column (if b = LF then 0 else Suc k) bs"

fun fits :: "nat \<Rightarrow> nat \<Rightarrow> byte list \<Rightarrow> bool" where
  "fits n k [] \<longleftrightarrow> k \<le> n"
| "fits n k (b # bs) \<longleftrightarrow> k \<le> n \<and> fits n (if b = LF then 0 else Suc k) bs"

lemma column_append: "column k (xs @ ys) = column (column k xs) ys"
  by (induction xs arbitrary: k) auto

lemma fits_append: "fits n k (xs @ ys) \<longleftrightarrow> fits n k xs \<and> fits n (column k xs) ys"
proof (induction xs arbitrary: k)
  case Nil
  show ?case by (cases ys) auto
qed auto

lemma fits_column: "fits n k xs \<Longrightarrow> column k xs \<le> n"
  by (induction xs arbitrary: k) auto

lemma fits_start: "fits n k xs \<Longrightarrow> k \<le> n"
  by (cases xs) auto

lemma column_no_LF: "LF \<notin> set xs \<Longrightarrow> column k xs = k + length xs"
  by (induction xs arbitrary: k) auto

lemma fits_no_LF: "LF \<notin> set xs \<Longrightarrow> k + length xs \<le> n \<Longrightarrow> fits n k xs"
  by (induction xs arbitrary: k) auto

lemma fits_mono: "fits m k xs \<Longrightarrow> m \<le> n \<Longrightarrow> fits n k xs"
  by (induction xs arbitrary: k) auto

lemma column_reset: "column k (xs @ LF # ys) = column 0 ys"
  by (induction xs arbitrary: k) auto

text \<open>Read from a line start, this is the length of every stretch without a line feed.\<close>

lemma fits_segment:
  assumes "fits n 0 (xs @ ys @ zs)" and "LF \<notin> set ys"
  shows "length ys \<le> n"
proof -
  from assms(1) have "fits n (column 0 xs) ys" by (simp add: fits_append)
  from fits_column [OF this] column_no_LF [OF assms(2)] show ?thesis by simp
qed

section \<open>Bits of machine words\<close>

text \<open>The bit positions of a word of 8, 16 or 32 bits, one by one.\<close>

lemma nat_less_8_cases [consumes 1]:
  assumes "(n::nat) < 8"
    and "P 0" "P 1" "P 2" "P 3" "P 4" "P 5" "P 6" "P 7"
  shows "P n"
proof -
  have "n \<in> set [0..<8]"
    using assms(1) by (simp only: set_upt atLeastLessThan_iff) simp
  also have "[0..<8] = [0, 1, 2, 3, 4, 5, 6, 7::nat]" by code_simp
  finally show ?thesis using assms(2-) by (simp only: list.set insert_iff empty_iff) blast
qed

lemma nat_less_32_cases [consumes 1]:
  assumes "(n::nat) < 32"
    and "P 0" "P 1" "P 2" "P 3" "P 4" "P 5" "P 6" "P 7"
    and "P 8" "P 9" "P 10" "P 11" "P 12" "P 13" "P 14" "P 15"
    and "P 16" "P 17" "P 18" "P 19" "P 20" "P 21" "P 22" "P 23"
    and "P 24" "P 25" "P 26" "P 27" "P 28" "P 29" "P 30" "P 31"
  shows "P n"
proof -
  have "n \<in> set [0..<32]"
    using assms(1) by (simp only: set_upt atLeastLessThan_iff) simp
  also have "[0..<32] = [0, 1, 2, 3, 4, 5, 6, 7, 8, 9, 10, 11, 12, 13, 14, 15, 16, 17, 18, 19,
      20, 21, 22, 23, 24, 25, 26, 27, 28, 29, 30, 31::nat]"
    by code_simp
  finally show ?thesis using assms(2-) by (simp only: list.set insert_iff empty_iff) blast
qed

lemma word32_eqI:
  fixes x y :: "32 word"
  assumes "\<And>n. n < 32 \<Longrightarrow> bit x n = bit y n"
  shows "x = y"
  by (rule bit_word_eqI) (simp add: assms)

lemma word8_eqI:
  fixes x y :: byte
  assumes "\<And>n. n < 8 \<Longrightarrow> bit x n = bit y n"
  shows "x = y"
  by (rule bit_word_eqI) (simp add: assms)

text \<open>A word below a power of two has no bits above it.\<close>

lemma unat_less_bit_high:
  fixes x :: "'a::len word"
  assumes "unat x < 2 ^ k" and "k \<le> n"
  shows "\<not> bit x n"
proof -
  have "take_bit k (unat x) = unat x"
    using assms(1) by (simp add: take_bit_nat_eq_self_iff)
  then have "\<not> bit (unat x) n"
    using assms(2) by (metis bit_take_bit_iff leD)
  then show ?thesis by (simp add: bit_unsigned_iff)
qed

text \<open>A property of every byte is decided by looking at the 256 of them.\<close>

lemma byte_forallI:
  fixes r :: byte
  assumes "list_all (\<lambda>n. P (word_of_nat n)) [0..<256]"
  shows "P r"
proof -
  have "unat r < 256" using unsigned_less [of r, where ?'a = nat] by simp
  then have "unat r \<in> set [0..<256]" by simp
  with assms have "P (word_of_nat (unat r))"
    unfolding list_all_iff by blast
  then show ?thesis by simp
qed

end
