(* ===== verification/Camel_Strings.thy ===== *)
theory Camel_Strings
  imports EDS_Prelude
begin

text \<open>
  \<^verbatim>\<open>src/src/camel/camel-string-utils.c\<close>: ASCII case-insensitive comparison, hashing and search. The
  pool of interned strings of the same file is in the theory \<open>Camel_StringPool\<close>.
\<close>

section \<open>Case-insensitive comparison\<close>

definition camel_strcase_equal :: "cstring \<Rightarrow> cstring \<Rightarrow> bool" where
  "camel_strcase_equal a b \<longleftrightarrow> map ascii_toupper a = map ascii_toupper b"

lemma camel_strcase_equal_equivp: "equivp camel_strcase_equal"
  by (auto intro!: equivpI reflpI sympI transpI simp: camel_strcase_equal_def)

text \<open>One round of the hash loop, on the 32-bit \<^verbatim>\<open>guint h\<close>. The character is a signed \<^verbatim>\<open>gchar\<close>: a byte from
  \<^verbatim>\<open>0x80\<close> on is extended with ones.\<close>

definition strcase_hash_round :: "guint32 \<Rightarrow> byte \<Rightarrow> guint32" where
  "strcase_hash_round h c =
     (let h = push_bit 4 h + scast (ascii_toupper c);
          g = h AND 0xf0000000
      in if g \<noteq> 0 then (let h = h XOR drop_bit 24 g in h XOR g) else h)"

fun strcase_hash_loop :: "guint32 \<Rightarrow> cstring \<Rightarrow> guint32" where
  "strcase_hash_loop h [] = h"
| "strcase_hash_loop h (c # p) = strcase_hash_loop (strcase_hash_round h c) p"

definition camel_strcase_hash :: "cstring \<Rightarrow> guint32" where
  "camel_strcase_hash v = strcase_hash_loop 0 v"

lemma strcase_hash_loop_upper:
  "map ascii_toupper a = map ascii_toupper b \<Longrightarrow> strcase_hash_loop h a = strcase_hash_loop h b"
proof (induction a arbitrary: b h)
  case Nil
  then show ?case by simp
next
  case (Cons x a)
  then obtain y b' where b: "b = y # b'" and xy: "ascii_toupper x = ascii_toupper y"
    and rest: "map ascii_toupper a = map ascii_toupper b'" by auto
  from xy have "strcase_hash_round h x = strcase_hash_round h y"
    by (simp add: strcase_hash_round_def)
  with Cons.IH [OF rest] b show ?case by simp
qed

text \<open>The top nibble of the hash is cleared in every round, so it stays below \<open>2 ^ 28\<close>.\<close>

lemma strcase_hash_round_top: "28 \<le> n \<Longrightarrow> \<not> bit (strcase_hash_round h c) n"
proof -
  define k where "k = push_bit 4 h + (scast (ascii_toupper c) :: guint32)"
  assume n: "28 \<le> n"
  have "m < 32 \<Longrightarrow> 28 \<le> m \<longrightarrow> bit (k AND 0xf0000000) m = bit k m" for m
    by (induction m rule: nat_less_32_cases) (simp_all add: bit_simps)
  then have mask: "bit (k AND 0xf0000000) m = bit k m" if "28 \<le> m" "m < 32" for m
    using that by blast
  have shifted: "\<not> bit (drop_bit 24 (k AND 0xf0000000)) m" if "28 \<le> m" for m
    using that by (auto simp: bit_drop_bit_eq bit_and_iff dest: bit_imp_le_length)
  have zero: "\<not> bit k m" if "k AND 0xf0000000 = 0" "28 \<le> m" "m < 32" for m
    using mask [OF that(2,3)] that(1) by simp
  show ?thesis
  proof (cases "n < 32")
    case True
    then show ?thesis
      using n mask [OF n] shifted [OF n] zero [OF _ n]
      by (auto simp: strcase_hash_round_def k_def [symmetric] Let_def bit_xor_iff)
  next
    case False
    then show ?thesis using bit_imp_le_length [of "strcase_hash_round h c" n] by auto
  qed
qed

section \<open>Case-insensitive search\<close>

text \<open>\<^verbatim>\<open>camel_strstrcase\<close>: the result is the offset of the match in the haystack, \<open>None\<close> for
  \<^verbatim>\<open>NULL\<close>. The loop runs while the haystack has at least \<open>len\<close> bytes left.\<close>

fun strstrcase_loop :: "nat \<Rightarrow> cstring \<Rightarrow> cstring \<Rightarrow> nat option" where
  "strstrcase_loop i [] needle = None"
| "strstrcase_loop i (c # p) needle =
     (if length (c # p) < length needle then None
      else if camel_strcase_equal (take (length needle) (c # p)) needle then Some i
      else strstrcase_loop (Suc i) p needle)"

definition camel_strstrcase :: "cstring \<Rightarrow> cstring \<Rightarrow> nat option" where
  "camel_strstrcase haystack needle =
     (if length needle > length haystack then None
      else if length needle = 0 then Some 0
      else strstrcase_loop 0 haystack needle)"

definition occurs_at :: "nat \<Rightarrow> cstring \<Rightarrow> cstring \<Rightarrow> bool" where
  "occurs_at i needle hay \<longleftrightarrow>
     i + length needle \<le> length hay \<and> camel_strcase_equal (take (length needle) (drop i hay)) needle"

lemma strstrcase_loop_Some:
  assumes "strstrcase_loop i p needle = Some k"
  shows "i \<le> k \<and> occurs_at (k - i) needle p \<and> (\<forall>j < k - i. \<not> occurs_at j needle p)"
  using assms
proof (induction i p needle rule: strstrcase_loop.induct)
  case (1 i needle)
  then show ?case by simp
next
  case (2 i c p needle)
  show ?case
  proof (cases "length (c # p) < length needle \<or>
      camel_strcase_equal (take (length needle) (c # p)) needle")
    case True
    with 2(2) show ?thesis by (auto simp: occurs_at_def split: if_splits)
  next
    case False
    with 2 have IH: "Suc i \<le> k" "occurs_at (k - Suc i) needle p"
      "\<forall>j < k - Suc i. \<not> occurs_at j needle p" by auto
    moreover from IH(1) have "k - i = Suc (k - Suc i)" by arith
    ultimately have "occurs_at (k - i) needle (c # p)"
      by (simp add: occurs_at_def)
    moreover have "\<not> occurs_at j needle (c # p)" if "j < k - i" for j
      using that IH(3) False by (cases j) (auto simp: occurs_at_def)
    ultimately show ?thesis using IH(1) by auto
  qed
qed

lemma strstrcase_loop_None:
  "strstrcase_loop i p needle = None \<Longrightarrow> needle \<noteq> [] \<Longrightarrow> \<not> occurs_at j needle p"
proof (induction i p needle arbitrary: j rule: strstrcase_loop.induct)
  case (1 i needle)
  then show ?case by (auto simp: occurs_at_def)
next
  case (2 i c p needle)
  show ?case
  proof (cases "length (c # p) < length needle")
    case True
    then show ?thesis by (simp add: occurs_at_def)
  next
    case False
    with 2(2) have n: "\<not> camel_strcase_equal (take (length needle) (c # p)) needle"
      and rest: "strstrcase_loop (Suc i) p needle = None" by (auto split: if_splits)
    with 2(1) [OF False n rest 2(3)] False show ?thesis
      by (cases j) (auto simp: occurs_at_def)
  qed
qed

text \<open>\<^verbatim>\<open>camel_strdown\<close> lowers the ASCII capitals in place.\<close>

definition strdown_char :: "byte \<Rightarrow> byte" where
  "strdown_char c = (if 65 \<le> c \<and> c \<le> 90 then c + 0x20 else c)"

definition camel_strdown :: "cstring \<Rightarrow> cstring" where
  "camel_strdown s = map strdown_char s"

text \<open>\<^verbatim>\<open>camel_string_is_all_ascii\<close>: a byte is negative as a \<^verbatim>\<open>gchar\<close> when its top bit is set.\<close>

fun all_ascii_loop :: "cstring \<Rightarrow> bool" where
  "all_ascii_loop [] = True"
| "all_ascii_loop (c # p) = (if c <s 0 then False else all_ascii_loop p)"

definition camel_string_is_all_ascii :: "cstring option \<Rightarrow> bool" where
  "camel_string_is_all_ascii str = (case str of None \<Rightarrow> True | Some s \<Rightarrow> all_ascii_loop s)"

lemma strdown_upper_inverse: "ascii_toupper (strdown_char c) = ascii_toupper c"
  by (auto simp: ascii_toupper_def strdown_char_def word_le_nat_alt unat_word_ariths)

lemma camel_strdown_equal: "camel_strcase_equal (camel_strdown s) s"
  by (simp add: camel_strcase_equal_def camel_strdown_def strdown_upper_inverse)

section \<open>Properties\<close>

text \<open>C26: \<^verbatim>\<open>camel_strcase_hash\<close> and \<^verbatim>\<open>camel_strcase_equal\<close> fit together as the hash and the equality
  of a \<^verbatim>\<open>GHashTable\<close>: the comparison is an equivalence relation, equal strings have equal
  hashes, and lowering a string with \<^verbatim>\<open>camel_strdown\<close> changes neither.\<close>

theorem strcase_hash_table_contract:
  "equivp camel_strcase_equal \<and>
   (\<forall>a b. \<not> camel_strcase_equal a b \<or> camel_strcase_hash a = camel_strcase_hash b) \<and>
   (\<forall>s. camel_strcase_equal (camel_strdown s) s \<and>
     camel_strcase_hash (camel_strdown s) = camel_strcase_hash s)"
proof -
  have hash: "camel_strcase_equal a b \<Longrightarrow> camel_strcase_hash a = camel_strcase_hash b" for a b
    unfolding camel_strcase_equal_def camel_strcase_hash_def by (rule strcase_hash_loop_upper)
  show ?thesis
  proof (intro conjI allI)
    show "equivp camel_strcase_equal" by (rule camel_strcase_equal_equivp)
    show "\<not> camel_strcase_equal a b \<or> camel_strcase_hash a = camel_strcase_hash b" for a b
      using hash by blast
    show "camel_strcase_equal (camel_strdown s) s" for s by (rule camel_strdown_equal)
    then show "camel_strcase_hash (camel_strdown s) = camel_strcase_hash s" for s by (rule hash)
  qed
qed

theorem strcase_hash_table_contract_witness:
  "camel_strcase_hash (bytes ''Subject'') = camel_strcase_hash (bytes ''SUBJECT'')"
proof -
  have "camel_strcase_equal (bytes ''Subject'') (bytes ''SUBJECT'')"
    by (simp add: camel_strcase_equal_def ascii_toupper_def)
  then show ?thesis using strcase_hash_table_contract by blast
qed

text \<open>C27: \<^verbatim>\<open>camel_strstrcase\<close> finds the leftmost occurrence, up to ASCII case, and returns \<^verbatim>\<open>NULL\<close>
  exactly when the needle occurs nowhere.\<close>

theorem strstrcase_leftmost:
  "case camel_strstrcase haystack needle of
     Some k \<Rightarrow> occurs_at k needle haystack \<and> (\<forall>j. j < k \<longrightarrow> \<not> occurs_at j needle haystack)
   | None \<Rightarrow> \<forall>j. \<not> occurs_at j needle haystack"
proof (cases "needle = []")
  case True
  then show ?thesis
    by (simp add: camel_strstrcase_def occurs_at_def camel_strcase_equal_def)
next
  case ne: False
  show ?thesis
  proof (cases "camel_strstrcase haystack needle")
    case None
    then consider "length haystack < length needle" | "strstrcase_loop 0 haystack needle = None"
      by (auto simp: camel_strstrcase_def ne split: if_splits)
    then have "\<not> occurs_at j needle haystack" for j
    proof cases
      case 1
      then show ?thesis by (simp add: occurs_at_def)
    next
      case 2
      then show ?thesis using ne by (rule strstrcase_loop_None)
    qed
    with None show ?thesis by simp
  next
    case (Some k)
    then have "strstrcase_loop 0 haystack needle = Some k"
      by (auto simp: camel_strstrcase_def ne split: if_splits)
    from strstrcase_loop_Some [OF this] Some show ?thesis by simp
  qed
qed

theorem strstrcase_leftmost_witness:
  "occurs_at 5 (bytes ''FOO'') (bytes ''Re: [Foo] foo'')"
proof -
  have "camel_strstrcase (bytes ''Re: [Foo] foo'') (bytes ''FOO'') = Some 5"
    by code_simp
  with strstrcase_leftmost [where haystack = "bytes ''Re: [Foo] foo''" and needle = "bytes ''FOO''"]
  show ?thesis
    by (simp only: option.case)
qed

end
