(* ===== verification/Camel_StringPool.thy ===== *)
theory Camel_StringPool
  imports Camel_Strings
begin

text \<open>
  The pool of interned strings of \<^verbatim>\<open>src/src/camel/camel-string-utils.c\<close> (\<^verbatim>\<open>camel_pstring_add\<close>,
  \<^verbatim>\<open>_peek\<close>, \<^verbatim>\<open>_contains\<close>, \<^verbatim>\<open>_free\<close>).

  The hash table \<^verbatim>\<open>string_pool\<close> is a map from the bytes of a string to its node. A pointer to a
  string is its address and the bytes found there; the literal \<^verbatim>\<open>""\<close> lives at address 0 and
  \<^verbatim>\<open>NULL\<close> is \<open>None\<close>. The mutex makes every operation one step. \<^verbatim>\<open>g_strdup\<close> takes its address from
  \<open>next_addr\<close>.
\<close>

type_synonym str_ptr = "nat \<times> cstring"

record string_pool_node =
  string_at :: nat
  ref_count :: nat

record pool_state =
  string_pool :: "(cstring \<Rightarrow> string_pool_node option) option"
  next_addr :: nat

definition pool_start :: pool_state where
  "pool_start = \<lparr>string_pool = None, next_addr = 1\<rparr>"

definition string_pool_node_new :: "nat \<Rightarrow> string_pool_node" where
  "string_pool_node_new a = \<lparr>string_at = a, ref_count = 1\<rparr>"

text \<open>\<^verbatim>\<open>string_pool_init\<close>: the table after the lazy creation.\<close>

definition string_pool_init :: "pool_state \<Rightarrow> cstring \<Rightarrow> string_pool_node option" where
  "string_pool_init st = (case string_pool st of None \<Rightarrow> (\<lambda>_. None) | Some p \<Rightarrow> p)"

definition camel_pstring_add ::
    "pool_state \<Rightarrow> str_ptr option \<Rightarrow> bool \<Rightarrow> pool_state \<times> str_ptr option" where
  "camel_pstring_add st string own =
     (case string of
        None \<Rightarrow> (st, None)
      | Some (a, s) \<Rightarrow>
          if s = [] then (st, Some (0, []))
          else
            (let pool = string_pool_init st in
             case pool s of
               Some node \<Rightarrow>
                 (st\<lparr>string_pool := Some (pool(s \<mapsto> node\<lparr>ref_count := ref_count node + 1\<rparr>))\<rparr>,
                  Some (string_at node, s))
             | None \<Rightarrow>
                 if own then
                   (st\<lparr>string_pool := Some (pool(s \<mapsto> string_pool_node_new a))\<rparr>, Some (a, s))
                 else
                   (st\<lparr>string_pool := Some (pool(s \<mapsto> string_pool_node_new (next_addr st))),
                       next_addr := next_addr st + 1\<rparr>, Some (next_addr st, s))))"

definition camel_pstring_strdup :: "pool_state \<Rightarrow> str_ptr option \<Rightarrow> pool_state \<times> str_ptr option" where
  "camel_pstring_strdup st string = camel_pstring_add st string False"

definition camel_pstring_peek :: "pool_state \<Rightarrow> str_ptr option \<Rightarrow> pool_state \<times> str_ptr option" where
  "camel_pstring_peek st string =
     (case string of
        None \<Rightarrow> (st, None)
      | Some (a, s) \<Rightarrow>
          if s = [] then (st, Some (0, []))
          else
            (let pool = string_pool_init st; st = st\<lparr>string_pool := Some pool\<rparr> in
             case pool s of
               None \<Rightarrow> (st, None)
             | Some node \<Rightarrow> (st, Some (string_at node, s))))"

definition camel_pstring_contains :: "pool_state \<Rightarrow> str_ptr option \<Rightarrow> pool_state \<times> bool" where
  "camel_pstring_contains st string =
     (case string of
        None \<Rightarrow> (st, False)
      | Some (a, s) \<Rightarrow>
          if s = [] then (st, False)
          else
            (let pool = string_pool_init st
             in (st\<lparr>string_pool := Some pool\<rparr>, pool s \<noteq> None)))"

text \<open>The outcomes of \<^verbatim>\<open>camel_pstring_free\<close>: the three warnings leave the pool as it is.\<close>

datatype free_result = Ignored | NotInPool | NotOurs | Orphaned | Released

definition camel_pstring_free :: "pool_state \<Rightarrow> str_ptr option \<Rightarrow> pool_state \<times> free_result" where
  "camel_pstring_free st string =
     (case string_pool st of
        None \<Rightarrow> (st, Ignored)
      | Some pool \<Rightarrow>
          (case string of
             None \<Rightarrow> (st, Ignored)
           | Some (a, s) \<Rightarrow>
               if s = [] then (st, Ignored)
               else
                 (case pool s of
                    None \<Rightarrow> (st, NotInPool)
                  | Some node \<Rightarrow>
                      if string_at node \<noteq> a then (st, NotOurs)
                      else if ref_count node = 0 then (st, Orphaned)
                      else
                        (let n = ref_count node - 1 in
                         if n = 0 then (st\<lparr>string_pool := Some (pool(s := None))\<rparr>, Released)
                         else (st\<lparr>string_pool := Some (pool(s \<mapsto> node\<lparr>ref_count := n\<rparr>))\<rparr>,
                               Released)))))"

lemmas pstring_defs = camel_pstring_add_def camel_pstring_free_def camel_pstring_peek_def
  camel_pstring_contains_def string_pool_init_def string_pool_node_new_def

section \<open>Runs of the pool\<close>

text \<open>
  A run of the program on the pool, with the multiset \<open>held\<close> of the references that callers got
  from \<^verbatim>\<open>camel_pstring_add\<close> and have not given back: callers add strings, look strings up, and
  free references they hold.
\<close>

inductive pool_run :: "pool_state \<Rightarrow> str_ptr multiset \<Rightarrow> bool" where
  start: "pool_run pool_start {#}"
| add: "pool_run st held \<Longrightarrow> camel_pstring_add st (Some (a, s)) own = (st', Some p) \<Longrightarrow> s \<noteq> [] \<Longrightarrow>
     pool_run st' (add_mset p held)"
| peek: "pool_run st held \<Longrightarrow> pool_run (fst (camel_pstring_peek st q)) held"
| contains: "pool_run st held \<Longrightarrow> pool_run (fst (camel_pstring_contains st q)) held"
| free: "pool_run st held \<Longrightarrow> p \<in># held \<Longrightarrow>
     pool_run (fst (camel_pstring_free st (Some p))) (held - {#p#})"

text \<open>The table holds exactly the strings with outstanding references, each with their number.\<close>

definition pool_inv :: "pool_state \<Rightarrow> str_ptr multiset \<Rightarrow> bool" where
  "pool_inv st held \<longleftrightarrow>
     (\<forall>a s. (a, s) \<in># held \<longrightarrow>
        s \<noteq> [] \<and> (\<exists>node. string_pool_init st s = Some node \<and> string_at node = a)) \<and>
     (\<forall>s node. string_pool_init st s = Some node \<longrightarrow>
        ref_count node = count held (string_at node, s) \<and> 0 < ref_count node)"

lemma pool_inv_init:
  "string_pool_init st = string_pool_init st' \<Longrightarrow> pool_inv st held = pool_inv st' held"
  by (simp add: pool_inv_def)

lemma pool_inv_held:
  "pool_inv st held \<Longrightarrow> (a, s) \<in># held \<Longrightarrow>
     s \<noteq> [] \<and> (\<exists>node. string_pool_init st s = Some node \<and> string_at node = a)"
  unfolding pool_inv_def by blast

lemma pool_inv_node:
  "pool_inv st held \<Longrightarrow> string_pool_init st s = Some node \<Longrightarrow>
     ref_count node = count held (string_at node, s) \<and> 0 < ref_count node"
  unfolding pool_inv_def by blast

lemma pool_invI:
  assumes "\<And>a s. (a, s) \<in># held \<Longrightarrow>
      s \<noteq> [] \<and> (\<exists>node. string_pool_init st s = Some node \<and> string_at node = a)"
    and "\<And>s node. string_pool_init st s = Some node \<Longrightarrow>
      ref_count node = count held (string_at node, s) \<and> 0 < ref_count node"
  shows "pool_inv st held"
  using assms unfolding pool_inv_def by blast

lemma string_pool_init_upd [simp]: "string_pool_init (st\<lparr>string_pool := Some p\<rparr>) = p"
  by (simp add: string_pool_init_def)

lemma peek_keeps_pool: "string_pool_init (fst (camel_pstring_peek st q)) = string_pool_init st"
  by (auto simp: camel_pstring_peek_def Let_def split: option.splits)

lemma contains_keeps_pool:
  "string_pool_init (fst (camel_pstring_contains st q)) = string_pool_init st"
  by (auto simp: camel_pstring_contains_def Let_def split: option.splits)

lemma pool_inv_add:
  assumes inv: "pool_inv st held" and s: "s \<noteq> []"
    and add: "camel_pstring_add st (Some (a, s)) own = (st', Some p)"
  shows "pool_inv st' (add_mset p held)"
proof (cases "string_pool_init st s")
  case (Some node)
  then have st': "string_pool_init st' =
      (string_pool_init st)(s \<mapsto> node\<lparr>ref_count := ref_count node + 1\<rparr>)"
    and p: "p = (string_at node, s)"
    using add s by (auto simp: camel_pstring_add_def Let_def string_pool_init_def)
  note n = pool_inv_node [OF inv Some]
  show ?thesis
  proof (rule pool_invI)
    fix b t assume "(b, t) \<in># add_mset p held"
    then show "t \<noteq> [] \<and> (\<exists>node. string_pool_init st' t = Some node \<and> string_at node = b)"
      using pool_inv_held [OF inv, of b t] s p st' Some by auto
  next
    fix t m assume "string_pool_init st' t = Some m"
    then show "ref_count m = count (add_mset p held) (string_at m, t) \<and> 0 < ref_count m"
      using pool_inv_node [OF inv, of t m] n p st' by (auto split: if_splits)
  qed
next
  case None
  then obtain b where st': "string_pool_init st' = (string_pool_init st)(s \<mapsto> string_pool_node_new b)"
    and p: "p = (b, s)"
    using add s by (auto simp: camel_pstring_add_def Let_def string_pool_init_def split: if_splits)
  have fresh: "(c, s) \<notin># held" for c
    using pool_inv_held [OF inv, of c s] None by auto
  then have zero: "count held (b, s) = 0" by (simp add: not_in_iff)
  show ?thesis
  proof (rule pool_invI)
    fix c t assume "(c, t) \<in># add_mset p held"
    then show "t \<noteq> [] \<and> (\<exists>node. string_pool_init st' t = Some node \<and> string_at node = c)"
      using pool_inv_held [OF inv, of c t] s p st' fresh [of c]
      by (auto simp: string_pool_node_new_def)
  next
    fix t m assume "string_pool_init st' t = Some m"
    then show "ref_count m = count (add_mset p held) (string_at m, t) \<and> 0 < ref_count m"
      using pool_inv_node [OF inv, of t m] p st' zero
      by (auto simp: string_pool_node_new_def split: if_splits)
  qed
qed

lemma pool_inv_free:
  assumes inv: "pool_inv st held" and p: "p \<in># held"
  shows "pool_inv (fst (camel_pstring_free st (Some p))) (held - {#p#})"
    and "snd (camel_pstring_free st (Some p)) = Released"
proof -
  obtain a s where as: "p = (a, s)" by (cases p)
  from pool_inv_held [OF inv, of a s] p as obtain node where s: "s \<noteq> []"
    and node: "string_pool_init st s = Some node" and a: "string_at node = a" by auto
  from pool_inv_node [OF inv node]
  have rc: "ref_count node = count held (string_at node, s)" "0 < ref_count node" by auto
  obtain pool where pool: "string_pool st = Some pool" "pool s = Some node"
    using node by (auto simp: string_pool_init_def split: option.splits)
  show "snd (camel_pstring_free st (Some p)) = Released"
    using pool a s rc as by (simp add: camel_pstring_free_def Let_def)
  have eq: "string_pool_init (fst (camel_pstring_free st (Some p))) =
      (string_pool_init st)(s := (if ref_count node = 1 then None
         else Some (node\<lparr>ref_count := ref_count node - 1\<rparr>)))"
    using pool a s rc(2) as by (auto simp: camel_pstring_free_def Let_def string_pool_init_def)
  have uniq: "string_at node = b" if "(b, s) \<in># held" for b
    using pool_inv_held [OF inv that] node by auto
  show "pool_inv (fst (camel_pstring_free st (Some p))) (held - {#p#})"
  proof (rule pool_invI)
    fix b t assume b: "(b, t) \<in># held - {#p#}"
    then have held: "(b, t) \<in># held" by (rule in_diffD)
    have "ref_count node \<noteq> 1" if "t = s"
      using b that rc(1) uniq [of b] held as a by (auto simp: in_diff_count split: if_splits)
    then show "t \<noteq> [] \<and> (\<exists>n. string_pool_init (fst (camel_pstring_free st (Some p))) t = Some n \<and>
        string_at n = b)"
      using pool_inv_held [OF inv held] node unfolding eq by auto
  next
    fix t m assume m: "string_pool_init (fst (camel_pstring_free st (Some p))) t = Some m"
    show "ref_count m = count (held - {#p#}) (string_at m, t) \<and> 0 < ref_count m"
    proof (cases "t = s")
      case True
      with m have "1 < ref_count node" and "m = node\<lparr>ref_count := ref_count node - 1\<rparr>"
        using rc(2) unfolding eq by (auto split: if_splits)
      with True as a rc(1) show ?thesis by simp
    next
      case False
      with m pool_inv_node [OF inv, of t m] as show ?thesis unfolding eq by auto
    qed
  qed
qed

lemma pool_run_inv: "pool_run st held \<Longrightarrow> pool_inv st held"
proof (induction rule: pool_run.induct)
  case start
  show ?case by (simp add: pool_inv_def pool_start_def string_pool_init_def)
next
  case (add st held a s own st' p)
  from pool_inv_add [OF add.IH add.hyps(3,2)] show ?case .
next
  case (peek st held q)
  from peek.IH show ?case using pool_inv_init [OF peek_keeps_pool] by blast
next
  case (contains st held q)
  from contains.IH show ?case using pool_inv_init [OF contains_keeps_pool] by blast
next
  case (free st held p)
  from pool_inv_free(1) [OF free.IH free.hyps(2)] show ?case .
qed

section \<open>Properties\<close>

text \<open>C7: In every run of the program on the string pool, a held reference to the string \<open>s\<close> is the
  pool's one copy of \<open>s\<close>: looking up any pointer to the same bytes gives that reference, and the
  node's reference count is exactly the number of outstanding references.\<close>

theorem pstring_canonical:
  assumes "pool_run st held" and "(a, s) \<in># held"
  shows "snd (camel_pstring_peek st (Some (b, s))) = Some (a, s) \<and>
    (\<exists>node. string_pool_init st s = Some node \<and> ref_count node = count held (a, s))"
proof -
  from pool_run_inv [OF assms(1)] have inv: "pool_inv st held" .
  from pool_inv_held [OF this assms(2)] obtain node where "s \<noteq> []"
    and node: "string_pool_init st s = Some node" "string_at node = a" by blast
  then show ?thesis
    using pool_inv_node [OF inv node(1)] by (simp add: camel_pstring_peek_def Let_def)
qed

definition pool_example :: "pool_state \<times> str_ptr option" where
  "pool_example =
     (let (st, p) = camel_pstring_add pool_start (Some (7, bytes ''INBOX'')) True
      in camel_pstring_strdup st (Some (9, bytes ''INBOX'')))"

lemma pool_example_run:
  "pool_run (fst pool_example) {#(7, bytes ''INBOX''), (7, bytes ''INBOX'')#}"
proof -
  let ?one = "camel_pstring_add pool_start (Some (7, bytes ''INBOX'')) True"
  have one: "?one = (fst ?one, Some (7, bytes ''INBOX''))"
    by (simp add: camel_pstring_add_def pool_start_def string_pool_init_def Let_def)
  from pool_run.add [OF pool_run.start one]
  have run: "pool_run (fst ?one) {#(7, bytes ''INBOX'')#}" by simp
  let ?two = "camel_pstring_add (fst ?one) (Some (9, bytes ''INBOX'')) False"
  have two: "?two = (fst ?two, Some (7, bytes ''INBOX''))"
    by (simp add: camel_pstring_add_def pool_start_def string_pool_init_def Let_def
        string_pool_node_new_def)
  from pool_run.add [OF run two] show ?thesis
    by (simp add: pool_example_def camel_pstring_strdup_def split_def Let_def)
qed

theorem pstring_canonical_witness:
  "snd (camel_pstring_peek (fst pool_example) (Some (3, bytes ''INBOX''))) = Some (7, bytes ''INBOX'')"
  using pstring_canonical [OF pool_example_run, of 7 "bytes ''INBOX''" 3] by simp

text \<open>C39: Giving back a held reference never runs into one of the warnings of \<^verbatim>\<open>camel_pstring_free\<close>,
  and the string stays in the pool exactly as long as another reference to it is out.\<close>

theorem pstring_free_last:
  assumes "pool_run st held" and "(a, s) \<in># held"
  shows "snd (camel_pstring_free st (Some (a, s))) = Released \<and>
    (snd (camel_pstring_contains (fst (camel_pstring_free st (Some (a, s)))) (Some (b, s)))
       \<longleftrightarrow> 1 < count held (a, s))"
proof -
  let ?st = "fst (camel_pstring_free st (Some (a, s)))"
  from pool_run_inv [OF assms(1)] have inv: "pool_inv st held" .
  note released = pool_inv_free(2) [OF inv assms(2)]
  note inv' = pool_inv_free(1) [OF inv assms(2)]
  from pool_inv_held [OF inv assms(2)] obtain node where s: "s \<noteq> []"
    and node: "string_pool_init st s = Some node" "string_at node = a" by blast
  have contains: "snd (camel_pstring_contains ?st (Some (b, s))) \<longleftrightarrow> string_pool_init ?st s \<noteq> None"
    using s by (simp add: camel_pstring_contains_def Let_def)
  have "string_pool_init ?st s \<noteq> None \<longleftrightarrow> 1 < count held (a, s)"
  proof
    assume "1 < count held (a, s)"
    then have "(a, s) \<in># held - {#(a, s)#}" by (simp add: in_diff_count)
    from pool_inv_held [OF inv' this] show "string_pool_init ?st s \<noteq> None" by blast
  next
    assume "string_pool_init ?st s \<noteq> None"
    then obtain m where m: "string_pool_init ?st s = Some m" by blast
    from pool_inv_node [OF inv' m] have "(string_at m, s) \<in># held - {#(a, s)#}"
      by (metis count_greater_zero_iff)
    moreover from this have "string_at m = a"
      using pool_inv_held [OF inv, of "string_at m" s] node by (auto dest: in_diffD)
    ultimately show "1 < count held (a, s)" by (simp add: in_diff_count)
  qed
  with contains released show ?thesis by blast
qed

theorem pstring_free_last_witness:
  "snd (camel_pstring_contains
     (fst (camel_pstring_free (fst pool_example) (Some (7, bytes ''INBOX'')))) (Some (0, bytes ''INBOX'')))"
  using pstring_free_last [OF pool_example_run, of 7 "bytes ''INBOX''" 0] by simp

end
