(* ===== verification/Camel_NameValueArray.thy ===== *)
theory Camel_NameValueArray
  imports Camel_Strings
begin

text \<open>
  \<^verbatim>\<open>src/src/camel/camel-name-value-array.c\<close>: the ordered array of name/value pairs that holds the
  headers of a message and the user tags of a message info.

  A \<^verbatim>\<open>CamelNameValueArray\<close> is the list of its pairs in order; a nullable pointer to one is an
  \<open>option\<close>. The index \<^verbatim>\<open>(guint) -1\<close> of a failed search is \<open>None\<close>. Each operation that changes the
  array returns the new array with the function's own result.
\<close>

datatype CamelCompareType = CAMEL_COMPARE_CASE_INSENSITIVE | CAMEL_COMPARE_CASE_SENSITIVE

type_synonym CamelNameValuePair = "cstring \<times> cstring"
type_synonym CamelNameValueArray = "CamelNameValuePair list"

definition camel_name_value_array_new :: CamelNameValueArray where
  "camel_name_value_array_new = []"

definition camel_name_value_array_new_sized :: "nat \<Rightarrow> CamelNameValueArray" where
  "camel_name_value_array_new_sized reserve_size = []"

definition camel_name_value_array_get_length :: "CamelNameValueArray option \<Rightarrow> nat" where
  "camel_name_value_array_get_length arr = (case arr of None \<Rightarrow> 0 | Some a \<Rightarrow> length a)"

definition camel_name_value_array_get :: "CamelNameValueArray \<Rightarrow> nat \<Rightarrow> (cstring \<times> cstring) option" where
  "camel_name_value_array_get arr index =
     (if index \<ge> camel_name_value_array_get_length (Some arr) then None else Some (arr ! index))"

definition camel_name_value_array_get_name :: "CamelNameValueArray \<Rightarrow> nat \<Rightarrow> cstring option" where
  "camel_name_value_array_get_name arr index =
     (case camel_name_value_array_get arr index of None \<Rightarrow> None | Some (n, v) \<Rightarrow> Some n)"

definition camel_name_value_array_get_value :: "CamelNameValueArray \<Rightarrow> nat \<Rightarrow> cstring option" where
  "camel_name_value_array_get_value arr index =
     (case camel_name_value_array_get arr index of None \<Rightarrow> None | Some (n, v) \<Rightarrow> Some v)"

definition camel_name_value_array_append ::
    "CamelNameValueArray \<Rightarrow> cstring \<Rightarrow> cstring \<Rightarrow> CamelNameValueArray" where
  "camel_name_value_array_append arr name value = arr @ [(name, value)]"

text \<open>\<^verbatim>\<open>camel_name_value_array_copy\<close>: the loop over the indices of the source.\<close>

function nva_copy_loop :: "CamelNameValueArray \<Rightarrow> nat \<Rightarrow> CamelNameValueArray \<Rightarrow> CamelNameValueArray" where
  "nva_copy_loop arr ii copy =
     (if ii < length arr then
        nva_copy_loop arr (Suc ii)
          (case camel_name_value_array_get arr ii of
             None \<Rightarrow> copy
           | Some (name, value) \<Rightarrow> camel_name_value_array_append copy name value)
      else copy)"
  by pat_completeness auto
termination by (relation "measure (\<lambda>(arr, ii, copy). length arr - ii)") auto

declare nva_copy_loop.simps [simp del]

definition camel_name_value_array_copy :: "CamelNameValueArray option \<Rightarrow> CamelNameValueArray option" where
  "camel_name_value_array_copy arr =
     (case arr of
        None \<Rightarrow> None
      | Some a \<Rightarrow> Some (nva_copy_loop a 0
                    (camel_name_value_array_new_sized (camel_name_value_array_get_length arr))))"

text \<open>The test of \<^verbatim>\<open>camel_name_value_array_find_named\<close> on one pair; no name is \<^verbatim>\<open>NULL\<close>, because
  \<^verbatim>\<open>append\<close> and \<^verbatim>\<open>set_internal\<close> refuse a \<^verbatim>\<open>NULL\<close> name.\<close>

definition nva_named :: "CamelCompareType \<Rightarrow> cstring \<Rightarrow> CamelNameValuePair \<Rightarrow> bool" where
  "nva_named compare_type name pair \<longleftrightarrow>
     (let case_sensitive = compare_type = CAMEL_COMPARE_CASE_SENSITIVE in
      (case_sensitive \<and> name = fst pair) \<or>
      (\<not> case_sensitive \<and> camel_strcase_equal name (fst pair)))"

fun nva_find_loop :: "CamelCompareType \<Rightarrow> cstring \<Rightarrow> nat \<Rightarrow> CamelNameValueArray \<Rightarrow> nat option" where
  "nva_find_loop compare_type name ii [] = None"
| "nva_find_loop compare_type name ii (pair # rest) =
     (if nva_named compare_type name pair then Some ii
      else nva_find_loop compare_type name (Suc ii) rest)"

definition camel_name_value_array_find_named ::
    "CamelNameValueArray \<Rightarrow> CamelCompareType \<Rightarrow> cstring \<Rightarrow> nat option" where
  "camel_name_value_array_find_named arr compare_type name = nva_find_loop compare_type name 0 arr"

definition camel_name_value_array_get_named ::
    "CamelNameValueArray \<Rightarrow> CamelCompareType \<Rightarrow> cstring \<Rightarrow> cstring option" where
  "camel_name_value_array_get_named arr compare_type name =
     (case camel_name_value_array_find_named arr compare_type name of
        None \<Rightarrow> None
      | Some index \<Rightarrow> camel_name_value_array_get_value arr index)"

text \<open>\<^verbatim>\<open>camel_name_value_array_set_internal\<close>: a \<^verbatim>\<open>NULL\<close> name or value leaves that half.\<close>

definition camel_name_value_array_set_internal ::
    "CamelNameValueArray \<Rightarrow> nat \<Rightarrow> cstring option \<Rightarrow> cstring option \<Rightarrow> CamelNameValueArray \<times> bool" where
  "camel_name_value_array_set_internal arr index name value =
     (if \<not> index < camel_name_value_array_get_length (Some arr) then (arr, False)
      else
        (let (pname, pvalue) = arr ! index; changed = False;
             (pname, changed) = (case name of
                Some n \<Rightarrow> if pname \<noteq> n then (n, True) else (pname, changed)
              | None \<Rightarrow> (pname, changed));
             (pvalue, changed) = (case value of
                Some v \<Rightarrow> if pvalue \<noteq> v then (v, True) else (pvalue, changed)
              | None \<Rightarrow> (pvalue, changed))
         in (arr[index := (pname, pvalue)], changed)))"

definition camel_name_value_array_set ::
    "CamelNameValueArray \<Rightarrow> nat \<Rightarrow> cstring \<Rightarrow> cstring \<Rightarrow> CamelNameValueArray \<times> bool" where
  "camel_name_value_array_set arr index name value =
     (if \<not> index < camel_name_value_array_get_length (Some arr) then (arr, False)
      else camel_name_value_array_set_internal arr index (Some name) (Some value))"

definition camel_name_value_array_set_name ::
    "CamelNameValueArray \<Rightarrow> nat \<Rightarrow> cstring \<Rightarrow> CamelNameValueArray \<times> bool" where
  "camel_name_value_array_set_name arr index name =
     (if \<not> index < camel_name_value_array_get_length (Some arr) then (arr, False)
      else camel_name_value_array_set_internal arr index (Some name) None)"

definition camel_name_value_array_set_value ::
    "CamelNameValueArray \<Rightarrow> nat \<Rightarrow> cstring \<Rightarrow> CamelNameValueArray \<times> bool" where
  "camel_name_value_array_set_value arr index value =
     (if \<not> index < camel_name_value_array_get_length (Some arr) then (arr, False)
      else camel_name_value_array_set_internal arr index None (Some value))"

definition camel_name_value_array_set_named ::
    "CamelNameValueArray \<Rightarrow> CamelCompareType \<Rightarrow> cstring \<Rightarrow> cstring \<Rightarrow> CamelNameValueArray \<times> bool" where
  "camel_name_value_array_set_named arr compare_type name value =
     (case camel_name_value_array_find_named arr compare_type name of
        None \<Rightarrow> (camel_name_value_array_append arr name value, True)
      | Some index \<Rightarrow> camel_name_value_array_set_value arr index value)"

definition camel_name_value_array_remove :: "CamelNameValueArray \<Rightarrow> nat \<Rightarrow> CamelNameValueArray \<times> bool" where
  "camel_name_value_array_remove arr index =
     (if \<not> index < camel_name_value_array_get_length (Some arr) then (arr, False)
      else (remove_index index arr, True))"

lemma nva_remove_length:
  "camel_name_value_array_remove arr index = (arr', True) \<Longrightarrow> length arr' < length arr"
  by (auto simp: camel_name_value_array_remove_def camel_name_value_array_get_length_def
        length_remove_index split: if_splits)

text \<open>The \<^verbatim>\<open>while\<close> loop of \<^verbatim>\<open>camel_name_value_array_remove_named\<close>: every round removes one pair.\<close>

function nva_remove_loop ::
    "CamelCompareType \<Rightarrow> cstring \<Rightarrow> bool \<Rightarrow> CamelNameValueArray \<Rightarrow> nat \<Rightarrow> CamelNameValueArray \<times> nat" where
  "nva_remove_loop compare_type name all_occurrences arr removed =
     (case camel_name_value_array_find_named arr compare_type name of
        None \<Rightarrow> (arr, removed)
      | Some index \<Rightarrow>
          (case camel_name_value_array_remove arr index of
             (arr', False) \<Rightarrow> (arr', removed)
           | (arr', True) \<Rightarrow>
               if \<not> all_occurrences then (arr', Suc removed)
               else nva_remove_loop compare_type name all_occurrences arr' (Suc removed)))"
  by pat_completeness auto
termination
  by (relation "measure (\<lambda>(ct, name, all, arr, removed). length arr)")
    (auto dest: nva_remove_length [OF sym])

declare nva_remove_loop.simps [simp del]

definition camel_name_value_array_remove_named ::
    "CamelNameValueArray \<Rightarrow> CamelCompareType \<Rightarrow> cstring \<Rightarrow> bool \<Rightarrow> CamelNameValueArray \<times> nat" where
  "camel_name_value_array_remove_named arr compare_type name all_occurrences =
     nva_remove_loop compare_type name all_occurrences arr 0"

definition camel_name_value_array_clear :: "CamelNameValueArray \<Rightarrow> CamelNameValueArray" where
  "camel_name_value_array_clear arr = drop (length arr) arr"

text \<open>\<^verbatim>\<open>camel_name_value_array_equal\<close>. Its first test compares the two pointers; \<open>same_pointer\<close> is
  its outcome, which can only be true for equal contents. \<^verbatim>\<open>g_strcmp0\<close> on two nullable strings is
  equality of the options.\<close>

function nva_equal_loop ::
    "CamelNameValueArray \<Rightarrow> CamelNameValueArray \<Rightarrow> CamelCompareType \<Rightarrow> nat \<Rightarrow> bool" where
  "nva_equal_loop a b compare_type ii =
     (if ii < length a then
        (let value1 = camel_name_value_array_get_value a ii;
             value2 = (case camel_name_value_array_get_name a ii of
                None \<Rightarrow> None
              | Some name \<Rightarrow> camel_name_value_array_get_named b compare_type name)
         in if value1 \<noteq> value2 then False else nva_equal_loop a b compare_type (Suc ii))
      else True)"
  by pat_completeness auto
termination by (relation "measure (\<lambda>(a, b, ct, ii). length a - ii)") auto

declare nva_equal_loop.simps [simp del]

definition camel_name_value_array_equal ::
    "bool \<Rightarrow> CamelNameValueArray option \<Rightarrow> CamelNameValueArray option \<Rightarrow> CamelCompareType \<Rightarrow> bool" where
  "camel_name_value_array_equal same_pointer array_a array_b compare_type =
     (if same_pointer then True
      else
        (case (array_a, array_b) of
           (Some a, Some b) \<Rightarrow>
             if camel_name_value_array_get_length array_a \<noteq> camel_name_value_array_get_length array_b
             then False
             else nva_equal_loop a b compare_type 0
         | _ \<Rightarrow> camel_name_value_array_get_length array_a = camel_name_value_array_get_length array_b))"

section \<open>The search contract\<close>

lemma nva_find_loop_None:
  "nva_find_loop ct name ii arr = None \<longleftrightarrow> (\<forall>p\<in>set arr. \<not> nva_named ct name p)"
  by (induction arr arbitrary: ii) auto

lemma nva_find_loop_Some:
  "nva_find_loop ct name ii arr = Some k \<Longrightarrow>
     \<exists>m. k = ii + m \<and> m < length arr \<and> nva_named ct name (arr ! m) \<and>
       (\<forall>j<m. \<not> nva_named ct name (arr ! j))"
proof (induction arr arbitrary: ii)
  case Nil
  then show ?case by simp
next
  case (Cons p arr)
  show ?case
  proof (cases "nva_named ct name p")
    case True
    with Cons.prems show ?thesis by (intro exI [of _ 0]) simp
  next
    case False
    with Cons.prems have "nva_find_loop ct name (Suc ii) arr = Some k" by simp
    from Cons.IH [OF this] obtain m where "k = Suc ii + m" "m < length arr"
      "nva_named ct name (arr ! m)" "\<forall>j<m. \<not> nva_named ct name (arr ! j)" by blast
    with False show ?thesis
      by (intro exI [of _ "Suc m"]) (auto simp: less_Suc_eq_0_disj)
  qed
qed

interpretation nva: first_match "nva_named ct" "\<lambda>arr name. camel_name_value_array_find_named arr ct name"
  for ct
  by unfold_locales
    (auto simp: camel_name_value_array_find_named_def nva_find_loop_None dest: nva_find_loop_Some)

section \<open>Lookup and update\<close>

lemma nva_named_key:
  "nva_named ct n p \<longleftrightarrow> (if ct = CAMEL_COMPARE_CASE_SENSITIVE then n = fst p
     else map ascii_toupper n = map ascii_toupper (fst p))"
  by (simp add: nva_named_def camel_strcase_equal_def Let_def)

lemma nva_named_same: "nva_named ct n (n, v)"
  by (simp add: nva_named_key)

lemma nva_get_simps [simp]:
  "i < length arr \<Longrightarrow> camel_name_value_array_get_value arr i = Some (snd (arr ! i))"
  "i < length arr \<Longrightarrow> camel_name_value_array_get_name arr i = Some (fst (arr ! i))"
  by (auto simp: camel_name_value_array_get_value_def camel_name_value_array_get_name_def
      camel_name_value_array_get_def camel_name_value_array_get_length_def split: prod.splits)

text \<open>A lookup is the value of the first pair of that name.\<close>

lemma nva_get_named_None:
  "camel_name_value_array_get_named arr ct n = None \<longleftrightarrow> (\<forall>p\<in>set arr. \<not> nva_named ct n p)"
proof (cases "camel_name_value_array_find_named arr ct n")
  case None
  with iffD1 [OF nva.find_None None] show ?thesis
    by (auto simp: camel_name_value_array_get_named_def)
next
  case (Some i)
  with nva.find_Some [OF Some] show ?thesis
    by (auto simp: camel_name_value_array_get_named_def)
qed

lemma nva_get_named_first:
  assumes "nva_named ct n p" and "\<forall>y\<in>set ys. \<not> nva_named ct n y"
  shows "camel_name_value_array_get_named (ys @ p # zs) ct n = Some (snd p)"
  using nva.find_appendI [OF assms] by (simp add: camel_name_value_array_get_named_def)

lemma nva_get_named_Cons:
  "camel_name_value_array_get_named (p # arr) ct n =
     (if nva_named ct n p then Some (snd p) else camel_name_value_array_get_named arr ct n)"
proof (cases "camel_name_value_array_find_named arr ct n")
  case None
  then show ?thesis
    using nva_get_named_first [of ct n p "[]" arr] nva_get_named_None [of arr ct n]
      nva_get_named_None [of "p # arr" ct n]
    by (auto simp: camel_name_value_array_get_named_def [of arr])
next
  case (Some i)
  then show ?thesis
    using nva_get_named_first [of ct n p "[]" arr]
    by (elim nva.find_split)
      (auto simp: nva_get_named_first nva_get_named_first [of ct n _ "p # _", simplified])
qed

lemma nva_get_named_Nil: "camel_name_value_array_get_named [] ct n = None"
  by (simp add: nva_get_named_None)

lemma nva_set_internal_value:
  "i < length arr \<Longrightarrow> fst (camel_name_value_array_set_internal arr i None (Some v)) =
     arr[i := (fst (arr ! i), v)]"
  by (simp add: camel_name_value_array_set_internal_def camel_name_value_array_get_length_def
      split_def Let_def)

text \<open>Setting by name changes the first pair of that name in place, or appends a pair.\<close>

lemma nva_set_named_shape:
  obtains (absent) "\<forall>p\<in>set arr. \<not> nva_named ct n p"
      and "camel_name_value_array_set_named arr ct n v = (arr @ [(n, v)], True)"
  | (present) ys p zs where "arr = ys @ p # zs" and "nva_named ct n p"
      and "\<forall>y\<in>set ys. \<not> nva_named ct n y"
      and "fst (camel_name_value_array_set_named arr ct n v) = ys @ (fst p, v) # zs"
proof (cases "camel_name_value_array_find_named arr ct n")
  case None
  with absent show ?thesis
    by (simp add: camel_name_value_array_set_named_def camel_name_value_array_append_def
        nva.find_None)
next
  case (Some i)
  then obtain ys p zs where arr: "arr = ys @ p # zs" and i: "length ys = i"
    and p: "nva_named ct n p" and ys: "\<forall>y\<in>set ys. \<not> nva_named ct n y"
    by (rule nva.find_split)
  have "fst (camel_name_value_array_set_named arr ct n v) = ys @ (fst p, v) # zs"
    using Some arr i nva_set_internal_value [of i arr v]
    by (auto simp: camel_name_value_array_set_named_def camel_name_value_array_set_value_def
        camel_name_value_array_get_length_def)
  with present arr p ys show ?thesis by blast
qed

lemma nva_get_named_append:
  "camel_name_value_array_get_named (xs @ ys) ct n =
     (case camel_name_value_array_get_named xs ct n of
        Some v \<Rightarrow> Some v
      | None \<Rightarrow> camel_name_value_array_get_named ys ct n)"
  by (induction xs) (auto simp: nva_get_named_Cons nva_get_named_Nil)

lemma nva_named_trans:
  "nva_named ct n p \<Longrightarrow> nva_named ct m p \<longleftrightarrow> nva_named ct m (n, v)"
  by (auto simp: nva_named_key split: if_splits)

lemma nva_get_set_named:
  "camel_name_value_array_get_named (fst (camel_name_value_array_set_named arr ct n v)) ct m =
     (if nva_named ct m (n, v) then Some v else camel_name_value_array_get_named arr ct m)"
proof (rule nva_set_named_shape [of arr ct n v])
  assume none: "\<forall>p\<in>set arr. \<not> nva_named ct n p"
    and eq: "camel_name_value_array_set_named arr ct n v = (arr @ [(n, v)], True)"
  show ?thesis
  proof (cases "nva_named ct m (n, v)")
    case True
    then have "\<forall>p\<in>set arr. \<not> nva_named ct m p"
      using none by (auto simp: nva_named_key split: if_splits)
    with True eq show ?thesis by (simp add: nva_get_named_first)
  next
    case False
    with eq show ?thesis
      by (simp add: nva_get_named_append nva_get_named_Cons nva_get_named_Nil split: option.splits)
  qed
next
  fix ys p zs
  assume arr: "arr = ys @ p # zs" and p: "nva_named ct n p"
    and ys: "\<forall>y\<in>set ys. \<not> nva_named ct n y"
    and eq: "fst (camel_name_value_array_set_named arr ct n v) = ys @ (fst p, v) # zs"
  have upd: "nva_named ct m (fst p, v) \<longleftrightarrow> nva_named ct m p"
    by (simp add: nva_named_key)
  show ?thesis
  proof (cases "nva_named ct m (n, v)")
    case True
    then have "\<forall>y\<in>set ys. \<not> nva_named ct m y"
      using ys by (auto simp: nva_named_key split: if_splits)
    with True eq p upd nva_named_trans [OF p, of m v] show ?thesis
      by (simp add: nva_get_named_first)
  next
    case False
    with arr eq upd nva_named_trans [OF p, of m v] show ?thesis
      by (simp add: nva_get_named_append nva_get_named_Cons split: option.splits)
  qed
qed

section \<open>Removal\<close>

lemma nva_remove_loop_all:
  "nva_remove_loop ct n True arr removed =
     (filter (\<lambda>p. \<not> nva_named ct n p) arr, removed + length (filter (nva_named ct n) arr))"
proof (induction "length arr" arbitrary: arr removed rule: less_induct)
  case less
  show ?case
  proof (cases "camel_name_value_array_find_named arr ct n")
    case None
    with iffD1 [OF nva.find_None None] show ?thesis
      by (simp add: nva_remove_loop.simps [of ct n True arr])
  next
    case (Some i)
    from nva.find_Some [OF this] have i: "i < length arr" by blast
    then have rm: "camel_name_value_array_remove arr i = (remove_index i arr, True)"
      by (simp add: camel_name_value_array_remove_def camel_name_value_array_get_length_def)
    have "nva_remove_loop ct n True arr removed =
        nva_remove_loop ct n True (remove_index i arr) (Suc removed)"
      by (simp add: nva_remove_loop.simps [of ct n True arr] Some rm)
    also have "\<dots> = (filter (\<lambda>p. \<not> nva_named ct n p) arr,
        removed + length (filter (nva_named ct n) arr))"
      using less [OF length_remove_index [OF i], of "Suc removed"]
        nva.removed_keeps_others [OF Some] nva.removed_count [OF Some] by simp
    finally show ?thesis .
  qed
qed

text \<open>Copying gives the same list.\<close>

lemma nva_copy_loop_eq:
  "ii \<le> length arr \<Longrightarrow> copy = take ii arr \<Longrightarrow> nva_copy_loop arr ii copy = arr"
proof (induction arr ii copy rule: nva_copy_loop.induct)
  case (1 arr ii copy)
  then show ?case
    by (cases "ii < length arr")
      (simp_all add: nva_copy_loop.simps [of arr ii] nva_copy_loop.simps [of arr "length arr"] camel_name_value_array_get_def
        camel_name_value_array_get_length_def camel_name_value_array_append_def
        take_Suc_conv_app_nth split_def)
qed

text \<open>The comparison loop checks every pair of the first array against a lookup in the second.\<close>

lemma nva_equal_loop_iff:
  "nva_equal_loop a b ct ii \<longleftrightarrow>
     (\<forall>j. ii \<le> j \<and> j < length a \<longrightarrow>
        camel_name_value_array_get_named b ct (fst (a ! j)) = Some (snd (a ! j)))"
proof (induction a b ct ii rule: nva_equal_loop.induct)
  case (1 a b ct ii)
  show ?case
  proof (cases "ii < length a")
    case True
    have split: "(\<forall>j. ii \<le> j \<and> j < length a \<longrightarrow> P j) \<longleftrightarrow>
        P ii \<and> (\<forall>j. Suc ii \<le> j \<and> j < length a \<longrightarrow> P j)" for P
      using True by (metis Suc_leD le_neq_implies_less Suc_leI order_refl)
    show ?thesis
      using 1 True unfolding split
      by (auto simp: nva_equal_loop.simps [of a b ct ii] Let_def)
  next
    case False
    then show ?thesis by (auto simp: nva_equal_loop.simps [of a b ct ii])
  qed
qed

section \<open>The array as a map from names to values\<close>

text \<open>What the array promises: a finite map on the names, folded when the comparison ignores
  case. The first pair of a name is the one that counts.\<close>

definition nva_key :: "CamelCompareType \<Rightarrow> cstring \<Rightarrow> cstring" where
  "nva_key ct n = (if ct = CAMEL_COMPARE_CASE_SENSITIVE then n else map ascii_toupper n)"

definition nva_abs :: "CamelCompareType \<Rightarrow> CamelNameValueArray \<Rightarrow> cstring \<rightharpoonup> cstring" where
  "nva_abs ct arr = map_of (map (\<lambda>(n, v). (nva_key ct n, v)) arr)"

definition nva_unique :: "CamelCompareType \<Rightarrow> CamelNameValueArray \<Rightarrow> bool" where
  "nva_unique ct arr \<longleftrightarrow> distinct (map (nva_key ct \<circ> fst) arr)"

lemma nva_named_iff_key: "nva_named ct n p \<longleftrightarrow> nva_key ct n = nva_key ct (fst p)"
  by (simp add: nva_named_key nva_key_def)

lemma nva_get_named_abs: "camel_name_value_array_get_named arr ct n = nva_abs ct arr (nva_key ct n)"
  by (induction arr)
    (auto simp: nva_abs_def nva_get_named_Nil nva_get_named_Cons nva_named_iff_key)

lemma nva_abs_keys: "nva_abs ct arr k = Some v \<Longrightarrow> \<exists>n. k = nva_key ct n"
  by (auto simp: nva_abs_def dest!: map_of_SomeD)

lemma nva_abs_eqI:
  assumes "\<And>n. camel_name_value_array_get_named a ct n = camel_name_value_array_get_named b ct n"
  shows "nva_abs ct a = nva_abs ct b"
proof
  fix k
  show "nva_abs ct a k = nva_abs ct b k"
  proof (cases "\<exists>n. k = nva_key ct n")
    case True
    with assms show ?thesis by (auto simp: nva_get_named_abs)
  next
    case False
    then show ?thesis using nva_abs_keys by (metis option.exhaust)
  qed
qed

lemma nva_abs_set_named:
  "nva_abs ct (fst (camel_name_value_array_set_named arr ct n v)) = (nva_abs ct arr)(nva_key ct n \<mapsto> v)"
proof
  fix k
  let ?arr' = "fst (camel_name_value_array_set_named arr ct n v)"
  show "nva_abs ct ?arr' k = ((nva_abs ct arr)(nva_key ct n \<mapsto> v)) k"
  proof (cases "\<exists>m. k = nva_key ct m")
    case True
    then obtain m where "k = nva_key ct m" ..
    with nva_get_set_named [of arr ct n v m] show ?thesis
      by (auto simp: nva_get_named_abs nva_named_iff_key)
  next
    case False
    then have "nva_abs ct ?arr' k = None" "nva_abs ct arr k = None"
      using nva_abs_keys by (metis option.exhaust)+
    with False show ?thesis by auto
  qed
qed

lemma nva_abs_Nil: "nva_abs ct [] = Map.empty"
  by (simp add: nva_abs_def)

lemma nva_abs_filter:
  "nva_abs ct (filter (\<lambda>p. \<not> nva_named ct n p) arr) = (nva_abs ct arr)(nva_key ct n := None)"
proof (induction arr)
  case Nil
  show ?case by (auto simp: nva_abs_def)
next
  case (Cons p arr)
  then show ?case
    by (cases p) (auto simp: nva_abs_def nva_named_iff_key fun_eq_iff)
qed

text \<open>The keys of the map, counted.\<close>

lemma nva_abs_dom: "dom (nva_abs ct arr) = set (map (nva_key ct \<circ> fst) arr)"
  by (force simp: nva_abs_def dom_map_of_conv_image_fst)

lemma nva_abs_pair:
  assumes "nva_unique ct arr" and "p \<in> set arr"
  shows "nva_abs ct arr (nva_key ct (fst p)) = Some (snd p)"
  unfolding nva_abs_def
  using assms by (intro map_of_is_SomeI) (force simp: nva_unique_def o_def split_def)+

lemma nva_equal_iff_lookups:
  "camel_name_value_array_equal False (Some a) (Some b) ct \<longleftrightarrow>
     length a = length b \<and> (\<forall>p\<in>set a. nva_abs ct b (nva_key ct (fst p)) = Some (snd p))"
  by (auto simp: camel_name_value_array_equal_def camel_name_value_array_get_length_def
      nva_equal_loop_iff nva_get_named_abs all_set_conv_all_nth)

lemma nva_equal_abs:
  assumes a: "nva_unique ct a" and b: "nva_unique ct b"
  shows "camel_name_value_array_equal False (Some a) (Some b) ct \<longleftrightarrow> nva_abs ct a = nva_abs ct b"
proof
  assume eq: "nva_abs ct a = nva_abs ct b"
  then have "set (map (nva_key ct \<circ> fst) a) = set (map (nva_key ct \<circ> fst) b)"
    using nva_abs_dom [of ct a] nva_abs_dom [of ct b] by simp
  then have "length a = length b"
    using a b by (metis nva_unique_def distinct_card length_map)
  with eq nva_abs_pair [OF a] show "camel_name_value_array_equal False (Some a) (Some b) ct"
    by (simp add: nva_equal_iff_lookups)
next
  assume "camel_name_value_array_equal False (Some a) (Some b) ct"
  then have len: "length a = length b"
    and pairs: "\<And>p. p \<in> set a \<Longrightarrow> nva_abs ct b (nva_key ct (fst p)) = Some (snd p)"
    by (auto simp: nva_equal_iff_lookups)
  have sub: "dom (nva_abs ct a) \<subseteq> dom (nva_abs ct b)"
    using pairs nva_abs_dom [of ct a] by auto
  moreover have "card (dom (nva_abs ct a)) = length a" "card (dom (nva_abs ct b)) = length b"
    using a b by (simp_all only: nva_abs_dom nva_unique_def distinct_card length_map)
  ultimately have dom: "dom (nva_abs ct a) = dom (nva_abs ct b)"
    using len by (intro card_subset_eq) (auto simp: nva_abs_dom)
  show "nva_abs ct a = nva_abs ct b"
  proof (rule map_le_antisym)
    show sub_map: "nva_abs ct a \<subseteq>\<^sub>m nva_abs ct b"
    proof (unfold map_le_def, rule ballI)
      fix k assume "k \<in> dom (nva_abs ct a)"
      then obtain p where "p \<in> set a" and "k = nva_key ct (fst p)"
        by (auto simp: nva_abs_dom)
      then show "nva_abs ct a k = nva_abs ct b k"
        using pairs nva_abs_pair [OF a] by simp
    qed
    show "nva_abs ct b \<subseteq>\<^sub>m nva_abs ct a"
      using sub_map dom by (simp add: map_le_def)
  qed
qed

section \<open>Properties\<close>

text \<open>C14: The array refines a finite map on (case-folded) names: setting by name updates the map at
  the name, removing all occurrences deletes the name and returns how many pairs went, lookup by
  name is lookup in the map, and a copy is the same array.\<close>

theorem name_value_array_refines_map:
  "nva_abs ct (fst (camel_name_value_array_set_named arr ct n v)) = (nva_abs ct arr)(nva_key ct n \<mapsto> v) \<and>
   nva_abs ct (fst (camel_name_value_array_remove_named arr ct n True)) =
     (nva_abs ct arr)(nva_key ct n := None) \<and>
   snd (camel_name_value_array_remove_named arr ct n True) = length (filter (nva_named ct n) arr) \<and>
   camel_name_value_array_get_named arr ct m = nva_abs ct arr (nva_key ct m) \<and>
   nva_abs ct (camel_name_value_array_clear arr) = Map.empty \<and>
   camel_name_value_array_copy (Some arr) = Some arr"
proof (intro conjI)
  show "camel_name_value_array_copy (Some arr) = Some arr"
    by (simp add: camel_name_value_array_copy_def camel_name_value_array_new_sized_def nva_copy_loop_eq)
qed (simp_all add: nva_abs_set_named camel_name_value_array_remove_named_def nva_remove_loop_all
      nva_abs_filter nva_get_named_abs camel_name_value_array_clear_def nva_abs_Nil)

text \<open>C22: For arrays in which no name occurs twice, \<^verbatim>\<open>camel_name_value_array_equal\<close> decides equality
  of the maps: the order of the pairs does not matter, and nothing else is ignored.\<close>

theorem name_value_array_equal_is_map_equality:
  assumes "nva_unique ct a" and "nva_unique ct b"
  shows "camel_name_value_array_equal False (Some a) (Some b) ct \<longleftrightarrow> nva_abs ct a = nva_abs ct b"
  using assms by (rule nva_equal_abs)

theorem name_value_array_equal_is_map_equality_witness:
  "nva_abs CAMEL_COMPARE_CASE_INSENSITIVE [(bytes ''To'', [49]), (bytes ''Cc'', [50])] =
   nva_abs CAMEL_COMPARE_CASE_INSENSITIVE [(bytes ''CC'', [50]), (bytes ''to'', [49])]"
proof -
  let ?ct = CAMEL_COMPARE_CASE_INSENSITIVE
  let ?a = "[(bytes ''To'', [49]), (bytes ''Cc'', [50])] :: CamelNameValueArray"
  let ?b = "[(bytes ''CC'', [50]), (bytes ''to'', [49])] :: CamelNameValueArray"
  have "nva_unique ?ct ?a" and "nva_unique ?ct ?b"
    by (simp_all add: nva_unique_def nva_key_def ascii_toupper_def)
  moreover have "camel_name_value_array_equal False (Some ?a) (Some ?b) ?ct"
    by (simp add: nva_equal_iff_lookups nva_abs_def nva_key_def ascii_toupper_def)
  ultimately show ?thesis
    using name_value_array_equal_is_map_equality [of ?ct ?a ?b] by simp
qed

text \<open>Two arrays with the same pairs in the same order but with a repeated name, as a message
  with two \<^verbatim>\<open>Received\<close> headers has, are reported as different unless they are one object; and the
  comparison is not symmetric.\<close>

lemma name_value_array_equal_repeated_names:
  "(let received = [(bytes ''Received'', bytes ''by a''), (bytes ''Received'', bytes ''by b'')];
        twice = [(bytes ''Received'', bytes ''by a''), (bytes ''Received'', bytes ''by a'')]
    in \<not> camel_name_value_array_equal False (Some received) (Some received)
          CAMEL_COMPARE_CASE_INSENSITIVE \<and>
       camel_name_value_array_equal False (Some twice) (Some received)
          CAMEL_COMPARE_CASE_INSENSITIVE \<and>
       \<not> camel_name_value_array_equal False (Some received) (Some twice)
          CAMEL_COMPARE_CASE_INSENSITIVE)"
  by (simp add: nva_equal_iff_lookups nva_abs_def nva_key_def ascii_toupper_def Let_def)

end
