(* ===== verification/Camel_NamedFlags.thy ===== *)
theory Camel_NamedFlags
  imports EDS_Prelude
begin

text \<open>
  \<^verbatim>\<open>src/src/camel/camel-named-flags.c\<close>: the set of user flag names of a message, kept as a pointer
  array. A \<^verbatim>\<open>CamelNamedFlags\<close> is the list of its names, a nullable pointer an \<open>option\<close>, and the
  index \<^verbatim>\<open>(guint) -1\<close> is \<open>None\<close>.
\<close>

type_synonym CamelNamedFlags = "cstring list"

definition camel_named_flags_new :: CamelNamedFlags where
  "camel_named_flags_new = []"

definition camel_named_flags_new_sized :: "nat \<Rightarrow> CamelNamedFlags" where
  "camel_named_flags_new_sized reserve_size = []"

text \<open>\<^verbatim>\<open>camel_named_flags_copy\<close> leaves out empty names.\<close>

fun named_flags_copy_loop :: "CamelNamedFlags \<Rightarrow> CamelNamedFlags \<Rightarrow> CamelNamedFlags" where
  "named_flags_copy_loop [] arr = arr"
| "named_flags_copy_loop (name # src) arr =
     named_flags_copy_loop src (if name \<noteq> [] then arr @ [name] else arr)"

definition camel_named_flags_copy :: "CamelNamedFlags option \<Rightarrow> CamelNamedFlags option" where
  "camel_named_flags_copy named_flags =
     (case named_flags of
        None \<Rightarrow> None
      | Some src \<Rightarrow> Some (named_flags_copy_loop src (camel_named_flags_new_sized (length src))))"

fun named_flags_find_loop :: "cstring \<Rightarrow> nat \<Rightarrow> CamelNamedFlags \<Rightarrow> nat option" where
  "named_flags_find_loop name ii [] = None"
| "named_flags_find_loop name ii (nm # rest) =
     (if nm = name then Some ii else named_flags_find_loop name (Suc ii) rest)"

definition camel_named_flags_find :: "CamelNamedFlags \<Rightarrow> cstring \<Rightarrow> nat option" where
  "camel_named_flags_find named_flags name = named_flags_find_loop name 0 named_flags"

definition camel_named_flags_insert :: "CamelNamedFlags \<Rightarrow> cstring \<Rightarrow> CamelNamedFlags \<times> bool" where
  "camel_named_flags_insert named_flags name =
     (case camel_named_flags_find named_flags name of
        Some index \<Rightarrow> (named_flags, False)
      | None \<Rightarrow> (named_flags @ [name], True))"

definition camel_named_flags_remove :: "CamelNamedFlags \<Rightarrow> cstring \<Rightarrow> CamelNamedFlags \<times> bool" where
  "camel_named_flags_remove named_flags name =
     (case camel_named_flags_find named_flags name of
        None \<Rightarrow> (named_flags, False)
      | Some index \<Rightarrow> (remove_index index named_flags, True))"

definition camel_named_flags_contains :: "CamelNamedFlags \<Rightarrow> cstring \<Rightarrow> bool" where
  "camel_named_flags_contains named_flags name \<longleftrightarrow> camel_named_flags_find named_flags name \<noteq> None"

definition camel_named_flags_clear :: "CamelNamedFlags \<Rightarrow> CamelNamedFlags" where
  "camel_named_flags_clear named_flags =
     (if length named_flags \<noteq> 0 then drop (length named_flags) named_flags else named_flags)"

definition camel_named_flags_get_length :: "CamelNamedFlags option \<Rightarrow> nat" where
  "camel_named_flags_get_length named_flags =
     (case named_flags of None \<Rightarrow> 0 | Some arr \<Rightarrow> length arr)"

definition camel_named_flags_get :: "CamelNamedFlags \<Rightarrow> nat \<Rightarrow> cstring option" where
  "camel_named_flags_get named_flags index =
     (if index \<ge> camel_named_flags_get_length (Some named_flags) then None
      else Some (named_flags ! index))"

text \<open>The comparison loop of \<^verbatim>\<open>camel_named_flags_equal\<close>: each name of the second set is looked up
  in the first (\<^verbatim>\<open>contains\<close> of a \<^verbatim>\<open>NULL\<close> name is \<^verbatim>\<open>FALSE\<close>).\<close>

function named_flags_equal_loop :: "CamelNamedFlags \<Rightarrow> CamelNamedFlags \<Rightarrow> nat \<Rightarrow> nat \<Rightarrow> bool" where
  "named_flags_equal_loop a b len ii =
     (if ii < len then
        (case camel_named_flags_get b ii of
           None \<Rightarrow> False
         | Some name \<Rightarrow>
             if \<not> camel_named_flags_contains a name then False
             else named_flags_equal_loop a b len (Suc ii))
      else True)"
  by pat_completeness auto
termination by (relation "measure (\<lambda>(a, b, len, ii). len - ii)") auto

declare named_flags_equal_loop.simps [simp del]

definition camel_named_flags_equal ::
    "bool \<Rightarrow> CamelNamedFlags option \<Rightarrow> CamelNamedFlags option \<Rightarrow> bool" where
  "camel_named_flags_equal same_pointer named_flags_a named_flags_b =
     (if same_pointer then True
      else
        (case (named_flags_a, named_flags_b) of
           (Some a, Some b) \<Rightarrow>
             if camel_named_flags_get_length named_flags_a \<noteq> camel_named_flags_get_length named_flags_b
             then False
             else named_flags_equal_loop a b (camel_named_flags_get_length named_flags_a) 0
         | _ \<Rightarrow> camel_named_flags_get_length named_flags_a =
                camel_named_flags_get_length named_flags_b))"

section \<open>The search contract\<close>

lemma named_flags_find_loop_None:
  "named_flags_find_loop name ii arr = None \<longleftrightarrow> (\<forall>nm\<in>set arr. name \<noteq> nm)"
  by (induction arr arbitrary: ii) auto

lemma named_flags_find_loop_Some:
  "named_flags_find_loop name ii arr = Some k \<Longrightarrow>
     \<exists>m. k = ii + m \<and> m < length arr \<and> name = arr ! m \<and> (\<forall>j<m. name \<noteq> arr ! j)"
proof (induction arr arbitrary: ii)
  case Nil
  then show ?case by simp
next
  case (Cons nm arr)
  show ?case
  proof (cases "nm = name")
    case True
    with Cons.prems show ?thesis by (intro exI [of _ 0]) simp
  next
    case False
    with Cons.prems have "named_flags_find_loop name (Suc ii) arr = Some k" by simp
    from Cons.IH [OF this] obtain m where "k = Suc ii + m" "m < length arr"
      "name = arr ! m" "\<forall>j<m. name \<noteq> arr ! j" by blast
    with False show ?thesis
      by (intro exI [of _ "Suc m"]) (auto simp: less_Suc_eq_0_disj)
  qed
qed

interpretation named_flags: first_match "(=)" camel_named_flags_find
  by unfold_locales
    (simp_all add: camel_named_flags_find_def named_flags_find_loop_None,
      metis add_0 named_flags_find_loop_Some)

section \<open>The array as a set\<close>

lemma named_flags_contains_iff: "camel_named_flags_contains arr name \<longleftrightarrow> name \<in> set arr"
  using named_flags.find_None [of arr name] by (auto simp: camel_named_flags_contains_def)

lemma named_flags_insert_eq:
  "camel_named_flags_insert arr name =
     (if name \<in> set arr then (arr, False) else (arr @ [name], True))"
  using named_flags_contains_iff [of arr name]
  by (auto simp: camel_named_flags_insert_def camel_named_flags_contains_def split: option.splits)

lemma named_flags_remove_eq:
  assumes "distinct arr"
  shows "camel_named_flags_remove arr name = (removeAll name arr, name \<in> set arr)"
proof (cases "camel_named_flags_find arr name")
  case None
  with iffD1 [OF named_flags.find_None None] show ?thesis
    by (auto simp: camel_named_flags_remove_def)
next
  case (Some i)
  then obtain ys e zs where "arr = ys @ e # zs" "length ys = i" "name = e"
    by (rule named_flags.find_split)
  with assms Some show ?thesis by (auto simp: camel_named_flags_remove_def)
qed

lemma named_flags_equal_loop_iff:
  "len \<le> length b \<Longrightarrow> named_flags_equal_loop a b len ii \<longleftrightarrow>
     (\<forall>j. ii \<le> j \<and> j < len \<longrightarrow> b ! j \<in> set a)"
proof (induction a b len ii rule: named_flags_equal_loop.induct)
  case (1 a b len ii)
  show ?case
  proof (cases "ii < len")
    case True
    have split: "(\<forall>j. ii \<le> j \<and> j < len \<longrightarrow> P j) \<longleftrightarrow>
        P ii \<and> (\<forall>j. Suc ii \<le> j \<and> j < len \<longrightarrow> P j)" for P
      using True by (metis Suc_leD le_neq_implies_less Suc_leI order_refl)
    have get: "camel_named_flags_get b ii = Some (b ! ii)"
      using True 1 by (simp add: camel_named_flags_get_def camel_named_flags_get_length_def)
    show ?thesis
      using 1 True get unfolding split
      by (auto simp: named_flags_equal_loop.simps [of a b len ii] named_flags_contains_iff)
  next
    case False
    then show ?thesis by (auto simp: named_flags_equal_loop.simps [of a b len ii])
  qed
qed

lemma named_flags_equal_iff:
  "camel_named_flags_equal False (Some a) (Some b) \<longleftrightarrow> length a = length b \<and> set b \<subseteq> set a"
proof -
  have "(\<forall>j. 0 \<le> j \<and> j < length b \<longrightarrow> b ! j \<in> set a) \<longleftrightarrow> set b \<subseteq> set a"
    by (auto simp: in_set_conv_nth subset_iff)
  then show ?thesis
    by (auto simp: camel_named_flags_equal_def camel_named_flags_get_length_def
        named_flags_equal_loop_iff)
qed

lemma named_flags_equal_distinct:
  assumes "distinct a" and "distinct b"
  shows "camel_named_flags_equal False (Some a) (Some b) \<longleftrightarrow> set a = set b"
  using assms card_subset_eq [of "set a" "set b"]
  by (auto simp: named_flags_equal_iff distinct_card [symmetric])

lemma named_flags_copy_loop_eq: "named_flags_copy_loop src arr = arr @ filter (\<lambda>n. n \<noteq> []) src"
  by (induction src arbitrary: arr) auto

section \<open>Every set of flags the program builds\<close>

text \<open>The program builds flag sets only by the operations above, starting from an empty one.\<close>

inductive named_flags_built :: "CamelNamedFlags \<Rightarrow> bool" where
  new: "named_flags_built camel_named_flags_new"
| sized: "named_flags_built (camel_named_flags_new_sized n)"
| insert: "named_flags_built f \<Longrightarrow> named_flags_built (fst (camel_named_flags_insert f name))"
| remove: "named_flags_built f \<Longrightarrow> named_flags_built (fst (camel_named_flags_remove f name))"
| clear: "named_flags_built f \<Longrightarrow> named_flags_built (camel_named_flags_clear f)"
| copy: "named_flags_built f \<Longrightarrow> camel_named_flags_copy (Some f) = Some g \<Longrightarrow> named_flags_built g"

lemma named_flags_built_distinct: "named_flags_built f \<Longrightarrow> distinct f"
proof (induction rule: named_flags_built.induct)
  case (remove f name)
  then show ?case by (simp add: named_flags_remove_eq distinct_removeAll)
qed (auto simp: camel_named_flags_new_def camel_named_flags_new_sized_def named_flags_insert_eq
      camel_named_flags_clear_def camel_named_flags_copy_def named_flags_copy_loop_eq)

section \<open>Properties\<close>

text \<open>C23: Every flag set the program can build has no repeated name, and its operations are those of
  a finite set: insert and remove report whether they changed the set, \<^verbatim>\<open>contains\<close> is membership.\<close>

theorem named_flags_are_sets:
  assumes "named_flags_built f"
  shows "distinct f \<and>
    set (fst (camel_named_flags_insert f name)) = insert name (set f) \<and>
    (snd (camel_named_flags_insert f name) \<longleftrightarrow> name \<notin> set f) \<and>
    set (fst (camel_named_flags_remove f name)) = set f - {name} \<and>
    (snd (camel_named_flags_remove f name) \<longleftrightarrow> name \<in> set f) \<and>
    (camel_named_flags_contains f name \<longleftrightarrow> name \<in> set f) \<and>
    camel_named_flags_get_length (Some f) = card (set f)"
  using named_flags_built_distinct [OF assms]
  by (auto simp: named_flags_insert_eq named_flags_remove_eq named_flags_contains_iff
      camel_named_flags_get_length_def distinct_card)

lemma named_flags_two: "named_flags_built [bytes ''$Forwarded'', bytes ''todo'']"
proof -
  have "named_flags_built (fst (camel_named_flags_insert
      (fst (camel_named_flags_insert camel_named_flags_new (bytes ''$Forwarded''))) (bytes ''todo'')))"
    by (intro named_flags_built.intros)
  then show ?thesis by (simp add: named_flags_insert_eq camel_named_flags_new_def)
qed

theorem named_flags_are_sets_witness:
  "set (fst (camel_named_flags_remove [bytes ''$Forwarded'', bytes ''todo''] (bytes ''todo''))) =
     {bytes ''$Forwarded''}"
  using named_flags_are_sets [OF named_flags_two, of "bytes ''todo''"] by auto

text \<open>On the flag sets the program builds, \<^verbatim>\<open>camel_named_flags_equal\<close> is equality of the sets,
  in whatever order the names were inserted.\<close>

lemma named_flags_equal_is_set_equality:
  assumes "named_flags_built f" and "named_flags_built g"
  shows "camel_named_flags_equal False (Some f) (Some g) \<longleftrightarrow> set f = set g"
  using assms by (simp add: named_flags_equal_distinct named_flags_built_distinct)

theorem named_flags_equal_is_set_equality_witness:
  "\<not> camel_named_flags_equal False (Some [bytes ''$Forwarded'', bytes ''todo'']) (Some [])"
  using named_flags_equal_is_set_equality [OF named_flags_two, of "[]"]
    named_flags_built.new by (simp add: camel_named_flags_new_def)

end
