(* ===== verification/Camel_ObjectBag.thy ===== *)
theory Camel_ObjectBag
  imports EDS_Prelude "HOL-Library.Multiset"
begin

text \<open>
  \<^verbatim>\<open>src/src/camel/camel-object-bag.c\<close>: a table of live objects in which a thread can reserve a key,
  create the object and add it, while other threads that ask for the key wait.

  Every function runs under the mutex of the bag, so a call is one step, except that waiting on the
  condition of a reservation gives the mutex up: a call that has to wait is cut there, and what it does
  after the wait is a step of its own (\<open>get_resume\<close>, \<open>reserve_resume\<close>). The bag's tables are maps, the list
  of reservations is a list. An object is a number that is not used again; \<open>alive\<close> is the set of those
  with a strong reference, which is what a \<^verbatim>\<open>GWeakRef\<close> tells. Keys are C strings, as Camel's stores use them.
\<close>

section \<open>The bag\<close>

type_synonym thread = nat
type_synonym gobject = nat
type_synonym bag_key = cstring

record KeyReservation =
  res_key :: bag_key
  waiters :: nat
  owner :: "thread option"

record CamelObjectBag =
  key_table :: "gobject \<Rightarrow> bag_key option"
  object_table :: "bag_key \<Rightarrow> gobject option"
  reserved :: "KeyReservation list"

definition camel_object_bag_new :: CamelObjectBag where
  "camel_object_bag_new = \<lparr>key_table = Map.empty, object_table = Map.empty, reserved = []\<rparr>"

definition key_reservation_new :: "CamelObjectBag \<Rightarrow> thread \<Rightarrow> bag_key \<Rightarrow> CamelObjectBag" where
  "key_reservation_new bag self key =
     bag\<lparr>reserved := \<lparr>res_key = key, waiters = 0, owner = Some self\<rparr> # reserved bag\<rparr>"

definition key_reservation_lookup :: "CamelObjectBag \<Rightarrow> bag_key \<Rightarrow> KeyReservation option" where
  "key_reservation_lookup bag key = find (\<lambda>r. res_key r = key) (reserved bag)"

text \<open>The reservation that the lookup finds is removed, or changed in place.\<close>

fun remove_found :: "bag_key \<Rightarrow> KeyReservation list \<Rightarrow> KeyReservation list" where
  "remove_found key [] = []"
| "remove_found key (r # rs) = (if res_key r = key then rs else r # remove_found key rs)"

fun change_found :: "bag_key \<Rightarrow> (KeyReservation \<Rightarrow> KeyReservation) \<Rightarrow> KeyReservation list \<Rightarrow> KeyReservation list" where
  "change_found key f [] = []"
| "change_found key f (r # rs) = (if res_key r = key then f r # rs else r # change_found key f rs)"

definition key_reservation_free :: "CamelObjectBag \<Rightarrow> bag_key \<Rightarrow> CamelObjectBag" where
  "key_reservation_free bag key = bag\<lparr>reserved := remove_found key (reserved bag)\<rparr>"

definition set_owner :: "bag_key \<Rightarrow> thread option \<Rightarrow> CamelObjectBag \<Rightarrow> CamelObjectBag" where
  "set_owner key t bag = bag\<lparr>reserved := change_found key (\<lambda>r. r\<lparr>owner := t\<rparr>) (reserved bag)\<rparr>"

definition add_waiter :: "bag_key \<Rightarrow> CamelObjectBag \<Rightarrow> CamelObjectBag" where
  "add_waiter key bag = bag\<lparr>reserved := change_found key (\<lambda>r. r\<lparr>waiters := waiters r + 1\<rparr>) (reserved bag)\<rparr>"

definition drop_waiter :: "bag_key \<Rightarrow> CamelObjectBag \<Rightarrow> CamelObjectBag" where
  "drop_waiter key bag = bag\<lparr>reserved := change_found key (\<lambda>r. r\<lparr>waiters := waiters r - 1\<rparr>) (reserved bag)\<rparr>"

text \<open>The second result of a function tells whether it signals the condition of the reservation of the
  key. A failed assertion returns.\<close>

definition object_bag_unreserve :: "CamelObjectBag \<Rightarrow> thread \<Rightarrow> bag_key \<Rightarrow> CamelObjectBag \<times> bool" where
  "object_bag_unreserve bag self key =
     (case key_reservation_lookup bag key of
        None \<Rightarrow> (bag, False)
      | Some reservation \<Rightarrow>
          if owner reservation \<noteq> Some self then (bag, False)
          else if waiters reservation > 0 then (set_owner key None bag, True)
          else (key_reservation_free bag key, False))"

definition weak_ref_get :: "gobject set \<Rightarrow> gobject \<Rightarrow> gobject option" where
  "weak_ref_get alive obj = (if obj \<in> alive then Some obj else None)"

text \<open>Looking a key up drops a stale reference to a dead object; the code does this at three places.\<close>

definition lookup_live :: "gobject set \<Rightarrow> CamelObjectBag \<Rightarrow> bag_key \<Rightarrow> CamelObjectBag \<times> gobject option" where
  "lookup_live alive bag key =
     (case object_table bag key of
        None \<Rightarrow> (bag, None)
      | Some obj \<Rightarrow>
          (case weak_ref_get alive obj of
             Some obj \<Rightarrow> (bag, Some obj)
           | None \<Rightarrow> (bag\<lparr>key_table := (key_table bag)(obj := None),
                          object_table := (object_table bag)(key := None)\<rparr>, None)))"

datatype outcome = Return "gobject option" | Wait

definition get_resume ::
    "gobject set \<Rightarrow> CamelObjectBag \<Rightarrow> thread \<Rightarrow> bag_key \<Rightarrow> CamelObjectBag \<times> gobject option \<times> bool" where
  "get_resume alive bag self key =
     (let bag = drop_waiter key bag;
          (bag, obj) = lookup_live alive bag key;
          bag = set_owner key (Some self) bag;
          (bag, signal) = object_bag_unreserve bag self key
      in (bag, obj, signal))"

definition camel_object_bag_get ::
    "gobject set \<Rightarrow> CamelObjectBag \<Rightarrow> thread \<Rightarrow> bag_key \<Rightarrow> CamelObjectBag \<times> outcome \<times> bool" where
  "camel_object_bag_get alive bag self key =
     (let (bag, obj) = lookup_live alive bag key in
      case obj of
        Some obj \<Rightarrow> (bag, Return (Some obj), False)
      | None \<Rightarrow>
          (case key_reservation_lookup bag key of
             None \<Rightarrow> (bag, Return None, False)
           | Some reservation \<Rightarrow>
               if owner reservation \<noteq> None then (add_waiter key bag, Wait, False)
               else
                 (let (bag, obj, signal) = get_resume alive (add_waiter key bag) self key
                  in (bag, Return obj, signal))))"

definition camel_object_bag_peek :: "gobject set \<Rightarrow> CamelObjectBag \<Rightarrow> bag_key \<Rightarrow> gobject option" where
  "camel_object_bag_peek alive bag key =
     (case object_table bag key of None \<Rightarrow> None | Some obj \<Rightarrow> weak_ref_get alive obj)"

definition reserve_resume ::
    "gobject set \<Rightarrow> CamelObjectBag \<Rightarrow> thread \<Rightarrow> bag_key \<Rightarrow> CamelObjectBag \<times> gobject option \<times> bool" where
  "reserve_resume alive bag self key =
     (let bag = set_owner key (Some self) bag;
          bag = drop_waiter key bag;
          (bag, obj) = lookup_live alive bag key
      in case obj of
           Some obj \<Rightarrow> (let (bag, signal) = object_bag_unreserve bag self key in (bag, Some obj, signal))
         | None \<Rightarrow> (bag, None, False))"

definition camel_object_bag_reserve ::
    "gobject set \<Rightarrow> CamelObjectBag \<Rightarrow> thread \<Rightarrow> bag_key \<Rightarrow> CamelObjectBag \<times> outcome \<times> bool" where
  "camel_object_bag_reserve alive bag self key =
     (let (bag, obj) = lookup_live alive bag key in
      case obj of
        Some obj \<Rightarrow> (bag, Return (Some obj), False)
      | None \<Rightarrow>
          (case key_reservation_lookup bag key of
             None \<Rightarrow> (key_reservation_new bag self key, Return None, False)
           | Some reservation \<Rightarrow>
               if owner reservation \<noteq> None then (add_waiter key bag, Wait, False)
               else
                 (let (bag, obj, signal) = reserve_resume alive (add_waiter key bag) self key
                  in (bag, Return obj, signal))))"

definition object_in_bag :: "gobject set \<Rightarrow> CamelObjectBag \<Rightarrow> gobject \<Rightarrow> CamelObjectBag \<times> bool" where
  "object_in_bag alive bag object =
     (case key_table bag object of
        None \<Rightarrow> (bag, False)
      | Some key \<Rightarrow>
          (case object_table bag key of
             None \<Rightarrow> (bag, False)
           | Some obj \<Rightarrow>
               (case weak_ref_get alive obj of
                  None \<Rightarrow> (bag\<lparr>key_table := (key_table bag)(object := None),
                              object_table := (object_table bag)(key := None)\<rparr>, False)
                | Some obj2 \<Rightarrow> (bag, obj2 = object))))"

definition camel_object_bag_add ::
    "gobject set \<Rightarrow> CamelObjectBag \<Rightarrow> thread \<Rightarrow> bag_key \<Rightarrow> gobject \<Rightarrow> CamelObjectBag \<times> bool" where
  "camel_object_bag_add alive bag self key object =
     (let (bag, found) = object_in_bag alive bag object in
      if \<not> found then
        object_bag_unreserve
          (bag\<lparr>key_table := (key_table bag)(object := Some key),
               object_table := (object_table bag)(key := Some object)\<rparr>) self key
      else (bag, False))"

definition camel_object_bag_abort :: "CamelObjectBag \<Rightarrow> thread \<Rightarrow> bag_key \<Rightarrow> CamelObjectBag \<times> bool" where
  "camel_object_bag_abort bag self key = object_bag_unreserve bag self key"

definition camel_object_bag_rekey :: "CamelObjectBag \<Rightarrow> gobject \<Rightarrow> bag_key \<Rightarrow> CamelObjectBag" where
  "camel_object_bag_rekey bag object new_key =
     (case key_table bag object of
        None \<Rightarrow> bag
      | Some key \<Rightarrow>
          (let ref = object_table bag key;
               objects = (object_table bag)(key := None);
               keys = (key_table bag)(object := None)
           in bag\<lparr>object_table := objects(new_key := ref), key_table := keys(object := Some new_key)\<rparr>))"

definition camel_object_bag_remove :: "CamelObjectBag \<Rightarrow> gobject \<Rightarrow> CamelObjectBag" where
  "camel_object_bag_remove bag object =
     (case key_table bag object of
        None \<Rightarrow> bag
      | Some key \<Rightarrow> bag\<lparr>key_table := (key_table bag)(object := None),
                       object_table := (object_table bag)(key := None)\<rparr>)"

definition object_bag_notify :: "CamelObjectBag \<Rightarrow> gobject \<Rightarrow> CamelObjectBag" where
  "object_bag_notify bag where_the_object_was =
     (case key_table bag where_the_object_was of
        None \<Rightarrow> bag
      | Some key \<Rightarrow> bag\<lparr>key_table := (key_table bag)(where_the_object_was := None),
                       object_table := (object_table bag)(key := None)\<rparr>)"

text \<open>The array of the live objects, whose order is the hash table's, as a set; and whether the bag may be
  freed.\<close>

definition camel_object_bag_list :: "gobject set \<Rightarrow> CamelObjectBag \<Rightarrow> gobject set" where
  "camel_object_bag_list alive bag = {obj \<in> ran (object_table bag). weak_ref_get alive obj \<noteq> None}"

definition camel_object_bag_destroy :: "CamelObjectBag \<Rightarrow> bool" where
  "camel_object_bag_destroy bag \<longleftrightarrow> reserved bag = []"

section \<open>Threads\<close>

text \<open>A waiting call: the thread, the key, which call it is, and whether the thread has been woken and is
  about to look at the owner again.\<close>

datatype wait_call = GET | RESERVE

datatype waiter = Waiter (w_thread: thread) (w_key: bag_key) (w_call: wait_call) (w_woken: bool)

record bag_system =
  bag :: CamelObjectBag
  alive :: "gobject set"
  waiting :: "waiter multiset"

text \<open>\<^verbatim>\<open>g_cond_signal\<close> wakes one of the threads blocked on the condition of the key, if there is one.\<close>

definition signalled :: "bool \<Rightarrow> bag_key \<Rightarrow> waiter multiset \<Rightarrow> waiter multiset \<Rightarrow> bool" where
  "signalled signal k W W' \<longleftrightarrow>
     (if signal \<and> (\<exists>t c. Waiter t k c False \<in># W)
      then \<exists>t c V. W = add_mset (Waiter t k c False) V \<and> W' = add_mset (Waiter t k c True) V
      else W' = W)"

definition call_of :: "wait_call \<Rightarrow> gobject set \<Rightarrow> CamelObjectBag \<Rightarrow> thread \<Rightarrow> bag_key \<Rightarrow> CamelObjectBag \<times> outcome \<times> bool" where
  "call_of c = (case c of GET \<Rightarrow> camel_object_bag_get | RESERVE \<Rightarrow> camel_object_bag_reserve)"

definition resume_of ::
    "wait_call \<Rightarrow> gobject set \<Rightarrow> CamelObjectBag \<Rightarrow> thread \<Rightarrow> bag_key \<Rightarrow> CamelObjectBag \<times> gobject option \<times> bool" where
  "resume_of c = (case c of GET \<Rightarrow> get_resume | RESERVE \<Rightarrow> reserve_resume)"

definition owns :: "CamelObjectBag \<Rightarrow> bag_key \<Rightarrow> thread \<Rightarrow> bool" where
  "owns B k t \<longleftrightarrow> (\<exists>r. key_reservation_lookup B k = Some r \<and> owner r = Some t)"

definition unowned :: "CamelObjectBag \<Rightarrow> bag_key \<Rightarrow> bool" where
  "unowned B k \<longleftrightarrow> (\<exists>r. key_reservation_lookup B k = Some r \<and> owner r = None)"

text \<open>The steps that finish what has been begun: a woken thread looks at the owner and goes on or blocks
  again; the owner of a reservation that is not itself waiting adds its object, which is new to the bag, or
  aborts.\<close>

inductive finish_step :: "bag_system \<Rightarrow> bag_system \<Rightarrow> bool" where
  resume: "waiting S = add_mset (Waiter t k c True) W \<Longrightarrow> unowned (bag S) k \<Longrightarrow>
    resume_of c (alive S) (bag S) t k = (B, obj, signal) \<Longrightarrow> signalled signal k W W' \<Longrightarrow>
    finish_step S (S\<lparr>bag := B, waiting := W'\<rparr>)"
| recheck: "waiting S = add_mset (Waiter t k c True) W \<Longrightarrow> \<not> unowned (bag S) k \<Longrightarrow>
    finish_step S (S\<lparr>waiting := add_mset (Waiter t k c False) W\<rparr>)"
| add: "owns (bag S) k t \<Longrightarrow> \<forall>w \<in># waiting S. w_thread w \<noteq> t \<Longrightarrow> obj \<in> alive S \<Longrightarrow> key_table (bag S) obj = None \<Longrightarrow>
    camel_object_bag_add (alive S) (bag S) t k obj = (B, signal) \<Longrightarrow> signalled signal k (waiting S) W' \<Longrightarrow>
    finish_step S (S\<lparr>bag := B, waiting := W'\<rparr>)"
| abort: "owns (bag S) k t \<Longrightarrow> \<forall>w \<in># waiting S. w_thread w \<noteq> t \<Longrightarrow>
    camel_object_bag_abort (bag S) t k = (B, signal) \<Longrightarrow> signalled signal k (waiting S) W' \<Longrightarrow>
    finish_step S (S\<lparr>bag := B, waiting := W'\<rparr>)"

text \<open>All steps of clients that keep to the contract of the bag, which the code does not check: a key is given
  an object by the thread that reserved it, and an object gets a new key only when that key is neither in use
  nor reserved (\<^verbatim>\<open>camel_object_bag_rekey\<close> looks at neither). Beside these: new calls, aborting a key of
  another thread, adding an object that is in the bag already, spurious wake-ups, removal, objects that come
  and go and the notification that one is gone.\<close>

inductive bag_step :: "bag_system \<Rightarrow> bag_system \<Rightarrow> bool" where
  finish: "finish_step S S' \<Longrightarrow> bag_step S S'"
| call: "\<forall>w \<in># waiting S. w_thread w \<noteq> t \<Longrightarrow> call_of c (alive S) (bag S) t k = (B, Return obj, signal) \<Longrightarrow>
    signalled signal k (waiting S) W' \<Longrightarrow> bag_step S (S\<lparr>bag := B, waiting := W'\<rparr>)"
| wait: "\<forall>w \<in># waiting S. w_thread w \<noteq> t \<Longrightarrow> call_of c (alive S) (bag S) t k = (B, Wait, signal) \<Longrightarrow>
    bag_step S (S\<lparr>bag := B, waiting := add_mset (Waiter t k c False) (waiting S)\<rparr>)"
| abort_other: "\<forall>w \<in># waiting S. w_thread w \<noteq> t \<Longrightarrow> \<not> owns (bag S) k t \<Longrightarrow>
    camel_object_bag_abort (bag S) t k = (B, signal) \<Longrightarrow>
    signalled signal k (waiting S) W' \<Longrightarrow> bag_step S (S\<lparr>bag := B, waiting := W'\<rparr>)"
| add_known: "\<forall>w \<in># waiting S. w_thread w \<noteq> t \<Longrightarrow> owns (bag S) k t \<Longrightarrow> obj \<in> alive S \<Longrightarrow> key_table (bag S) obj \<noteq> None \<Longrightarrow>
    camel_object_bag_add (alive S) (bag S) t k obj = (B, signal) \<Longrightarrow> signalled signal k (waiting S) W' \<Longrightarrow>
    bag_step S (S\<lparr>bag := B, waiting := W'\<rparr>)"
| spurious: "waiting S = add_mset (Waiter t k c False) W \<Longrightarrow>
    bag_step S (S\<lparr>waiting := add_mset (Waiter t k c True) W\<rparr>)"
| rekey: "object_table (bag S) k = None \<Longrightarrow> key_reservation_lookup (bag S) k = None \<Longrightarrow>
    bag_step S (S\<lparr>bag := camel_object_bag_rekey (bag S) obj k\<rparr>)"
| remove: "bag_step S (S\<lparr>bag := camel_object_bag_remove (bag S) obj\<rparr>)"
| new_object: "key_table (bag S) obj = None \<Longrightarrow> bag_step S (S\<lparr>alive := insert obj (alive S)\<rparr>)"
| dead_object: "bag_step S (S\<lparr>alive := alive S - {obj}\<rparr>)"
| notify: "obj \<notin> alive S \<Longrightarrow> bag_step S (S\<lparr>bag := object_bag_notify (bag S) obj\<rparr>)"

definition bag_start :: bag_system where
  "bag_start = \<lparr>bag = camel_object_bag_new, alive = {}, waiting = {#}\<rparr>"

abbreviation bag_reachable :: "bag_system \<Rightarrow> bool" where
  "bag_reachable S \<equiv> bag_step\<^sup>*\<^sup>* bag_start S"

text \<open>Clients that keep to no contract: thread \<open>u\<close> may, whenever it is not waiting, call any function of the bag
  with any key and any object.\<close>

definition idle :: "bag_system \<Rightarrow> thread \<Rightarrow> bool" where
  "idle S u \<longleftrightarrow> (\<forall>w \<in># waiting S. w_thread w \<noteq> u)"

inductive thread_step :: "thread \<Rightarrow> bag_system \<Rightarrow> bag_system \<Rightarrow> bool" for u where
  any_call: "idle S u \<Longrightarrow> call_of c (alive S) (bag S) u k = (B, Return obj, signal) \<Longrightarrow>
    signalled signal k (waiting S) W' \<Longrightarrow> thread_step u S (S\<lparr>bag := B, waiting := W'\<rparr>)"
| any_wait: "idle S u \<Longrightarrow> call_of c (alive S) (bag S) u k = (B, Wait, signal) \<Longrightarrow>
    thread_step u S (S\<lparr>bag := B, waiting := add_mset (Waiter u k c False) (waiting S)\<rparr>)"
| any_wake: "waiting S = add_mset (Waiter u k c b) W \<Longrightarrow>
    thread_step u S (S\<lparr>waiting := add_mset (Waiter u k c b') W\<rparr>)"
| any_resume: "waiting S = add_mset (Waiter u k c True) W \<Longrightarrow> unowned (bag S) k \<Longrightarrow>
    resume_of c (alive S) (bag S) u k = (B, obj, signal) \<Longrightarrow> signalled signal k W W' \<Longrightarrow>
    thread_step u S (S\<lparr>bag := B, waiting := W'\<rparr>)"
| any_add: "idle S u \<Longrightarrow> camel_object_bag_add (alive S) (bag S) u k obj = (B, signal) \<Longrightarrow>
    signalled signal k (waiting S) W' \<Longrightarrow> thread_step u S (S\<lparr>bag := B, waiting := W'\<rparr>)"
| any_abort: "idle S u \<Longrightarrow> camel_object_bag_abort (bag S) u k = (B, signal) \<Longrightarrow>
    signalled signal k (waiting S) W' \<Longrightarrow> thread_step u S (S\<lparr>bag := B, waiting := W'\<rparr>)"
| any_rekey: "thread_step u S (S\<lparr>bag := camel_object_bag_rekey (bag S) obj k\<rparr>)"
| any_remove: "thread_step u S (S\<lparr>bag := camel_object_bag_remove (bag S) obj\<rparr>)"
| any_notify: "thread_step u S (S\<lparr>bag := object_bag_notify (bag S) obj\<rparr>)"
| any_objects: "thread_step u S (S\<lparr>alive := objs\<rparr>)"

abbreviation thread_reachable :: "bag_system \<Rightarrow> bool" where
  "thread_reachable S \<equiv> (\<lambda>S S'. \<exists>u. thread_step u S S')\<^sup>*\<^sup>* bag_start S"

section \<open>Reservations as a map\<close>

abbreviation (input) res :: "CamelObjectBag \<Rightarrow> bag_key \<Rightarrow> KeyReservation option" where
  "res \<equiv> key_reservation_lookup"

definition one_each :: "CamelObjectBag \<Rightarrow> bool" where
  "one_each B \<longleftrightarrow> distinct (map res_key (reserved B))"

lemma find_change:
  "(\<And>r. res_key (f r) = res_key r) \<Longrightarrow> find (\<lambda>r. res_key r = k') (change_found k f rs) =
     (if k' = k then map_option f (find (\<lambda>r. res_key r = k) rs) else find (\<lambda>r. res_key r = k') rs)"
  by (induction rs) auto

lemma keys_change: "(\<And>r. res_key (f r) = res_key r) \<Longrightarrow> map res_key (change_found k f rs) = map res_key rs"
  by (induction rs) auto

lemma find_remove:
  "distinct (map res_key rs) \<Longrightarrow> find (\<lambda>r. res_key r = k') (remove_found k rs) =
     (if k' = k then None else find (\<lambda>r. res_key r = k') rs)"
proof (induction rs)
  case (Cons r rs)
  have "find (\<lambda>r. res_key r = res_key r0) rs = None" if "res_key r0 \<notin> res_key ` set rs" for r0
    using that unfolding find_None_iff by (metis imageI)
  then show ?case using Cons by auto
qed simp

lemma keys_remove: "set (map res_key (remove_found k rs)) \<subseteq> set (map res_key rs)"
  by (induction rs) auto

lemma distinct_remove: "distinct (map res_key rs) \<Longrightarrow> distinct (map res_key (remove_found k rs))"
proof (induction rs)
  case (Cons r rs)
  moreover have "res_key r \<notin> set (map res_key (remove_found k rs))"
    using Cons.prems keys_remove [of k rs] by auto
  ultimately show ?case by simp
qed simp

lemma res_key_lookup: "res B k = Some r \<Longrightarrow> res_key r = k"
  by (auto simp: key_reservation_lookup_def find_Some_iff)

lemma res_updates [simp]:
  "res (set_owner k t B) k' = (if k' = k then map_option (\<lambda>r. r\<lparr>owner := t\<rparr>) (res B k) else res B k')"
  "res (add_waiter k B) k' = (if k' = k then map_option (\<lambda>r. r\<lparr>waiters := waiters r + 1\<rparr>) (res B k) else res B k')"
  "res (drop_waiter k B) k' = (if k' = k then map_option (\<lambda>r. r\<lparr>waiters := waiters r - 1\<rparr>) (res B k) else res B k')"
  "res (key_reservation_new B u k) k' = (if k' = k then Some \<lparr>res_key = k, waiters = 0, owner = Some u\<rparr> else res B k')"
  "res (B\<lparr>key_table := kt\<rparr>) k' = res B k'" "res (B\<lparr>object_table := ot\<rparr>) k' = res B k'"
  by (simp_all add: set_owner_def add_waiter_def drop_waiter_def key_reservation_new_def key_reservation_lookup_def
      find_change)

lemma res_free [simp]:
  "one_each B \<Longrightarrow> res (key_reservation_free B k) k' = (if k' = k then None else res B k')"
  by (simp add: key_reservation_free_def key_reservation_lookup_def find_remove one_each_def)

lemma one_each_updates [simp]:
  "one_each (set_owner k t B) = one_each B" "one_each (add_waiter k B) = one_each B"
  "one_each (drop_waiter k B) = one_each B"
  "one_each (B\<lparr>key_table := kt\<rparr>) = one_each B" "one_each (B\<lparr>object_table := ot\<rparr>) = one_each B"
  "one_each B \<Longrightarrow> one_each (key_reservation_free B k)"
  "res B k = None \<Longrightarrow> one_each (key_reservation_new B u k) = one_each B"
  by (auto simp: one_each_def set_owner_def add_waiter_def drop_waiter_def keys_change distinct_remove
      key_reservation_free_def key_reservation_new_def key_reservation_lookup_def find_None_iff)

lemma table_updates [simp]:
  "object_table (set_owner k t B) = object_table B" "key_table (set_owner k t B) = key_table B"
  "object_table (add_waiter k B) = object_table B" "key_table (add_waiter k B) = key_table B"
  "object_table (drop_waiter k B) = object_table B" "key_table (drop_waiter k B) = key_table B"
  "object_table (key_reservation_free B k) = object_table B" "key_table (key_reservation_free B k) = key_table B"
  "object_table (key_reservation_new B u k) = object_table B" "key_table (key_reservation_new B u k) = key_table B"
  by (simp_all add: set_owner_def add_waiter_def drop_waiter_def key_reservation_free_def key_reservation_new_def)

section \<open>The invariant\<close>

definition on :: "bag_key \<Rightarrow> waiter multiset \<Rightarrow> nat" where
  "on k W = size (filter_mset (\<lambda>w. w_key w = k) W)"

lemma on_simps [simp]: "on k {#} = 0" "on k (add_mset w W) = (if w_key w = k then Suc (on k W) else on k W)"
  by (simp_all add: on_def)

lemma on_pos: "0 < on k W \<Longrightarrow> \<exists>w \<in># W. w_key w = k"
  by (auto simp: on_def nonempty_has_size [symmetric])

text \<open>Every waiting call is counted in the reservation it waits for; a reservation without owner has been
  handed to a woken thread; the two tables are inverse; a reserved key has no object.\<close>

definition woken_on :: "bag_key \<Rightarrow> waiter multiset \<Rightarrow> bool" where
  "woken_on k W \<longleftrightarrow> (\<exists>t c. Waiter t k c True \<in># W)"

lemma woken_on_simps [simp]:
  "\<not> woken_on k {#}" "woken_on k (add_mset w W) \<longleftrightarrow> w_key w = k \<and> w_woken w \<or> woken_on k W"
  by (simp add: woken_on_def) (cases w, auto simp: woken_on_def)

definition counted :: "CamelObjectBag \<Rightarrow> waiter multiset \<Rightarrow> bag_key \<Rightarrow> bool" where
  "counted B W k \<longleftrightarrow> (case res B k of
       None \<Rightarrow> on k W = 0
     | Some r \<Rightarrow> waiters r = on k W \<and> (owner r = None \<longrightarrow> woken_on k W))"

definition tables_inverse :: "CamelObjectBag \<Rightarrow> bool" where
  "tables_inverse B \<longleftrightarrow> (\<forall>obj k. key_table B obj = Some k \<longleftrightarrow> object_table B k = Some obj)"

definition reserved_empty :: "CamelObjectBag \<Rightarrow> bool" where
  "reserved_empty B \<longleftrightarrow> (\<forall>k t. owns B k t \<longrightarrow> object_table B k = None)"

definition bag_inv :: "bag_system \<Rightarrow> bool" where
  "bag_inv S \<longleftrightarrow> one_each (bag S) \<and> (\<forall>k. counted (bag S) (waiting S) k) \<and> tables_inverse (bag S) \<and>
     reserved_empty (bag S)"

lemma signalled_on: "signalled s k W W' \<Longrightarrow> on k' W' = on k' W"
  by (auto simp: signalled_def split: if_splits)

lemma signalled_woken: "signalled s k W W' \<Longrightarrow> woken_on k' W \<Longrightarrow> woken_on k' W'"
  by (auto simp: signalled_def split: if_splits)

lemma signalled_wakes:
  assumes "signalled True k W W'" and "0 < on k W"
  shows "woken_on k W'"
proof -
  obtain w where "w \<in># W" "w_key w = k" using on_pos [OF assms(2)] by blast
  then obtain t c b where w: "Waiter t k c b \<in># W" by (cases w) auto
  show ?thesis
  proof (cases b)
    case True
    then have "woken_on k W" using w by (auto simp: woken_on_def)
    then show ?thesis using signalled_woken [OF assms(1)] by simp
  next
    case False
    then show ?thesis using assms(1) w by (auto simp: signalled_def split: if_splits)
  qed
qed

text \<open>The effect of giving a reservation back.\<close>

lemma unreserve_counted:
  assumes "one_each B" and "owns B k t" and un: "object_bag_unreserve B t k = (B', s)"
    and sig: "signalled s k W W'"
    and here: "\<And>r. res B k = Some r \<Longrightarrow> waiters r = on k W"
    and other: "\<And>k'. k' \<noteq> k \<Longrightarrow> counted B W k'"
  shows "one_each B' \<and> counted B' W' k' \<and> object_table B' = object_table B \<and> key_table B' = key_table B \<and>
    (\<forall>k' t'. owns B' k' t' \<longleftrightarrow> owns B k' t' \<and> k' \<noteq> k)"
proof -
  obtain r where r: "res B k = Some r" "owner r = Some t" using assms(2) by (auto simp: owns_def)
  have n: "waiters r = on k W" using here r by simp
  have un': "object_bag_unreserve B t k =
      (if waiters r > 0 then (set_owner k None B, True) else (key_reservation_free B k, False))"
    using r by (simp add: object_bag_unreserve_def)
  have keep: "counted B' W' k'" if "k' \<noteq> k" "res B' k' = res B k'" for k'
    using other [OF that(1)] that(2) signalled_on [OF sig, of k'] signalled_woken [OF sig, of k']
    by (auto simp: counted_def split: option.splits)
  show ?thesis
  proof (cases "waiters r > 0")
    case True
    then have B': "B' = set_owner k None B" and s: "s" using un un' by auto
    have "0 < on k W" using True n by simp
    then have "woken_on k W'" using signalled_wakes sig s by simp
    then have "counted B' W' k" using n signalled_on [OF sig, of k] r by (simp add: B' counted_def)
    then show ?thesis using keep [of k'] assms(1) by (auto simp: B' owns_def)
  next
    case False
    then have B': "B' = key_reservation_free B k" and "\<not> s" using un un' by auto
    then have "counted B' W' k" using n False signalled_on [OF sig, of k] assms(1) by (simp add: counted_def)
    then show ?thesis using keep [of k'] assms(1) by (auto simp: B' owns_def)
  qed
qed

lemma unreserve_empty:
  "reserved_empty B \<Longrightarrow> (\<And>k' t'. owns B' k' t' \<Longrightarrow> owns B k' t') \<Longrightarrow> object_table B' = object_table B \<Longrightarrow> reserved_empty B'"
  by (simp add: reserved_empty_def) blast

text \<open>Dropping a stale reference.\<close>

lemma lookup_live_inv:
  assumes "lookup_live al B k = (B', obj)" and "tables_inverse B"
  shows "tables_inverse B'" and "object_table B' k = obj" and "res B' = res B" and "one_each B' = one_each B"
    and "\<And>k'. object_table B k' = None \<Longrightarrow> object_table B' k' = None"
    and "obj = Some o' \<Longrightarrow> B' = B \<and> o' \<in> al"
proof -
  have "tables_inverse B' \<and> object_table B' k = obj \<and> res B' = res B \<and> one_each B' = one_each B \<and>
      (\<forall>k'. object_table B k' = None \<longrightarrow> object_table B' k' = None) \<and> (\<forall>o'. obj = Some o' \<longrightarrow> B' = B \<and> o' \<in> al)"
    using assms
    by (auto simp: lookup_live_def weak_ref_get_def tables_inverse_def fun_eq_iff split: option.splits if_splits)
      (metis option.inject)
  then show "tables_inverse B'" "object_table B' k = obj" "res B' = res B" "one_each B' = one_each B"
    "\<And>k'. object_table B k' = None \<Longrightarrow> object_table B' k' = None" "obj = Some o' \<Longrightarrow> B' = B \<and> o' \<in> al" by simp_all
qed

text \<open>A call after its wait, with the waiter already taken out.\<close>

lemma resume_inv:
  assumes inv: "one_each B" "tables_inverse B" "reserved_empty B" and un: "unowned B k"
    and run: "resume_of c al B t k = (B', obj, s)" and sig: "signalled s k W W'"
    and here: "\<And>r. res B k = Some r \<Longrightarrow> waiters r = Suc (on k W)"
    and other: "\<And>k'. k' \<noteq> k \<Longrightarrow> counted B W k'"
  shows "one_each B' \<and> (\<forall>k'. counted B' W' k') \<and> tables_inverse B' \<and> reserved_empty B' \<and>
    (\<forall>k' t'. owns B' k' t' \<longleftrightarrow> owns B k' t' \<or> k' = k \<and> t' = t \<and> c = RESERVE \<and> obj = None)"
proof -
  obtain r where r: "res B k = Some r" "owner r = None" using un by (auto simp: unowned_def)
  have w: "waiters r = Suc (on k W)" using here r by simp
  obtain B3 where one: "one_each B3" and tab: "tables_inverse B3" and obj: "object_table B3 k = obj"
    and rs: "res B3 = (res B)(k \<mapsto> r\<lparr>owner := Some t, waiters := on k W\<rparr>)"
    and empty: "\<And>k'. object_table B k' = None \<Longrightarrow> object_table B3 k' = None"
    and B': "(if c = RESERVE \<and> obj = None then (B3, False) else object_bag_unreserve B3 t k) = (B', s)"
  proof (cases c)
    case GET
    define B1 where "B1 = drop_waiter k B"
    obtain B2 o2 where B2: "lookup_live al B1 k = (B2, o2)" by fastforce
    have "tables_inverse B1" using inv(2) by (simp add: B1_def tables_inverse_def)
    note l = lookup_live_inv [OF B2 this]
    have "o2 = obj" "object_bag_unreserve (set_owner k (Some t) B2) t k = (B', s)"
      using run B2 by (auto simp: GET resume_of_def get_resume_def B1_def Let_def split: prod.splits)
    moreover have "res (set_owner k (Some t) B2) = (res B)(k \<mapsto> r\<lparr>owner := Some t, waiters := on k W\<rparr>)"
      using r w by (auto simp: l(3) B1_def)
    ultimately show ?thesis
      using l inv(1) by (intro that [of "set_owner k (Some t) B2"]) (simp_all add: GET B1_def tables_inverse_def)
  next
    case RESERVE
    define B1 where "B1 = drop_waiter k (set_owner k (Some t) B)"
    obtain B2 o2 where B2: "lookup_live al B1 k = (B2, o2)" by fastforce
    have "tables_inverse B1" using inv(2) by (simp add: B1_def tables_inverse_def)
    note l = lookup_live_inv [OF B2 this]
    have "o2 = obj" "(if obj = None then (B2, False) else object_bag_unreserve B2 t k) = (B', s)"
      using run B2 by (auto simp: RESERVE resume_of_def reserve_resume_def B1_def Let_def split: prod.splits option.splits)
    moreover have "res B2 = (res B)(k \<mapsto> r\<lparr>owner := Some t, waiters := on k W\<rparr>)"
      using r w by (auto simp: l(3) B1_def)
    ultimately show ?thesis
      using l inv(1) by (intro that [of B2]) (simp_all add: RESERVE B1_def)
  qed
  have owns3: "owns B3 k' t' \<longleftrightarrow> (if k' = k then t' = t else owns B k' t')" for k' t'
    by (auto simp: owns_def rs)
  have emp: "object_table B3 k' = None" if "owns B k' t'" for k' t'
    using inv(3) empty that by (auto simp: reserved_empty_def)
  have cnt: "counted B3 W k'" if "k' \<noteq> k" for k'
    using other [OF that] that by (simp add: counted_def rs)
  show ?thesis
  proof (cases "c = RESERVE \<and> obj = None")
    case True
    then have "B' = B3" "W' = W" using B' sig by (auto simp: signalled_def)
    moreover have "counted B3 W k'" for k' using cnt by (cases "k' = k") (simp_all add: counted_def rs)
    moreover have "reserved_empty B3"
      using emp obj True by (auto simp: reserved_empty_def owns3 split: if_splits)
    moreover have "\<not> owns B k t'" for t' using r by (simp add: owns_def)
    ultimately show ?thesis using one tab True by (auto simp: owns3 split: if_splits)
  next
    case False
    then have un3: "object_bag_unreserve B3 t k = (B', s)" using B' by (simp only: if_False)
    have "owns B3 k t" by (simp add: owns3)
    from unreserve_counted [OF one this un3 sig _ cnt]
    have U: "one_each B'" "\<And>k'. counted B' W' k'" "object_table B' = object_table B3" "key_table B' = key_table B3"
        "\<And>k' t'. owns B' k' t' \<longleftrightarrow> owns B3 k' t' \<and> k' \<noteq> k"
      by (simp_all add: rs)
    have "\<not> owns B k t'" for t' using r by (simp add: owns_def)
    then have "owns B' k' t' \<longleftrightarrow> owns B k' t'" for k' t' by (auto simp: U(5) owns3)
    moreover from this have "reserved_empty B'" using emp U(3) by (auto simp: reserved_empty_def)
    ultimately show ?thesis using U(1-4) tab False by (auto simp: tables_inverse_def)
  qed
qed

lemma call_of_eq:
  "call_of c al B t k =
     (let (B1, obj) = lookup_live al B k in
      case obj of
        Some obj \<Rightarrow> (B1, Return (Some obj), False)
      | None \<Rightarrow>
          (case res B1 k of
             None \<Rightarrow> (if c = GET then B1 else key_reservation_new B1 t k, Return None, False)
           | Some r \<Rightarrow>
               if owner r \<noteq> None then (add_waiter k B1, Wait, False)
               else (let (B2, obj, s) = resume_of c al (add_waiter k B1) t k in (B2, Return obj, s))))"
  by (cases c) (auto simp: call_of_def resume_of_def camel_object_bag_get_def camel_object_bag_reserve_def Let_def
      split: prod.splits option.splits)

lemma call_inv:
  assumes inv: "one_each B" "\<And>k. counted B W k" "tables_inverse B" "reserved_empty B"
    and run: "call_of c al B t k = (B', out, s)"
    and fin: "case out of Wait \<Rightarrow> W' = add_mset (Waiter t k c False) W | Return obj \<Rightarrow> signalled s k W W'"
  shows "one_each B' \<and> (\<forall>k'. counted B' W' k') \<and> tables_inverse B' \<and> reserved_empty B' \<and>
    (\<forall>k' t'. owns B' k' t' \<longleftrightarrow> owns B k' t' \<or>
      k' = k \<and> t' = t \<and> c = RESERVE \<and> out = Return None \<and> (\<forall>t. \<not> owns B k t))"
proof -
  obtain B1 obj where B1: "lookup_live al B k = (B1, obj)" by fastforce
  note l = lookup_live_inv [OF B1 inv(3)]
  have owns1: "owns B1 = owns B" by (simp add: owns_def l(3) fun_eq_iff)
  have cnt1: "counted B1 W k'" for k' using inv(2) by (simp add: counted_def l(3))
  have emp1: "reserved_empty B1" using inv(4) l(5) by (simp add: reserved_empty_def owns1)
  have sim: "signalled False k W W' \<Longrightarrow> W' = W" by (simp add: signalled_def)
  consider (live) o' where "obj = Some o'" | (none) "obj = None" "res B1 k = None"
    | (held) r where "obj = None" "res B1 k = Some r" "owner r \<noteq> None"
    | (free) r where "obj = None" "res B1 k = Some r" "owner r = None"
    by (cases obj; cases "res B1 k") auto
  then show ?thesis
  proof cases
    case live
    then have "B' = B1" "W' = W" "out \<noteq> Return None" using run fin sim B1 by (auto simp: call_of_eq)
    then show ?thesis using l(1,4) inv(1) cnt1 emp1 owns1 by simp
  next
    case none
    then have B': "B' = (if c = GET then B1 else key_reservation_new B1 t k)" "W' = W" "out = Return None"
      using run fin sim B1 by (auto simp: call_of_eq)
    have "on k W = 0" using cnt1 [of k] none by (simp add: counted_def)
    then have "counted B' W k'" for k'
      using cnt1 [of k'] by (auto simp: B' counted_def)
    moreover have "reserved_empty B'"
      using emp1 l(2) none by (auto simp: B' reserved_empty_def owns_def split: if_splits)
    ultimately show ?thesis
      using l(1,4) inv(1) none B' by (cases c) (auto simp: owns_def l(3) [symmetric] tables_inverse_def)
  next
    case held
    then have B': "B' = add_waiter k B1" "W' = add_mset (Waiter t k c False) W" "out = Wait"
      using run fin B1 by (auto simp: call_of_eq)
    have "counted B' W' k'" for k' using cnt1 [of k'] held by (auto simp: B' counted_def split: option.splits)
    moreover have "owns B' k' t' \<longleftrightarrow> owns B k' t'" for k' t'
      unfolding owns1 [symmetric] by (auto simp: B' owns_def)
    ultimately show ?thesis
      using l(1,4) inv(1) emp1 unfolding owns1 [symmetric] by (auto simp: B' tables_inverse_def reserved_empty_def)
  next
    case free
    obtain B2 o2 s2 where B2: "resume_of c al (add_waiter k B1) t k = (B2, o2, s2)" using prod_cases3 by blast
    then have B': "B' = B2" "out = Return o2" "s = s2" using run B1 free by (auto simp: call_of_eq)
    have "owns (add_waiter k B1) k' t' \<longleftrightarrow> owns B k' t'" for k' t'
      unfolding owns1 [symmetric] by (auto simp: owns_def)
    then have o1: "owns (add_waiter k B1) = owns B" by (simp add: fun_eq_iff)
    have un: "unowned (add_waiter k B1) k" using free by (simp add: unowned_def)
    have cnt: "counted (add_waiter k B1) W k'" if "k' \<noteq> k" for k' using cnt1 [of k'] that by (simp add: counted_def)
    have here: "waiters r = Suc (on k W)" if "res (add_waiter k B1) k = Some r" for r
      using that cnt1 [of k] free by (auto simp: counted_def)
    have emp: "reserved_empty (add_waiter k B1)" using emp1 by (simp add: reserved_empty_def o1 owns1)
    have tab: "tables_inverse (add_waiter k B1)" using l(1) by (simp add: tables_inverse_def)
    have one: "one_each (add_waiter k B1)" using inv(1) l(4) by simp
    have sig: "signalled s2 k W W'" using fin B' by simp
    have R: "one_each B2 \<and> (\<forall>k'. counted B2 W' k') \<and> tables_inverse B2 \<and> reserved_empty B2 \<and>
        (\<forall>k' t'. owns B2 k' t' \<longleftrightarrow> owns B k' t' \<or> k' = k \<and> t' = t \<and> c = RESERVE \<and> o2 = None)"
      using resume_inv [OF one tab emp un B2 sig here cnt] unfolding o1 .
    have "\<not> owns B k t" for t using free owns1 by (auto simp: owns_def l(3))
    then show ?thesis using R B' by auto
  qed
qed

section \<open>Every step keeps the invariant\<close>

lemma table_ops:
  "res (camel_object_bag_rekey B obj k) = res B" "one_each (camel_object_bag_rekey B obj k) = one_each B"
  "res (camel_object_bag_remove B obj) = res B" "one_each (camel_object_bag_remove B obj) = one_each B"
  "res (object_bag_notify B obj) = res B" "one_each (object_bag_notify B obj) = one_each B"
  by (auto simp: camel_object_bag_rekey_def camel_object_bag_remove_def object_bag_notify_def Let_def fun_eq_iff
      split: option.splits)

lemma tables_link:
  assumes "tables_inverse B" and "key_table B obj = None" and "object_table B k = None"
    and "key_table B' = (key_table B)(obj := Some k)" and "object_table B' = (object_table B)(k := Some obj)"
  shows "tables_inverse B'"
  unfolding tables_inverse_def
proof (intro allI)
  fix o' k'
  have "key_table B o' = Some k' \<longleftrightarrow> object_table B k' = Some o'" using assms(1) by (simp add: tables_inverse_def)
  then show "key_table B' o' = Some k' \<longleftrightarrow> object_table B' k' = Some o'"
    using assms(2-) by (cases "o' = obj"; cases "k' = k") auto
qed

lemma tables_unlink:
  assumes "tables_inverse B" and "key_table B obj = Some k"
    and "key_table B' = (key_table B)(obj := None)" and "object_table B' = (object_table B)(k := None)"
  shows "tables_inverse B'"
  unfolding tables_inverse_def
proof (intro allI)
  fix o' k'
  have "key_table B o' = Some k' \<longleftrightarrow> object_table B k' = Some o'" "object_table B k = Some obj"
    using assms(1,2) by (simp_all add: tables_inverse_def)
  then show "key_table B' o' = Some k' \<longleftrightarrow> object_table B' k' = Some o'"
    unfolding assms(3,4) fun_upd_apply using assms(2) by (metis option.distinct(1) option.inject)
qed

lemma tables_remove:
  "tables_inverse B \<Longrightarrow> tables_inverse (camel_object_bag_remove B obj)"
  "tables_inverse B \<Longrightarrow> tables_inverse (object_bag_notify B obj)"
  using tables_unlink [of B obj]
  by (simp_all add: camel_object_bag_remove_def object_bag_notify_def split: option.splits)

lemma tables_rekey:
  assumes "tables_inverse B" and "object_table B k = None"
  shows "tables_inverse (camel_object_bag_rekey B obj k)"
proof (cases "key_table B obj")
  case None
  then show ?thesis using assms by (simp add: camel_object_bag_rekey_def)
next
  case (Some j)
  let ?B = "B\<lparr>key_table := (key_table B)(obj := None), object_table := (object_table B)(j := None)\<rparr>"
  have "tables_inverse ?B" using tables_unlink [OF assms(1) Some] by simp
  moreover have "object_table B j = Some obj" using assms(1) Some by (simp add: tables_inverse_def)
  ultimately show ?thesis
    using tables_link [of ?B obj k "camel_object_bag_rekey B obj k"] assms(2) Some
    by (simp add: camel_object_bag_rekey_def Let_def)
qed

lemma empty_table_ops:
  assumes "object_table B k' = None"
  shows "k' \<noteq> k \<Longrightarrow> object_table (camel_object_bag_rekey B obj k) k' = None"
    and "object_table (camel_object_bag_remove B obj) k' = None" and "object_table (object_bag_notify B obj) k' = None"
  using assms by (auto simp: camel_object_bag_rekey_def camel_object_bag_remove_def object_bag_notify_def Let_def
      split: option.splits)

lemma add_inv:
  assumes inv: "one_each B" "\<And>k. counted B W k" "tables_inverse B" "reserved_empty B"
    and "owns B k t" and "key_table B obj = None"
    and run: "camel_object_bag_add al B t k obj = (B', s)" and sig: "signalled s k W W'"
  shows "one_each B' \<and> (\<forall>k'. counted B' W' k') \<and> tables_inverse B' \<and> reserved_empty B' \<and>
    (\<forall>k' t'. owns B' k' t' \<longleftrightarrow> owns B k' t' \<and> k' \<noteq> k)"
proof -
  define B1 where "B1 = B\<lparr>key_table := (key_table B)(obj := Some k), object_table := (object_table B)(k := Some obj)\<rparr>"
  have un: "object_bag_unreserve B1 t k = (B', s)"
    using run assms(6) by (simp add: camel_object_bag_add_def object_in_bag_def B1_def)
  have r1: "res B1 = res B" "one_each B1" "owns B1 = owns B"
    using inv(1) by (simp_all add: B1_def owns_def fun_eq_iff)
  have cnt: "counted B1 W k'" for k' using inv(2) by (simp add: counted_def r1)
  have "waiters r = on k W" if "res B1 k = Some r" for r using cnt [of k] that by (simp add: counted_def)
  from unreserve_counted [OF r1(2) _ un sig this cnt]
  have U: "one_each B'" "\<And>k'. counted B' W' k'" "object_table B' = object_table B1" "key_table B' = key_table B1"
      "\<And>k' t'. owns B' k' t' \<longleftrightarrow> owns B k' t' \<and> k' \<noteq> k"
    using assms(5) by (simp_all add: r1)
  have "object_table B k = None" using inv(4) assms(5) by (auto simp: reserved_empty_def)
  then have "tables_inverse B1" using tables_link [OF inv(3) assms(6)] by (simp add: B1_def)
  moreover have "reserved_empty B'" using inv(4) by (auto simp: reserved_empty_def U(3,5) B1_def)
  ultimately show ?thesis using U by (auto simp: tables_inverse_def)
qed

lemma abort_inv:
  assumes inv: "one_each B" "\<And>k. counted B W k" "tables_inverse B" "reserved_empty B"
    and "owns B k t" and run: "camel_object_bag_abort B t k = (B', s)" and sig: "signalled s k W W'"
  shows "one_each B' \<and> (\<forall>k'. counted B' W' k') \<and> tables_inverse B' \<and> reserved_empty B' \<and>
    (\<forall>k' t'. owns B' k' t' \<longleftrightarrow> owns B k' t' \<and> k' \<noteq> k)"
proof -
  have un: "object_bag_unreserve B t k = (B', s)" using run by (simp add: camel_object_bag_abort_def)
  have "waiters r = on k W" if "res B k = Some r" for r using inv(2) [of k] that by (simp add: counted_def)
  from unreserve_counted [OF inv(1) assms(5) un sig this inv(2)] show ?thesis
    using inv(3,4) by (auto simp: tables_inverse_def reserved_empty_def)
qed

lemma finish_step_inv:
  assumes "finish_step S S'" and "bag_inv S"
  shows "bag_inv S'"
  using assms
proof cases
  case (resume t k c W B obj signal W')
  have I: "one_each (bag S)" "\<And>k'. counted (bag S) (add_mset (Waiter t k c True) W) k'" "tables_inverse (bag S)"
      "reserved_empty (bag S)"
    using assms(2) resume(2) by (auto simp: bag_inv_def)
  have "waiters r = Suc (on k W)" if "res (bag S) k = Some r" for r
    using I(2) [of k] that by (simp add: counted_def)
  moreover have "counted (bag S) W k'" if "k' \<noteq> k" for k'
    using I(2) [of k'] that by (simp add: counted_def split: option.splits)
  ultimately show ?thesis using resume_inv [OF I(1,3,4) resume(3-5)] resume(1) by (simp add: bag_inv_def)
next
  case (recheck t k c W)
  have "counted (bag S) (add_mset (Waiter t k c False) W) k'" for k'
  proof -
    have "counted (bag S) (waiting S) k'" using assms(2) by (simp add: bag_inv_def)
    then show ?thesis using recheck(2,3) by (auto simp: counted_def unowned_def split: option.splits if_splits)
  qed
  then show ?thesis using assms(2) recheck(1) by (simp add: bag_inv_def)
next
  case (add k t obj B signal W')
  then show ?thesis using add_inv [of "bag S" "waiting S" k t obj "alive S" B signal W'] assms(2)
    by (simp add: bag_inv_def)
next
  case (abort k t B signal W')
  then show ?thesis using abort_inv [of "bag S" "waiting S" k t B signal W'] assms(2)
    by (simp add: bag_inv_def)
qed

text \<open>The code keeps the reservation when the object is in the bag already, under whatever key: nobody is
  signalled, and the calls that wait for the key go on waiting.\<close>

lemma bag_add_known_object:
  assumes "key_table B obj = Some k'" and "object_table B k' = Some obj" and "obj \<in> al"
  shows "camel_object_bag_add al B t k obj = (B, False)"
  using assms by (simp add: camel_object_bag_add_def object_in_bag_def weak_ref_get_def)

lemma abort_not_owner: "\<not> owns B k t \<Longrightarrow> object_bag_unreserve B t k = (B, False)"
  by (auto simp: object_bag_unreserve_def owns_def split: option.splits)

lemma bag_step_inv:
  assumes "bag_step S S'" and inv: "bag_inv S"
  shows "bag_inv S'"
  using assms(1)
proof cases
  case finish
  then show ?thesis using finish_step_inv inv by blast
next
  case (call t c k B obj signal W')
  then show ?thesis using call_inv [of "bag S" "waiting S" c "alive S" t k B "Return obj" signal W'] inv
    by (simp add: bag_inv_def)
next
  case (wait t c k B signal)
  then show ?thesis
    using call_inv [of "bag S" "waiting S" c "alive S" t k B Wait signal "add_mset (Waiter t k c False) (waiting S)"] inv
    by (simp add: bag_inv_def)
next
  case (abort_other t k B signal W')
  then have "S' = S" using abort_not_owner [of "bag S" k t] by (auto simp: camel_object_bag_abort_def signalled_def)
  then show ?thesis using inv by simp
next
  case (add_known t k obj B signal W')
  then obtain k' where "key_table (bag S) obj = Some k'" by blast
  then have "object_table (bag S) k' = Some obj" using inv by (simp add: bag_inv_def tables_inverse_def)
  then have "S' = S" using add_known bag_add_known_object \<open>key_table (bag S) obj = Some k'\<close>
    by (auto simp: signalled_def)
  then show ?thesis using inv by simp
next
  case (spurious t k c W)
  have "counted (bag S) (add_mset (Waiter t k c True) W) k'" for k'
  proof -
    have "counted (bag S) (waiting S) k'" using inv by (simp add: bag_inv_def)
    then show ?thesis using spurious(2) by (auto simp: counted_def split: option.splits if_splits)
  qed
  then show ?thesis using inv spurious(1) by (simp add: bag_inv_def)
next
  case (rekey k obj)
  have "counted (bag S') (waiting S') k'" for k' using inv rekey(1) by (simp add: bag_inv_def counted_def table_ops)
  moreover have "k' \<noteq> k" if "owns (bag S) k' t" for k' t using that rekey(3) by (auto simp: owns_def)
  then have "reserved_empty (bag S')" using inv rekey(1) empty_table_ops(1)
    by (auto simp: bag_inv_def reserved_empty_def owns_def table_ops)
  ultimately show ?thesis using inv rekey tables_rekey by (simp add: bag_inv_def table_ops)
next
  case (remove obj)
  then show ?thesis using inv tables_remove(1) empty_table_ops(2)
    by (auto simp: bag_inv_def counted_def reserved_empty_def owns_def table_ops)
next
  case (notify obj)
  then show ?thesis using inv tables_remove(2) empty_table_ops(3)
    by (auto simp: bag_inv_def counted_def reserved_empty_def owns_def table_ops)
qed (use inv in \<open>simp_all add: bag_inv_def\<close>)

lemma bag_start_inv: "bag_inv bag_start"
  by (simp add: bag_inv_def bag_start_def camel_object_bag_new_def one_each_def counted_def key_reservation_lookup_def
      tables_inverse_def reserved_empty_def owns_def)

lemma bag_reachable_inv: "bag_reachable S \<Longrightarrow> bag_inv S"
  by (induction rule: rtranclp_induct) (auto intro: bag_start_inv bag_step_inv)

section \<open>Progress\<close>

definition owned :: "CamelObjectBag \<Rightarrow> bag_key set" where
  "owned B = {k. \<exists>t. owns B k t}"

text \<open>What is still to be done: the waiting calls weigh most, since a call that goes on may become an
  owner.\<close>

definition pending :: "bag_system \<Rightarrow> nat" where
  "pending S = 4 * size (waiting S) + 2 * card (owned (bag S)) + size (filter_mset w_woken (waiting S))"

lemma finite_owned: "finite (owned B)"
proof -
  have "owned B \<subseteq> set (map res_key (reserved B))"
    by (auto simp: owned_def owns_def key_reservation_lookup_def find_Some_iff)
  then show ?thesis by (rule finite_subset) simp
qed

lemma signalled_size:
  "signalled s k W W' \<Longrightarrow> size W' = size W \<and> size (filter_mset w_woken W') \<le> Suc (size (filter_mset w_woken W))"
  by (auto simp: signalled_def split: if_splits)

lemma signalled_total: "\<exists>W'. signalled s k W W'"
proof (cases "s \<and> (\<exists>t c. Waiter t k c False \<in># W)")
  case True
  then obtain t c where "Waiter t k c False \<in># W" by blast
  then obtain V where V: "W = add_mset (Waiter t k c False) V"
    using multi_member_split [of "Waiter t k c False" W] by blast
  have "signalled s k W (add_mset (Waiter t k c True) V)"
    unfolding signalled_def if_P [OF True] using V by blast
  then show ?thesis by blast
next
  case False
  then show ?thesis by (auto simp: signalled_def)
qed

lemma owned_released:
  assumes "\<And>k' t'. owns B' k' t' \<longleftrightarrow> owns B k' t' \<and> k' \<noteq> k" and "owns B k t"
  shows "Suc (card (owned B')) = card (owned B)"
proof -
  have "owned B' = owned B - {k}" and "k \<in> owned B" using assms by (auto simp: owned_def)
  then show ?thesis using card.remove [OF finite_owned, of k B] by simp
qed

lemma finish_step_decreases:
  assumes "finish_step S S'" and inv: "bag_inv S"
  shows "pending S' < pending S"
  using assms(1)
proof cases
  case (resume t k c W B obj signal W')
  have I: "one_each (bag S)" "\<And>k'. counted (bag S) (add_mset (Waiter t k c True) W) k'" "tables_inverse (bag S)"
      "reserved_empty (bag S)"
    using inv resume(2) by (auto simp: bag_inv_def)
  have "waiters r = Suc (on k W)" if "res (bag S) k = Some r" for r
    using I(2) [of k] that by (simp add: counted_def)
  moreover have "counted (bag S) W k'" if "k' \<noteq> k" for k'
    using I(2) [of k'] that by (simp add: counted_def split: option.splits)
  ultimately have "\<forall>k' t'. owns B k' t' \<longrightarrow> owns (bag S) k' t' \<or> k' = k"
    using resume_inv [OF I(1,3,4) resume(3-5)] by blast
  then have "owned B \<subseteq> insert k (owned (bag S))" by (auto simp: owned_def)
  then have "card (owned B) \<le> Suc (card (owned (bag S)))"
    using card_mono [of "insert k (owned (bag S))" "owned B"] finite_owned [of "bag S"]
    by (simp add: card_insert_if split: if_splits)
  then show ?thesis using resume(1,2) signalled_size [OF resume(5)] by (simp add: pending_def)
next
  case (recheck t k c W)
  then show ?thesis by (simp add: pending_def)
next
  case (add k t obj B signal W')
  have "\<forall>k' t'. owns B k' t' \<longleftrightarrow> owns (bag S) k' t' \<and> k' \<noteq> k"
    using add_inv [of "bag S" "waiting S" k t obj "alive S" B signal W'] inv add by (simp add: bag_inv_def)
  then have "Suc (card (owned B)) = card (owned (bag S))" using owned_released add(2) by blast
  then show ?thesis using add(1) signalled_size [OF add(7)] by (simp add: pending_def)
next
  case (abort k t B signal W')
  have "\<forall>k' t'. owns B k' t' \<longleftrightarrow> owns (bag S) k' t' \<and> k' \<noteq> k"
    using abort_inv [of "bag S" "waiting S" k t B signal W'] inv abort by (simp add: bag_inv_def)
  then have "Suc (card (owned B)) = card (owned (bag S))" using owned_released abort(2) by blast
  then show ?thesis using abort(1) signalled_size [OF abort(5)] by (simp add: pending_def)
qed

lemma finish_steps:
  "(finish_step ^^ n) S S' \<Longrightarrow> bag_inv S \<Longrightarrow> bag_inv S' \<and> n + pending S' \<le> pending S"
proof (induction n arbitrary: S')
  case (Suc n)
  then obtain T where "(finish_step ^^ n) S T" "finish_step T S'" by auto
  with Suc show ?case using finish_step_inv finish_step_decreases by (fastforce dest!: Suc.IH)
qed simp

lemma finish_stuck:
  assumes "bag_inv S" and stuck: "\<nexists>S'. finish_step S S'"
    and free: "\<And>k t w. owns (bag S) k t \<Longrightarrow> w \<in># waiting S \<Longrightarrow> w_thread w \<noteq> t"
  shows "waiting S = {#} \<and> reserved (bag S) = []"
proof -
  have cnt: "counted (bag S) (waiting S) k" for k using assms(1) by (simp add: bag_inv_def)
  have none: "res (bag S) k = None" for k
  proof (rule ccontr)
    assume "res (bag S) k \<noteq> None"
    then obtain r where r: "res (bag S) k = Some r" by blast
    show False
    proof (cases "owner r")
      case None
      then have "woken_on k (waiting S)" using cnt [of k] r by (simp add: counted_def)
      then obtain t c where "Waiter t k c True \<in># waiting S" by (auto simp: woken_on_def)
      then obtain W where W: "waiting S = add_mset (Waiter t k c True) W"
        using multi_member_split [of "Waiter t k c True" "waiting S"] by blast
      obtain B obj s where "resume_of c (alive S) (bag S) t k = (B, obj, s)" using prod_cases3 by blast
      moreover obtain W' where "signalled s k W W'" using signalled_total by blast
      moreover have "unowned (bag S) k" using None r by (simp add: unowned_def)
      ultimately show False using stuck finish_step.resume [OF W] by blast
    next
      case (Some t)
      then have o: "owns (bag S) k t" using r by (simp add: owns_def)
      obtain B s where "camel_object_bag_abort (bag S) t k = (B, s)" by fastforce
      moreover obtain W' where "signalled s k (waiting S) W'" using signalled_total by blast
      ultimately show False using stuck finish_step.abort [OF o] free [OF o] by blast
    qed
  qed
  then have "on k (waiting S) = 0" for k using cnt [of k] by (simp add: counted_def)
  then have "waiting S = {#}" by (metis multiset_nonemptyE multi_member_split on_simps(2) nat.distinct(1))
  moreover have "reserved (bag S) = []"
  proof (rule ccontr)
    assume "reserved (bag S) \<noteq> []"
    then obtain r rs where "reserved (bag S) = r # rs" by (cases "reserved (bag S)") auto
    then have "res (bag S) (res_key r) = Some r" by (simp add: key_reservation_lookup_def)
    with none show False by simp
  qed
  ultimately show ?thesis by blast
qed

section \<open>Properties\<close>

text \<open>C10: Provided that a key is given an object only by the thread that has reserved it, and objects are moved
  only to keys that are neither in use nor reserved, in every reachable state of the bag and its threads: a reservation counts exactly the calls that wait
  for it; one that has no owner has been handed to a thread that is awake, so no wake-up is lost; the two
  tables are inverse to each other; and a key that is reserved has no object.\<close>

theorem bag_reservations_consistent:
  assumes "bag_reachable S" and "key_reservation_lookup (bag S) k = Some r"
  shows "waiters r = size (filter_mset (\<lambda>w. w_key w = k) (waiting S)) \<and>
    (if owner r = None then (\<exists>t c. Waiter t k c True \<in># waiting S) else object_table (bag S) k = None) \<and>
    tables_inverse (bag S)"
proof -
  have "bag_inv S" by (rule bag_reachable_inv) fact
  then have "counted (bag S) (waiting S) k" "tables_inverse (bag S)" "reserved_empty (bag S)"
    by (simp_all add: bag_inv_def)
  then show ?thesis
    using assms(2) by (auto simp: counted_def on_def woken_on_def reserved_empty_def owns_def)
qed

section \<open>How a step changes owners\<close>

text \<open>Nothing but the list of reservations having one for each key is needed.\<close>

lemma lookup_live_peek: "lookup_live al B k = (B', obj) \<Longrightarrow> obj = camel_object_bag_peek al B k"
  by (auto simp: lookup_live_def camel_object_bag_peek_def weak_ref_get_def split: option.splits if_splits)

lemma resume_of_peek: "resume_of c al B t k = (B', obj, s) \<Longrightarrow> obj = camel_object_bag_peek al B k"
  by (cases c) (auto simp: resume_of_def get_resume_def reserve_resume_def Let_def camel_object_bag_peek_def
      dest!: lookup_live_peek split: prod.splits option.splits)

lemma call_of_peek: "call_of c al B t k = (B', Return obj, s) \<Longrightarrow> obj = None \<Longrightarrow> camel_object_bag_peek al B k = None"
  by (auto simp: call_of_eq Let_def dest: lookup_live_peek split: prod.splits option.splits if_splits)

lemma unreserve_owns:
  assumes "one_each B" and "object_bag_unreserve B u k = (B', s)"
  shows "one_each B' \<and> object_table B' = object_table B \<and>
    (\<forall>k' t. owns B' k' t \<longleftrightarrow> owns B k' t \<and> \<not> (k' = k \<and> t = u))"
proof (cases "owns B k u")
  case True
  then obtain r where "res B k = Some r" "owner r = Some u" by (auto simp: owns_def)
  with assms show ?thesis by (auto simp: object_bag_unreserve_def owns_def split: if_splits)
next
  case False
  then show ?thesis using assms abort_not_owner [OF False] by auto
qed

lemma lookup_live_res:
  "lookup_live al B k = (B', obj) \<Longrightarrow>
     res B' = res B \<and> one_each B' = one_each B \<and> (obj = None \<longrightarrow> object_table B' k = None)"
  by (cases "object_table B k"; cases "weak_ref_get al (the (object_table B k))")
    (fastforce simp: lookup_live_def key_reservation_lookup_def)+

lemma resume_owns:
  assumes "one_each B" and "unowned B k" and run: "resume_of c al B u k = (B', obj, s)"
  shows "one_each B' \<and>
    (\<forall>k' t. owns B' k' t \<longleftrightarrow> owns B k' t \<or> k' = k \<and> t = u \<and> c = RESERVE \<and> obj = None) \<and>
    (c = RESERVE \<and> obj = None \<longrightarrow> object_table B' k = None)"
proof -
  obtain r where r: "res B k = Some r" "owner r = None" using assms(2) by (auto simp: unowned_def)
  then have no: "\<not> owns B k t" for t by (simp add: owns_def)
  show ?thesis
  proof (cases c)
    case GET
    obtain B2 o2 where B2: "lookup_live al (drop_waiter k B) k = (B2, o2)" by fastforce
    note l = lookup_live_res [OF B2]
    have "one_each (set_owner k (Some u) B2)" using l assms(1) by simp
    moreover have "object_bag_unreserve (set_owner k (Some u) B2) u k = (B', s)"
      using run B2 by (auto simp: GET resume_of_def get_resume_def Let_def split: prod.splits)
    ultimately have "one_each B'" "\<And>k' t. owns B' k' t \<longleftrightarrow> owns (set_owner k (Some u) B2) k' t \<and> \<not> (k' = k \<and> t = u)"
      using unreserve_owns by blast+
    then show ?thesis using l r no by (auto simp: owns_def GET split: if_splits)
  next
    case RESERVE
    obtain B2 o2 where B2: "lookup_live al (drop_waiter k (set_owner k (Some u) B)) k = (B2, o2)" by fastforce
    note l = lookup_live_res [OF B2]
    have owns2: "owns B2 k' t \<longleftrightarrow> owns B k' t \<or> k' = k \<and> t = u" for k' t
      using l r by (auto simp: owns_def)
    show ?thesis
    proof (cases o2)
      case None
      then have "B' = B2" "obj = None"
        using run B2 by (auto simp: RESERVE resume_of_def reserve_resume_def Let_def)
      then show ?thesis using l owns2 RESERVE None assms(1) by simp
    next
      case (Some x)
      then have "object_bag_unreserve B2 u k = (B', s)" "obj \<noteq> None"
        using run B2 by (auto simp: RESERVE resume_of_def reserve_resume_def Let_def split: prod.splits)
      then show ?thesis using unreserve_owns [of B2] l owns2 no assms(1) by auto
    qed
  qed
qed

lemma call_owns:
  assumes "one_each B" and run: "call_of c al B u k = (B', out, s)"
  shows "one_each B' \<and> (\<forall>k' t. owns B' k' t \<longleftrightarrow> owns B k' t \<or>
      k' = k \<and> t = u \<and> c = RESERVE \<and> out = Return None \<and> (\<forall>t. \<not> owns B k t)) \<and>
    (c = RESERVE \<and> out = Return None \<longrightarrow> object_table B' k = None)"
proof -
  obtain B1 obj where B1: "lookup_live al B k = (B1, obj)" by fastforce
  note l = lookup_live_res [OF B1]
  have owns1: "owns B1 = owns B" using l by (simp add: owns_def fun_eq_iff)
  consider (live) o' where "obj = Some o'" | (none) "obj = None" "res B1 k = None"
    | (held) r where "obj = None" "res B1 k = Some r" "owner r \<noteq> None"
    | (free) r where "obj = None" "res B1 k = Some r" "owner r = None"
    by (cases obj; cases "res B1 k") auto
  then show ?thesis
  proof cases
    case live
    then show ?thesis using run B1 l owns1 assms(1) by (auto simp: call_of_eq)
  next
    case none
    then have "B' = (if c = GET then B1 else key_reservation_new B1 u k)" "out = Return None"
      using run B1 by (auto simp: call_of_eq)
    then show ?thesis using none l assms(1) by (cases c) (auto simp: owns_def split: if_splits)
  next
    case held
    then have "B' = add_waiter k B1" "out = Wait" using run B1 by (auto simp: call_of_eq)
    then show ?thesis using held l assms(1) by (auto simp: owns_def)
  next
    case free
    then obtain o2 where o2: "resume_of c al (add_waiter k B1) u k = (B', o2, s)" "out = Return o2"
      using run B1 by (auto simp: call_of_eq split: prod.splits)
    have "unowned (add_waiter k B1) k" "one_each (add_waiter k B1)" using free l assms(1) by (simp_all add: unowned_def)
    note re = resume_owns [OF this(2,1) o2(1)]
    have "owns (add_waiter k B1) = owns B" using l by (auto simp: owns_def fun_eq_iff)
    moreover have "\<not> owns B k t" for t using free l by (simp add: owns_def)
    ultimately show ?thesis using re o2(2) by auto
  qed
qed

lemma add_owns:
  assumes "one_each B" and "camel_object_bag_add al B u k obj = (B', s)"
  shows "one_each B' \<and> (\<forall>k' t. owns B' k' t \<longrightarrow> owns B k' t) \<and>
    (\<forall>k' t. owns B k' t \<and> t \<noteq> u \<longrightarrow> owns B' k' t)"
proof -
  obtain B1 found where B1: "object_in_bag al B obj = (B1, found)" by fastforce
  then have l: "res B1 = res B" "one_each B1"
    using assms(1) by (auto simp: object_in_bag_def fun_eq_iff split: option.splits)
  show ?thesis
  proof (cases found)
    case True
    then have "B' = B1" using assms(2) B1 by (simp add: camel_object_bag_add_def)
    then show ?thesis using l by (simp add: owns_def)
  next
    case False
    define B2 where "B2 = B1\<lparr>key_table := (key_table B1)(obj := Some k), object_table := (object_table B1)(k := Some obj)\<rparr>"
    have "object_bag_unreserve B2 u k = (B', s)"
      using assms(2) B1 False by (simp add: camel_object_bag_add_def B2_def)
    moreover have "one_each B2" "owns B2 = owns B" using l by (simp_all add: B2_def owns_def fun_eq_iff)
    ultimately show ?thesis using unreserve_owns [of B2] by auto
  qed
qed

lemma thread_step_owns:
  assumes step: "thread_step u S S'" and one: "one_each (bag S)"
  shows "one_each (bag S') \<and>
    (owns (bag S') k t \<longrightarrow> owns (bag S) k t \<or> t = u \<and> (\<forall>t'. \<not> owns (bag S) k t') \<and>
      camel_object_bag_peek (alive S) (bag S) k = None \<and> object_table (bag S') k = None) \<and>
    (owns (bag S) k t \<and> t \<noteq> u \<longrightarrow> owns (bag S') k t)"
  using step
proof cases
  case (any_call c j B obj signal W')
  then show ?thesis using call_owns [OF one any_call(3)] call_of_peek [OF any_call(3)] by auto
next
  case (any_wait c j B signal)
  then show ?thesis using call_owns [OF one any_wait(3)] by simp
next
  case (any_resume j c W B obj signal W')
  have "\<not> owns (bag S) j t'" for t' using any_resume(3) by (auto simp: unowned_def owns_def)
  then show ?thesis
    using any_resume(1) resume_owns [OF one any_resume(3,4)] resume_of_peek [OF any_resume(4)] by auto
next
  case (any_add j obj B signal W')
  then show ?thesis using add_owns [OF one any_add(3)] by simp
next
  case (any_abort j B signal W')
  then show ?thesis using unreserve_owns [OF one any_abort(3) [unfolded camel_object_bag_abort_def]] by simp
qed (use one in \<open>simp_all add: owns_def table_ops\<close>)

text \<open>Clients that keep to the contract are among these.\<close>

lemma bag_step_thread: "bag_step S S' \<Longrightarrow> \<exists>u. thread_step u S S'"
proof (induction rule: bag_step.induct)
  case (finish S S')
  then show ?case
    by (cases rule: finish_step.cases)
      (metis any_resume any_wake any_add any_abort idle_def)+
qed (metis any_call any_wait any_wake any_abort any_add any_rekey any_remove any_objects any_notify idle_def)+

lemma thread_reachable_one: "thread_reachable S \<Longrightarrow> one_each (bag S)"
proof (induction rule: rtranclp_induct)
  case base
  then show ?case by (simp add: one_each_def bag_start_def camel_object_bag_new_def)
next
  case (step S S')
  then show ?case using thread_step_owns by blast
qed

text \<open>C9: Reservations are exclusive whatever the threads do, also when they add or abort keys of others, change
  keys without looking or let objects die. A step of a thread \<open>u\<close> makes no other thread an owner, and makes \<open>u\<close> the
  owner of a key only if nobody owns it and no live object has it, and then no object has it; a thread other
  than \<open>u\<close> that owns a key still owns it after the step.\<close>

theorem bag_reservations_exclusive:
  assumes "thread_reachable S" and "thread_step u S S'"
  shows "(owns (bag S') k t \<longrightarrow> owns (bag S) k t \<or> t = u \<and> (\<forall>t'. \<not> owns (bag S) k t') \<and>
      camel_object_bag_peek (alive S) (bag S) k = None \<and> object_table (bag S') k = None) \<and>
    (owns (bag S) k t \<and> t \<noteq> u \<longrightarrow> owns (bag S') k t)"
  using thread_step_owns [OF assms(2) thread_reachable_one [OF assms(1)]] by blast

text \<open>C8: Waiting calls return, unless owners wait themselves. From a reachable state, the threads that are awake
  and the owners that are not waiting and add an object that is new to the bag, or abort, can make only a
  bounded number of steps, in whatever order. When none is left, then either a thread that owns a key is itself
  waiting (two owners that wait for each other's keys wait for ever), or no call waits and no key is
  reserved.\<close>

theorem bag_calls_return:
  assumes "bag_reachable S" and "(finish_step ^^ n) S S'"
  shows "n \<le> pending S \<and>
    ((\<nexists>S''. finish_step S' S'') \<and> (\<forall>k t. owns (bag S') k t \<longrightarrow> (\<forall>w \<in># waiting S'. w_thread w \<noteq> t)) \<longrightarrow>
      waiting S' = {#} \<and> camel_object_bag_destroy (bag S'))"
  using finish_steps [OF assms(2) bag_reachable_inv [OF assms(1)]] finish_stuck [of S']
  by (auto simp: camel_object_bag_destroy_def)

section \<open>Witnesses\<close>

text \<open>Thread 1 reserves a key, thread 2 asks for it and waits; thread 1 aborts, thread 2 wakes up and gets nothing.\<close>

definition example_key :: bag_key where "example_key = [0x61]"

definition example_bag :: "thread option \<Rightarrow> nat \<Rightarrow> CamelObjectBag" where
  "example_bag t n = \<lparr>key_table = Map.empty, object_table = Map.empty,
     reserved = [\<lparr>res_key = example_key, waiters = n, owner = t\<rparr>]\<rparr>"

abbreviation (input) example_waiter :: "bool \<Rightarrow> waiter" where
  "example_waiter \<equiv> Waiter 2 example_key GET"

abbreviation (input) example_state :: "thread option \<Rightarrow> waiter multiset \<Rightarrow> bag_system" where
  "example_state t W \<equiv> \<lparr>bag = example_bag t (size W), alive = {}, waiting = W\<rparr>"

lemmas example_simps = example_bag_def call_of_eq resume_of_def get_resume_def object_bag_unreserve_def
  lookup_live_def key_reservation_new_def key_reservation_lookup_def key_reservation_free_def set_owner_def
  add_waiter_def drop_waiter_def camel_object_bag_abort_def owns_def unowned_def signalled_def

lemma example_reserve: "bag_step bag_start (example_state (Some 1) {#})"
proof -
  have "call_of RESERVE {} camel_object_bag_new 1 example_key = (example_bag (Some 1) 0, Return None, False)"
    by (simp add: example_simps camel_object_bag_new_def)
  then show ?thesis
    using bag_step.call [of bag_start 1 RESERVE example_key "example_bag (Some 1) 0" None False "{#}"]
    by (simp add: bag_start_def signalled_def)
qed

lemma example_wait: "bag_step (example_state (Some 1) {#}) (example_state (Some 1) {#example_waiter False#})"
proof -
  have "call_of GET {} (example_bag (Some 1) 0) 2 example_key = (example_bag (Some 1) 1, Wait, False)"
    by (simp add: example_simps)
  then show ?thesis
    using bag_step.wait [of "example_state (Some 1) {#}" 2 GET example_key "example_bag (Some 1) 1" False] by simp
qed

lemma example_abort:
  "finish_step (example_state (Some 1) {#example_waiter False#}) (example_state None {#example_waiter True#})"
proof -
  have "camel_object_bag_abort (example_bag (Some 1) 1) 1 example_key = (example_bag None 1, True)"
    by (simp add: example_simps)
  then show ?thesis
    using finish_step.abort [of "example_state (Some 1) {#example_waiter False#}" example_key 1 "example_bag None 1" True
        "{#example_waiter True#}"]
    by (simp add: example_simps)
qed

lemma example_resume:
  "finish_step (example_state None {#example_waiter True#}) (bag_start\<lparr>waiting := {#}\<rparr>)"
proof -
  have "resume_of GET {} (example_bag None 1) 2 example_key = (camel_object_bag_new, None, False)"
    by (simp add: example_simps camel_object_bag_new_def)
  then show ?thesis
    using finish_step.resume [of "example_state None {#example_waiter True#}" 2 example_key GET "{#}"
        camel_object_bag_new None False "{#}"]
    by (simp add: example_simps bag_start_def)
qed

lemma example_reachable: "bag_reachable (example_state (Some 1) {#})"
    "bag_reachable (example_state (Some 1) {#example_waiter False#})"
  using example_reserve example_wait by (auto intro: rtranclp.rtrancl_into_rtrancl)

lemma bag_reservations_consistent_witness:
  "bag_reachable (example_state (Some 1) {#example_waiter False#}) \<and> waiters \<lparr>res_key = example_key, waiters = 1, owner = Some 1\<rparr> =
    size (filter_mset (\<lambda>w. w_key w = example_key) {#example_waiter False#})"
  using bag_reservations_consistent [OF example_reachable(2), of example_key
      "\<lparr>res_key = example_key, waiters = 1, owner = Some 1\<rparr>"] example_reachable(2)
  by (simp add: example_simps)

lemma example_thread_steps:
  "thread_step 1 bag_start (example_state (Some 1) {#})"
  "thread_step 2 (example_state (Some 1) {#}) (example_state (Some 1) {#})"
proof -
  have "call_of RESERVE {} camel_object_bag_new 1 example_key = (example_bag (Some 1) 0, Return None, False)"
    by (simp add: example_simps camel_object_bag_new_def)
  then show "thread_step 1 bag_start (example_state (Some 1) {#})"
    using thread_step.any_call [of bag_start 1 RESERVE example_key "example_bag (Some 1) 0" None False "{#}"]
    by (simp add: bag_start_def signalled_def idle_def)
  have "camel_object_bag_abort (example_bag (Some 1) 0) 2 example_key = (example_bag (Some 1) 0, False)"
    by (simp add: example_simps)
  then show "thread_step 2 (example_state (Some 1) {#}) (example_state (Some 1) {#})"
    using thread_step.any_abort [of "example_state (Some 1) {#}" 2 example_key "example_bag (Some 1) 0" False "{#}"]
    by (simp add: signalled_def idle_def)
qed

lemma bag_reservations_exclusive_witness:
  "thread_step 2 (example_state (Some 1) {#}) (example_state (Some 1) {#}) \<and> owns (example_bag (Some 1) 0) example_key 1 \<and>
    \<not> owns (example_bag (Some 1) 0) example_key 2"
proof -
  have "thread_reachable (example_state (Some 1) {#})" using example_thread_steps(1) by (auto intro: r_into_rtranclp)
  moreover have "owns (example_bag (Some 1) 0) example_key 1"
    by (simp add: owns_def example_bag_def key_reservation_lookup_def)
  ultimately show ?thesis
    using bag_reservations_exclusive [OF _ example_thread_steps(2), of example_key 1] example_thread_steps(2)
    by (auto simp: owns_def)
qed

lemma bag_calls_return_witness:
  "\<exists>S S'. bag_reachable S \<and> waiting S = {#example_waiter False#} \<and> (finish_step ^^ 2) S S' \<and> 2 \<le> pending S \<and>
    waiting S' = {#} \<and> camel_object_bag_destroy (bag S')"
proof -
  let ?S = "example_state (Some 1) {#example_waiter False#}" and ?S' = "bag_start\<lparr>waiting := {#}\<rparr>"
  have run: "(finish_step ^^ 2) ?S ?S'"
    using example_abort example_resume by (simp add: numeral_2_eq_2 relcompp_apply) blast
  have "\<not> owns (bag ?S') k t" for k t by (simp add: bag_start_def owns_def key_reservation_lookup_def camel_object_bag_new_def)
  moreover have "\<nexists>S''. finish_step ?S' S''"
    using calculation by (auto simp: bag_start_def elim: finish_step.cases)
  ultimately show ?thesis using bag_calls_return [OF example_reachable(2) run] run example_reachable(2)
    by (intro exI [of _ ?S] exI [of _ ?S']) simp
qed

end
