(* ===== verification/Camel_Trie.thy ===== *)
theory Camel_Trie
  imports EDS_Prelude "HOL-Library.Sublist" "HOL-Library.Word"
begin

unbundle bit_operations_syntax

text \<open>
  \<^verbatim>\<open>src/src/camel/camel-trie.c\<close>: the Aho-Corasick automaton with which the URL scanner looks for several
  patterns at once.

  The states are records in a store, a pointer to a state is a number, the root is \<open>0\<close>. The list of
  transitions of a state (\<^verbatim>\<open>match\<close>) and the chains of states of equal depth (\<^verbatim>\<open>next\<close>, from the array
  \<^verbatim>\<open>fail_states\<close>) are lists, newest first. A position in the text is a number of bytes from its start.
  \<^verbatim>\<open>g_unichar_tolower\<close> is a parameter. Memory chunks are left out.
\<close>

section \<open>States\<close>

type_synonym gunichar = "32 word"
type_synonym state_ptr = nat

record trie_state =
  fail :: "state_ptr option"
  match :: "(gunichar \<times> state_ptr) list"
  final :: nat
  id' :: int

record CamelTrie =
  states :: "state_ptr \<Rightarrow> trie_state"
  fail_states :: "state_ptr list list"
  icase :: bool
  next_state :: state_ptr

definition camel_trie_new :: "bool \<Rightarrow> CamelTrie" where
  "camel_trie_new ic =
     \<lparr>states = (\<lambda>p. \<lparr>fail = None, match = [], final = 0, id' = 0\<rparr>), fail_states = [], icase = ic, next_state = 1\<rparr>"

section \<open>Reading a character\<close>

text \<open>The bytes are those up to the end that \<^verbatim>\<open>inlen\<close> gives, or before the NUL. At the end, and in a
  sequence that the end cuts, the result is \<open>0\<close> and the pointer stays.\<close>

fun getc_tail :: "byte \<Rightarrow> gunichar \<Rightarrow> gunichar \<Rightarrow> byte list \<Rightarrow> byte list \<Rightarrow> gunichar \<times> byte list" where
  "getc_tail r u m start [] = (0, start)"
| "getc_tail r u m start (c # inptr) =
     (if c AND 0xc0 \<noteq> 0x80 then (0xfffe, tl start)
      else
        (let u = push_bit 6 u OR (ucast c AND 0x3f);
             r = push_bit 1 r;
             m = push_bit 5 m
         in if r AND 0x40 \<noteq> 0 then getc_tail r u m start inptr else (u AND NOT m, inptr)))"

definition trie_utf8_getc :: "byte list \<Rightarrow> gunichar \<times> byte list" where
  "trie_utf8_getc start =
     (case start of
        [] \<Rightarrow> (0, [])
      | r # inptr \<Rightarrow>
          if r < 0x80 then (ucast r, inptr)
          else if r < 0xfe then getc_tail r (ucast r) 0x7f80 start inptr
          else (0xfffe, inptr))"

lemma getc_tail_shrinks:
  "length inptr < length start \<Longrightarrow> fst (getc_tail r u m start inptr) \<noteq> 0 \<Longrightarrow>
     length (snd (getc_tail r u m start inptr)) < length start"
  by (induction r u m start inptr rule: getc_tail.induct) (auto simp: Let_def split: if_splits)

lemma trie_getc_shrinks:
  "fst (trie_utf8_getc start) \<noteq> 0 \<Longrightarrow> length (snd (trie_utf8_getc start)) < length start"
  using getc_tail_shrinks [of "tl start" start]
  by (cases start) (auto simp: trie_utf8_getc_def split: if_splits)

lemma trie_getc_rest_shorter: "(c, rest) = trie_utf8_getc start \<Longrightarrow> c \<noteq> 0 \<Longrightarrow> length rest < length start"
  using trie_getc_shrinks [of start] by (metis fst_conv snd_conv)

section \<open>Adding a pattern\<close>

definition g :: "CamelTrie \<Rightarrow> state_ptr \<Rightarrow> gunichar \<Rightarrow> state_ptr option" where
  "g trie s c = map_of (match (states trie s)) c"

definition trie_insert :: "CamelTrie \<Rightarrow> nat \<Rightarrow> state_ptr \<Rightarrow> gunichar \<Rightarrow> CamelTrie \<times> state_ptr" where
  "trie_insert trie depth q c =
     (let n = next_state trie;
          st = states trie;
          st = st(q := (st q)\<lparr>match := (c, n) # match (st q)\<rparr>);
          st = st(n := \<lparr>fail = Some 0, match = [], final = 0, id' = -1\<rparr>);
          fs = fail_states trie;
          fs = (if length fs < depth + 1 then fs @ replicate (max (length fs + 64) (depth + 1) - length fs) []
                else fs)
      in (trie\<lparr>states := st, fail_states := fs[depth := n # fs ! depth], next_state := n + 1\<rparr>, n))"

text \<open>Step 1 of \<^verbatim>\<open>camel_trie_add\<close>.\<close>

function add_path ::
    "(gunichar \<Rightarrow> gunichar) \<Rightarrow> CamelTrie \<Rightarrow> nat \<Rightarrow> state_ptr \<Rightarrow> byte list \<Rightarrow> CamelTrie \<times> nat \<times> state_ptr" where
  "add_path tolower trie depth q inptr =
     (let (c, rest) = trie_utf8_getc inptr in
      if c = 0 then (trie, depth, q)
      else
        (let c = (if icase trie then tolower c else c);
             (trie, q) = (case g trie q c of
                            None \<Rightarrow> trie_insert trie depth q c
                          | Some s \<Rightarrow> (trie, s))
         in add_path tolower trie (depth + 1) q rest))"
  by pat_completeness auto
termination
  by (relation "measure (\<lambda>(l, t, d, q, i). length i)") (auto dest: trie_getc_rest_shorter)

declare add_path.simps [simp del]

text \<open>\<^verbatim>\<open>while (r && (n = g (r, c)) == NULL) r = r->fail\<close>: the state with a transition, and where it leads.\<close>

partial_function (option) climb ::
    "CamelTrie \<Rightarrow> state_ptr option \<Rightarrow> gunichar \<Rightarrow> (state_ptr \<times> state_ptr) option option" where
  "climb trie r c =
     (case r of
        None \<Rightarrow> Some None
      | Some p \<Rightarrow>
          (case g trie p c of
             None \<Rightarrow> climb trie (fail (states trie p)) c
           | Some n \<Rightarrow> Some (Some (p, n))))"

declare climb.simps [code]

text \<open>Step 2: the failure edge of one transition, of all transitions of a state, of the states of one depth,
  of all depths.\<close>

definition set_state :: "CamelTrie \<Rightarrow> state_ptr \<Rightarrow> trie_state \<Rightarrow> CamelTrie" where
  "set_state trie p s = trie\<lparr>states := (states trie)(p := s)\<rparr>"

definition fail_edge :: "CamelTrie \<Rightarrow> state_ptr \<Rightarrow> gunichar \<times> state_ptr \<Rightarrow> CamelTrie option" where
  "fail_edge trie q m =
     (let (c, q1) = m in
      case climb trie (fail (states trie q)) c of
        None \<Rightarrow> None
      | Some (Some (r, n)) \<Rightarrow>
          (let trie = set_state trie q1 ((states trie q1)\<lparr>fail := Some n\<rparr>)
           in Some (if final (states trie n) > final (states trie q1)
                    then set_state trie q1 ((states trie q1)\<lparr>final := final (states trie n)\<rparr>) else trie))
      | Some None \<Rightarrow>
          (case g trie 0 c of
             Some n \<Rightarrow> Some (set_state trie q1 ((states trie q1)\<lparr>fail := Some n\<rparr>))
           | None \<Rightarrow> Some (set_state trie q1 ((states trie q1)\<lparr>fail := Some 0\<rparr>))))"

fun fail_edges :: "CamelTrie \<Rightarrow> state_ptr \<Rightarrow> (gunichar \<times> state_ptr) list \<Rightarrow> CamelTrie option" where
  "fail_edges trie q [] = Some trie"
| "fail_edges trie q (m # ms) = Option.bind (fail_edge trie q m) (\<lambda>trie. fail_edges trie q ms)"

fun fail_chain :: "CamelTrie \<Rightarrow> state_ptr list \<Rightarrow> CamelTrie option" where
  "fail_chain trie [] = Some trie"
| "fail_chain trie (q # qs) =
     Option.bind (fail_edges trie q (match (states trie q))) (\<lambda>trie. fail_chain trie qs)"

fun fail_depths :: "CamelTrie \<Rightarrow> state_ptr list list \<Rightarrow> CamelTrie option" where
  "fail_depths trie [] = Some trie"
| "fail_depths trie (qs # qss) = Option.bind (fail_chain trie qs) (\<lambda>trie. fail_depths trie qss)"

definition camel_trie_add ::
    "(gunichar \<Rightarrow> gunichar) \<Rightarrow> CamelTrie \<Rightarrow> byte list \<Rightarrow> int \<Rightarrow> CamelTrie option" where
  "camel_trie_add tolower trie pattern pattern_id =
     (let (trie, depth, q) = add_path tolower trie 0 0 pattern;
          trie = set_state trie q ((states trie q)\<lparr>final := depth, id' := pattern_id\<rparr>)
      in fail_depths trie (fail_states trie))"

section \<open>Search\<close>

text \<open>\<open>buf\<close> is the text from \<^verbatim>\<open>inptr\<close>, \<open>buflen\<close> the length of all of it, \<open>prev\<close> and \<open>pat\<close> are positions. A match is
  its position and the id of the state.\<close>

definition trie_search_step ::
    "(gunichar \<Rightarrow> gunichar) \<Rightarrow> CamelTrie \<Rightarrow> nat \<Rightarrow> state_ptr \<Rightarrow> nat \<Rightarrow> nat \<Rightarrow> gunichar \<Rightarrow> byte list \<Rightarrow>
       (state_ptr \<times> nat \<times> (nat \<times> int) option) option" where
  "trie_search_step tolower trie buflen q prev pat c rest =
     (let c = (if icase trie then tolower c else c) in
      case climb trie (Some q) c of
        None \<Rightarrow> None
      | Some None \<Rightarrow> Some (0, buflen - length rest, None)
      | Some (Some (r, n)) \<Rightarrow>
          (let pat = (if r = 0 then prev else pat)
           in Some (n, pat, if final (states trie n) \<noteq> 0 then Some (pat, id' (states trie n)) else None)))"

function trie_search_loop ::
    "(gunichar \<Rightarrow> gunichar) \<Rightarrow> CamelTrie \<Rightarrow> nat \<Rightarrow> state_ptr \<Rightarrow> nat \<Rightarrow> nat \<Rightarrow> byte list \<Rightarrow> (nat \<times> int) option option" where
  "trie_search_loop tolower trie buflen q prev pat buf =
     (let (c, rest) = trie_utf8_getc buf in
      if c = 0 then Some None
      else if c = 0xfffe then trie_search_loop tolower trie buflen q (buflen - length rest) pat rest
      else
        (case trie_search_step tolower trie buflen q prev pat c rest of
           None \<Rightarrow> None
         | Some (q, pat, Some found) \<Rightarrow> Some (Some found)
         | Some (q, pat, None) \<Rightarrow> trie_search_loop tolower trie buflen q (buflen - length rest) pat rest))"
  by pat_completeness auto
termination
  by (relation "measure (\<lambda>(l, t, s, q, v, p, b). length b)") (auto dest: trie_getc_rest_shorter)

declare trie_search_loop.simps [simp del]

definition camel_trie_search ::
    "(gunichar \<Rightarrow> gunichar) \<Rightarrow> CamelTrie \<Rightarrow> byte list \<Rightarrow> (nat \<times> int) option option" where
  "camel_trie_search tolower trie buffer = trie_search_loop tolower trie (length buffer) 0 0 0 buffer"

section \<open>The words of the states\<close>

text \<open>\<open>wd p\<close> is the word that leads from the root to \<open>p\<close>.\<close>

type_synonym wording = "state_ptr \<Rightarrow> gunichar list"

definition word_in :: "wording \<Rightarrow> CamelTrie \<Rightarrow> gunichar list \<Rightarrow> bool" where
  "word_in wd T w \<longleftrightarrow> (\<exists>p<next_state T. wd p = w)"

definition shape :: "wording \<Rightarrow> CamelTrie \<Rightarrow> bool" where
  "shape wd T \<longleftrightarrow> 0 < next_state T \<and> wd 0 = [] \<and> inj_on wd {..<next_state T} \<and>
     (\<forall>p<next_state T. distinct (map fst (match (states T p)))) \<and>
     (\<forall>p<next_state T. \<forall>c n. g T p c = Some n \<longrightarrow> n < next_state T \<and> wd n = wd p @ [c]) \<and>
     (\<forall>n<next_state T. \<forall>w c. wd n = w @ [c] \<longrightarrow> (\<exists>p<next_state T. wd p = w \<and> g T p c = Some n)) \<and>
     (\<forall>d<length (fail_states T). set (fail_states T ! d) = {p. p < next_state T \<and> length (wd p) = Suc d}) \<and>
     (\<forall>p<next_state T. length (wd p) \<le> length (fail_states T))"

lemma shapeD:
  assumes "shape wd T"
  shows "0 < next_state T" "wd 0 = []"
    and "p < next_state T \<Longrightarrow> q < next_state T \<Longrightarrow> wd p = wd q \<Longrightarrow> p = q"
    and "p < next_state T \<Longrightarrow> distinct (map fst (match (states T p)))"
    and "p < next_state T \<Longrightarrow> g T p c = Some n \<Longrightarrow> n < next_state T \<and> wd n = wd p @ [c]"
    and "n < next_state T \<Longrightarrow> wd n = w @ [c] \<Longrightarrow> \<exists>p<next_state T. wd p = w \<and> g T p c = Some n"
    and "d < length (fail_states T) \<Longrightarrow> set (fail_states T ! d) = {p. p < next_state T \<and> length (wd p) = Suc d}"
    and "p < next_state T \<Longrightarrow> length (wd p) \<le> length (fail_states T)"
  using assms by (auto simp: shape_def inj_on_def)

lemma g_match: "shape wd T \<Longrightarrow> p < next_state T \<Longrightarrow> (c, n) \<in> set (match (states T p)) \<Longrightarrow> g T p c = Some n"
  by (simp add: g_def shapeD(4))

lemma word_in_prefix: "shape wd T \<Longrightarrow> word_in wd T (w @ [c]) \<Longrightarrow> word_in wd T w"
  unfolding word_in_def using shapeD(6) by metis

text \<open>A failure edge leads to the longest proper suffix that is a word, and the state knows the longest pattern
  that ends there.\<close>

definition good :: "wording \<Rightarrow> gunichar list set \<Rightarrow> CamelTrie \<Rightarrow> state_ptr \<Rightarrow> bool" where
  "good wd P T p \<longleftrightarrow>
     (p \<noteq> 0 \<longrightarrow> (\<exists>f<next_state T. fail (states T p) = Some f \<and> strict_suffix (wd f) (wd p) \<and>
        (\<forall>u. word_in wd T u \<and> strict_suffix u (wd p) \<longrightarrow> length u \<le> length (wd f)))) \<and>
     (\<forall>u\<in>P. u \<noteq> [] \<and> suffix u (wd p) \<longrightarrow> length u \<le> final (states T p))"

definition good_upto :: "wording \<Rightarrow> gunichar list set \<Rightarrow> CamelTrie \<Rightarrow> nat \<Rightarrow> bool" where
  "good_upto wd P T d \<longleftrightarrow> (\<forall>p<next_state T. length (wd p) \<le> d \<longrightarrow> good wd P T p)"

definition trie_inv :: "wording \<Rightarrow> gunichar list set \<Rightarrow> CamelTrie \<Rightarrow> bool" where
  "trie_inv wd P T \<longleftrightarrow> shape wd T \<and> fail (states T 0) = None \<and>
     (\<forall>p<next_state T. length (wd p) = 1 \<longrightarrow> fail (states T p) = Some 0) \<and>
     (\<forall>p<next_state T. final (states T p) \<noteq> 0 \<longrightarrow>
        (\<exists>u\<in>P. u \<noteq> [] \<and> suffix u (wd p) \<and> final (states T p) = length u)) \<and>
     (\<forall>u\<in>P. u \<noteq> [] \<longrightarrow> (\<exists>p<next_state T. wd p = u \<and> final (states T p) = length u))"

section \<open>Following failure edges\<close>

text \<open>From a state whose word is a suffix of the text \<open>x\<close>, and at least as long as every suffix that \<open>c\<close> extends to a
  word, the loop finds the longest of these.\<close>

definition extends_upto :: "wording \<Rightarrow> CamelTrie \<Rightarrow> gunichar list \<Rightarrow> gunichar \<Rightarrow> nat \<Rightarrow> bool" where
  "extends_upto wd T x c k \<longleftrightarrow> (\<forall>u. suffix u x \<and> word_in wd T (u @ [c]) \<longrightarrow> length u \<le> k)"

lemma climb_finds:
  assumes "shape wd T" and "fail (states T 0) = None" and "good_upto wd P T (length (wd r))"
    and "r < next_state T" and "suffix (wd r) x" and "extends_upto wd T x c (length (wd r))"
  shows "(\<exists>p n. climb T (Some r) c = Some (Some (p, n)) \<and> p < next_state T \<and> g T p c = Some n \<and> suffix (wd p) x \<and>
      extends_upto wd T x c (length (wd p))) \<or>
    climb T (Some r) c = Some None \<and> (\<forall>u. suffix u x \<longrightarrow> \<not> word_in wd T (u @ [c]))"
  using assms(3-)
proof (induction "length (wd r)" arbitrary: r rule: less_induct)
  case less
  have eq: "climb T (Some r) c = (case g T r c of None \<Rightarrow> climb T (fail (states T r)) c | Some n \<Rightarrow> Some (Some (r, n)))"
    by (subst climb.simps) simp
  show ?case
  proof (cases "g T r c")
    case (Some n)
    then show ?thesis using eq less.prems by auto
  next
    case None
    have no: "\<not> word_in wd T (wd r @ [c])"
    proof
      assume "word_in wd T (wd r @ [c])"
      then obtain n where "n < next_state T" "wd n = wd r @ [c]" by (auto simp: word_in_def)
      then obtain p where "p < next_state T" "wd p = wd r" "g T p c = Some n" using shapeD(6) [OF assms(1)] by blast
      then show False using shapeD(3) [OF assms(1), of p r] less.prems(2) None by simp
    qed
    show ?thesis
    proof (cases "r = 0")
      case True
      then have "climb T (Some r) c = Some None" using eq None assms(2) by (simp add: climb.simps)
      moreover have "\<not> word_in wd T (u @ [c])" if "suffix u x" for u
        using that less.prems(4) no True shapeD(2) [OF assms(1)] by (auto simp: extends_upto_def)
      ultimately show ?thesis by blast
    next
      case False
      have "good wd P T r" using less.prems(1,2) by (simp add: good_upto_def)
      then obtain f where f: "f < next_state T" "fail (states T r) = Some f" "strict_suffix (wd f) (wd r)"
          "\<And>u. word_in wd T u \<Longrightarrow> strict_suffix u (wd r) \<Longrightarrow> length u \<le> length (wd f)"
        using False by (auto simp: good_def)
      have shorter: "length (wd f) < length (wd r)" using f(3) by (rule suffix_length_less)
      have "extends_upto wd T x c (length (wd f))"
        unfolding extends_upto_def
      proof (intro allI impI, elim conjE)
        fix u assume u: "suffix u x" "word_in wd T (u @ [c])"
        then have "length u \<le> length (wd r)" using less.prems(4) by (auto simp: extends_upto_def)
        then have "suffix u (wd r)" using suffix_length_suffix [OF u(1) less.prems(3)] by blast
        moreover have "u \<noteq> wd r" using u(2) no by auto
        ultimately show "length u \<le> length (wd f)"
          using f(4) word_in_prefix [OF assms(1) u(2)] by (auto simp: strict_suffix_def)
      qed
      moreover have "suffix (wd f) x" using f(3) less.prems(3) by (auto simp: strict_suffix_def intro: suffix_order.trans)
      moreover have "good_upto wd P T (length (wd f))" using less.prems(1) shorter by (simp add: good_upto_def)
      ultimately show ?thesis using less.hyps [OF shorter _ f(1)] eq None f(2) by simp
    qed
  qed
qed

section \<open>Computing the failure edges\<close>

text \<open>What step 2 leaves alone, and that it only improves states.\<close>

definition same_paths :: "CamelTrie \<Rightarrow> CamelTrie \<Rightarrow> bool" where
  "same_paths T T' \<longleftrightarrow> next_state T' = next_state T \<and> fail_states T' = fail_states T \<and> icase T' = icase T \<and>
     (\<forall>p. match (states T' p) = match (states T p) \<and> id' (states T' p) = id' (states T p))"

definition improves :: "wording \<Rightarrow> gunichar list set \<Rightarrow> CamelTrie \<Rightarrow> CamelTrie \<Rightarrow> bool" where
  "improves wd P T T' \<longleftrightarrow> same_paths T T' \<and> (\<forall>p<next_state T. good wd P T p \<longrightarrow> good wd P T' p)"

lemma same_pathsD:
  "same_paths T T' \<Longrightarrow> next_state T' = next_state T" "same_paths T T' \<Longrightarrow> fail_states T' = fail_states T"
  "same_paths T T' \<Longrightarrow> match (states T' p) = match (states T p)" "same_paths T T' \<Longrightarrow> g T' = g T"
  "same_paths T T' \<Longrightarrow> word_in wd T' = word_in wd T" "same_paths T T' \<Longrightarrow> shape wd T' = shape wd T"
  by (simp_all add: same_paths_def g_def word_in_def shape_def fun_eq_iff)

lemma improves_refl: "improves wd P T T"
  by (simp add: improves_def same_paths_def)

lemma improves_trans: "improves wd P T T' \<Longrightarrow> improves wd P T' T'' \<Longrightarrow> improves wd P T T''"
  by (simp add: improves_def same_paths_def)

lemma improves_upto: "improves wd P T T' \<Longrightarrow> good_upto wd P T d \<Longrightarrow> good_upto wd P T' d"
  by (auto simp: improves_def good_upto_def same_pathsD(1))

lemma improves_match: "improves wd P T T' \<Longrightarrow> match (states T' p) = match (states T p)"
  by (simp add: improves_def same_paths_def)

text \<open>One transition \<open>c\<close> from \<open>q\<close> to \<open>q1\<close>.\<close>

lemma fail_edge_improves:
  assumes inv: "trie_inv wd P T" and upto: "good_upto wd P T (length (wd q))"
    and q: "q < next_state T" "q \<noteq> 0" and m: "(c, q1) \<in> set (match (states T q))"
  shows "\<exists>T'. fail_edge T q (c, q1) = Some T' \<and> trie_inv wd P T' \<and> improves wd P T T' \<and> good wd P T' q1"
proof -
  have sh: "shape wd T" and f0: "fail (states T 0) = None"
    and snd: "\<And>p. p < next_state T \<Longrightarrow> final (states T p) \<noteq> 0 \<Longrightarrow>
        \<exists>u\<in>P. u \<noteq> [] \<and> suffix u (wd p) \<and> final (states T p) = length u"
    and own: "\<And>u. u \<in> P \<Longrightarrow> u \<noteq> [] \<Longrightarrow> \<exists>p<next_state T. wd p = u \<and> final (states T p) = length u"
    using inv by (simp_all add: trie_inv_def)
  have q1: "q1 < next_state T" "wd q1 = wd q @ [c]"
    using shapeD(5) [OF sh q(1) g_match [OF sh q(1) m]] by simp_all
  have "good wd P T q" using upto q(1) by (simp add: good_upto_def)
  then obtain f where f: "f < next_state T" "fail (states T q) = Some f" "strict_suffix (wd f) (wd q)"
      "\<And>u. word_in wd T u \<Longrightarrow> strict_suffix u (wd q) \<Longrightarrow> length u \<le> length (wd f)"
    using q(2) by (auto simp: good_def)
  have shorter: "length (wd f) < length (wd q)" using f(3) by (rule suffix_length_less)
  have ext: "extends_upto wd T (wd f) c (length (wd f))" by (auto simp: extends_upto_def dest: suffix_length_le)
  have "good_upto wd P T (length (wd f))" using upto shorter by (simp add: good_upto_def)
  note climb = climb_finds [OF sh f0 this f(1) suffix_order.refl ext]
  \<comment> \<open>the longest proper suffix of \<open>wd q1\<close> that is a word, as a state, and the loop's result\<close>
  obtain n where n: "n < next_state T" "strict_suffix (wd n) (wd q1)"
      "\<And>u. word_in wd T u \<Longrightarrow> strict_suffix u (wd q1) \<Longrightarrow> length u \<le> length (wd n)"
      "fail_edge T q (c, q1) = Some (set_state T q1 ((states T q1)\<lparr>fail := Some n,
          final := max (final (states T q1)) (final (states T n))\<rparr>))"
  proof -
    have suf: "suffix u (wd f)" "length u < length (wd q)" if "word_in wd T (u @ [c])" "strict_suffix (u @ [c]) (wd q1)" for u
    proof -
      have "suffix u (wd q)" "u \<noteq> wd q" using that(2) by (auto simp: strict_suffix_def q1(2))
      then have s: "strict_suffix u (wd q)" by (simp add: strict_suffix_def)
      then have "length u \<le> length (wd f)" using f(4) word_in_prefix [OF sh that(1)] by blast
      then show "suffix u (wd f)" using s f(3) suffix_length_suffix by (auto simp: strict_suffix_def)
      show "length u < length (wd q)" using s by (rule suffix_length_less)
    qed
    have split: "u = [] \<or> (\<exists>v. u = v @ [c])" if "strict_suffix u (wd q1)" for u
      using that by (auto simp: strict_suffix_def q1(2))
    from climb show ?thesis
    proof (elim disjE exE conjE)
      fix p n assume c: "climb T (Some f) c = Some (Some (p, n))" "p < next_state T" "g T p c = Some n"
        "suffix (wd p) (wd f)" "extends_upto wd T (wd f) c (length (wd p))"
      have n: "n < next_state T" "wd n = wd p @ [c]" using shapeD(5) [OF sh c(2,3)] by simp_all
      have "suffix (wd p) (wd q)" "length (wd p) < length (wd q)"
        using c(4) f(3) shorter suffix_length_le [OF c(4)] by (auto simp: strict_suffix_def intro: suffix_order.trans)
      then have st: "strict_suffix (wd n) (wd q1)" by (auto simp: strict_suffix_def n(2) q1(2))
      have "length u \<le> length (wd n)" if "word_in wd T u" "strict_suffix u (wd q1)" for u
        using split [OF that(2)] suf that c(5) by (auto simp: extends_upto_def n(2))
      moreover have "n \<noteq> q1" using st by (auto simp: strict_suffix_def)
      then have "fail_edge T q (c, q1) = Some (set_state T q1 ((states T q1)\<lparr>fail := Some n,
          final := max (final (states T q1)) (final (states T n))\<rparr>))"
        using c(1) f(2) by (auto simp: fail_edge_def Let_def set_state_def max_def)
      ultimately show ?thesis using n(1) st by (intro that) auto
    next
      assume c: "climb T (Some f) c = Some None" "\<forall>u. suffix u (wd f) \<longrightarrow> \<not> word_in wd T (u @ [c])"
      have "g T 0 c = None"
      proof (rule ccontr)
        assume "g T 0 c \<noteq> None"
        then obtain n where "g T 0 c = Some n" by blast
        then have "word_in wd T ([] @ [c])" using shapeD(5) [OF sh shapeD(1) [OF sh]] shapeD(2) [OF sh]
          by (auto simp: word_in_def)
        then show False using c(2) by (metis Nil_suffix)
      qed
      moreover have "final (states T 0) = 0" using snd [OF shapeD(1) [OF sh]] shapeD(2) [OF sh] by auto
      ultimately have "fail_edge T q (c, q1) = Some (set_state T q1 ((states T q1)\<lparr>fail := Some 0,
          final := max (final (states T q1)) (final (states T 0))\<rparr>))"
        using c(1) f(2) by (simp add: fail_edge_def Let_def set_state_def)
      moreover have "length u \<le> length (wd 0)" if "word_in wd T u" "strict_suffix u (wd q1)" for u
        using split [OF that(2)] suf that c(2) by auto
      ultimately show ?thesis
        using shapeD(1,2) [OF sh] q1(2) by (intro that [of 0]) (auto simp: strict_suffix_def)
    qed
  qed
  define T' where "T' = set_state T q1 ((states T q1)\<lparr>fail := Some n, final := max (final (states T q1)) (final (states T n))\<rparr>)"
  have sp: "same_paths T T'" by (simp add: T'_def same_paths_def set_state_def)
  have fin: "final (states T' p) = (if p = q1 then max (final (states T q1)) (final (states T n)) else final (states T p))"
    and fl: "fail (states T' p) = (if p = q1 then Some n else fail (states T p))" for p
    by (simp_all add: T'_def set_state_def)
  have len: "length (wd n) < length (wd q1)" using n(2) by (rule suffix_length_less)
  have "length (wd q) \<noteq> 0" using q shapeD(2,3) [OF sh] by (metis length_0_conv shapeD(1) [OF sh])
  then have d1: "length (wd q1) \<noteq> 1" using q1(2) by simp
  have q10: "q1 \<noteq> 0"
    using q1(2) shapeD(2) [OF sh] by (metis append_is_Nil_conv not_Cons_self2)
  have goodn: "good wd P T n" using upto n(1) len q1(2) by (simp add: good_upto_def)
  have words: "word_in wd T' = word_in wd T" "shape wd T'" "next_state T' = next_state T"
    using same_pathsD(1,5,6) [OF sp] sh by simp_all
  have "length u \<le> max (final (states T q1)) (final (states T n))" if u: "u \<in> P" "u \<noteq> []" "suffix u (wd q1)" for u
  proof -
    obtain p where p: "p < next_state T" "wd p = u" "final (states T p) = length u" using own [OF u(1,2)] by blast
    show ?thesis
    proof (cases "u = wd q1")
      case True
      then show ?thesis using p shapeD(3) [OF sh p(1) q1(1)] by simp
    next
      case False
      then have "strict_suffix u (wd q1)" using u(3) by (simp add: strict_suffix_def)
      then have "length u \<le> length (wd n)" using n(3) p(1,2) by (auto simp: word_in_def)
      then have "suffix u (wd n)" using u(3) n(2) suffix_length_suffix by (auto simp: strict_suffix_def)
      then show ?thesis using goodn u(1,2) by (fastforce simp: good_def)
    qed
  qed
  then have good1: "good wd P T' q1" using n(1-3) by (auto simp: good_def fin fl words)
  have "length (wd q1) > final (states T n)"
    using snd [OF n(1)] len by (cases "final (states T n) = 0") (use len in \<open>auto dest!: suffix_length_le\<close>)
  then have "\<exists>p<next_state T. wd p = u \<and> final (states T' p) = length u" if "u \<in> P" "u \<noteq> []" for u
    using own [OF that] by (auto simp: fin)
  moreover have "\<exists>u\<in>P. u \<noteq> [] \<and> suffix u (wd p) \<and> final (states T' p) = length u"
    if "p < next_state T" "final (states T' p) \<noteq> 0" for p
  proof (cases "p = q1 \<and> final (states T q1) < final (states T n)")
    case True
    then obtain u where "u \<in> P" "u \<noteq> []" "suffix u (wd n)" "final (states T n) = length u" using snd [OF n(1)] by auto
    moreover have "final (states T' p) = final (states T n)" "suffix (wd n) (wd p)"
      using True n(2) fin [of p] by (simp_all add: strict_suffix_def)
    ultimately show ?thesis using suffix_order.trans by metis
  next
    case False
    then have "final (states T' p) = final (states T p)" by (auto simp: fin max_def)
    then show ?thesis using snd [OF that(1)] that(2) by simp
  qed
  ultimately have "trie_inv wd P T'"
    using inv words q10 d1 by (auto simp: trie_inv_def fl)
  moreover have "improves wd P T T'"
    using sp good1 by (auto simp: improves_def good_def fin fl words)
  ultimately show ?thesis using n(4) good1 unfolding T'_def [symmetric] by blast
qed

text \<open>All transitions of a state, and all states of one depth.\<close>

lemma fail_edges_improve:
  assumes "trie_inv wd P T" and "good_upto wd P T (length (wd q))" and "q < next_state T" and "q \<noteq> 0"
    and "set ms \<subseteq> set (match (states T q))"
  shows "\<exists>T'. fail_edges T q ms = Some T' \<and> trie_inv wd P T' \<and> improves wd P T T' \<and>
    (\<forall>(c, n)\<in>set ms. good wd P T' n)"
  using assms
proof (induction ms arbitrary: T)
  case Nil
  then show ?case by (simp add: improves_refl)
next
  case (Cons m ms)
  obtain c n where m: "m = (c, n)" by fastforce
  then obtain T1 where T1: "fail_edge T q m = Some T1" "trie_inv wd P T1" "improves wd P T T1" "good wd P T1 n"
    using fail_edge_improves [OF Cons.prems(1-4), of c n] Cons.prems(5) by auto
  have same: "next_state T1 = next_state T" "match (states T1 q) = match (states T q)"
    using T1(3) same_pathsD by (auto simp: improves_def)
  obtain T2 where T2: "fail_edges T1 q ms = Some T2" "trie_inv wd P T2" "improves wd P T1 T2"
      "\<forall>(c, n)\<in>set ms. good wd P T2 n"
    using Cons.IH [OF T1(2) improves_upto [OF T1(3) Cons.prems(2)]] Cons.prems(3-5) same by auto
  have "shape wd T" using Cons.prems(1) by (simp add: trie_inv_def)
  then have "n < next_state T"
    using Cons.prems(3,5) g_match [of wd T q c n] shapeD(5) [of wd T q c n] m by auto
  then have "good wd P T2 n" using T1(4) T2(3) same by (simp add: improves_def)
  then show ?case
    using T1(1) T2 improves_trans [OF T1(3) T2(3)] by (auto simp: m)
qed

lemma fail_chain_improves:
  assumes "trie_inv wd P T" and "good_upto wd P T d" and "0 < d"
    and "\<And>q. q \<in> set qs \<Longrightarrow> q < next_state T \<and> length (wd q) = d"
  shows "\<exists>T'. fail_chain T qs = Some T' \<and> trie_inv wd P T' \<and> improves wd P T T' \<and>
    (\<forall>q\<in>set qs. \<forall>(c, n)\<in>set (match (states T q)). good wd P T' n)"
  using assms
proof (induction qs arbitrary: T)
  case Nil
  then show ?case by (simp add: improves_refl)
next
  case (Cons q qs)
  have sh: "shape wd T" using Cons.prems(1) by (simp add: trie_inv_def)
  have q: "q < next_state T" "length (wd q) = d" using Cons.prems(4) by simp_all
  then have "q \<noteq> 0" using Cons.prems(3) shapeD(2) [OF sh] by (metis less_numeral_extra(3) list.size(3))
  then obtain T1 where T1: "fail_edges T q (match (states T q)) = Some T1" "trie_inv wd P T1" "improves wd P T T1"
      "\<forall>(c, n)\<in>set (match (states T q)). good wd P T1 n"
    using fail_edges_improve [OF Cons.prems(1) _ q(1), of "match (states T q)"] Cons.prems(2) q(2) by auto
  have same: "next_state T1 = next_state T" "\<And>p. match (states T1 p) = match (states T p)"
    using T1(3) same_pathsD by (auto simp: improves_def)
  obtain T2 where T2: "fail_chain T1 qs = Some T2" "trie_inv wd P T2" "improves wd P T1 T2"
      "\<forall>q\<in>set qs. \<forall>(c, n)\<in>set (match (states T q)). good wd P T2 n"
    using Cons.IH [OF T1(2) improves_upto [OF T1(3) Cons.prems(2)] Cons.prems(3)] Cons.prems(4) same by auto
  have "good wd P T2 n" if "(c, n) \<in> set (match (states T q))" for c n
  proof -
    have "n < next_state T1" using g_match [OF sh q(1) that] shapeD(5) [OF sh q(1)] same(1) by auto
    then show ?thesis using T1(4) T2(3) that by (auto simp: improves_def)
  qed
  then show ?case
    using T1(1) T2 improves_trans [OF T1(3) T2(3)] by auto
qed

text \<open>All depths from \<open>i\<close> on.\<close>

lemma fail_depths_improve:
  assumes "trie_inv wd P T" and "good_upto wd P T (Suc i)" and "qss = drop i (fail_states T)"
  shows "\<exists>T'. fail_depths T qss = Some T' \<and> trie_inv wd P T' \<and> improves wd P T T' \<and>
    (\<forall>p<next_state T. good wd P T' p)"
  using assms
proof (induction qss arbitrary: T i)
  case Nil
  have "shape wd T" using Nil.prems(1) by (simp add: trie_inv_def)
  then have "good wd P T p" if "p < next_state T" for p
    using Nil.prems(2,3) shapeD(8) [of wd T p] that by (simp add: good_upto_def)
  then show ?case using Nil.prems by (simp add: improves_refl)
next
  case (Cons qs qss)
  have sh: "shape wd T" using Cons.prems(1) by (simp add: trie_inv_def)
  have i: "i < length (fail_states T)" "qs = fail_states T ! i" "qss = drop (Suc i) (fail_states T)"
    using Cons.prems(3) by (metis drop_all leI list.distinct(1), metis hd_drop_conv_nth list.sel(1) drop_all leI list.distinct(1),
        metis drop_Suc list.sel(3) tl_drop)
  have qs: "set qs = {p. p < next_state T \<and> length (wd p) = Suc i}" using shapeD(7) [OF sh i(1)] i(2) by simp
  obtain T1 where T1: "fail_chain T qs = Some T1" "trie_inv wd P T1" "improves wd P T T1"
      "\<forall>q\<in>set qs. \<forall>(c, n)\<in>set (match (states T q)). good wd P T1 n"
    using fail_chain_improves [OF Cons.prems(1,2), of qs] qs by auto
  have same: "next_state T1 = next_state T" "fail_states T1 = fail_states T"
    using T1(3) same_pathsD by (auto simp: improves_def)
  have "good wd P T1 p" if p: "p < next_state T" "length (wd p) \<le> Suc (Suc i)" for p
  proof (cases "length (wd p) \<le> Suc i")
    case True
    then show ?thesis using p(1) Cons.prems(2) T1(3) by (simp add: improves_def good_upto_def)
  next
    case False
    then have len: "length (wd p) = Suc (Suc i)" using p(2) by simp
    then obtain w c where w: "wd p = w @ [c]" by (metis length_Suc_conv_rev)
    obtain q where q: "q < next_state T" "wd q = w" "g T q c = Some p" using shapeD(6) [OF sh p(1) w] by blast
    then have "q \<in> set qs" using qs len w by simp
    moreover have "(c, p) \<in> set (match (states T q))" using q(3) by (auto simp: g_def dest: map_of_SomeD)
    ultimately show ?thesis using T1(4) by blast
  qed
  then have "good_upto wd P T1 (Suc (Suc i))" by (simp add: good_upto_def same)
  then obtain T2 where "fail_depths T1 qss = Some T2" "trie_inv wd P T2" "improves wd P T1 T2"
      "\<forall>p<next_state T. good wd P T2 p"
    using Cons.IH [OF T1(2), of "Suc i"] i(3) same by auto
  then show ?case using T1(1,3) improves_trans by (auto intro: improves_trans)
qed

section \<open>Inserting a pattern\<close>

function trie_chars :: "byte list \<Rightarrow> gunichar list" where
  "trie_chars inptr = (let (c, rest) = trie_utf8_getc inptr in if c = 0 then [] else c # trie_chars rest)"
  by pat_completeness auto
termination
  by (relation "measure length") (auto dest: trie_getc_rest_shorter)

declare trie_chars.simps [simp del]

definition pattern_chars :: "(gunichar \<Rightarrow> gunichar) \<Rightarrow> bool \<Rightarrow> byte list \<Rightarrow> gunichar list" where
  "pattern_chars tolower ic pattern = map (\<lambda>c. if ic then tolower c else c) (trie_chars pattern)"

lemma trie_insert_inv:
  assumes inv: "trie_inv wd P T" and q: "q < next_state T" and depth: "depth = length (wd q)"
    and new: "g T q c = None" and ins: "trie_insert T depth q c = (T', n)"
  defines "wd' \<equiv> wd(n := wd q @ [c])"
  shows "trie_inv wd' P T' \<and> n < next_state T' \<and> q < next_state T' \<and> wd' q = wd q \<and> icase T' = icase T \<and> wd' n = wd q @ [c]"
proof -
  have sh: "shape wd T" using inv by (simp add: trie_inv_def)
  have n: "n = next_state T" and next': "next_state T' = Suc (next_state T)" and ic: "icase T' = icase T"
    using ins by (auto simp: trie_insert_def Let_def)
  have nq: "n \<noteq> q" using q n by simp
  have st: "states T' p = (if p = n then \<lparr>fail = Some 0, match = [], final = 0, id' = -1\<rparr>
      else if p = q then (states T q)\<lparr>match := (c, n) # match (states T q)\<rparr> else states T p)" for p
    using ins nq by (auto simp: trie_insert_def Let_def)
  have gT: "g T' p d = (if p = n then None else if p = q \<and> d = c then Some n else g T p d)" for p d
    by (simp add: g_def st)
  have old: "wd' p = wd p" if "p < next_state T" for p using that by (simp add: wd'_def n)
  have wn: "wd' n = wd q @ [c]" by (simp add: wd'_def)
  have fresh: "wd p \<noteq> wd q @ [c]" if lt: "p < next_state T" for p
  proof
    assume "wd p = wd q @ [c]"
    then obtain r where "r < next_state T" "wd r = wd q" "g T r c = Some p" using shapeD(6) [OF sh lt] by blast
    then show False using shapeD(3) [OF sh _ q, of r] new by simp
  qed
  have fs: "fail_states T' ! d = (if d = depth then n # (if d < length (fail_states T) then fail_states T ! d else [])
        else if d < length (fail_states T) then fail_states T ! d else [])" if "d < length (fail_states T')" for d
    using ins that by (auto simp: trie_insert_def Let_def nth_append nth_list_update split: if_splits)
  have fl: "length (fail_states T) \<le> length (fail_states T')" "depth < length (fail_states T')"
    using ins by (auto simp: trie_insert_def Let_def split: if_splits)
  have "shape wd' T'"
    unfolding shape_def
  proof (intro conjI allI impI)
    show "0 < next_state T'" "wd' 0 = []" using shapeD(1,2) [OF sh] old next' by auto
    show "inj_on wd' {..<next_state T'}"
      using shapeD(3) [OF sh] fresh old wn by (auto simp: inj_on_def next' less_Suc_eq n [symmetric])
  next
    fix p assume "p < next_state T'"
    then show "distinct (map fst (match (states T' p)))"
      using shapeD(4) [OF sh] new q by (auto simp: st next' n less_Suc_eq g_def map_of_eq_None_iff)
  next
    fix p d m assume p: "p < next_state T'" and m: "g T' p d = Some m"
    consider "p = q" "d = c" "m = n" | "p < next_state T" "g T p d = Some m"
      using m p nq by (auto simp: gT next' n split: if_splits)
    then show "m < next_state T'" "wd' m = wd' p @ [d]"
      using shapeD(5) [OF sh, of p d m] old q wn by (cases; auto simp: next' n)+
  next
    fix m w d assume m: "m < next_state T'" "wd' m = w @ [d]"
    show "\<exists>p<next_state T'. wd' p = w \<and> g T' p d = Some m"
    proof (cases "m = n")
      case True
      then show ?thesis using m(2) wn old q by (intro exI [of _ q]) (auto simp: gT next' n)
    next
      case False
      then have "m < next_state T" using m(1) by (simp add: next' n)
      moreover from this have "wd m = w @ [d]" using m(2) old by simp
      ultimately obtain p where "p < next_state T" "wd p = w" "g T p d = Some m" using shapeD(6) [OF sh] by blast
      then show ?thesis using old new by (intro exI [of _ p]) (auto simp: gT next' n)
    qed
  next
    fix d assume d: "d < length (fail_states T')"
    have "set (if d < length (fail_states T) then fail_states T ! d else []) = {p. p < next_state T \<and> length (wd p) = Suc d}"
      using shapeD(7) [OF sh, of d] shapeD(8) [OF sh] by fastforce
    moreover have "{p. p < next_state T' \<and> length (wd' p) = Suc d} =
        {p. p < next_state T \<and> length (wd p) = Suc d} \<union> (if d = depth then {n} else {})"
      using old wn by (auto simp: next' less_Suc_eq n depth)
    ultimately show "set (fail_states T' ! d) = {p. p < next_state T' \<and> length (wd' p) = Suc d}"
      using fs [OF d] by auto
  next
    fix p assume "p < next_state T'"
    then show "length (wd' p) \<le> length (fail_states T')"
      using old wn shapeD(8) [OF sh, of p] fl by (auto simp: next' less_Suc_eq n depth)
  qed
  moreover have "\<exists>p<next_state T'. wd' p = u \<and> final (states T' p) = length u" if "u \<in> P" "u \<noteq> []" for u
  proof -
    have "\<exists>p<next_state T. wd p = u \<and> final (states T p) = length u" using inv that by (simp add: trie_inv_def)
    then obtain p where "p < next_state T" "wd p = u" "final (states T p) = length u" by blast
    then show ?thesis using old by (intro exI [of _ p]) (auto simp: st next' n)
  qed
  ultimately have "trie_inv wd' P T'"
    using inv old shapeD(1) [OF sh] by (auto simp: trie_inv_def st next' less_Suc_eq n)
  then show ?thesis using old [OF q] wn ic q by (simp add: next' n)
qed

lemma add_path_inv:
  assumes "trie_inv wd P T" and "q < next_state T" and "depth = length (wd q)"
    and "add_path tolower T depth q inptr = (T', depth', q')"
  shows "\<exists>wd'. trie_inv wd' P T' \<and> q' < next_state T' \<and> icase T' = icase T \<and> depth' = length (wd' q') \<and>
    wd' q' = wd q @ pattern_chars tolower (icase T) inptr"
  using assms
proof (induction tolower T depth q inptr arbitrary: wd rule: add_path.induct)
  case (1 tolower T depth q inptr)
  obtain c rest where c: "trie_utf8_getc inptr = (c, rest)" by fastforce
  show ?case
  proof (cases "c = 0")
    case True
    then have "T' = T" "depth' = depth" "q' = q" using 1(5) c by (simp_all add: add_path.simps)
    moreover have "pattern_chars tolower (icase T) inptr = []"
      using c True by (simp add: pattern_chars_def trie_chars.simps)
    ultimately show ?thesis using 1(2-4) by (intro exI [of _ wd]) simp
  next
    case False
    define d where "d = (if icase T then tolower c else c)"
    have chars: "pattern_chars tolower (icase T) inptr = d # pattern_chars tolower (icase T) rest"
      using c False by (simp add: pattern_chars_def trie_chars.simps d_def)
    obtain T1 q1 where step: "(case g T q d of None \<Rightarrow> trie_insert T depth q d | Some s \<Rightarrow> (T, s)) = (T1, q1)"
      by fastforce
    have run: "add_path tolower T1 (depth + 1) q1 rest = (T', depth', q')"
      using 1(5) c False step by (simp add: add_path.simps [of tolower T depth q inptr] Let_def d_def [symmetric])
    obtain wd1 where wd1: "trie_inv wd1 P T1" "q1 < next_state T1" "wd1 q1 = wd q @ [d]" "icase T1 = icase T"
    proof (cases "g T q d")
      case None
      then have "trie_insert T depth q d = (T1, q1)" using step by simp
      from trie_insert_inv [OF 1(2,3,4) None this] show ?thesis using that by blast
    next
      case (Some s)
      moreover have "shape wd T" using 1(2) by (simp add: trie_inv_def)
      ultimately show ?thesis using step shapeD(5) [of wd T q d s] 1(2,3) by (intro that [of wd]) auto
    qed
    have "\<exists>wd'. trie_inv wd' P T' \<and> q' < next_state T' \<and> icase T' = icase T1 \<and> depth' = length (wd' q') \<and>
        wd' q' = wd1 q1 @ pattern_chars tolower (icase T1) rest"
      using 1(1) [OF c [symmetric] refl False d_def refl step [symmetric] wd1(1,2) _ run] wd1(3) 1(4) by simp
    then show ?thesis using wd1(3,4) chars by auto
  qed
qed

lemma trie_inv_upto:
  assumes "trie_inv wd P T"
  shows "good_upto wd P T 1"
  unfolding good_upto_def
proof (intro allI impI)
  fix p assume p: "p < next_state T" "length (wd p) \<le> 1"
  have sh: "shape wd T" using assms by (simp add: trie_inv_def)
  show "good wd P T p"
  proof (cases "wd p")
    case Nil
    then have "p = 0" using shapeD(1-3) [OF sh] p(1) by metis
    then show ?thesis using Nil by (simp add: good_def)
  next
    case (Cons c w)
    then have w: "wd p = [c]" using p(2) by simp
    then have f: "fail (states T p) = Some 0" using assms p(1) by (simp add: trie_inv_def)
    have suf: "u = [] \<or> u = [c]" if "suffix u [c]" for u using that by (auto simp: suffix_Cons)
    have "length u \<le> final (states T p)" if u: "u \<in> P" "u \<noteq> []" "suffix u (wd p)" for u
    proof -
      obtain r where "r < next_state T" "wd r = u" "final (states T r) = length u"
        using assms u(1,2) by (auto simp: trie_inv_def)
      moreover have "u = wd p" using suf u(2,3) w by auto
      ultimately show ?thesis using shapeD(3) [OF sh, of r p] p(1) by simp
    qed
    moreover have "length u \<le> length (wd 0)" if "strict_suffix u (wd p)" for u
      using that suf [of u] w by (auto simp: strict_suffix_def)
    moreover have "strict_suffix (wd 0) (wd p)" using shapeD(2) [OF sh] w by (simp add: strict_suffix_def)
    ultimately show ?thesis using f shapeD(1) [OF sh] by (auto simp: good_def)
  qed
qed

lemma camel_trie_add_inv:
  assumes "trie_inv wd P T"
  shows "\<exists>wd' T'. camel_trie_add tolower T pattern i = Some T' \<and> icase T' = icase T \<and>
    trie_inv wd' (insert (pattern_chars tolower (icase T) pattern) P) T' \<and>
    (\<forall>p<next_state T'. good wd' (insert (pattern_chars tolower (icase T) pattern) P) T' p)"
proof -
  let ?pat = "pattern_chars tolower (icase T) pattern"
  obtain T1 depth q where path: "add_path tolower T 0 0 pattern = (T1, depth, q)" using prod_cases3 by blast
  have shT: "shape wd T" using assms by (simp add: trie_inv_def)
  have d0: "0 = length (wd 0)" using shapeD(2) [OF shT] by simp
  obtain wd' where wd0: "trie_inv wd' P T1" "q < next_state T1" "icase T1 = icase T" "depth = length (wd' q)"
      "wd' q = wd 0 @ ?pat"
    using add_path_inv [OF assms shapeD(1) [OF shT] d0 path] by (elim exE conjE)
  then have wd': "trie_inv wd' P T1" "q < next_state T1" "icase T1 = icase T" "depth = length ?pat" "wd' q = ?pat"
    using shapeD(2) [OF shT] by simp_all
  define T2 where "T2 = set_state T1 q ((states T1 q)\<lparr>final := depth, id' := i\<rparr>)"
  have sh: "shape wd' T1" using wd'(1) by (simp add: trie_inv_def)
  have "g T2 = g T1" "\<And>p. match (states T2 p) = match (states T1 p)" "fail_states T2 = fail_states T1"
    "next_state T2 = next_state T1" by (auto simp: T2_def set_state_def g_def fun_eq_iff)
  then have "shape wd' T2 = shape wd' T1" by (simp only: shape_def)
  then have sh2: "shape wd' T2" using sh by simp
  have st: "states T2 p = (if p = q then (states T1 q)\<lparr>final := depth, id' := i\<rparr> else states T1 p)" "next_state T2 = next_state T1"
      "fail_states T2 = fail_states T1" "icase T2 = icase T1" for p
    by (simp_all add: T2_def set_state_def)
  have "\<exists>u\<in>insert ?pat P. u \<noteq> [] \<and> suffix u (wd' p) \<and> final (states T2 p) = length u"
    if "p < next_state T2" "final (states T2 p) \<noteq> 0" for p
    using that wd' by (auto simp: st trie_inv_def split: if_splits)
  moreover have "\<exists>p<next_state T2. wd' p = u \<and> final (states T2 p) = length u" if "u \<in> insert ?pat P" "u \<noteq> []" for u
  proof (cases "u = ?pat")
    case True
    then show ?thesis using wd' by (intro exI [of _ q]) (simp add: st)
  next
    case False
    then have "\<exists>p<next_state T1. wd' p = u \<and> final (states T1 p) = length u" using that wd'(1) by (simp add: trie_inv_def)
    then show ?thesis using False wd'(5) by (auto simp: st)
  qed
  ultimately have inv2: "trie_inv wd' (insert ?pat P) T2"
    using wd'(1) sh2 shapeD(2) [OF sh] unfolding trie_inv_def by (simp add: st)
  obtain T3 where T3: "fail_depths T2 (fail_states T2) = Some T3" "trie_inv wd' (insert ?pat P) T3"
      "improves wd' (insert ?pat P) T2 T3" "\<forall>p<next_state T2. good wd' (insert ?pat P) T3 p"
    using fail_depths_improve [OF inv2, of 0 "fail_states T2"] trie_inv_upto [OF inv2] by auto
  have "camel_trie_add tolower T pattern i = Some T3"
    using T3(1) path by (simp add: camel_trie_add_def T2_def)
  moreover have "icase T3 = icase T" "next_state T3 = next_state T2"
    using T3(3) wd'(3) st(4) by (simp_all add: improves_def same_paths_def)
  ultimately show ?thesis using T3(2,4) by (intro exI [of _ wd'] exI [of _ T3]) simp
qed

section \<open>Searching\<close>

text \<open>The characters of a text that the search compares.\<close>

definition text_chars :: "(gunichar \<Rightarrow> gunichar) \<Rightarrow> bool \<Rightarrow> byte list \<Rightarrow> gunichar list" where
  "text_chars tolower ic text = map (\<lambda>c. if ic then tolower c else c) (filter (\<lambda>c. c \<noteq> 0xfffe) (trie_chars text))"

text \<open>\<open>q\<close> is the state of the longest suffix of \<open>x\<close> that is a word.\<close>

definition at_state :: "wording \<Rightarrow> CamelTrie \<Rightarrow> gunichar list \<Rightarrow> state_ptr \<Rightarrow> bool" where
  "at_state wd T x q \<longleftrightarrow> q < next_state T \<and> suffix (wd q) x \<and> (\<forall>u. suffix u x \<and> word_in wd T u \<longrightarrow> length u \<le> length (wd q))"

definition ends_pattern :: "gunichar list set \<Rightarrow> gunichar list \<Rightarrow> bool" where
  "ends_pattern P x \<longleftrightarrow> (\<exists>u\<in>P. u \<noteq> [] \<and> suffix u x)"

lemma final_iff:
  assumes "trie_inv wd P T" and "\<And>p. p < next_state T \<Longrightarrow> good wd P T p" and "at_state wd T x q"
  shows "final (states T q) \<noteq> 0 \<longleftrightarrow> ends_pattern P x"
proof
  assume "final (states T q) \<noteq> 0"
  then obtain u where "u \<in> P" "u \<noteq> []" "suffix u (wd q)" using assms(1,3) by (auto simp: trie_inv_def at_state_def)
  then show "ends_pattern P x" using assms(3) by (auto simp: ends_pattern_def at_state_def intro: suffix_order.trans)
next
  assume "ends_pattern P x"
  then obtain u where u: "u \<in> P" "u \<noteq> []" "suffix u x" by (auto simp: ends_pattern_def)
  then have "word_in wd T u" using assms(1) by (auto simp: trie_inv_def word_in_def)
  then have "suffix u (wd q)" using assms(3) u(3) suffix_length_suffix by (auto simp: at_state_def)
  then have "length u \<le> final (states T q)" using assms(2,3) u(1,2) by (auto simp: at_state_def good_def)
  then show "final (states T q) \<noteq> 0" using u(2) by (metis le_zero_eq length_0_conv)
qed

lemma trie_search_step_at:
  fixes c :: gunichar and tolower :: "gunichar \<Rightarrow> gunichar"
  assumes inv: "trie_inv wd P T" and gd: "\<And>p. p < next_state T \<Longrightarrow> good wd P T p" and at: "at_state wd T x q"
  defines "d \<equiv> if icase T then tolower c else c"
  shows "\<exists>q' pat'. trie_search_step tolower T buflen q prev pat c rest = Some (q', pat',
      if ends_pattern P (x @ [d]) then Some (pat', id' (states T q')) else None) \<and> at_state wd T (x @ [d]) q'"
proof -
  have sh: "shape wd T" and f0: "fail (states T 0) = None" using inv by (simp_all add: trie_inv_def)
  have "good_upto wd P T (length (wd q))" using gd by (simp add: good_upto_def)
  moreover have "extends_upto wd T x d (length (wd q))"
    using at word_in_prefix [OF sh] by (auto simp: extends_upto_def at_state_def)
  ultimately have climb: "(\<exists>p n. climb T (Some q) d = Some (Some (p, n)) \<and> p < next_state T \<and> g T p d = Some n \<and>
        suffix (wd p) x \<and> extends_upto wd T x d (length (wd p))) \<or>
      climb T (Some q) d = Some None \<and> (\<forall>u. suffix u x \<longrightarrow> \<not> word_in wd T (u @ [d]))"
    using climb_finds [OF sh f0] at by (simp add: at_state_def)
  from climb show ?thesis
  proof (elim disjE exE conjE)
    fix p n assume c: "climb T (Some q) d = Some (Some (p, n))" "p < next_state T" "g T p d = Some n"
      "suffix (wd p) x" "extends_upto wd T x d (length (wd p))"
    have n: "n < next_state T" "wd n = wd p @ [d]" using shapeD(5) [OF sh c(2,3)] by simp_all
    have "at_state wd T (x @ [d]) n"
      using n c(4,5) by (auto simp: at_state_def extends_upto_def)
    then show ?thesis
      using c(1) final_iff [OF inv gd] by (auto simp: trie_search_step_def d_def [symmetric] Let_def)
  next
    assume c: "climb T (Some q) d = Some None" "\<forall>u. suffix u x \<longrightarrow> \<not> word_in wd T (u @ [d])"
    then have at0: "at_state wd T (x @ [d]) 0"
      using shapeD(1,2) [OF sh] by (auto simp: at_state_def)
    moreover have "final (states T 0) = 0"
      using inv shapeD(1,2) [OF sh] by (auto simp: trie_inv_def)
    then have "\<not> ends_pattern P (x @ [d])" using final_iff [OF inv gd at0] by simp
    ultimately show ?thesis
      using c(1) by (auto simp: trie_search_step_def d_def [symmetric])
  qed
qed

lemma text_chars_step:
  "trie_utf8_getc buf = (c, rest) \<Longrightarrow> text_chars tolower ic buf =
     (if c = 0 then [] else if c = 0xfffe then text_chars tolower ic rest
      else (if ic then tolower c else c) # text_chars tolower ic rest)"
  by (simp add: text_chars_def trie_chars.simps [of buf])

lemma trie_search_loop_finds:
  assumes "trie_inv wd P T" and "\<forall>p<next_state T. good wd P T p" and "at_state wd T x q"
  shows "\<exists>res. trie_search_loop tolower T buflen q prev pat buf = Some res \<and>
    (res \<noteq> None \<longleftrightarrow> (\<exists>y. y \<noteq> [] \<and> prefix y (text_chars tolower (icase T) buf) \<and> ends_pattern P (x @ y)))"
  using assms
proof (induction tolower T buflen q prev pat buf arbitrary: x rule: trie_search_loop.induct)
  case (1 tolower T buflen q prev pat buf)
  obtain c rest where c: "trie_utf8_getc buf = (c, rest)" by fastforce
  note chars = text_chars_step [OF c, of tolower "icase T"]
  show ?case
  proof (cases "c = 0")
    case True
    then show ?thesis using c chars by (simp add: trie_search_loop.simps [of _ _ _ _ _ _ buf])
  next
    case nz: False
    show ?thesis
    proof (cases "c = 0xfffe")
      case True
      have "trie_search_loop tolower T buflen q prev pat buf = trie_search_loop tolower T buflen q (buflen - length rest) pat rest"
        using c True by (simp add: trie_search_loop.simps [of _ _ _ _ _ _ buf])
      then show ?thesis
        using 1(1) [OF c [symmetric] refl nz True 1(3,4,5)] chars True by simp
    next
      case False
      define d where "d = (if icase T then tolower c else c)"
      have ch: "text_chars tolower (icase T) buf = d # text_chars tolower (icase T) rest"
        using chars nz False by (simp add: d_def)
      obtain q' pat' where step: "trie_search_step tolower T buflen q prev pat c rest = Some (q', pat',
          if ends_pattern P (x @ [d]) then Some (pat', id' (states T q')) else None)" "at_state wd T (x @ [d]) q'"
        using trie_search_step_at [OF 1(3) _ 1(5)] 1(4) unfolding d_def by blast
      note run = trie_search_loop.simps [of tolower T buflen q prev pat buf]
      show ?thesis
      proof (cases "ends_pattern P (x @ [d])")
        case True
        moreover have "prefix [d] (text_chars tolower (icase T) buf)" by (simp add: ch)
        ultimately show ?thesis using run c nz False step(1) by auto
      next
        case no: False
        then have s: "trie_search_step tolower T buflen q prev pat c rest = Some (q', pat', None)" using step(1) by simp
        have eq: "trie_search_loop tolower T buflen q prev pat buf = trie_search_loop tolower T buflen q' (buflen - length rest) pat' rest"
          using run c nz False s by simp
        have "(\<exists>y. y \<noteq> [] \<and> prefix y (d # z) \<and> ends_pattern P (x @ y)) \<longleftrightarrow>
            (\<exists>y. y \<noteq> [] \<and> prefix y z \<and> ends_pattern P ((x @ [d]) @ y))" for z
        proof
          assume "\<exists>y. y \<noteq> [] \<and> prefix y (d # z) \<and> ends_pattern P (x @ y)"
          then obtain y where y: "prefix (d # y) (d # z)" "ends_pattern P (x @ d # y)" by (auto simp: prefix_Cons)
          then show "\<exists>y. y \<noteq> [] \<and> prefix y z \<and> ends_pattern P ((x @ [d]) @ y)"
            using no by (intro exI [of _ y]) auto
        next
          assume "\<exists>y. y \<noteq> [] \<and> prefix y z \<and> ends_pattern P ((x @ [d]) @ y)"
          then obtain y where "prefix y z" "ends_pattern P ((x @ [d]) @ y)" by blast
          then show "\<exists>y. y \<noteq> [] \<and> prefix y (d # z) \<and> ends_pattern P (x @ y)"
            by (intro exI [of _ "d # y"]) simp
        qed
        then show ?thesis
          using 1(2) [OF c [symmetric] refl nz False s refl refl refl 1(3,4) step(2)] eq ch by simp
      qed
    qed
  qed
qed

section \<open>A trie of any patterns\<close>

text \<open>The calls of \<^verbatim>\<open>camel_url_scanner_add\<close>: one \<^verbatim>\<open>camel_trie_add\<close> per pattern.\<close>

fun add_patterns ::
    "(gunichar \<Rightarrow> gunichar) \<Rightarrow> CamelTrie \<Rightarrow> (byte list \<times> int) list \<Rightarrow> CamelTrie option" where
  "add_patterns tolower T [] = Some T"
| "add_patterns tolower T ((p, i) # ps) = Option.bind (camel_trie_add tolower T p i) (\<lambda>T. add_patterns tolower T ps)"

text \<open>The invariant with every state good, for some words.\<close>

definition trie_holds :: "gunichar list set \<Rightarrow> CamelTrie \<Rightarrow> bool" where
  "trie_holds P T \<longleftrightarrow> (\<exists>wd. trie_inv wd P T \<and> (\<forall>p<next_state T. good wd P T p))"

lemma new_holds: "trie_holds {} (camel_trie_new ic)"
  unfolding trie_holds_def
  by (intro exI [of _ "\<lambda>p. []"]) (auto simp: trie_inv_def shape_def good_def camel_trie_new_def g_def inj_on_def)

lemma add_holds:
  assumes "trie_holds P T"
  shows "\<exists>T'. camel_trie_add tolower T p i = Some T' \<and> icase T' = icase T \<and>
    trie_holds (insert (pattern_chars tolower (icase T) p) P) T'"
proof -
  from assms obtain wd where "trie_inv wd P T" by (auto simp: trie_holds_def)
  from camel_trie_add_inv [OF this, of tolower p i] show ?thesis unfolding trie_holds_def by blast
qed

lemma add_patterns_holds:
  "trie_holds P T \<Longrightarrow> \<exists>T'. add_patterns tolower T ps = Some T' \<and> icase T' = icase T \<and>
     trie_holds ((\<lambda>(p, i). pattern_chars tolower (icase T) p) ` set ps \<union> P) T'"
proof (induction ps arbitrary: T P)
  case Nil
  then show ?case by simp
next
  case (Cons x ps)
  obtain p i where x: "x = (p, i)" by fastforce
  obtain T1 where T1: "camel_trie_add tolower T p i = Some T1" "icase T1 = icase T"
      "trie_holds (insert (pattern_chars tolower (icase T) p) P) T1"
    using add_holds [OF Cons.prems] by blast
  show ?case using Cons.IH [OF T1(3)] T1(1,2) by (simp add: x)
qed

lemma prefix_suffix_sublist:
  "u \<noteq> [] \<Longrightarrow> (\<exists>y. y \<noteq> [] \<and> prefix y z \<and> suffix u y) \<longleftrightarrow> sublist u z"
  by (auto simp: sublist_def prefix_def suffix_def) (metis append_assoc append_is_Nil_conv)+

lemma search_holds:
  assumes "trie_holds P T"
  shows "\<exists>res. camel_trie_search tolower T buf = Some res \<and>
    (res \<noteq> None \<longleftrightarrow> (\<exists>u\<in>P. u \<noteq> [] \<and> sublist u (text_chars tolower (icase T) buf)))"
proof -
  from assms obtain wd where wd: "trie_inv wd P T" "\<forall>p<next_state T. good wd P T p" by (auto simp: trie_holds_def)
  then have "shape wd T" by (simp add: trie_inv_def)
  then have at0: "at_state wd T [] 0" using shapeD(1,2) [of wd T] by (simp add: at_state_def)
  have "(\<exists>y. y \<noteq> [] \<and> prefix y z \<and> ends_pattern P ([] @ y)) \<longleftrightarrow> (\<exists>u\<in>P. u \<noteq> [] \<and> sublist u z)" for z
  proof -
    have "(\<exists>y. y \<noteq> [] \<and> prefix y z \<and> ends_pattern P ([] @ y)) \<longleftrightarrow>
        (\<exists>u\<in>P. u \<noteq> [] \<and> (\<exists>y. y \<noteq> [] \<and> prefix y z \<and> suffix u y))"
      by (auto simp: ends_pattern_def)
    then show ?thesis using prefix_suffix_sublist [of _ z] by auto
  qed
  then show ?thesis
    using trie_search_loop_finds [OF wd at0, of tolower "length buf" 0 0 buf] by (simp add: camel_trie_search_def)
qed

text \<open>C11: However many patterns a trie is given, and in whatever order, building it ends and the search of any text ends,
  and it reports a match just when the characters of some pattern that is not empty stand in the text one after the other
  (after \<^verbatim>\<open>g_unichar_tolower\<close> on both when the trie is case insensitive, with invalid bytes of the text skipped).
  The search that follows failure edges decides the same as a naive search of every pattern at every place.\<close>

theorem trie_search_decides_occurrence:
  "\<exists>T res. add_patterns tolower (camel_trie_new ic) patterns = Some T \<and> camel_trie_search tolower T buf = Some res \<and>
     (res \<noteq> None \<longleftrightarrow> (\<exists>(p, i)\<in>set patterns. pattern_chars tolower ic p \<noteq> [] \<and>
        sublist (pattern_chars tolower ic p) (text_chars tolower ic buf)))"
proof -
  have ic: "icase (camel_trie_new ic) = ic" by (simp add: camel_trie_new_def)
  obtain T where T: "add_patterns tolower (camel_trie_new ic) patterns = Some T" "icase T = ic"
      "trie_holds ((\<lambda>(p, i). pattern_chars tolower ic p) ` set patterns) T"
    using add_patterns_holds [OF new_holds, of tolower ic patterns] ic by auto
  show ?thesis using search_holds [OF T(3), of tolower buf] T(1,2) by (auto simp: case_prod_beta)
qed

text \<open>What the search reports with a match can be wrong. With the patterns \<open>abcd\<close> (id 0) and \<open>bce\<close> (id 1) the text
  \<open>abce\<close> gives pattern 1 at offset 0, where the text reads \<open>abc\<close>: the start is moved only when the search falls back
  to the root. With \<open>abcd\<close> (id 0) and \<open>bc\<close> (id 1) the text \<open>abcd\<close> gives the id -1, which no pattern has: a state that
  inherits the match of its failure state does not inherit its id.\<close>

lemma trie_search_wrong_report:
  "Option.bind (add_patterns id (camel_trie_new False) [([0x61, 0x62, 0x63, 0x64], 0), ([0x62, 0x63, 0x65], 1)])
     (\<lambda>T. camel_trie_search id T [0x61, 0x62, 0x63, 0x65]) = Some (Some (0, 1)) \<and>
   Option.bind (add_patterns id (camel_trie_new False) [([0x61, 0x62, 0x63, 0x64], 0), ([0x62, 0x63], 1)])
     (\<lambda>T. camel_trie_search id T [0x61, 0x62, 0x63, 0x64]) = Some (Some (0, -1))"
  by code_simp

end
