(* ===== verification/Camel_Utf8.thy ===== *)
theory Camel_Utf8
  imports EDS_Prelude
begin

text \<open>
  \<^verbatim>\<open>src/src/camel/camel-utf8.c\<close>: UTF-8 encoding and decoding of single characters. The modified
  UTF-7 of the same file is in the theory \<open>Camel_Utf7\<close>.

  A buffer is the list of its bytes, with the terminating NUL written out where the code reads up
  to it. A read past the end of the list is \<open>None\<close>: the C code would leave its buffer. The
  register \<^verbatim>\<open>r\<close> is a \<^verbatim>\<open>guchar\<close> (8 bits), \<^verbatim>\<open>v\<close> and \<^verbatim>\<open>m\<close> are \<^verbatim>\<open>guint32\<close>.
\<close>

section \<open>UTF-8\<close>

definition camel_utf8_putc :: "guint32 \<Rightarrow> byte list" where
  "camel_utf8_putc c =
     (if c \<le> 0x7f then [ucast c]
      else if c \<le> 0x7ff then
        [ucast (0xc0 OR drop_bit 6 c), ucast (0x80 OR (c AND 0x3f))]
      else if c \<le> 0xffff then
        [ucast (0xe0 OR drop_bit 12 c), ucast (0x80 OR (drop_bit 6 c AND 0x3f)),
         ucast (0x80 OR (c AND 0x3f))]
      else
        [ucast (0xf0 OR drop_bit 18 c), ucast (0x80 OR (drop_bit 12 c AND 0x3f)),
         ucast (0x80 OR (drop_bit 6 c AND 0x3f)), ucast (0x80 OR (c AND 0x3f))])"

text \<open>
  The labels of \<^verbatim>\<open>camel_utf8_getc\<close>: \<open>getc_loop r p\<close> is \<^verbatim>\<open>loop:\<close> with the start byte in \<open>r\<close> (its
  last branch is \<^verbatim>\<open>goto again\<close>), \<open>getc_more r v m p\<close> the body of the \<^verbatim>\<open>do ... while (r & 0x40)\<close>.
\<close>

function (sequential)
  getc_loop :: "byte \<Rightarrow> byte list \<Rightarrow> (guint32 \<times> byte list) option" and
  getc_more :: "byte \<Rightarrow> guint32 \<Rightarrow> guint32 \<Rightarrow> byte list \<Rightarrow> (guint32 \<times> byte list) option"
where
  "getc_loop r p =
     (if r < 0x80 then Some (ucast r, p)
      else if r < 0xf8 then getc_more r (ucast r) 0x7f80 p
      else (case p of [] \<Rightarrow> None | r' # p' \<Rightarrow> getc_loop r' p'))"
| "getc_more r v m [] = None"
| "getc_more r v m (c # p) =
     (if c AND 0xc0 \<noteq> 0x80 then getc_loop c p
      else
        (let v = push_bit 6 v OR ucast (c AND 0x3f); r = push_bit 1 r; m = push_bit 5 m in
         if r AND 0x40 \<noteq> 0 then getc_more r v m p else Some (v AND NOT m, p)))"
  by pat_completeness auto
termination
  by (relation "measure (\<lambda>x. case x of Inl (r, p) \<Rightarrow> 2 * length p + 1
        | Inr (r, v, m, p) \<Rightarrow> 2 * length p)") auto

declare getc_loop.simps [simp del] getc_more.simps [simp del]

definition camel_utf8_getc :: "byte list \<Rightarrow> (guint32 \<times> byte list) option" where
  "camel_utf8_getc p = (case p of [] \<Rightarrow> None | r # p' \<Rightarrow> getc_loop r p')"

text \<open>\<^verbatim>\<open>camel_utf8_getc_limit\<close>: reaching \<^verbatim>\<open>end\<close> gives the sentinel \<^verbatim>\<open>0xffff\<close> and leaves \<^verbatim>\<open>*ptr\<close>.\<close>

definition camel_utf8_getc_limit :: "byte list \<Rightarrow> guint32 \<times> byte list" where
  "camel_utf8_getc_limit p =
     (case p of
        [] \<Rightarrow> (0xffff, p)
      | r # p' \<Rightarrow> (case getc_loop r p' of None \<Rightarrow> (0xffff, p) | Some res \<Rightarrow> res))"

text \<open>A NUL-terminated buffer is never read past its first NUL.\<close>

lemma getc_bounds:
  "NUL \<in> set (r # p) \<Longrightarrow> \<exists>c q. getc_loop r p = Some (c, q) \<and> suffix q p"
  "NUL \<in> set p \<Longrightarrow> \<exists>c q. getc_more r v m p = Some (c, q) \<and> suffix q p"
proof (induction r p and r v m p rule: getc_loop_getc_more.induct)
  case (1 r p)
  show ?case
  proof (cases "r < 0xf8")
    case True
    show ?thesis
    proof (cases "r < 0x80")
      case True
      then show ?thesis by (simp add: getc_loop.simps [of r p])
    next
      case False
      with 1(3) have "NUL \<in> set p" by auto
      with 1(1) [OF False True] False True show ?thesis
        by (simp add: getc_loop.simps [of r p])
    qed
  next
    case False
    then have r: "\<not> r < 0x80" by (auto simp: word_less_nat_alt)
    with 1(3) obtain r' p' where p: "p = r' # p'" by (cases p) auto
    from 1(3) r p have "NUL \<in> set (r' # p')" by auto
    from 1(2) [OF r False p this] obtain c q where "getc_loop r' p' = Some (c, q)" "suffix q p'"
      by blast
    with r False p show ?thesis
      by (auto simp: getc_loop.simps [of r "r' # p'"] intro: suffix_ConsI)
  qed
next
  case (2 r v m)
  then show ?case by simp
next
  case (3 r v m c p)
  show ?case
  proof (cases "c AND 0xc0 \<noteq> 0x80")
    case True
    with 3(1) 3(3) show ?thesis
      by (auto simp: getc_more.simps(2) [of r v m c p] intro: suffix_ConsI)
  next
    case False
    then have c: "c AND 0xc0 = 0x80" and p: "NUL \<in> set p" using 3(3) by auto
    show ?thesis
    proof (cases "push_bit 1 r AND 0x40 = 0")
      case True
      with c show ?thesis
        by (simp add: getc_more.simps(2) [of r v m c p] Let_def suffix_ConsI)
    next
      case False
      from 3(2) [OF _ refl refl refl False p] c obtain x q where
        "getc_more (push_bit 1 r) (push_bit 6 v OR ucast (c AND 0x3f)) (push_bit 5 m) p = Some (x, q)"
        and "suffix q p" by blast
      with c False show ?thesis
        by (simp add: getc_more.simps(2) [of r v m c p] Let_def suffix_ConsI)
    qed
  qed
qed

lemma camel_utf8_getc_total:
  assumes "NUL \<in> set p"
  obtains c q where "camel_utf8_getc p = Some (c, q)" and "suffix q p" and "length q < length p"
proof -
  from assms obtain r p' where p: "p = r # p'" by (cases p) auto
  from getc_bounds(1) [of r p'] assms p obtain c q
    where "getc_loop r p' = Some (c, q)" and "suffix q p'" by auto
  with p that show ?thesis
    by (metis camel_utf8_getc_def le_imp_less_Suc length_Cons list.simps(5) suffix_ConsI
        suffix_length_le)
qed

subsection \<open>Decoding what was encoded\<close>

text \<open>The payload of a continuation byte, and the tests the decoder makes on start bytes.\<close>

text \<open>What follows the character in the buffer has no influence.\<close>

lemma getc_append:
  "getc_loop r p = Some (c, q) \<Longrightarrow> getc_loop r (p @ z) = Some (c, q @ z)"
  "getc_more r v m p = Some (c, q) \<Longrightarrow> getc_more r v m (p @ z) = Some (c, q @ z)"
proof (induction r p and r v m p rule: getc_loop_getc_more.induct)
  case (1 r p)
  then show ?case
    by (cases p) (auto simp: getc_loop.simps [of r] getc_more.simps split: if_splits)
next
  case (2 r v m)
  then show ?case by (simp add: getc_more.simps)
next
  case (3 r v m b p)
  then show ?case
    by (auto simp: getc_more.simps(2) Let_def split: if_splits)
qed

lemma camel_utf8_getc_append:
  "camel_utf8_getc p = Some (c, q) \<Longrightarrow> camel_utf8_getc (p @ z) = Some (c, q @ z)"
  by (cases p) (simp_all add: camel_utf8_getc_def getc_append)

lemma utf8_cont_byte:
  fixes x :: guint32
  shows "(ucast (0x80 OR (x AND 0x3f)) :: byte) AND 0xc0 = 0x80"
    and "(ucast ((ucast (0x80 OR (x AND 0x3f)) :: byte) AND 0x3f) :: guint32) = x AND 0x3f"
proof -
  show "(ucast (0x80 OR (x AND 0x3f)) :: byte) AND 0xc0 = 0x80"
  proof (rule word8_eqI)
    fix n :: nat assume "n < 8"
    then show "bit ((ucast (0x80 OR (x AND 0x3f)) :: byte) AND 0xc0) n = bit (0x80 :: byte) n"
      by (induction n rule: nat_less_8_cases) (simp_all add: bit_simps)
  qed
  show "(ucast ((ucast (0x80 OR (x AND 0x3f)) :: byte) AND 0x3f) :: guint32) = x AND 0x3f"
  proof (rule word32_eqI)
    fix n :: nat assume "n < 32"
    then show "bit (ucast ((ucast (0x80 OR (x AND 0x3f)) :: byte) AND 0x3f) :: guint32) n =
        bit (x AND 0x3f) n"
      by (induction n rule: nat_less_32_cases) (simp_all add: bit_simps)
  qed
qed

lemma byte_less_128: "(r :: byte) < 0x80 \<longleftrightarrow> \<not> bit r 7"
  by (rule byte_forallI [of _ r]) code_simp

lemma byte_less_248: "(r :: byte) < 0xf8 \<longleftrightarrow> \<not> (bit r 7 \<and> bit r 6 \<and> bit r 5 \<and> bit r 4 \<and> bit r 3)"
  by (rule byte_forallI [of _ r]) code_simp

lemma byte_AND_64: "(push_bit 1 r AND 0x40 \<noteq> 0) \<longleftrightarrow> bit (r :: byte) 5"
  by (rule byte_forallI [of _ r]) code_simp

lemma byte_shift_bit: "bit (push_bit 1 r) 5 = bit (r :: byte) 4"
    "bit (push_bit 1 r) 4 = bit (r :: byte) 3"
  by (simp_all only: bit_push_bit_iff) (simp_all add: possible_bit_word)

lemma getc_more_cont:
  fixes x :: guint32
  shows "getc_more r v m (ucast (0x80 OR (x AND 0x3f)) # p) =
     (if bit r 5 then getc_more (push_bit 1 r) (push_bit 6 v OR (x AND 0x3f)) (push_bit 5 m) p
      else Some ((push_bit 6 v OR (x AND 0x3f)) AND NOT (push_bit 5 m), p))"
  by (simp add: getc_more.simps(2) utf8_cont_byte byte_AND_64 [simplified] Let_def)

text \<open>One to four octets.\<close>

lemma getc_putc_1: "c \<le> 0x7f \<Longrightarrow> getc_loop (ucast c) p = Some (c, p)"
proof -
  assume c: "c \<le> 0x7f"
  then have u: "unat c < 2 ^ 7" by (simp add: word_le_nat_alt)
  have "\<not> bit (ucast c :: byte) 7"
    using unat_less_bit_high [OF u, of 7] by (simp add: bit_simps)
  moreover have "ucast (ucast c :: byte) = c"
  proof (rule word32_eqI)
    fix n :: nat
    show "bit (ucast (ucast c :: byte) :: guint32) n = bit c n"
      using unat_less_bit_high [OF u, of n] by (cases "n < 8") (auto simp: bit_simps)
  qed
  ultimately show ?thesis
    by (simp add: getc_loop.simps [of "ucast c" p] byte_less_128)
qed

lemma getc_putc_2:
  assumes "c \<le> 0x7ff"
  shows "getc_loop (ucast (0xc0 OR drop_bit 6 c)) (ucast (0x80 OR (c AND 0x3f)) # p) = Some (c, p)"
proof -
  let ?r = "ucast (0xc0 OR drop_bit 6 c) :: byte"
  have "unat c < 2 ^ 11" using assms by (simp add: word_le_nat_alt)
  note hi = unat_less_bit_high [OF this]
  have r: "bit ?r 7" "\<not> bit ?r 5" using hi [of 11] by (simp_all add: bit_simps)
  have "(push_bit 6 (ucast ?r) OR (c AND 0x3f)) AND NOT (push_bit 5 0x7f80) = c"
  proof (rule word32_eqI)
    fix n :: nat assume "n < 32"
    then show "bit ((push_bit 6 (ucast ?r) OR (c AND 0x3f)) AND NOT (push_bit 5 0x7f80)) n = bit c n"
      by (induction n rule: nat_less_32_cases) (simp_all add: bit_simps hi)
  qed
  then show ?thesis
    using r by (subst getc_loop.simps) (simp add: byte_less_128 byte_less_248 getc_more_cont)
qed

lemma getc_putc_3:
  assumes "c \<le> 0xffff"
  shows "getc_loop (ucast (0xe0 OR drop_bit 12 c))
     (ucast (0x80 OR (drop_bit 6 c AND 0x3f)) # ucast (0x80 OR (c AND 0x3f)) # p) = Some (c, p)"
proof -
  let ?r = "ucast (0xe0 OR drop_bit 12 c) :: byte"
  have "unat c < 2 ^ 16" using assms by (simp add: word_le_nat_alt)
  note hi = unat_less_bit_high [OF this]
  have r: "bit ?r 7" "bit ?r 5" "\<not> bit ?r 4" "\<not> bit (push_bit 1 ?r) 5"
    unfolding byte_shift_bit using hi [of 16] by (simp_all add: bit_simps)
  have "(push_bit 6 (push_bit 6 (ucast ?r) OR (drop_bit 6 c AND 0x3f)) OR (c AND 0x3f)) AND
      NOT (push_bit 5 (push_bit 5 0x7f80)) = c"
  proof (rule word32_eqI)
    fix n :: nat assume "n < 32"
    then show "bit ((push_bit 6 (push_bit 6 (ucast ?r) OR (drop_bit 6 c AND 0x3f)) OR (c AND 0x3f))
        AND NOT (push_bit 5 (push_bit 5 0x7f80))) n = bit c n"
      by (induction n rule: nat_less_32_cases) (simp_all add: bit_simps hi)
  qed
  then show ?thesis
    using r by (subst getc_loop.simps) (simp add: byte_less_128 byte_less_248 getc_more_cont)
qed

lemma getc_putc_4:
  assumes "c < 0x200000"
  shows "getc_loop (ucast (0xf0 OR drop_bit 18 c))
     (ucast (0x80 OR (drop_bit 12 c AND 0x3f)) # ucast (0x80 OR (drop_bit 6 c AND 0x3f)) #
      ucast (0x80 OR (c AND 0x3f)) # p) = Some (c, p)"
proof -
  let ?r = "ucast (0xf0 OR drop_bit 18 c) :: byte"
  have "unat c < 2 ^ 21" using assms by (simp add: word_less_nat_alt)
  note hi = unat_less_bit_high [OF this]
  have r: "bit ?r 7" "bit ?r 5" "\<not> bit ?r 3" "bit (push_bit 1 ?r) 5"
      "\<not> bit (push_bit 1 (push_bit 1 ?r)) 5"
    unfolding byte_shift_bit using hi [of 21] by (simp_all add: bit_simps)
  have "(push_bit 6 (push_bit 6 (push_bit 6 (ucast ?r) OR (drop_bit 12 c AND 0x3f)) OR
      (drop_bit 6 c AND 0x3f)) OR (c AND 0x3f)) AND
      NOT (push_bit 5 (push_bit 5 (push_bit 5 0x7f80))) = c"
  proof (rule word32_eqI)
    fix n :: nat assume "n < 32"
    then show "bit ((push_bit 6 (push_bit 6 (push_bit 6 (ucast ?r) OR (drop_bit 12 c AND 0x3f)) OR
        (drop_bit 6 c AND 0x3f)) OR (c AND 0x3f)) AND
        NOT (push_bit 5 (push_bit 5 (push_bit 5 0x7f80)))) n = bit c n"
      by (induction n rule: nat_less_32_cases) (simp_all add: bit_simps hi)
  qed
  then show ?thesis
    using r by (subst getc_loop.simps) (simp add: byte_less_128 byte_less_248 getc_more_cont)
qed

lemma getc_putc: "c < 0x200000 \<Longrightarrow> camel_utf8_getc (camel_utf8_putc c @ p) = Some (c, p)"
  by (simp add: camel_utf8_getc_def camel_utf8_putc_def getc_putc_1 getc_putc_2 getc_putc_3
      getc_putc_4)

section \<open>Properties\<close>

text \<open>C21: Decoding with \<^verbatim>\<open>camel_utf8_getc\<close> what \<^verbatim>\<open>camel_utf8_putc\<close> wrote gives the character back and
  leaves the pointer right behind it, for every character of up to 21 bits.\<close>

theorem utf8_roundtrip:
  assumes "c < 0x200000"
  shows "camel_utf8_getc (camel_utf8_putc c @ p) = Some (c, p)"
  using assms by (rule getc_putc)

theorem utf8_roundtrip_witness:
  "camel_utf8_getc (camel_utf8_putc 0x20ac @ [65, 0]) = Some (0x20ac, [65, 0])"
  by (rule utf8_roundtrip) simp

text \<open>On any buffer with a terminating NUL, whatever the bytes before it, \<^verbatim>\<open>camel_utf8_getc\<close>
  returns, advances the pointer, and never moves it past the first NUL's successor.\<close>

lemma utf8_getc_stays_in_string:
  "\<exists>c q. camel_utf8_getc (s @ NUL # rest) = Some (c, q) \<and> suffix q (s @ NUL # rest) \<and>
     length q < length (s @ NUL # rest) \<and> suffix rest q"
proof -
  obtain c q where 1: "camel_utf8_getc (s @ [NUL]) = Some (c, q)" "suffix q (s @ [NUL])"
    "length q < length (s @ [NUL])"
    by (rule camel_utf8_getc_total [of "s @ [NUL]"]) auto
  have "camel_utf8_getc ((s @ [NUL]) @ rest) = Some (c, q @ rest)"
    using 1(1) by (rule camel_utf8_getc_append)
  with 1(2,3) show ?thesis by (auto simp: suffix_def)
qed

end
