(* ===== verification/Camel_Utf7.thy ===== *)
theory Camel_Utf7
  imports Camel_Utf8
begin

text \<open>
  The modified UTF-7 of IMAP mailbox names (RFC 2060, section 5.1.3) in
  \<^verbatim>\<open>src/src/camel/camel-utf8.c\<close>: \<^verbatim>\<open>camel_utf7_utf8\<close> and \<^verbatim>\<open>camel_utf8_utf7\<close>.

  Both go through UTF-16: the decoder fills the buffer \<^verbatim>\<open>utf16\<close> that \<^verbatim>\<open>g_utf16_to_utf8\<close> then
  converts up to its first zero unit, the encoder reads the units that \<^verbatim>\<open>g_utf8_to_utf16\<close> gives.
  The two GLib conversions are parameters; the model of the code is what happens between the bytes
  of the mailbox name and the UTF-16 units.
\<close>

type_synonym gunichar2 = "16 word"

definition utf7_alphabet :: "byte list" where
  "utf7_alphabet = bytes ''ABCDEFGHIJKLMNOPQRSTUVWXYZabcdefghijklmnopqrstuvwxyz0123456789+,''"

definition utf7_rank :: "byte list" where
  "utf7_rank =
    [
     0xff, 0xff, 0xff, 0xff, 0xff, 0xff, 0xff, 0xff, 0xff, 0xff, 0xff, 0xff, 0xff, 0xff, 0xff, 0xff,
     0xff, 0xff, 0xff, 0xff, 0xff, 0xff, 0xff, 0xff, 0xff, 0xff, 0xff, 0xff, 0xff, 0xff, 0xff, 0xff,
     0xff, 0xff, 0xff, 0xff, 0xff, 0xff, 0xff, 0xff, 0xff, 0xff, 0xff, 0x3e, 0x3f, 0xff, 0xff, 0xff,
     0x34, 0x35, 0x36, 0x37, 0x38, 0x39, 0x3a, 0x3b, 0x3c, 0x3d, 0xff, 0xff, 0xff, 0xff, 0xff, 0xff,
     0xff, 0x00, 0x01, 0x02, 0x03, 0x04, 0x05, 0x06, 0x07, 0x08, 0x09, 0x0a, 0x0b, 0x0c, 0x0d, 0x0e,
     0x0f, 0x10, 0x11, 0x12, 0x13, 0x14, 0x15, 0x16, 0x17, 0x18, 0x19, 0xff, 0xff, 0xff, 0xff, 0xff,
     0xff, 0x1a, 0x1b, 0x1c, 0x1d, 0x1e, 0x1f, 0x20, 0x21, 0x22, 0x23, 0x24, 0x25, 0x26, 0x27, 0x28,
     0x29, 0x2a, 0x2b, 0x2c, 0x2d, 0x2e, 0x2f, 0x30, 0x31, 0x32, 0x33, 0xff, 0xff, 0xff, 0xff, 0xff,
     0xff, 0xff, 0xff, 0xff, 0xff, 0xff, 0xff, 0xff, 0xff, 0xff, 0xff, 0xff, 0xff, 0xff, 0xff, 0xff,
     0xff, 0xff, 0xff, 0xff, 0xff, 0xff, 0xff, 0xff, 0xff, 0xff, 0xff, 0xff, 0xff, 0xff, 0xff, 0xff,
     0xff, 0xff, 0xff, 0xff, 0xff, 0xff, 0xff, 0xff, 0xff, 0xff, 0xff, 0xff, 0xff, 0xff, 0xff, 0xff,
     0xff, 0xff, 0xff, 0xff, 0xff, 0xff, 0xff, 0xff, 0xff, 0xff, 0xff, 0xff, 0xff, 0xff, 0xff, 0xff,
     0xff, 0xff, 0xff, 0xff, 0xff, 0xff, 0xff, 0xff, 0xff, 0xff, 0xff, 0xff, 0xff, 0xff, 0xff, 0xff,
     0xff, 0xff, 0xff, 0xff, 0xff, 0xff, 0xff, 0xff, 0xff, 0xff, 0xff, 0xff, 0xff, 0xff, 0xff, 0xff,
     0xff, 0xff, 0xff, 0xff, 0xff, 0xff, 0xff, 0xff, 0xff, 0xff, 0xff, 0xff, 0xff, 0xff, 0xff, 0xff,
     0xff, 0xff, 0xff, 0xff, 0xff, 0xff, 0xff, 0xff, 0xff, 0xff, 0xff, 0xff, 0xff, 0xff, 0xff, 0xff]"

section \<open>Decoding\<close>

text \<open>The registers of the decoder: \<^verbatim>\<open>state\<close>, \<^verbatim>\<open>v\<close> and \<^verbatim>\<open>i\<close>.\<close>

record utf7_dec =
  dstate :: nat
  dv :: guint32
  di :: nat

definition utf7_dec_start :: utf7_dec where
  "utf7_dec_start = \<lparr>dstate = 0, dv = 0, di = 0\<rparr>"

text \<open>One round of the \<^verbatim>\<open>do ... while (c)\<close> loop: the units it stores through \<^verbatim>\<open>pos\<close>.\<close>

definition utf7_dec_step :: "utf7_dec \<Rightarrow> byte \<Rightarrow> utf7_dec \<times> gunichar2 list" where
  "utf7_dec_step s c =
     (let rank = utf7_rank ! unat c in
      if dstate s = 0 then
        (if c = 0x26 then (s\<lparr>dstate := 1\<rparr>, []) else (s, [ucast c]))
      else if dstate s = 1 then
        (if c = 0x2d then (s\<lparr>dstate := 0\<rparr>, [0x26])
         else if rank \<noteq> 0xff then (s\<lparr>dv := ucast rank, di := 6, dstate := 2\<rparr>, [])
         else (s\<lparr>dstate := 0\<rparr>, [0x26, 0x2d]))
      else
        (if c = 0x2d then (s\<lparr>dstate := 0\<rparr>, [])
         else if rank \<noteq> 0xff then
           (let v = push_bit 6 (dv s) OR ucast rank; i = di s + 6 in
            if i \<ge> 16 then
              (s\<lparr>dv := v, di := i - 16\<rparr>, [ucast (drop_bit (i - 16) v AND 0xffff)])
            else (s\<lparr>dv := v, di := i\<rparr>, []))
         else (s\<lparr>dstate := 0\<rparr>, [ucast c])))"

text \<open>The loop runs over the bytes of the string and its NUL, and leaves these units in the buffer.\<close>

definition utf7_units :: "cstring \<Rightarrow> gunichar2 list" where
  "utf7_units ptr = snd (run_steps utf7_dec_step utf7_dec_start (ptr @ [NUL]))"

definition camel_utf7_utf8 :: "(gunichar2 list \<Rightarrow> cstring option) \<Rightarrow> cstring \<Rightarrow> cstring option" where
  "camel_utf7_utf8 g_utf16_to_utf8 ptr = g_utf16_to_utf8 (utf7_units ptr)"

interpretation utf7_dec: byte_machine "run_steps utf7_dec_step"
  by (rule byte_machine_run_steps)

section \<open>Encoding\<close>

definition utf7_closeb64 :: "guint32 \<Rightarrow> nat \<Rightarrow> byte list" where
  "utf7_closeb64 v i =
     (if i > 0 then [utf7_alphabet ! unat (push_bit (6 - i) v AND 0x3f)] else []) @ [0x2d]"

text \<open>The inner \<^verbatim>\<open>while (i >= 6)\<close>: the sextets written, and what is left of \<^verbatim>\<open>i\<close>.\<close>

function utf7_sextets :: "guint32 \<Rightarrow> nat \<Rightarrow> byte list \<times> nat" where
  "utf7_sextets v i =
     (if i \<ge> 6 then
        (let x = drop_bit (i - 6) v AND 0x3f; (out, i') = utf7_sextets v (i - 6)
         in (utf7_alphabet ! unat x # out, i'))
      else ([], i))"
  by pat_completeness auto
termination by (relation "measure (\<lambda>(v, i). i)") auto

declare utf7_sextets.simps [simp del]

record utf7_enc =
  estate :: nat
  ev :: guint32
  ei :: nat

definition utf7_enc_start :: utf7_enc where
  "utf7_enc_start = \<lparr>estate = 0, ev = 0, ei = 0\<rparr>"

text \<open>One character of the main loop; the end of the input is \<open>utf7_enc_end\<close>.\<close>

definition utf7_enc_step :: "utf7_enc \<Rightarrow> guint32 \<Rightarrow> utf7_enc \<times> byte list" where
  "utf7_enc_step s c =
     (if 0x20 \<le> c \<and> c \<le> 0x7e then
        (let (s, close) = (if estate s = 1 then (s\<lparr>estate := 0, ei := 0\<rparr>, utf7_closeb64 (ev s) (ei s))
                           else (s, []))
         in (s, close @ (if c = 0x26 then [0x26, 0x2d] else [ucast c])))
      else
        (let (s, open) = (if estate s = 0 then (s\<lparr>estate := 1, ev := 0\<rparr>, [0x26]) else (s, []));
             v = push_bit 16 (ev s) OR c;
             (out, i) = utf7_sextets v (ei s + 16)
         in (s\<lparr>ev := v, ei := i\<rparr>, open @ out)))"

definition utf7_enc_end :: "utf7_enc \<Rightarrow> byte list" where
  "utf7_enc_end s = (if estate s = 1 then utf7_closeb64 (ev s) (ei s) else [])"

definition utf7_encode :: "guint32 list \<Rightarrow> byte list" where
  "utf7_encode cs =
     (let (s, out) = run_steps utf7_enc_step utf7_enc_start cs in out @ utf7_enc_end s)"

interpretation utf7_enc: byte_machine "run_steps utf7_enc_step"
  by (rule byte_machine_run_steps)

lemma getc_shrinks:
  "getc_loop r p = Some (c, q) \<Longrightarrow> length q \<le> length p"
  "getc_more r v m p = Some (c, q) \<Longrightarrow> length q \<le> length p"
proof (induction r p and r v m p rule: getc_loop_getc_more.induct)
  case (1 r p)
  then show ?case
    by (auto simp: getc_loop.simps [of r p] split: if_splits list.splits)
next
  case (2 r v m)
  then show ?case by (simp add: getc_more.simps)
next
  case (3 r v m b p)
  show ?case
  proof (cases "b AND 0xc0 = 0x80 \<and> push_bit 1 r AND 0x40 \<noteq> 0")
    case True
    with 3(3) 3(2) [OF _ refl refl refl] show ?thesis
      by (simp add: getc_more.simps(2) [of r v m b p] Let_def)
  next
    case False
    with 3(1,3) show ?thesis
      by (auto simp: getc_more.simps(2) [of r v m b p] Let_def split: if_splits)
  qed
qed

text \<open>The characters the fallback reads with \<^verbatim>\<open>camel_utf8_getc\<close> up to the NUL, when the string is
  not valid UTF-8 and \<^verbatim>\<open>g_utf8_to_utf16\<close> returns \<^verbatim>\<open>NULL\<close>.\<close>

function utf8_chars :: "byte list \<Rightarrow> guint32 list option" where
  "utf8_chars p =
     (case camel_utf8_getc p of
        None \<Rightarrow> None
      | Some (c, q) \<Rightarrow> if c = 0 then Some [] else map_option (Cons c) (utf8_chars q))"
  by pat_completeness auto
termination
  by (relation "measure length")
    (auto simp: camel_utf8_getc_def le_imp_less_Suc split: list.splits dest: getc_shrinks(1))

declare utf8_chars.simps [simp del]

definition camel_utf8_utf7 :: "(cstring \<Rightarrow> gunichar2 list option) \<Rightarrow> cstring \<Rightarrow> cstring option" where
  "camel_utf8_utf7 g_utf8_to_utf16 ptr =
     (case g_utf8_to_utf16 ptr of
        Some utf16 \<Rightarrow> Some (utf7_encode (map ucast (takeWhile (\<lambda>u. u \<noteq> 0) utf16)))
      | None \<Rightarrow> map_option utf7_encode (utf8_chars (ptr @ [NUL])))"

section \<open>Decoding what was encoded\<close>

lemma nat_less_16_cases [consumes 1]:
  assumes "(n::nat) < 16"
    and "P 0" "P 1" "P 2" "P 3" "P 4" "P 5" "P 6" "P 7"
    and "P 8" "P 9" "P 10" "P 11" "P 12" "P 13" "P 14" "P 15"
  shows "P n"
proof -
  have "n \<in> set [0..<16]"
    using assms(1) by (simp only: set_upt atLeastLessThan_iff) simp
  also have "[0..<16] = [0, 1, 2, 3, 4, 5, 6, 7, 8, 9, 10, 11, 12, 13, 14, 15::nat]"
    by code_simp
  finally show ?thesis using assms(2-) by (simp only: list.set insert_iff empty_iff) blast
qed

text \<open>The rank table inverts the alphabet, and no sextet is written as \<open>-\<close>.\<close>

lemma upt_64: "[0..<64] = [0, 1, 2, 3, 4, 5, 6, 7, 8, 9, 10, 11, 12, 13, 14, 15, 16, 17, 18, 19, 20,
    21, 22, 23, 24, 25, 26, 27, 28, 29, 30, 31, 32, 33, 34, 35, 36, 37, 38, 39, 40, 41, 42, 43, 44,
    45, 46, 47, 48, 49, 50, 51, 52, 53, 54, 55, 56, 57, 58, 59, 60, 61, 62, 63::nat]"
  by code_simp

lemma utf7_rank_table:
  "list_all (\<lambda>n. utf7_rank ! unat (utf7_alphabet ! n) = word_of_nat n \<and> utf7_alphabet ! n \<noteq> 0x2d)
     [0..<64]"
  unfolding upt_64 by (simp add: utf7_rank_def utf7_alphabet_def)

lemma utf7_rank_alphabet:
  fixes x :: guint32
  defines "a \<equiv> utf7_alphabet ! unat (x AND 0x3f)"
  shows "ucast (utf7_rank ! unat a) = x AND 0x3f" and "utf7_rank ! unat a \<noteq> 0xff" and "a \<noteq> 0x2d"
proof -
  have "x AND 0x3f \<le> 0x3f" by (rule word_and_le1)
  then have n: "unat (x AND 0x3f) < 64" by (simp add: word_le_nat_alt)
  then have "unat (x AND 0x3f) \<in> set [0..<64]" by simp
  with utf7_rank_table have r: "utf7_rank ! unat a = word_of_nat (unat (x AND 0x3f))"
    and m: "a \<noteq> 0x2d" unfolding list_all_iff a_def by blast+
  have u: "unat (word_of_nat (unat (x AND 0x3f)) :: byte) = unat (x AND 0x3f)"
    using n by (simp add: unsigned_ucast_eq take_bit_nat_eq_self)
  show "a \<noteq> 0x2d" by (rule m)
  show "ucast (utf7_rank ! unat a) = x AND 0x3f"
  proof (rule word32_eqI)
    fix n :: nat
    show "bit (ucast (utf7_rank ! unat a) :: guint32) n = bit (x AND 0x3f) n"
      using unat_less_bit_high [of "x AND 0x3f" 6 n] n
      unfolding r by (cases "n < 8") (simp_all add: bit_simps)
  qed
  show "utf7_rank ! unat a \<noteq> 0xff"
    using u n unfolding r by auto
qed

text \<open>The decoder on one sextet, in its states 1 and 2.\<close>

lemma utf7_dec_sextet_first:
  "dstate d = 1 \<Longrightarrow> utf7_dec_step d (utf7_alphabet ! unat (x AND 0x3f)) =
     (d\<lparr>dv := x AND 0x3f, di := 6, dstate := 2\<rparr>, [])"
  using utf7_rank_alphabet [of x] by (simp add: utf7_dec_step_def Let_def)

lemma utf7_dec_sextet_next:
  "dstate d = 2 \<Longrightarrow> utf7_dec_step d (utf7_alphabet ! unat (x AND 0x3f)) =
     (let v = push_bit 6 (dv d) OR (x AND 0x3f); i = di d + 6 in
      if i \<ge> 16 then (d\<lparr>dv := v, di := i - 16\<rparr>, [ucast (drop_bit (i - 16) v AND 0xffff)])
      else (d\<lparr>dv := v, di := i\<rparr>, []))"
  using utf7_rank_alphabet [of x] by (simp add: utf7_dec_step_def Let_def)

lemma utf7_sextets_16: "utf7_sextets v 16 =
    ([utf7_alphabet ! unat (drop_bit 10 v AND 0x3f), utf7_alphabet ! unat (drop_bit 4 v AND 0x3f)], 4)"
  by (simp add: utf7_sextets.simps [of v])

lemma utf7_sextets_18: "utf7_sextets v 18 =
    ([utf7_alphabet ! unat (drop_bit 12 v AND 0x3f), utf7_alphabet ! unat (drop_bit 6 v AND 0x3f),
      utf7_alphabet ! unat (v AND 0x3f)], 0)"
  by (simp add: utf7_sextets.simps [of v])

lemma utf7_sextets_20: "utf7_sextets v 20 =
    ([utf7_alphabet ! unat (drop_bit 14 v AND 0x3f), utf7_alphabet ! unat (drop_bit 8 v AND 0x3f),
      utf7_alphabet ! unat (drop_bit 2 v AND 0x3f)], 2)"
  by (simp add: utf7_sextets.simps [of v])

text \<open>
  How the two machines agree after the encoder has read the units \<open>pre\<close>: outside base64 the decoder
  has given back all of \<open>pre\<close>; inside, the encoder keeps the last unit \<open>u\<close> in its register with
  the number \<open>e\<close> of its bits that are not written yet, and the decoder holds the other \<open>16 - e\<close>.
\<close>

definition utf7_holds :: "nat \<Rightarrow> gunichar2 \<Rightarrow> guint32 \<Rightarrow> bool" where
  "utf7_holds e u v \<longleftrightarrow> (\<forall>n. n + e < 16 \<longrightarrow> bit v n = bit u (n + e))"

definition utf7_rel :: "gunichar2 list \<Rightarrow> utf7_enc \<Rightarrow> utf7_dec \<Rightarrow> gunichar2 list \<Rightarrow> bool" where
  "utf7_rel pre s d sofar \<longleftrightarrow>
     (if estate s = 0 then ei s = 0 \<and> dstate d = 0 \<and> sofar = pre
      else estate s = 1 \<and> dstate d = 2 \<and>
        (ei s = 0 \<and> sofar = pre \<and> di d = 0 \<or>
         (\<exists>pre' u. pre = pre' @ [u] \<and> sofar = pre' \<and> (ei s = 2 \<or> ei s = 4) \<and>
            di d = 16 - ei s \<and> utf7_holds 0 u (ev s) \<and> utf7_holds (ei s) u (dv d))))"

lemma word16_eqI:
  fixes x y :: gunichar2
  assumes "\<And>n. n < 16 \<Longrightarrow> bit x n = bit y n"
  shows "x = y"
  by (rule bit_word_eqI) (simp add: assms)

lemma unichar2_high: "16 \<le> n \<Longrightarrow> \<not> bit (c :: gunichar2) n"
  using bit_imp_le_length [of c n] by auto

lemma utf7_holds_bit: "utf7_holds e u v \<Longrightarrow> n + e < 16 \<Longrightarrow> bit v n = bit u (n + e)"
  by (simp add: utf7_holds_def)

text \<open>The three phases: a unit starts with 0, 4 or 2 bits left over from the one before.\<close>

lemma utf7_phase_0:
  fixes c :: gunichar2 and v v0 :: guint32
  defines "v \<equiv> push_bit 16 v0 OR ucast c"
  shows "utf7_holds 0 c v"
    and "utf7_holds 4 c (push_bit 6 (drop_bit 10 v AND 0x3f) OR (drop_bit 4 v AND 0x3f))"
    and "utf7_holds 4 c (push_bit 6 (push_bit 6 w OR (drop_bit 10 v AND 0x3f)) OR (drop_bit 4 v AND 0x3f))"
proof -
  show "utf7_holds 0 c v" by (simp add: utf7_holds_def v_def bit_simps)
  have "n < 16 \<Longrightarrow> n + 4 < 16 \<longrightarrow>
      bit (push_bit 6 (push_bit 6 w OR (drop_bit 10 v AND 0x3f)) OR (drop_bit 4 v AND 0x3f)) n =
      bit c (n + 4)" for n w
    by (induction n rule: nat_less_16_cases) (simp_all add: v_def bit_simps)
  note this [of _ w] this [of _ 0]
  then show "utf7_holds 4 c (push_bit 6 (push_bit 6 w OR (drop_bit 10 v AND 0x3f)) OR (drop_bit 4 v AND 0x3f))"
    and "utf7_holds 4 c (push_bit 6 (drop_bit 10 v AND 0x3f) OR (drop_bit 4 v AND 0x3f))"
    by (simp_all add: utf7_holds_def)
qed

lemma utf7_phase_4:
  fixes c u :: gunichar2 and d v0 :: guint32
  defines "v \<equiv> push_bit 16 v0 OR ucast c"
  defines "d1 \<equiv> push_bit 6 d OR (drop_bit 14 v AND 0x3f)"
  assumes v0: "utf7_holds 0 u v0" and d: "utf7_holds 4 u d"
  shows "ucast (drop_bit 2 d1 AND 0xffff) = u"
    and "utf7_holds 2 c (push_bit 6 (push_bit 6 d1 OR (drop_bit 8 v AND 0x3f)) OR (drop_bit 2 v AND 0x3f))"
proof -
  show "ucast (drop_bit 2 d1 AND 0xffff) = u"
  proof (rule word16_eqI)
    fix n :: nat assume "n < 16"
    then show "bit (ucast (drop_bit 2 d1 AND 0xffff) :: gunichar2) n = bit u n"
      using utf7_holds_bit [OF v0] utf7_holds_bit [OF d]
      by (induction n rule: nat_less_16_cases)
        (simp_all add: d1_def v_def bit_simps unichar2_high del: add_2_eq_Suc add_2_eq_Suc')
  qed
  have "n < 16 \<Longrightarrow> n + 2 < 16 \<longrightarrow>
      bit (push_bit 6 (push_bit 6 d1 OR (drop_bit 8 v AND 0x3f)) OR (drop_bit 2 v AND 0x3f)) n =
      bit c (n + 2)" for n
    by (induction n rule: nat_less_16_cases)
      (simp_all add: d1_def v_def bit_simps del: add_2_eq_Suc add_2_eq_Suc')
  then show "utf7_holds 2 c (push_bit 6 (push_bit 6 d1 OR (drop_bit 8 v AND 0x3f)) OR (drop_bit 2 v AND 0x3f))"
    by (simp add: utf7_holds_def)
qed

lemma utf7_phase_2:
  fixes c u :: gunichar2 and d v0 :: guint32
  defines "v \<equiv> push_bit 16 v0 OR ucast c"
  defines "d1 \<equiv> push_bit 6 d OR (drop_bit 12 v AND 0x3f)"
  assumes v0: "utf7_holds 0 u v0" and d: "utf7_holds 2 u d"
  shows "ucast (drop_bit 4 d1 AND 0xffff) = u"
    and "ucast ((push_bit 6 (push_bit 6 d1 OR (drop_bit 6 v AND 0x3f)) OR (v AND 0x3f)) AND 0xffff) = c"
    (is "?two")
proof -
  show "ucast (drop_bit 4 d1 AND 0xffff) = u"
  proof (rule word16_eqI)
    fix n :: nat assume "n < 16"
    then show "bit (ucast (drop_bit 4 d1 AND 0xffff) :: gunichar2) n = bit u n"
      using utf7_holds_bit [OF v0] utf7_holds_bit [OF d]
      by (induction n rule: nat_less_16_cases)
        (simp_all add: d1_def v_def bit_simps unichar2_high del: add_2_eq_Suc add_2_eq_Suc')
  qed
  show ?two
  proof (rule word16_eqI)
    fix n :: nat assume "n < 16"
    then show "bit (ucast ((push_bit 6 (push_bit 6 d1 OR (drop_bit 6 v AND 0x3f)) OR (v AND 0x3f))
        AND 0xffff) :: gunichar2) n = bit c n"
      by (induction n rule: nat_less_16_cases) (simp_all add: d1_def v_def bit_simps)
  qed
qed

text \<open>Closing a base64 run gives the decoder the bits the encoder still kept.\<close>

lemma utf7_phase_close:
  fixes u :: gunichar2 and d v :: guint32
  assumes v: "utf7_holds 0 u v"
  shows "utf7_holds 4 u d \<Longrightarrow>
      ucast (drop_bit 2 (push_bit 6 d OR (push_bit 2 v AND 0x3f)) AND 0xffff) = u"
    and "utf7_holds 2 u d \<Longrightarrow>
      ucast (drop_bit 4 (push_bit 6 d OR (push_bit 4 v AND 0x3f)) AND 0xffff) = u"
proof -
  assume d: "utf7_holds 4 u d"
  show "ucast (drop_bit 2 (push_bit 6 d OR (push_bit 2 v AND 0x3f)) AND 0xffff) = u"
  proof (rule word16_eqI)
    fix n :: nat assume "n < 16"
    then show "bit (ucast (drop_bit 2 (push_bit 6 d OR (push_bit 2 v AND 0x3f)) AND 0xffff) :: gunichar2) n
        = bit u n"
      using utf7_holds_bit [OF v] utf7_holds_bit [OF d]
      by (induction n rule: nat_less_16_cases)
        (simp_all add: bit_simps del: add_2_eq_Suc add_2_eq_Suc')
  qed
next
  assume d: "utf7_holds 2 u d"
  show "ucast (drop_bit 4 (push_bit 6 d OR (push_bit 4 v AND 0x3f)) AND 0xffff) = u"
  proof (rule word16_eqI)
    fix n :: nat assume "n < 16"
    then show "bit (ucast (drop_bit 4 (push_bit 6 d OR (push_bit 4 v AND 0x3f)) AND 0xffff) :: gunichar2) n
        = bit u n"
      using utf7_holds_bit [OF v] utf7_holds_bit [OF d]
      by (induction n rule: nat_less_16_cases)
        (simp_all add: bit_simps del: add_2_eq_Suc add_2_eq_Suc')
  qed
qed

text \<open>One unit of the input through both machines.\<close>

lemma utf7_rel_open:
  fixes c :: gunichar2
  assumes rel: "utf7_rel pre s d sofar"
    and enc: "utf7_enc_step s (ucast c) = (s', out)"
    and c: "\<not> (0x20 \<le> (ucast c :: guint32) \<and> (ucast c :: guint32) \<le> 0x7e)"
  shows "\<exists>d' more. run_steps utf7_dec_step d out = (d', more) \<and>
           utf7_rel (pre @ [c]) s' d' (sofar @ more)"
proof (cases "estate s = 0")
  case True
  with rel have s: "ei s = 0" "dstate d = 0" "sofar = pre" by (simp_all add: utf7_rel_def)
  let ?v = "push_bit 16 0 OR ucast c :: guint32"
  from enc c True s have s': "s' = s\<lparr>estate := 1, ev := ?v, ei := 4\<rparr>"
    and out: "out = 0x26 # fst (utf7_sextets ?v 16)"
    by (auto simp: utf7_enc_step_def utf7_sextets_16 Let_def)
  have "run_steps utf7_dec_step d out =
      (d\<lparr>dv := push_bit 6 (drop_bit 10 ?v AND 0x3f) OR (drop_bit 4 ?v AND 0x3f), di := 12, dstate := 2\<rparr>, [])"
    unfolding out utf7_sextets_16
    using s(2) by (simp add: utf7_dec_step_def [of d] utf7_dec_sextet_first utf7_dec_sextet_next Let_def)
  moreover have "utf7_rel (pre @ [c]) s'
      (d\<lparr>dv := push_bit 6 (drop_bit 10 ?v AND 0x3f) OR (drop_bit 4 ?v AND 0x3f), di := 12, dstate := 2\<rparr>) sofar"
    using s utf7_phase_0(1,2) [of c 0] by (simp add: utf7_rel_def s')
  ultimately show ?thesis by auto
next
  case False
  with rel have st: "estate s = 1" "dstate d = 2" by (auto simp: utf7_rel_def)
  let ?v = "push_bit 16 (ev s) OR ucast c :: guint32"
  from enc c st have s': "s' = s\<lparr>ev := ?v, ei := snd (utf7_sextets ?v (ei s + 16))\<rparr>"
    and out: "out = fst (utf7_sextets ?v (ei s + 16))"
    by (auto simp: utf7_enc_step_def Let_def split: prod.splits)
  from rel False consider (zero) "ei s = 0" "sofar = pre" "di d = 0"
    | (left) pre' u where "pre = pre' @ [u]" "sofar = pre'" "ei s = 2 \<or> ei s = 4" "di d = 16 - ei s"
        "utf7_holds 0 u (ev s)" "utf7_holds (ei s) u (dv d)"
    by (auto simp: utf7_rel_def)
  then show ?thesis
  proof cases
    case zero
    then show ?thesis
      using st utf7_phase_0(1) [of c "ev s"]
        utf7_phase_0(3) [where w = "dv d" and c = c and ?v0.0 = "ev s"] out
      by (simp add: utf7_sextets_16 utf7_dec_sextet_next Let_def utf7_rel_def s')
  next
    case left
    show ?thesis
    proof (cases "ei s = 4")
      case True
      with left have u: "utf7_holds 0 u (ev s)" "utf7_holds 4 u (dv d)" "di d = 12" by simp_all
      show ?thesis
        using st out left(1,2) True u(3) utf7_phase_4 [OF u(1,2), of c] utf7_phase_0(1) [of c "ev s"]
        by (simp add: utf7_sextets_20 utf7_dec_sextet_next Let_def utf7_rel_def s')
    next
      case False
      with left have u: "ei s = 2" "utf7_holds 0 u (ev s)" "utf7_holds 2 u (dv d)" "di d = 14"
        by auto
      show ?thesis
        using st out left(1,2) u(1,4) utf7_phase_2 [OF u(2,3), of c]
        by (simp add: utf7_sextets_18 utf7_dec_sextet_next Let_def utf7_rel_def s')
    qed
  qed
qed

text \<open>A printable character closes an open base64 run first.\<close>

lemma utf7_close_run:
  assumes rel: "utf7_rel pre s d sofar" and st: "estate s = 1"
  shows "\<exists>d' more. run_steps utf7_dec_step d (utf7_closeb64 (ev s) (ei s)) = (d', more) \<and>
           dstate d' = 0 \<and> sofar @ more = pre"
proof -
  from rel st have d2: "dstate d = 2" by (simp add: utf7_rel_def)
  from rel st consider (zero) "ei s = 0" "sofar = pre"
    | (left) pre' u where "pre = pre' @ [u]" "sofar = pre'" "ei s = 2 \<or> ei s = 4" "di d = 16 - ei s"
        "utf7_holds 0 u (ev s)" "utf7_holds (ei s) u (dv d)"
    by (auto simp: utf7_rel_def)
  then show ?thesis
  proof cases
    case zero
    then show ?thesis using d2 by (simp add: utf7_closeb64_def utf7_dec_step_def)
  next
    case left
    have minus: "dstate x = 2 \<Longrightarrow> utf7_dec_step x 0x2d = (x\<lparr>dstate := 0\<rparr>, [])" for x
      by (simp add: utf7_dec_step_def)
    from left(3,4,6) consider (two) "ei s = 2" "di d = 14" "utf7_holds 2 u (dv d)"
      | (four) "ei s = 4" "di d = 12" "utf7_holds 4 u (dv d)" by auto
    then show ?thesis
    proof cases
      case two
      then show ?thesis
        using left(1,2) d2 utf7_phase_close(2) [OF left(5), of "dv d"]
        by (simp add: utf7_closeb64_def utf7_dec_sextet_next minus Let_def)
    next
      case four
      then show ?thesis
        using left(1,2) d2 utf7_phase_close(1) [OF left(5), of "dv d"]
        by (simp add: utf7_closeb64_def utf7_dec_sextet_next minus Let_def)
    qed
  qed
qed

lemma utf7_dec_plain:
  fixes c :: gunichar2
  assumes "0x20 \<le> (ucast c :: guint32)" and "(ucast c :: guint32) \<le> 0x7e" and d: "dstate d = 0"
  shows "run_steps utf7_dec_step d (if (ucast c :: guint32) = 0x26 then [0x26, 0x2d] else [ucast (ucast c :: guint32)])
     = (d, [c])"
proof -
  have "unat c < 2 ^ 16" using unsigned_less [of c, where ?'a = nat] by simp
  then have "take_bit 32 (unat c) = unat c" by (intro take_bit_nat_eq_self) simp
  then have "unat c \<le> 126"
    using assms(2) by (simp add: word_le_nat_alt unsigned_ucast_eq)
  then have u: "unat c < 2 ^ 7" by simp
  have widen: "(ucast (ucast (ucast c :: guint32) :: byte) :: gunichar2) = c"
  proof (rule word16_eqI)
    fix n :: nat assume "n < 16"
    then show "bit (ucast (ucast (ucast c :: guint32) :: byte) :: gunichar2) n = bit c n"
      using unat_less_bit_high [OF u, of n] by (cases "n < 8") (auto simp: bit_simps)
  qed
  show ?thesis
  proof (cases "(ucast c :: guint32) = 0x26")
    case True
    then have "c = 0x26"
      using widen by simp
    then show ?thesis using d by (simp add: utf7_dec_step_def)
  next
    case False
    then have "(ucast (ucast c :: guint32) :: byte) \<noteq> 0x26"
      using widen by auto
    with False widen d show ?thesis by (simp add: utf7_dec_step_def)
  qed
qed

lemma utf7_rel_step:
  fixes c :: gunichar2
  assumes rel: "utf7_rel pre s d sofar" and enc: "utf7_enc_step s (ucast c) = (s', out)"
  shows "\<exists>d' more. run_steps utf7_dec_step d out = (d', more) \<and>
           utf7_rel (pre @ [c]) s' d' (sofar @ more)"
proof (cases "0x20 \<le> (ucast c :: guint32) \<and> (ucast c :: guint32) \<le> 0x7e")
  case False
  with rel enc show ?thesis by (rule utf7_rel_open)
next
  case True
  let ?plain = "if (ucast c :: guint32) = 0x26 then [0x26, 0x2d] else [ucast (ucast c :: guint32)]"
  show ?thesis
  proof (cases "estate s = 1")
    case False
    with rel have s: "estate s = 0" "ei s = 0" "dstate d = 0" "sofar = pre"
      by (auto simp: utf7_rel_def split: if_splits)
    from enc True s have "s' = s" and "out = ?plain" by (auto simp: utf7_enc_step_def)
    with utf7_dec_plain [of c d] True s show ?thesis by (auto simp: utf7_rel_def)
  next
    case one: True
    then obtain d1 more1 where d1: "run_steps utf7_dec_step d (utf7_closeb64 (ev s) (ei s)) = (d1, more1)"
      and z: "dstate d1 = 0" "sofar @ more1 = pre" using utf7_close_run [OF rel] by blast
    from enc True one have s': "s' = s\<lparr>estate := 0, ei := 0\<rparr>"
      and out: "out = utf7_closeb64 (ev s) (ei s) @ ?plain"
      by (auto simp: utf7_enc_step_def)
    have "run_steps utf7_dec_step d out = (d1, more1 @ [c])"
      unfolding out run_steps_append using d1 utf7_dec_plain [of c d1] True z by simp
    with z show ?thesis by (auto simp: utf7_rel_def s')
  qed
qed

lemma utf7_rel_run:
  assumes "utf7_rel pre s d sofar"
  shows "\<exists>d' more. run_steps utf7_dec_step d (snd (run_steps utf7_enc_step s (map ucast us))) = (d', more)
     \<and> utf7_rel (pre @ us) (fst (run_steps utf7_enc_step s (map ucast us))) d' (sofar @ more)"
  using assms
proof (induction us arbitrary: pre s d sofar)
  case Nil
  then show ?case by simp
next
  case (Cons c us)
  obtain s1 o1 where e1: "utf7_enc_step s (ucast c) = (s1, o1)" by fastforce
  from utf7_rel_step [OF Cons.prems e1] obtain d1 more1 where
    d1: "run_steps utf7_dec_step d o1 = (d1, more1)" and r1: "utf7_rel (pre @ [c]) s1 d1 (sofar @ more1)"
    by blast
  from Cons.IH [OF r1] d1 e1 show ?case
    by (auto simp: run_steps_append split_def Let_def)
qed

lemma utf7_decode_encode:
  "utf7_units (utf7_encode (map ucast us)) = us @ [0]"
proof -
  let ?enc = "run_steps utf7_enc_step utf7_enc_start (map ucast us)"
  have "utf7_rel [] utf7_enc_start utf7_dec_start []"
    by (simp add: utf7_rel_def utf7_enc_start_def utf7_dec_start_def)
  from utf7_rel_run [OF this, of us] obtain d more
    where run: "run_steps utf7_dec_step utf7_dec_start (snd ?enc) = (d, more)"
      and rel: "utf7_rel us (fst ?enc) d more" by auto
  have nul: "dstate x = 0 \<Longrightarrow> utf7_dec_step x 0 = (x, [0])" for x
    by (simp add: utf7_dec_step_def)
  have code: "utf7_encode (map ucast us) = snd ?enc @ utf7_enc_end (fst ?enc)"
    by (simp add: utf7_encode_def split_def Let_def)
  show ?thesis
  proof (cases "estate (fst ?enc) = 1")
    case True
    from utf7_close_run [OF rel this] obtain d' more'
      where "run_steps utf7_dec_step d (utf7_closeb64 (ev (fst ?enc)) (ei (fst ?enc))) = (d', more')"
        and "dstate d' = 0" and "more @ more' = us" by blast
    with run True code nul [of d'] show ?thesis
      by (simp add: utf7_units_def run_steps_append utf7_enc_end_def)
  next
    case False
    with rel have "dstate d = 0" and "more = us" by (auto simp: utf7_rel_def split: if_splits)
    with run False code nul [of d] show ?thesis
      by (simp add: utf7_units_def run_steps_append utf7_enc_end_def)
  qed
qed

text \<open>
  The buffer has room for one unit per byte of the string and the NUL: \<^verbatim>\<open>1 + strlen (ptr)\<close>. The
  only round that stores two units is the one after an \<open>&\<close> that stored none.
\<close>

lemma utf7_dec_step_budget:
  "dstate s \<le> 2 \<Longrightarrow> dstate (fst (utf7_dec_step s c)) \<le> 2"
  "dstate s \<le> 2 \<Longrightarrow> length (snd (utf7_dec_step s c)) + (if dstate (fst (utf7_dec_step s c)) = 0 then 0 else 1)
     \<le> 1 + (if dstate s = 0 then 0 else 1)"
  by (auto simp: utf7_dec_step_def Let_def)

lemma utf7_units_bound: "length (utf7_units ptr) \<le> 1 + length ptr"
  using utf7_dec.run_budget [of "\<lambda>s. dstate s \<le> 2" utf7_dec_start
      "\<lambda>s. if dstate s = 0 then 0 else 1" 1 "ptr @ [NUL]"]
    utf7_dec_step_budget
  by (simp add: utf7_units_def utf7_dec_start_def split_def Let_def)

section \<open>Properties\<close>

text \<open>C15: Encoding a UTF-8 string to modified UTF-7 with \<^verbatim>\<open>camel_utf8_utf7\<close> and decoding it with
  \<^verbatim>\<open>camel_utf7_utf8\<close> gives the string back, whenever the two GLib conversions are inverse on it.\<close>

theorem utf7_roundtrip:
  assumes "to16 s = Some us" and "0 \<notin> set us" and "to8 (us @ [0]) = Some s"
  shows "\<exists>name. camel_utf8_utf7 to16 s = Some name \<and> camel_utf7_utf8 to8 name = Some s"
proof -
  have eq: "takeWhile (\<lambda>u. u \<noteq> 0) us = us"
    using assms(2) by auto
  show ?thesis
    using assms(1,3)
    by (simp add: camel_utf8_utf7_def camel_utf7_utf8_def utf7_decode_encode eq
        del: takeWhile_eq_all_conv)
qed

theorem utf7_roundtrip_witness:
  "\<exists>name. camel_utf8_utf7 (\<lambda>s. Some (map ucast s)) (bytes ''A&B'') = Some name \<and>
     camel_utf7_utf8 (\<lambda>us. Some (map ucast (takeWhile (\<lambda>u. u \<noteq> 0) us))) name = Some (bytes ''A&B'')"
  by (rule utf7_roundtrip [of _ _ "[0x41, 0x26, 0x42]"]) simp_all

text \<open>The decoder never writes more units than the \<^verbatim>\<open>1 + strlen (ptr)\<close> its buffer has.\<close>

lemma utf7_decoder_stays_in_buffer:
  "length (utf7_units ptr) \<le> 1 + length ptr"
  by (rule utf7_units_bound)

text \<open>For a mailbox name that ends in an unfinished shift \<open>&\<close>, the units the decoder leaves in
  the buffer contain no terminating zero: the conversion that follows is told to read up to one.\<close>

lemma utf7_unfinished_shift_unterminated:
  assumes "0x26 \<notin> set p" and "NUL \<notin> set p"
  shows "utf7_units (p @ [0x26]) = map ucast p @ [0x26, 0x2d] \<and> 0 \<notin> set (utf7_units (p @ [0x26]))"
proof -
  have direct: "run_steps utf7_dec_step utf7_dec_start xs = (utf7_dec_start, map ucast xs)"
    if "0x26 \<notin> set xs" for xs
    using that by (induction xs) (auto simp: utf7_dec_step_def utf7_dec_start_def Let_def)
  have rank0: "utf7_rank ! 0 = 0xff" by (simp add: utf7_rank_def)
  have eq: "utf7_units (p @ [0x26]) = map ucast p @ [0x26, 0x2d]"
    using direct [OF assms(1)] rank0
    by (simp add: utf7_units_def run_steps_append utf7_dec_step_def utf7_dec_start_def Let_def)
  have zero: "b = 0" if "ucast b = (0 :: gunichar2)" for b :: byte
    using arg_cong [OF that, of "\<lambda>u. ucast u :: byte"] by (simp add: ucast_up_ucast_id is_up)
  have "0 \<notin> set (map ucast p :: gunichar2 list)"
    using assms(2) by (auto dest!: zero [OF sym])
  with eq show ?thesis by simp
qed

theorem utf7_unfinished_shift_unterminated_witness:
  "utf7_units (bytes ''Archive&'') = map ucast (bytes ''Archive&-'')"
  using utf7_unfinished_shift_unterminated [of "bytes ''Archive''"] by simp

end
