(* ===== verification/Camel_MimeTables.thy ===== *)
theory Camel_MimeTables
  imports EDS_Prelude
begin

text \<open>
  The character classes of RFC 822, 2045 and 2047: the table \<^verbatim>\<open>camel_mime_special_table\<close> that
  \<^verbatim>\<open>src/src/camel/camel-gen-tables.c\<close> computes at build time, and the macros of
  \<^verbatim>\<open>camel-mime-utils.h\<close> that test it.

  The C array of 256 \<^verbatim>\<open>unsigned short\<close> is a function from bytes to 16-bit words; the loops of the
  generator are recursions over the character lists.
\<close>

type_synonym gushort = "16 word"
type_synonym mime_table = "byte \<Rightarrow> gushort"

definition CAMEL_MIME_IS_CTRL :: gushort where "CAMEL_MIME_IS_CTRL = push_bit 0 1"
definition CAMEL_MIME_IS_LWSP :: gushort where "CAMEL_MIME_IS_LWSP = push_bit 1 1"
definition CAMEL_MIME_IS_TSPECIAL :: gushort where "CAMEL_MIME_IS_TSPECIAL = push_bit 2 1"
definition CAMEL_MIME_IS_SPECIAL :: gushort where "CAMEL_MIME_IS_SPECIAL = push_bit 3 1"
definition CAMEL_MIME_IS_SPACE :: gushort where "CAMEL_MIME_IS_SPACE = push_bit 4 1"
definition CAMEL_MIME_IS_DSPECIAL :: gushort where "CAMEL_MIME_IS_DSPECIAL = push_bit 5 1"
definition CAMEL_MIME_IS_QPSAFE :: gushort where "CAMEL_MIME_IS_QPSAFE = push_bit 6 1"
definition CAMEL_MIME_IS_ESAFE :: gushort where "CAMEL_MIME_IS_ESAFE = push_bit 7 1"
definition CAMEL_MIME_IS_PSAFE :: gushort where "CAMEL_MIME_IS_PSAFE = push_bit 8 1"
definition CAMEL_MIME_IS_ATTRCHAR :: gushort where "CAMEL_MIME_IS_ATTRCHAR = push_bit 9 1"

lemmas mime_bits = CAMEL_MIME_IS_CTRL_def CAMEL_MIME_IS_LWSP_def CAMEL_MIME_IS_TSPECIAL_def
  CAMEL_MIME_IS_SPECIAL_def CAMEL_MIME_IS_SPACE_def CAMEL_MIME_IS_DSPECIAL_def
  CAMEL_MIME_IS_QPSAFE_def CAMEL_MIME_IS_ESAFE_def CAMEL_MIME_IS_PSAFE_def
  CAMEL_MIME_IS_ATTRCHAR_def

definition CHARS_LWSP :: cstring where "CHARS_LWSP = [SP, TAB, LF, CR]"
definition CHARS_TSPECIAL :: cstring where
  "CHARS_TSPECIAL = bytes ''()<>@,;:'' @ [0x5c, 0x22] @ bytes ''/[]?=''"
definition CHARS_SPECIAL :: cstring where
  "CHARS_SPECIAL = bytes ''()<>@,;:'' @ [0x5c, 0x22] @ bytes ''.[]''"
definition CHARS_DSPECIAL :: cstring where "CHARS_DSPECIAL = bytes ''[]'' @ [0x5c, CR, SP, TAB]"
definition CHARS_ATTRCHAR :: cstring where "CHARS_ATTRCHAR = [0x2a, 0x27, 0x25, SP]"

fun add_bits :: "mime_table \<Rightarrow> gushort \<Rightarrow> cstring \<Rightarrow> mime_table" where
  "add_bits table bt [] = table"
| "add_bits table bt (c # chars) = add_bits (table(c := table c OR bt)) bt chars"

fun rem_bits :: "mime_table \<Rightarrow> gushort \<Rightarrow> cstring \<Rightarrow> mime_table" where
  "rem_bits table bt [] = table"
| "rem_bits table bt (c # chars) = rem_bits (table(c := table c AND NOT bt)) bt chars"

text \<open>The first loop of \<^verbatim>\<open>main\<close>: the base ranges.\<close>

definition table_base :: mime_table where
  "table_base ii =
     (let t = 0;
          t = (if ii < 32 \<or> ii = 127 then t OR (CAMEL_MIME_IS_CTRL OR CAMEL_MIME_IS_TSPECIAL)
               else if ii < 127 then t OR CAMEL_MIME_IS_ATTRCHAR else t);
          t = (if (ii \<ge> 32 \<and> ii \<le> 60) \<or> (ii \<ge> 62 \<and> ii \<le> 126) \<or> ii = 9
               then t OR (CAMEL_MIME_IS_QPSAFE OR CAMEL_MIME_IS_ESAFE) else t)
      in if (ii \<ge> 0x30 \<and> ii \<le> 0x39) \<or> (ii \<ge> 0x61 \<and> ii \<le> 0x7a) \<or> (ii \<ge> 0x41 \<and> ii \<le> 0x5a)
         then t OR CAMEL_MIME_IS_PSAFE else t)"

definition camel_mime_special_table :: mime_table where
  "camel_mime_special_table =
     (let t = table_base;
          t = t(0x20 := t 0x20 OR CAMEL_MIME_IS_SPACE);
          t = add_bits t CAMEL_MIME_IS_LWSP CHARS_LWSP;
          t = add_bits t CAMEL_MIME_IS_TSPECIAL CHARS_TSPECIAL;
          t = add_bits t CAMEL_MIME_IS_SPECIAL CHARS_SPECIAL;
          t = add_bits t CAMEL_MIME_IS_DSPECIAL CHARS_DSPECIAL;
          t = rem_bits t CAMEL_MIME_IS_ESAFE (bytes ''()<>@,;:'' @ [0x22] @ bytes ''/[]?.=_'');
          t = rem_bits t CAMEL_MIME_IS_ATTRCHAR (CHARS_ATTRCHAR @ CHARS_TSPECIAL)
      in add_bits t CAMEL_MIME_IS_PSAFE (bytes ''!*+-/''))"

definition camel_mime_is_ctrl :: "byte \<Rightarrow> bool" where
  "camel_mime_is_ctrl x \<longleftrightarrow> camel_mime_special_table x AND CAMEL_MIME_IS_CTRL \<noteq> 0"
definition camel_mime_is_lwsp :: "byte \<Rightarrow> bool" where
  "camel_mime_is_lwsp x \<longleftrightarrow> camel_mime_special_table x AND CAMEL_MIME_IS_LWSP \<noteq> 0"
definition camel_mime_is_tspecial :: "byte \<Rightarrow> bool" where
  "camel_mime_is_tspecial x \<longleftrightarrow> camel_mime_special_table x AND CAMEL_MIME_IS_TSPECIAL \<noteq> 0"
definition camel_mime_is_ttoken :: "byte \<Rightarrow> bool" where
  "camel_mime_is_ttoken x \<longleftrightarrow>
     camel_mime_special_table x AND
       (CAMEL_MIME_IS_TSPECIAL OR CAMEL_MIME_IS_LWSP OR CAMEL_MIME_IS_CTRL) = 0"
definition camel_mime_is_atom :: "byte \<Rightarrow> bool" where
  "camel_mime_is_atom x \<longleftrightarrow>
     camel_mime_special_table x AND
       (CAMEL_MIME_IS_SPECIAL OR CAMEL_MIME_IS_SPACE OR CAMEL_MIME_IS_CTRL) = 0"
definition camel_mime_is_dtext :: "byte \<Rightarrow> bool" where
  "camel_mime_is_dtext x \<longleftrightarrow> camel_mime_special_table x AND CAMEL_MIME_IS_DSPECIAL = 0"
definition camel_mime_is_fieldname :: "byte \<Rightarrow> bool" where
  "camel_mime_is_fieldname x \<longleftrightarrow>
     camel_mime_special_table x AND (CAMEL_MIME_IS_CTRL OR CAMEL_MIME_IS_SPACE) = 0"
definition camel_mime_is_qpsafe :: "byte \<Rightarrow> bool" where
  "camel_mime_is_qpsafe x \<longleftrightarrow> camel_mime_special_table x AND CAMEL_MIME_IS_QPSAFE \<noteq> 0"
definition camel_mime_is_psafe :: "byte \<Rightarrow> bool" where
  "camel_mime_is_psafe x \<longleftrightarrow> camel_mime_special_table x AND CAMEL_MIME_IS_PSAFE \<noteq> 0"
definition camel_mime_is_attrchar :: "byte \<Rightarrow> bool" where
  "camel_mime_is_attrchar x \<longleftrightarrow> camel_mime_special_table x AND CAMEL_MIME_IS_ATTRCHAR \<noteq> 0"

section \<open>What the table says\<close>

text \<open>The table bit by bit: setting a bit twice is setting it once.\<close>

lemma add_bits_bit:
  "bit (add_bits t bt cs c) n \<longleftrightarrow> bit (t c) n \<or> (c \<in> set cs \<and> bit bt n)"
proof (induction cs arbitrary: t)
  case Nil
  show ?case by simp
next
  case (Cons a cs)
  show ?case
    by (simp add: Cons.IH bit_or_iff) blast
qed

lemma rem_bits_bit:
  "bit (rem_bits t bt cs c) n \<longleftrightarrow> bit (t c) n \<and> \<not> (c \<in> set cs \<and> bit bt n)"
proof (induction cs arbitrary: t)
  case Nil
  show ?case by simp
next
  case (Cons a cs)
  show ?case
    by (simp add: Cons.IH bit_and_iff bit_not_iff) (auto dest: bit_imp_le_length)
qed

lemma and_single_bit: "(x :: gushort) AND push_bit k 1 \<noteq> 0 \<longleftrightarrow> bit x k"
proof -
  have "x AND push_bit k 1 = 0 \<longleftrightarrow> (\<forall>n < 16. \<not> bit (x AND push_bit k 1) n)"
    by (auto simp: bit_eq_iff possible_bit_def dest: bit_imp_le_length)
  also have "\<dots> \<longleftrightarrow> \<not> bit x k"
    using bit_imp_le_length [of x k]
    by (auto simp: bit_and_iff bit_exp_iff possible_bit_def)
  finally show ?thesis by blast
qed

lemmas mime_table_bit = camel_mime_special_table_def table_base_def Let_def add_bits_bit rem_bits_bit

lemma camel_mime_is_qpsafe_iff:
  "camel_mime_is_qpsafe c \<longleftrightarrow> (32 \<le> c \<and> c \<le> 60) \<or> (62 \<le> c \<and> c \<le> 126) \<or> c = 9"
  unfolding camel_mime_is_qpsafe_def CAMEL_MIME_IS_QPSAFE_def and_single_bit
  by (auto simp: mime_table_bit mime_bits bit_simps)

lemma camel_mime_is_lwsp_iff: "camel_mime_is_lwsp c \<longleftrightarrow> c = SP \<or> c = TAB \<or> c = LF \<or> c = CR"
  unfolding camel_mime_is_lwsp_def CAMEL_MIME_IS_LWSP_def and_single_bit
  by (auto simp: mime_table_bit mime_bits bit_simps CHARS_LWSP_def)

end
