(* ===== verification/Camel_Quoted.thy ===== *)
theory Camel_Quoted
  imports Camel_MimeTables
begin

text \<open>
  Quoted-printable of \<^verbatim>\<open>src/src/camel/camel-mime-utils.c\<close>: the incremental encoder and decoder of
  bodies (RFC 2045) and the Q encoding of header words (RFC 2047).

  The incremental routines keep two \<^verbatim>\<open>gint\<close>s between calls. For the encoder \<^verbatim>\<open>save\<close> is the number of
  characters on the current line and \<^verbatim>\<open>state\<close> the delayed character, \<open>None\<close> for \<^verbatim>\<open>-1\<close>; for the
  decoder \<^verbatim>\<open>state\<close> is the number of characters seen of an escape and \<^verbatim>\<open>save\<close> the first of them. Each
  routine is its step on one byte, and a call is \<open>run_steps\<close> of it; the bytes written to \<^verbatim>\<open>out\<close> are
  the output list.
\<close>

definition tohex :: "nat \<Rightarrow> byte" where
  "tohex n = bytes ''0123456789ABCDEF'' ! n"

text \<open>The two digits \<^verbatim>\<open>tohex[(c >> 4) & 0xf]\<close> and \<^verbatim>\<open>tohex[c & 0xf]\<close> after an equals sign.\<close>

definition hex_escape :: "byte \<Rightarrow> byte list" where
  "hex_escape c = [EQUALS, tohex (unat (drop_bit 4 c AND 0xf)), tohex (unat (c AND 0xf))]"

section \<open>The encoder\<close>

record quoted_enc =
  qe_sofar :: int
  qe_last :: "byte option"

definition quoted_enc_start :: quoted_enc where
  "quoted_enc_start = \<lparr>qe_sofar = 0, qe_last = None\<rparr>"

text \<open>The macro \<^verbatim>\<open>output_last\<close>: the new value of \<^verbatim>\<open>sofar\<close> and the bytes.\<close>

definition output_last :: "int \<Rightarrow> byte \<Rightarrow> int \<times> byte list" where
  "output_last sofar lst =
     (let (sofar, brk) = (if sofar + 3 > 74 then (0, [EQUALS, LF]) else (sofar, []))
      in (sofar + 3, brk @ hex_escape lst))"

definition quoted_enc_step :: "quoted_enc \<Rightarrow> byte \<Rightarrow> quoted_enc \<times> byte list" where
  "quoted_enc_step s c =
     (let sofar = qe_sofar s; lst = qe_last s in
      if c = CR then
        (let (sofar, o1) = (case lst of
             Some l \<Rightarrow> output_last sofar l
           | None \<Rightarrow> (sofar, []))
         in (\<lparr>qe_sofar = sofar, qe_last = Some c\<rparr>, o1))
      else if c = LF then
        (let (sofar, o1) = (case lst of
             Some l \<Rightarrow> if l \<noteq> CR then output_last sofar l else (sofar, [])
           | None \<Rightarrow> (sofar, []))
         in (\<lparr>qe_sofar = 0, qe_last = None\<rparr>, o1 @ [LF]))
      else
        (let (sofar, o1) = (case lst of
             Some l \<Rightarrow>
               if camel_mime_is_qpsafe l then (sofar + 1, [l]) else output_last sofar l
           | None \<Rightarrow> (sofar, []))
         in
         if camel_mime_is_qpsafe c then
           (let (sofar, o2) = (if sofar > 74 then (0, [EQUALS, LF]) else (sofar, []))
            in if c = SP \<or> c = TAB then
                 (\<lparr>qe_sofar = sofar, qe_last = Some c\<rparr>, o1 @ o2)
               else (\<lparr>qe_sofar = sofar + 1, qe_last = None\<rparr>, o1 @ o2 @ [c]))
         else
           (let (sofar, o2) = (if sofar > 72 then (3, [EQUALS, LF]) else (sofar + 3, []))
            in (\<lparr>qe_sofar = sofar, qe_last = None\<rparr>, o1 @ o2 @ hex_escape c))))"

definition camel_quoted_encode_step :: "quoted_enc \<Rightarrow> byte list \<Rightarrow> quoted_enc \<times> byte list" where
  "camel_quoted_encode_step s xs = run_steps quoted_enc_step s xs"

definition camel_quoted_encode_close :: "quoted_enc \<Rightarrow> byte list \<Rightarrow> quoted_enc \<times> byte list" where
  "camel_quoted_encode_close s xs =
     (let (s, out) = (if length xs > 0 then camel_quoted_encode_step s xs else (s, []));
          flush = (case qe_last s of
             Some l \<Rightarrow>
               if camel_mime_is_qpsafe l \<and> l \<noteq> SP \<and> l \<noteq> 9 then [l] else hex_escape l
           | None \<Rightarrow> [])
      in (\<lparr>qe_sofar = 0, qe_last = None\<rparr>, out @ flush))"

interpretation quoted_enc: byte_machine camel_quoted_encode_step
  unfolding camel_quoted_encode_step_def [abs_def] by (rule byte_machine_run_steps)

section \<open>The decoder\<close>

record quoted_dec =
  qd_state :: nat
  qd_save :: byte

definition quoted_dec_start :: quoted_dec where
  "quoted_dec_start = \<lparr>qd_state = 0, qd_save = 0\<rparr>"

text \<open>The value of a hexadecimal digit, \<^verbatim>\<open>(c>='A'?c-'A'+10:c-'0')&0x0f\<close>.\<close>

definition hex_value :: "byte \<Rightarrow> byte" where
  "hex_value c = (if c \<ge> 65 then c - 65 + 10 else c - 48) AND 0x0f"

definition quoted_dec_step :: "quoted_dec \<Rightarrow> byte \<Rightarrow> quoted_dec \<times> byte list" where
  "quoted_dec_step s c =
     (if qd_state s = 0 then
        (if c = EQUALS then (s\<lparr>qd_state := 1\<rparr>, []) else (s, [c]))
      else if qd_state s = 1 then
        (if c = LF then (s\<lparr>qd_state := 0\<rparr>, [])
         else (s\<lparr>qd_save := c, qd_state := 2\<rparr>, []))
      else
        (if isxdigit c \<and> isxdigit (qd_save s) then
           (let c = ascii_toupper c; save = ascii_toupper (qd_save s)
            in (s\<lparr>qd_save := save, qd_state := 0\<rparr>,
                [push_bit 4 (hex_value save) OR hex_value c]))
         else if c = LF \<and> qd_save s = CR then (s\<lparr>qd_state := 0\<rparr>, [])
         else (s\<lparr>qd_state := 0\<rparr>, [EQUALS, qd_save s, c])))"

definition camel_quoted_decode_step :: "quoted_dec \<Rightarrow> byte list \<Rightarrow> quoted_dec \<times> byte list" where
  "camel_quoted_decode_step s xs = run_steps quoted_dec_step s xs"

interpretation quoted_dec: byte_machine camel_quoted_decode_step
  unfolding camel_quoted_decode_step_def [abs_def] by (rule byte_machine_run_steps)

section \<open>The Q encoding of header words\<close>

text \<open>\<^verbatim>\<open>quoted_decode\<close>: truncated input makes it return length 0, here the empty list.\<close>

fun quoted_decode_loop :: "byte list \<Rightarrow> byte list option" where
  "quoted_decode_loop [] = Some []"
| "quoted_decode_loop (c # rest) =
     (if c = EQUALS then
        (case rest of
           a # b # rest' \<Rightarrow>
             map_option (Cons (push_bit 4 (hex_value (ascii_toupper a)) OR hex_value (ascii_toupper b)))
               (quoted_decode_loop rest')
         | _ \<Rightarrow> None)
      else if c = 0x5f then map_option (Cons 0x20) (quoted_decode_loop rest)
      else map_option (Cons c) (quoted_decode_loop rest))"

definition quoted_decode :: "byte list \<Rightarrow> byte list" where
  "quoted_decode xs = (case quoted_decode_loop xs of Some out \<Rightarrow> out | None \<Rightarrow> [])"

fun quoted_encode :: "byte list \<Rightarrow> gushort \<Rightarrow> byte list" where
  "quoted_encode [] safemask = []"
| "quoted_encode (c # rest) safemask =
     (if c = SP then [0x5f]
      else if camel_mime_special_table c AND safemask \<noteq> 0 then [c]
      else hex_escape c) @ quoted_encode rest safemask"

section \<open>Hexadecimal escapes\<close>

lemma tohex_digit:
  "list_all (\<lambda>n. isxdigit (tohex n) \<and> hex_value (ascii_toupper (tohex n)) = word_of_nat n \<and>
     tohex n \<noteq> LF) [0..<16]"
  by code_simp

lemma nibble_less: "unat (c AND 0xf :: byte) < 16"
proof -
  have "c AND 0xf = take_bit 4 c"
    by (rule byte_forallI) code_simp
  then show ?thesis
    using take_bit_nat_less_exp [of 4 "unat c"] by (simp add: unsigned_take_bit_eq)
qed

lemma hex_escape_value:
  fixes c :: byte
  shows "isxdigit (tohex (unat (drop_bit 4 c AND 0xf))) \<and> isxdigit (tohex (unat (c AND 0xf))) \<and>
   push_bit 4 (hex_value (ascii_toupper (tohex (unat (drop_bit 4 c AND 0xf))))) OR
     hex_value (ascii_toupper (tohex (unat (c AND 0xf)))) = c"
proof -
  have digit: "isxdigit (tohex (unat (d AND 0xf))) \<and>
      hex_value (ascii_toupper (tohex (unat (d AND 0xf)))) = d AND 0xf" for d :: byte
    using tohex_digit nibble_less [of d] by (auto simp: list_all_iff)
  have "push_bit 4 (drop_bit 4 c AND 0xf) OR (c AND 0xf) = c"
    by (rule byte_forallI) code_simp
  then show ?thesis by (simp add: digit)
qed

lemma hex_escape_chars:
  fixes c :: byte
  shows "tohex (unat (drop_bit 4 c AND 0xf)) \<noteq> LF \<and> tohex (unat (c AND 0xf)) \<noteq> LF"
  using tohex_digit nibble_less [of c] nibble_less [of "drop_bit 4 c"] by (auto simp: list_all_iff)

lemma length_hex_escape [simp]: "length (hex_escape c) = 3"
  by (simp add: hex_escape_def)

lemma hex_escape_no_LF [simp]: "LF \<notin> set (hex_escape c)"
  using hex_escape_chars [of c] by (auto simp: hex_escape_def)

section \<open>Decoding what was encoded\<close>

text \<open>What survives: every byte, except that a CR LF line end becomes the LF it is stored as.\<close>

fun crlf_to_lf :: "byte list \<Rightarrow> byte list" where
  "crlf_to_lf [] = []"
| "crlf_to_lf (c # rest) =
     (if c = CR \<and> rest \<noteq> [] \<and> hd rest = LF then crlf_to_lf rest else c # crlf_to_lf rest)"

lemma crlf_to_lf_no_CR: "CR \<notin> set xs \<Longrightarrow> crlf_to_lf xs = xs"
  by (induction xs) auto

lemma quoted_dec_byte: "c \<noteq> EQUALS \<Longrightarrow> qd_state d = 0 \<Longrightarrow> quoted_dec_step d c = (d, [c])"
  by (simp add: quoted_dec_step_def)

lemma qpsafe_not_equals: "camel_mime_is_qpsafe c \<Longrightarrow> c \<noteq> EQUALS"
  by (auto simp: camel_mime_is_qpsafe_iff)

text \<open>From a state between two characters the decoder undoes an escape, skips a soft line break and
  copies safe bytes, and is between two characters again.\<close>

definition decodes :: "byte list \<Rightarrow> byte list \<Rightarrow> bool" where
  "decodes xs ys \<longleftrightarrow> (\<forall>d. qd_state d = 0 \<longrightarrow>
     (\<exists>d'. camel_quoted_decode_step d xs = (d', ys) \<and> qd_state d' = 0))"

lemma decodes_Nil [simp]: "decodes [] []"
  by (simp add: decodes_def camel_quoted_decode_step_def)

lemma decodes_append: "decodes xs ys \<Longrightarrow> decodes xs' ys' \<Longrightarrow> decodes (xs @ xs') (ys @ ys')"
  unfolding decodes_def using quoted_dec.run_append by (metis fst_conv snd_conv)

lemma decodes_hex: "decodes (hex_escape c) [c]"
  using hex_escape_value [of c] hex_escape_chars [of c]
  by (auto simp: decodes_def hex_escape_def camel_quoted_decode_step_def quoted_dec_step_def Let_def)

lemma decodes_soft: "decodes [EQUALS, LF] []"
  by (auto simp: decodes_def camel_quoted_decode_step_def quoted_dec_step_def)

lemma decodes_byte: "c \<noteq> EQUALS \<Longrightarrow> decodes [c] [c]"
  by (auto simp: decodes_def camel_quoted_decode_step_def quoted_dec_step_def)

lemma decodes_output_last: "decodes (snd (output_last sofar l)) [l]"
  using decodes_append [OF decodes_soft decodes_hex] decodes_hex
  by (auto simp: output_last_def Let_def)

text \<open>The delayed character, as the list of what is still to be printed.\<close>

definition held :: "quoted_enc \<Rightarrow> byte list" where
  "held s = (case qe_last s of None \<Rightarrow> [] | Some l \<Rightarrow> [l])"

definition quoted_enc_inv :: "quoted_enc \<Rightarrow> bool" where
  "quoted_enc_inv s \<longleftrightarrow> 0 \<le> qe_sofar s \<and> qe_sofar s \<le> 75 \<and>
     (case qe_last s of None \<Rightarrow> True | Some l \<Rightarrow> l = CR \<or> (l = SP \<or> l = TAB) \<and> qe_sofar s \<le> 74)"

lemma quoted_enc_inv_start: "quoted_enc_inv quoted_enc_start"
  by (simp add: quoted_enc_inv_def quoted_enc_start_def)

lemma qpsafe_ctrl [simp]: "\<not> camel_mime_is_qpsafe CR" "\<not> camel_mime_is_qpsafe LF"
    "camel_mime_is_qpsafe SP" "camel_mime_is_qpsafe TAB"
  by (simp_all add: camel_mime_is_qpsafe_iff)

lemma quoted_enc_step_inv: "quoted_enc_inv s \<Longrightarrow> quoted_enc_inv (fst (quoted_enc_step s c))"
  by (auto simp: quoted_enc_inv_def quoted_enc_step_def output_last_def Let_def
      split: option.splits)

text \<open>What one byte adds to the decoded text.\<close>

definition quoted_released :: "quoted_enc \<Rightarrow> byte \<Rightarrow> byte list" where
  "quoted_released s c =
     (if c = CR then held s
      else if c = LF then (if qe_last s = Some CR then [LF] else held s @ [LF])
      else held s @ (if c = SP \<or> c = TAB then [] else [c]))"

lemma quoted_released_crlf:
  assumes "quoted_enc_inv s"
  shows "quoted_released s c @ crlf_to_lf (held (fst (quoted_enc_step s c)) @ xs) =
    crlf_to_lf (held s @ c # xs)"
  using assms
  by (cases "qe_last s")
    (auto simp: quoted_released_def held_def quoted_enc_step_def quoted_enc_inv_def Let_def split_def)

lemmas decodes_intros = decodes_Nil decodes_append decodes_hex decodes_soft decodes_byte
  decodes_output_last

lemma decodes_LF: "decodes xs ys \<Longrightarrow> decodes (xs @ [LF]) (ys @ [LF])"
  by (rule decodes_append) (simp_all add: decodes_byte)

text \<open>The first part of the output of a step, for the delayed character.\<close>

lemma decodes_delayed:
  "decodes (snd (case l of None \<Rightarrow> (sofar, []) | Some l \<Rightarrow>
      if camel_mime_is_qpsafe l then (sofar + 1, [l]) else output_last sofar l))
    (case l of None \<Rightarrow> [] | Some l \<Rightarrow> [l])"
  using decodes_output_last decodes_byte qpsafe_not_equals by (auto split: option.splits)

lemma decodes_break: "decodes xs ys \<Longrightarrow> decodes (EQUALS # LF # xs) ys"
  using decodes_append [OF decodes_soft, of xs ys] by simp

lemma quoted_enc_step_decodes:
  "decodes (snd (quoted_enc_step s c)) (quoted_released s c)"
proof -
  consider "c = CR" | "c = LF" | "c \<noteq> CR" "c \<noteq> LF" by blast
  then show ?thesis
  proof cases
    case 1
    then show ?thesis
      using decodes_output_last
      by (auto simp: quoted_enc_step_def quoted_released_def held_def Let_def split_def
          split: option.splits)
  next
    case 2
    then show ?thesis
      using decodes_LF [OF decodes_output_last] decodes_LF [OF decodes_Nil]
      by (auto simp: quoted_enc_step_def quoted_released_def held_def Let_def split_def
          split: option.splits)
  next
    case 3
    let ?d = "case qe_last s of None \<Rightarrow> (qe_sofar s, []) | Some l \<Rightarrow>
      if camel_mime_is_qpsafe l then (qe_sofar s + 1, [l]) else output_last (qe_sofar s) l"
    have "\<exists>rest. snd (quoted_enc_step s c) = snd ?d @ rest \<and>
        decodes rest (if c = SP \<or> c = TAB then [] else [c])"
      using 3 decodes_soft decodes_byte [of c] decodes_break [OF decodes_byte [of c]]
        decodes_hex [of c] decodes_break [OF decodes_hex [of c]] qpsafe_not_equals [of c]
      by (auto simp: quoted_enc_step_def Let_def split_def)
    then obtain rest where rest: "snd (quoted_enc_step s c) = snd ?d @ rest"
        "decodes rest (if c = SP \<or> c = TAB then [] else [c])" by blast
    from decodes_append [OF decodes_delayed rest(2)] 3 show ?thesis
      unfolding rest(1) quoted_released_def held_def by simp
  qed
qed

lemma quoted_close_decodes:
  "decodes (snd (camel_quoted_encode_close s [])) (held s)"
  using decodes_byte qpsafe_not_equals decodes_hex
  by (auto simp: camel_quoted_encode_close_def held_def split: option.splits)

lemma quoted_close_split:
  "snd (camel_quoted_encode_close s xs) =
     snd (camel_quoted_encode_step s xs) @ snd (camel_quoted_encode_close (fst (camel_quoted_encode_step s xs)) [])"
  by (cases xs)
    (simp_all add: camel_quoted_encode_close_def quoted_enc.run_Nil split_def Let_def)

lemma quoted_encode_decodes:
  "quoted_enc_inv s \<Longrightarrow> decodes (snd (camel_quoted_encode_close s xs)) (crlf_to_lf (held s @ xs))"
proof (induction xs arbitrary: s)
  case Nil
  have "crlf_to_lf (held s) = held s"
    by (auto simp: held_def split: option.splits)
  with quoted_close_decodes show ?case by simp
next
  case (Cons c xs)
  let ?s = "fst (quoted_enc_step s c)"
  have "snd (camel_quoted_encode_close s (c # xs)) =
      snd (quoted_enc_step s c) @ snd (camel_quoted_encode_close ?s xs)"
    by (subst (1 2) quoted_close_split)
      (simp add: camel_quoted_encode_step_def split_def Let_def)
  moreover note decodes_append [OF quoted_enc_step_decodes [of s c]
      Cons.IH [OF quoted_enc_step_inv [OF Cons.prems, of c]]]
  ultimately show ?case by (simp add: quoted_released_crlf [OF Cons.prems])
qed

section \<open>Line lengths\<close>

lemma hex_escape_line [simp]:
  "column k (hex_escape c) = k + 3" "fits n k (hex_escape c) \<longleftrightarrow> k + 3 \<le> n"
  using hex_escape_chars [of c] by (auto simp: hex_escape_def)

text \<open>Printing \<open>xs\<close> with the line counter at \<open>sofar\<close> stays within the limit and leaves it at
  \<open>sofar'\<close>.\<close>

definition lays :: "int \<Rightarrow> byte list \<Rightarrow> int \<Rightarrow> bool" where
  "lays sofar xs sofar' \<longleftrightarrow> 0 \<le> sofar \<and> 0 \<le> sofar' \<and> fits 76 (nat sofar) xs \<and>
     column (nat sofar) xs = nat sofar'"

lemma lays_append: "lays a xs b \<Longrightarrow> lays b ys c \<Longrightarrow> lays a (xs @ ys) c"
  by (simp add: lays_def fits_append column_append)

lemma lays_Nil: "0 \<le> a \<Longrightarrow> a \<le> 76 \<Longrightarrow> lays a [] a"
  by (simp add: lays_def nat_le_iff)

lemma lays_byte: "0 \<le> a \<Longrightarrow> a \<le> 75 \<Longrightarrow> c \<noteq> LF \<Longrightarrow> lays a [c] (a + 1)"
  by (simp add: lays_def nat_add_distrib nat_le_iff)

lemma lays_LF: "0 \<le> a \<Longrightarrow> a \<le> 76 \<Longrightarrow> lays a [LF] 0"
  by (simp add: lays_def nat_le_iff)

lemma lays_soft: "0 \<le> a \<Longrightarrow> a \<le> 75 \<Longrightarrow> lays a [EQUALS, LF] 0"
  by (simp add: lays_def nat_le_iff)

lemma lays_hex: "0 \<le> a \<Longrightarrow> a \<le> 73 \<Longrightarrow> lays a (hex_escape c) (a + 3)"
  by (simp add: lays_def nat_add_distrib nat_le_iff)

lemma lays_output_last:
  "0 \<le> a \<Longrightarrow> a \<le> 75 \<Longrightarrow> lays a (snd (output_last a l)) (fst (output_last a l)) \<and>
     0 \<le> fst (output_last a l) \<and> fst (output_last a l) \<le> 74"
  using lays_append [OF lays_soft lays_hex [of 0 l]] lays_hex [of a l]
  by (auto simp: output_last_def Let_def)

lemma lays_brk_byte: "0 \<le> a \<Longrightarrow> a \<le> 75 \<Longrightarrow> c \<noteq> LF \<Longrightarrow> lays a (EQUALS # LF # [c]) 1"
  using lays_append [OF lays_soft lays_byte [of 0 c]] by simp

lemma lays_brk_hex: "0 \<le> a \<Longrightarrow> a \<le> 75 \<Longrightarrow> lays a (EQUALS # LF # hex_escape c) 3"
  using lays_append [OF lays_soft lays_hex [of 0 c]] by simp

lemma lays_delayed:
  fixes s :: quoted_enc
  assumes "quoted_enc_inv s"
  defines "d \<equiv> case qe_last s of None \<Rightarrow> (qe_sofar s, []) | Some l \<Rightarrow>
      if camel_mime_is_qpsafe l then (qe_sofar s + 1, [l]) else output_last (qe_sofar s) l"
  shows "lays (qe_sofar s) (snd d) (fst d) \<and> 0 \<le> fst d \<and> fst d \<le> 75"
  using assms lays_output_last [of "qe_sofar s" CR] lays_byte [of "qe_sofar s"] lays_Nil [of "qe_sofar s"]
  by (auto simp: quoted_enc_inv_def split: option.splits)

lemma quoted_enc_step_lays:
  assumes inv: "quoted_enc_inv s"
  shows "lays (qe_sofar s) (snd (quoted_enc_step s c)) (qe_sofar (fst (quoted_enc_step s c)))"
proof -
  from inv have range: "0 \<le> qe_sofar s" "qe_sofar s \<le> 75"
    by (auto simp: quoted_enc_inv_def)
  note ol = lays_output_last [OF range]
  consider "c = CR" | "c = LF" | "c \<noteq> CR" "c \<noteq> LF" by blast
  then show ?thesis
  proof cases
    case 1
    then show ?thesis
      using ol lays_Nil [of "qe_sofar s"] range
      by (auto simp: quoted_enc_step_def split_def Let_def split: option.splits)
  next
    case 2
    have "lays (qe_sofar s) (snd (output_last (qe_sofar s) l) @ [LF]) 0" for l
      using ol [of l] lays_LF by (intro lays_append) auto
    with 2 lays_LF [of "qe_sofar s"] range show ?thesis
      by (auto simp: quoted_enc_step_def split_def Let_def split: option.splits)
  next
    case 3
    let ?d = "case qe_last s of None \<Rightarrow> (qe_sofar s, []) | Some l \<Rightarrow>
      if camel_mime_is_qpsafe l then (qe_sofar s + 1, [l]) else output_last (qe_sofar s) l"
    note d = lays_delayed [OF inv]
    define d where "d = ?d"
    have step: "quoted_enc_step s c =
        (if camel_mime_is_qpsafe c then
           (let (sofar, o2) = (if fst d > 74 then (0, [EQUALS, LF]) else (fst d, []))
            in if c = SP \<or> c = TAB then
                 (\<lparr>qe_sofar = sofar, qe_last = Some c\<rparr>, snd d @ o2)
               else (\<lparr>qe_sofar = sofar + 1, qe_last = None\<rparr>, snd d @ o2 @ [c]))
         else
           (let (sofar, o2) = (if fst d > 72 then (3, [EQUALS, LF]) else (fst d + 3, []))
            in (\<lparr>qe_sofar = sofar, qe_last = None\<rparr>, snd d @ o2 @ hex_escape c)))"
      using 3 unfolding d_def by (simp only: quoted_enc_step_def split_def Let_def if_False)
    have "\<exists>rest. snd (quoted_enc_step s c) = snd d @ rest \<and>
        lays (fst d) rest (qe_sofar (fst (quoted_enc_step s c)))"
      using 3 d [folded d_def] lays_Nil [of "fst d"] lays_soft [of "fst d"] lays_byte [of "fst d" c]
        lays_brk_byte [of "fst d" c] lays_hex [of "fst d" c] lays_brk_hex [of "fst d" c]
      unfolding step by (simp add: Let_def)
    then obtain rest where "snd (quoted_enc_step s c) = snd d @ rest"
      and "lays (fst d) rest (qe_sofar (fst (quoted_enc_step s c)))" by blast
    with d [folded d_def] lays_append show ?thesis by metis
  qed
qed

section \<open>Output bounds\<close>

definition quoted_enc_credit :: "quoted_enc \<Rightarrow> nat" where
  "quoted_enc_credit s = (if qe_last s = None then 0 else 3) + (if qe_sofar s \<ge> 70 then 1 else 0)"

lemma quoted_enc_step_budget:
  assumes "quoted_enc_inv s"
  shows "length (snd (quoted_enc_step s c)) + quoted_enc_credit (fst (quoted_enc_step s c)) \<le>
    4 + quoted_enc_credit s"
  using assms
  by (auto simp: quoted_enc_step_def quoted_enc_inv_def quoted_enc_credit_def output_last_def Let_def
      split: option.splits)

lemma quoted_dec_step_budget:
  "qd_state s \<le> 2 \<Longrightarrow> qd_state (fst (quoted_dec_step s c)) \<le> 2"
  "qd_state s \<le> 2 \<Longrightarrow> length (snd (quoted_dec_step s c)) + qd_state (fst (quoted_dec_step s c)) \<le>
     1 + qd_state s"
  by (auto simp: quoted_dec_step_def Let_def)

lemma quoted_decode_hex:
  "quoted_decode_loop (hex_escape c @ xs) = map_option (Cons c) (quoted_decode_loop xs)"
  using hex_escape_value [of c] by (simp add: hex_escape_def)

lemma quoted_decode_encode_loop:
  assumes "camel_mime_special_table EQUALS AND safe = 0" and "camel_mime_special_table 0x5f AND safe = 0"
  shows "quoted_decode_loop (quoted_encode xs safe) = Some xs"
proof (induction xs)
  case (Cons c xs)
  then show ?case
    using assms quoted_decode_hex [of c "quoted_encode xs safe"] by (auto split: list.splits)
qed simp

lemma esafe_psafe_masks:
  assumes "safe \<in> {CAMEL_MIME_IS_ESAFE, CAMEL_MIME_IS_PSAFE}" and "c = EQUALS \<or> c = 0x5f"
  shows "camel_mime_special_table c AND safe = 0"
proof -
  have "camel_mime_special_table EQUALS AND CAMEL_MIME_IS_ESAFE = 0"
    "camel_mime_special_table 0x5f AND CAMEL_MIME_IS_ESAFE = 0"
    "camel_mime_special_table EQUALS AND CAMEL_MIME_IS_PSAFE = 0"
    "camel_mime_special_table 0x5f AND CAMEL_MIME_IS_PSAFE = 0"
    by code_simp+
  with assms show ?thesis by auto
qed

text \<open>Safe characters that are not spaces go out as they are while the line has room.\<close>

lemma quoted_enc_plain:
  "0 \<le> n \<Longrightarrow> n + int m \<le> 75 \<Longrightarrow>
     camel_quoted_encode_step \<lparr>qe_sofar = n, qe_last = None\<rparr> (replicate m 0x61) =
       (\<lparr>qe_sofar = n + int m, qe_last = None\<rparr>, replicate m 0x61)"
  by (induction m arbitrary: n)
    (simp_all add: camel_quoted_encode_step_def quoted_enc_step_def camel_mime_is_qpsafe_iff Let_def)

section \<open>Properties\<close>

text \<open>C1: Quoted-printable loses nothing but the kind of line end: decoding the output of a whole
  encoding run gives the input back with CR LF turned into LF, into whatever pieces the input of
  the encoder and its output are cut when they are fed to the two routines.\<close>

theorem quoted_printable_roundtrip:
  assumes "snd (quoted_enc.run_chunks quoted_enc_start pieces) = out1"
    and "snd (camel_quoted_encode_close (fst (quoted_enc.run_chunks quoted_enc_start pieces)) final) = out2"
    and "concat pieces' = out1 @ out2"
  shows "snd (quoted_dec.run_chunks quoted_dec_start pieces') = crlf_to_lf (concat pieces @ final)"
proof -
  let ?s = "fst (camel_quoted_encode_step quoted_enc_start (concat pieces))"
  have "out1 @ out2 = snd (camel_quoted_encode_close quoted_enc_start (concat pieces @ final))"
    using assms(1,2)
    by (subst quoted_close_split, subst (asm) (2) quoted_close_split)
      (simp add: quoted_enc.run_chunks_concat quoted_enc.run_append)
  moreover have "held quoted_enc_start = []"
    by (simp add: held_def quoted_enc_start_def)
  ultimately have "decodes (out1 @ out2) (crlf_to_lf (concat pieces @ final))"
    using quoted_encode_decodes [OF quoted_enc_inv_start, of "concat pieces @ final"] by simp
  moreover have "qd_state quoted_dec_start = 0" by (simp add: quoted_dec_start_def)
  ultimately obtain d where "camel_quoted_decode_step quoted_dec_start (concat pieces') =
      (d, crlf_to_lf (concat pieces @ final))"
    unfolding assms(3) decodes_def by blast
  then show ?thesis by (simp add: quoted_dec.run_chunks_concat)
qed

theorem quoted_printable_roundtrip_witness:
  "snd (quoted_dec.run_chunks quoted_dec_start [bytes ''a=3'', bytes ''Db=2'', bytes ''0'' @ [LF]]) =
     bytes ''a=b '' @ [LF]"
proof -
  have "snd (quoted_dec.run_chunks quoted_dec_start [bytes ''a=3'', bytes ''Db=2'', bytes ''0'' @ [LF]]) =
      crlf_to_lf (concat [bytes ''a='', bytes ''b '' @ [CR]] @ [LF])"
  proof (rule quoted_printable_roundtrip)
    show "concat [bytes ''a=3'', bytes ''Db=2'', bytes ''0'' @ [LF]] =
        snd (quoted_enc.run_chunks quoted_enc_start [bytes ''a='', bytes ''b '' @ [CR]]) @
        snd (camel_quoted_encode_close
          (fst (quoted_enc.run_chunks quoted_enc_start [bytes ''a='', bytes ''b '' @ [CR]])) [LF])"
      unfolding quoted_enc.run_chunks_concat by code_simp
  qed simp_all
  then show ?thesis by simp
qed

text \<open>What a run has written so far, and that the final flush adds at most three characters to its last line.\<close>

lemma quoted_enc_run_lays:
  "quoted_enc_inv (fst (camel_quoted_encode_step quoted_enc_start xs)) \<and>
    fits 76 0 (snd (camel_quoted_encode_step quoted_enc_start xs)) \<and>
    column 0 (snd (camel_quoted_encode_step quoted_enc_start xs)) =
      nat (qe_sofar (fst (camel_quoted_encode_step quoted_enc_start xs)))"
proof (induction xs rule: rev_induct)
  case Nil
  show ?case
    by (simp add: quoted_enc.run_Nil quoted_enc_inv_start) (simp add: quoted_enc_start_def)
next
  case (snoc c xs)
  let ?s = "fst (camel_quoted_encode_step quoted_enc_start xs)"
  have one: "camel_quoted_encode_step s [c] = quoted_enc_step s c" for s
    by (simp add: camel_quoted_encode_step_def split_def)
  show ?case
    using snoc.IH quoted_enc_step_inv [of ?s c] quoted_enc_step_lays [of ?s c]
    by (simp add: quoted_enc.run_append one fits_append column_append lays_def)
qed

lemma quoted_flush_short:
  "LF \<notin> set (snd (camel_quoted_encode_close s [])) \<and> length (snd (camel_quoted_encode_close s [])) \<le> 3"
proof (cases "qe_last s")
  case (Some l)
  then show ?thesis by (auto simp: camel_quoted_encode_close_def)
qed (simp add: camel_quoted_encode_close_def)

text \<open>C16: However the input is cut into calls, the complete output, with what \<^verbatim>\<open>camel_quoted_encode_close\<close>
  writes, keeps to the 76 characters that quoted-printable allows in every line but the last; and the last one
  exceeds them only by the final flush, which is of at most three characters, to 78.\<close>

theorem quoted_printable_lines:
  "\<exists>body flush. snd (quoted_enc.run_chunks quoted_enc_start pieces) @
      snd (camel_quoted_encode_close (fst (quoted_enc.run_chunks quoted_enc_start pieces)) final) = body @ flush \<and>
    fits 76 0 body \<and> LF \<notin> set flush \<and> length flush \<le> 3 \<and> fits 78 0 (body @ flush)"
proof -
  let ?run = "camel_quoted_encode_step quoted_enc_start (concat pieces @ final)"
  let ?body = "snd ?run" and ?flush = "snd (camel_quoted_encode_close (fst ?run) [])"
  have eq: "snd (quoted_enc.run_chunks quoted_enc_start pieces) @
      snd (camel_quoted_encode_close (fst (quoted_enc.run_chunks quoted_enc_start pieces)) final) = ?body @ ?flush"
    by (subst quoted_close_split) (simp add: quoted_enc.run_chunks_concat quoted_enc.run_append)
  note lays = quoted_enc_run_lays [of "concat pieces @ final"] and short = quoted_flush_short [of "fst ?run"]
  have "column 0 ?body \<le> 75" using lays by (auto simp: quoted_enc_inv_def)
  then have "fits 78 (column 0 ?body) ?flush" using short by (intro fits_no_LF) auto
  moreover have "fits 78 0 ?body" using lays fits_mono [of 76 0 ?body 78] by simp
  ultimately show ?thesis using eq lays short by (intro exI [of _ ?body] exI [of _ ?flush]) (simp add: fits_append)
qed

text \<open>C17: From every state the encoder reaches, one call with the final flush writes at most
  \<^verbatim>\<open>4 * len + 4\<close> bytes, and one call of the decoder at most \<^verbatim>\<open>len + 2\<close>: the sizes for which
  \<^verbatim>\<open>camel-mime-filter-basic.c\<close> reserves its output buffer.\<close>

theorem quoted_printable_output_bounds:
  "length (snd (camel_quoted_encode_close
      (fst (camel_quoted_encode_step quoted_enc_start before)) xs)) \<le> 4 * length xs + 4 \<and>
   length (snd (camel_quoted_decode_step
      (fst (camel_quoted_decode_step quoted_dec_start before)) xs)) \<le> length xs + 2"
proof
  have one: "camel_quoted_encode_step s [c] = quoted_enc_step s c" for s c
    by (simp add: camel_quoted_encode_step_def split_def)
  have inv: "quoted_enc_inv (fst (camel_quoted_encode_step quoted_enc_start before))"
    using quoted_enc.run_invariant [of quoted_enc_inv] quoted_enc_inv_start quoted_enc_step_inv
    by (simp add: one)
  let ?s = "fst (camel_quoted_encode_step quoted_enc_start before)"
  let ?t = "fst (camel_quoted_encode_step ?s xs)"
  have "length (snd (camel_quoted_encode_step ?s xs)) + quoted_enc_credit ?t \<le>
      4 * length xs + quoted_enc_credit ?s"
    using quoted_enc.run_budget [of quoted_enc_inv ?s quoted_enc_credit 4 xs] inv
      quoted_enc_step_inv quoted_enc_step_budget by (simp add: one)
  moreover have "quoted_enc_credit ?s \<le> 4" by (simp add: quoted_enc_credit_def)
  moreover have "length (snd (camel_quoted_encode_close ?t [])) \<le> quoted_enc_credit ?t"
    by (auto simp: camel_quoted_encode_close_def quoted_enc_credit_def split: option.splits)
  ultimately show "length (snd (camel_quoted_encode_close ?s xs)) \<le> 4 * length xs + 4"
    by (subst quoted_close_split) simp
next
  have one: "camel_quoted_decode_step s [c] = quoted_dec_step s c" for s c
    by (simp add: camel_quoted_decode_step_def split_def)
  let ?s = "fst (camel_quoted_decode_step quoted_dec_start before)"
  have inv: "qd_state ?s \<le> 2"
    using quoted_dec.run_invariant [of "\<lambda>s. qd_state s \<le> 2"] quoted_dec_step_budget(1)
    by (simp add: one quoted_dec_start_def)
  then show "length (snd (camel_quoted_decode_step ?s xs)) \<le> length xs + 2"
    using quoted_dec.run_budget [of "\<lambda>s. qd_state s \<le> 2" ?s qd_state 1 xs] quoted_dec_step_budget
    by (simp add: one)
qed

text \<open>C24: The Q encoding of header words is undone by \<^verbatim>\<open>quoted_decode\<close>, for both sets of safe
  characters the callers of \<^verbatim>\<open>quoted_encode\<close> pass.\<close>

theorem q_encoding_roundtrip:
  assumes "safe = CAMEL_MIME_IS_ESAFE \<or> safe = CAMEL_MIME_IS_PSAFE"
  shows "quoted_decode (quoted_encode xs safe) = xs"
  using quoted_decode_encode_loop [of safe xs] esafe_psafe_masks [of safe] assms
  by (simp add: quoted_decode_def)

theorem q_encoding_roundtrip_witness:
  "quoted_decode (quoted_encode (bytes ''a_b = c'') CAMEL_MIME_IS_PSAFE) = bytes ''a_b = c''"
  using q_encoding_roundtrip [of CAMEL_MIME_IS_PSAFE "bytes ''a_b = c''"] by blast

text \<open>The final flush does not look at the line length: after 75 characters and a carriage
  return, \<^verbatim>\<open>camel_quoted_encode_close\<close> writes a line of 78 characters.\<close>

lemma quoted_printable_close_overlong:
  "snd (camel_quoted_encode_close quoted_enc_start (replicate 75 0x61 @ [CR])) =
     replicate 75 0x61 @ bytes ''=0D'' \<and>
   \<not> fits 76 0 (snd (camel_quoted_encode_close quoted_enc_start (replicate 75 0x61 @ [CR])))"
proof -
  have eq: "snd (camel_quoted_encode_close quoted_enc_start (replicate 75 0x61 @ [CR])) =
      replicate 75 0x61 @ bytes ''=0D''"
    using quoted_enc_plain [of 0 75]
    by (subst quoted_close_split)
      (simp add: run_steps_append quoted_enc_start_def camel_quoted_encode_step_def
        camel_quoted_encode_close_def quoted_enc_step_def hex_escape_def tohex_def)
  have "column 0 (replicate 75 0x61 @ bytes ''=0D'') = 78"
    by (subst column_no_LF) auto
  with eq fits_column [of 76 0 "replicate 75 0x61 @ bytes ''=0D''"] show ?thesis by auto
qed

end
