(* ===== verification/Camel_MimeFilter.thy ===== *)
theory Camel_MimeFilter
  imports EDS_Prelude
begin

text \<open>
  \<^verbatim>\<open>src/src/camel/camel-mime-filter.c\<close>: what every MIME filter shares. A filter is fed a stream
  in pieces with \<^verbatim>\<open>camel_mime_filter_filter\<close> and one last piece with \<^verbatim>\<open>camel_mime_filter_complete\<close>.
  It may keep the end of a piece back with \<^verbatim>\<open>camel_mime_filter_backup\<close>; \<^verbatim>\<open>filter_run\<close> puts it before
  the next piece.

  The record \<open>CamelMimeFilter\<close> holds the sizes of the buffers and the bytes kept back; a filter's
  own data is the type \<open>'p\<close>. A filter's result is the list of the bytes of \<^verbatim>\<open>out\<close>, where \<open>None\<close>
  stands for a byte of fresh memory that was never written: \<^verbatim>\<open>camel_mime_filter_set_size\<close> without
  \<^verbatim>\<open>keep\<close> forgets the contents of the output buffer when it has to grow.
\<close>

type_synonym outbuf = "byte option list"

definition PRE_HEAD :: nat where "PRE_HEAD = 64"
definition BACK_HEAD :: nat where "BACK_HEAD = 64"

record CamelMimeFilter =
  inlen :: nat
  backbuf :: "byte list"
  backsize :: nat
  outsize :: nat
  outpre :: nat
  request_stop :: bool

definition camel_mime_filter_init :: CamelMimeFilter where
  "camel_mime_filter_init =
     \<lparr>inlen = 0, backbuf = [], backsize = 0, outsize = 0, outpre = 0, request_stop = False\<rparr>"

text \<open>The virtual methods \<^verbatim>\<open>filter\<close> and \<^verbatim>\<open>complete\<close>: from the input and its prespace to the output
  and its prespace.\<close>

type_synonym 'p filter_method =
  "'p \<Rightarrow> CamelMimeFilter \<Rightarrow> byte list \<Rightarrow> nat \<Rightarrow> 'p \<times> CamelMimeFilter \<times> outbuf \<times> nat"

definition filter_run ::
    "'p filter_method \<Rightarrow> 'p \<Rightarrow> CamelMimeFilter \<Rightarrow> byte list \<Rightarrow> nat \<Rightarrow> 'p \<times> CamelMimeFilter \<times> outbuf \<times> nat"
where
  "filter_run mthd p f xs prespace =
     (if length (backbuf f) > 0 then
        (let newlen = length xs + prespace + length (backbuf f);
             f = (if inlen f < newlen then f\<lparr>inlen := newlen + PRE_HEAD\<rparr> else f);
             prespace = inlen f - length xs;
             ys = backbuf f @ xs;
             prespace = prespace - length (backbuf f)
         in mthd p (f\<lparr>backbuf := []\<rparr>) ys prespace)
      else mthd p f xs prespace)"

definition camel_mime_filter_reset :: "('p \<Rightarrow> 'p) option \<Rightarrow> 'p \<Rightarrow> CamelMimeFilter \<Rightarrow> 'p \<times> CamelMimeFilter" where
  "camel_mime_filter_reset reset p f =
     ((case reset of Some r \<Rightarrow> r p | None \<Rightarrow> p), f\<lparr>backbuf := [], request_stop := False\<rparr>)"

definition camel_mime_filter_backup :: "CamelMimeFilter \<Rightarrow> byte list \<Rightarrow> CamelMimeFilter" where
  "camel_mime_filter_backup f data =
     (let f = (if backsize f < length data then f\<lparr>backsize := length data + BACK_HEAD\<rparr> else f)
      in f\<lparr>backbuf := data\<rparr>)"

text \<open>\<open>buf\<close> is what has been written to the output buffer so far.\<close>

definition camel_mime_filter_set_size ::
    "CamelMimeFilter \<Rightarrow> nat \<Rightarrow> bool \<Rightarrow> outbuf \<Rightarrow> CamelMimeFilter \<times> outbuf" where
  "camel_mime_filter_set_size f sz keep buf =
     (if outsize f < sz then
        (f\<lparr>outsize := sz, outpre := PRE_HEAD * 4\<rparr>, if keep then buf else map (\<lambda>_. None) buf)
      else (f, buf))"

definition camel_mime_filter_set_request_stop :: "CamelMimeFilter \<Rightarrow> bool \<Rightarrow> CamelMimeFilter" where
  "camel_mime_filter_set_request_stop f stop = f\<lparr>request_stop := stop\<rparr>"

definition camel_mime_filter_get_request_stop :: "CamelMimeFilter \<Rightarrow> bool" where
  "camel_mime_filter_get_request_stop f = request_stop f"

text \<open>\<^verbatim>\<open>camel_mime_filter_filter\<close> and \<^verbatim>\<open>camel_mime_filter_complete\<close> run the method of the class.\<close>

definition camel_mime_filter_filter ::
    "'p filter_method \<Rightarrow> 'p \<times> CamelMimeFilter \<Rightarrow> byte list \<Rightarrow> ('p \<times> CamelMimeFilter) \<times> outbuf" where
  "camel_mime_filter_filter class_filter st xs =
     (let (p, f, out, pre) = filter_run class_filter (fst st) (snd st) xs 0 in ((p, f), out))"

definition camel_mime_filter_complete ::
    "'p filter_method \<Rightarrow> 'p \<times> CamelMimeFilter \<Rightarrow> byte list \<Rightarrow> ('p \<times> CamelMimeFilter) \<times> outbuf" where
  "camel_mime_filter_complete class_complete st xs =
     (let (p, f, out, pre) = filter_run class_complete (fst st) (snd st) xs 0 in ((p, f), out))"

text \<open>A whole stream: some pieces and the last one.\<close>

fun filter_pieces ::
    "'p filter_method \<Rightarrow> 'p \<times> CamelMimeFilter \<Rightarrow> byte list list \<Rightarrow> ('p \<times> CamelMimeFilter) \<times> outbuf" where
  "filter_pieces class_filter st [] = (st, [])"
| "filter_pieces class_filter st (x # xs) =
     (let (st1, o1) = camel_mime_filter_filter class_filter st x;
          (st2, o2) = filter_pieces class_filter st1 xs in (st2, o1 @ o2))"

definition filter_stream ::
    "'p filter_method \<Rightarrow> 'p filter_method \<Rightarrow> 'p \<times> CamelMimeFilter \<Rightarrow> byte list list \<Rightarrow> byte list \<Rightarrow> outbuf"
where
  "filter_stream class_filter class_complete st pieces final =
     (let (st1, o1) = filter_pieces class_filter st pieces;
          (st2, o2) = camel_mime_filter_complete class_complete st1 final in o1 @ o2)"

section \<open>The contract of a filter\<close>

text \<open>
  \<open>consumed st xs ys\<close> holds of the states in which the filter has taken the input \<open>xs\<close> and given the
  output \<open>ys\<close>; \<open>spec\<close> is the transformation of whole streams, \<open>final_ok\<close> the last pieces for which
  \<open>complete\<close> does its part.
\<close>

locale stream_filter =
  fixes class_filter class_complete :: "'p filter_method"
    and consumed :: "'p \<times> CamelMimeFilter \<Rightarrow> byte list \<Rightarrow> byte list \<Rightarrow> bool"
    and spec :: "byte list \<Rightarrow> byte list"
    and final_ok :: "byte list \<Rightarrow> bool"
  assumes filter_step: "consumed st xs ys \<Longrightarrow>
      \<exists>st' out. camel_mime_filter_filter class_filter st piece = (st', map Some out) \<and>
        consumed st' (xs @ piece) (ys @ out)"
    and complete_step: "consumed st xs ys \<Longrightarrow> final_ok piece \<Longrightarrow>
      \<exists>st' out. camel_mime_filter_complete class_complete st piece = (st', map Some out) \<and>
        ys @ out = spec (xs @ piece)"
begin

lemma filter_pieces_consumed:
  "consumed st xs ys \<Longrightarrow> \<exists>st' out. filter_pieces class_filter st pieces = (st', map Some out) \<and>
     consumed st' (xs @ concat pieces) (ys @ out)"
proof (induction pieces arbitrary: st xs ys)
  case Nil
  then show ?case by auto
next
  case (Cons piece pieces)
  from filter_step [OF Cons.prems] obtain st1 o1
    where 1: "camel_mime_filter_filter class_filter st piece = (st1, map Some o1)"
      "consumed st1 (xs @ piece) (ys @ o1)" by blast
  from Cons.IH [OF 1(2)] obtain st2 o2
    where 2: "filter_pieces class_filter st1 pieces = (st2, map Some o2)"
      "consumed st2 ((xs @ piece) @ concat pieces) ((ys @ o1) @ o2)" by blast
  with 1 show ?case by (intro exI [of _ st2] exI [of _ "o1 @ o2"]) simp
qed

text \<open>The output of a stream depends on the stream only, not on how it was cut into pieces.\<close>

lemma filter_stream_spec:
  assumes "consumed st [] []" and "final_ok final"
  shows "filter_stream class_filter class_complete st pieces final =
    map Some (spec (concat pieces @ final))"
proof -
  from filter_pieces_consumed [OF assms(1), of pieces] obtain st1 o1
    where 1: "filter_pieces class_filter st pieces = (st1, map Some o1)"
      "consumed st1 (concat pieces) o1" by auto
  from complete_step [OF 1(2) assms(2)] obtain st2 o2
    where "camel_mime_filter_complete class_complete st1 final = (st2, map Some o2)"
      "o1 @ o2 = spec (concat pieces @ final)" by auto
  with 1(1) show ?thesis by (simp add: filter_stream_def flip: map_append)
qed

end

text \<open>A filter that can be used again after a reset.\<close>

locale resettable_filter = stream_filter +
  fixes class_reset :: "('p \<Rightarrow> 'p) option"
    and own :: "'p \<Rightarrow> bool"
  assumes reset_consumed: "own p \<Longrightarrow> consumed (camel_mime_filter_reset class_reset p f) [] []"
begin

lemma filter_stream_after_reset:
  "own p \<Longrightarrow> final_ok final \<Longrightarrow>
     filter_stream class_filter class_complete (camel_mime_filter_reset class_reset p f) pieces final =
       map Some (spec (concat pieces @ final))"
  by (rule filter_stream_spec [OF reset_consumed])

end

section \<open>The buffers of \<^verbatim>\<open>filter_run\<close>\<close>

text \<open>When nothing is kept back the method sees the input as it is.\<close>

lemma filter_run_no_backup: "backbuf f = [] \<Longrightarrow> filter_run mthd p f xs pre = mthd p f xs pre"
  by (simp add: filter_run_def)

lemma filter_run_with_backup:
  obtains f' pre where "\<And>mthd. filter_run mthd p f xs n = mthd p f' (backbuf f @ xs) pre"
    and "backbuf f' = []"
proof (cases "backbuf f = []")
  case True
  with that [of f n] show ?thesis by (simp add: filter_run_def)
next
  case False
  let ?n = "length xs + n + length (backbuf f)"
  let ?f = "(if inlen f < ?n then f\<lparr>inlen := ?n + PRE_HEAD\<rparr> else f)"
  show ?thesis
    using False that [of "?f\<lparr>backbuf := []\<rparr>" "inlen ?f - length xs - length (backbuf f)"]
    by (simp add: filter_run_def Let_def)
qed

lemma backbuf_set_size [simp]:
  "backbuf (fst (camel_mime_filter_set_size f n k buf)) = backbuf f"
  by (simp add: camel_mime_filter_set_size_def)

lemma set_size_nothing [simp]: "snd (camel_mime_filter_set_size f n k []) = []"
  by (simp add: camel_mime_filter_set_size_def)

lemma set_size_enough [simp]: "n \<le> outsize (fst (camel_mime_filter_set_size f n k buf))"
  by (simp add: camel_mime_filter_set_size_def)

lemma set_size_kept: "n \<le> outsize f \<Longrightarrow> camel_mime_filter_set_size f n k buf = (f, buf)"
  by (simp add: camel_mime_filter_set_size_def)

lemma backbuf_backup [simp]: "backbuf (camel_mime_filter_backup f data) = data"
  by (simp add: camel_mime_filter_backup_def Let_def)

lemma backup_nothing: "backbuf f = [] \<Longrightarrow> backbuf (camel_mime_filter_backup f []) = []"
  by simp

end
