(* ===== verification/Camel_FilterCrlf.thy ===== *)
theory Camel_FilterCrlf
  imports Camel_MimeFilter
begin

text \<open>
  \<^verbatim>\<open>src/src/camel/camel-mime-filter-crlf.c\<close>: the filter between LF and CR LF line ends that the
  SMTP and NNTP transports use, with the dot-stuffing of lines that start with a dot.
\<close>

datatype CamelMimeFilterCRLFDirection = CAMEL_MIME_FILTER_CRLF_ENCODE | CAMEL_MIME_FILTER_CRLF_DECODE

datatype CamelMimeFilterCRLFMode =
  CAMEL_MIME_FILTER_CRLF_MODE_CRLF_DOTS | CAMEL_MIME_FILTER_CRLF_MODE_CRLF_ONLY

record crlf_priv =
  direction :: CamelMimeFilterCRLFDirection
  mode :: CamelMimeFilterCRLFMode
  saw_cr :: bool
  saw_lf :: bool
  saw_dot :: bool
  ends_with_lf :: bool
  ensure_crlf_end :: bool

definition camel_mime_filter_crlf_new ::
    "CamelMimeFilterCRLFDirection \<Rightarrow> CamelMimeFilterCRLFMode \<Rightarrow> crlf_priv" where
  "camel_mime_filter_crlf_new dir md =
     \<lparr>direction = dir, mode = md, saw_cr = False, saw_lf = True, saw_dot = False,
      ends_with_lf = False, ensure_crlf_end = False\<rparr>"

definition camel_mime_filter_crlf_set_ensure_crlf_end :: "crlf_priv \<Rightarrow> bool \<Rightarrow> crlf_priv" where
  "camel_mime_filter_crlf_set_ensure_crlf_end p e = p\<lparr>ensure_crlf_end := e\<rparr>"

definition camel_mime_filter_crlf_get_ensure_crlf_end :: "crlf_priv \<Rightarrow> bool" where
  "camel_mime_filter_crlf_get_ensure_crlf_end p = ensure_crlf_end p"

definition mime_filter_crlf_reset :: "crlf_priv \<Rightarrow> crlf_priv" where
  "mime_filter_crlf_reset p =
     p\<lparr>saw_cr := False, saw_lf := True, saw_dot := False, ends_with_lf := False\<rparr>"

text \<open>One round of the encoding loop.\<close>

definition crlf_encode_step :: "bool \<Rightarrow> crlf_priv \<Rightarrow> byte \<Rightarrow> crlf_priv \<times> byte list" where
  "crlf_encode_step do_dots p c =
     (let (p, out) =
        (if c = CR then
           (p\<lparr>saw_cr := True, saw_lf := False\<rparr>, if saw_cr p \<and> \<not> saw_lf p then [LF] else [])
         else if c = LF then
           (p\<lparr>saw_lf := True, saw_cr := False\<rparr>, if \<not> saw_cr p then [CR] else [])
         else
           (let (p, o1) = (if saw_cr p \<and> \<not> saw_lf p then (p\<lparr>saw_lf := True\<rparr>, [LF]) else (p, []));
                o2 = (if do_dots \<and> c = DOT \<and> saw_lf p then [DOT] else [])
            in (p\<lparr>saw_cr := False, saw_lf := False\<rparr>, o1 @ o2)))
      in (p, out @ [c]))"

text \<open>
  One round of the decoding loop: the bytes it writes, and whether it advances the pointer twice.
  After a dot at the start of a line it does, so the byte behind the dot is not looked at; when
  there is none left the pointer runs one past the end.
\<close>

definition crlf_decode_step :: "bool \<Rightarrow> crlf_priv \<Rightarrow> byte \<Rightarrow> crlf_priv \<times> byte list \<times> bool" where
  "crlf_decode_step do_dots p c =
     (if c \<noteq> CR \<and> saw_cr p \<and> c = LF then (p\<lparr>saw_cr := False, saw_lf := True\<rparr>, [c], False)
      else
        (let (p, o1) =
           (if c = CR then (p\<lparr>saw_cr := True\<rparr>, [])
            else if saw_cr p then (p\<lparr>saw_cr := False\<rparr>, [CR, c])
            else (p, [c]));
         (p, twice) =
           (if do_dots \<and> c = DOT then
              (if saw_lf p then (p\<lparr>saw_dot := True, saw_lf := False\<rparr>, True)
               else if saw_dot p then (p\<lparr>saw_dot := False\<rparr>, False)
               else (p, False))
            else (p, False))
         in (p\<lparr>saw_lf := False\<rparr>, o1, twice)))"

function crlf_decode_loop :: "bool \<Rightarrow> crlf_priv \<Rightarrow> byte list \<Rightarrow> crlf_priv \<times> byte list" where
  "crlf_decode_loop do_dots p [] = (p, [])"
| "crlf_decode_loop do_dots p (c # rest) =
     (let (p, o1, twice) = crlf_decode_step do_dots p c;
          (p', out) = crlf_decode_loop do_dots p (if twice then tl rest else rest)
      in (p', o1 @ out))"
  by pat_completeness auto
termination by (relation "measure (\<lambda>(dots, p, xs). length xs)") auto

definition mime_filter_crlf_filter :: "crlf_priv filter_method" where
  "mime_filter_crlf_filter p f xs prespace =
     (let do_dots = (mode p = CAMEL_MIME_FILTER_CRLF_MODE_CRLF_DOTS) in
      if direction p = CAMEL_MIME_FILTER_CRLF_ENCODE then
        (let (f, buf) = camel_mime_filter_set_size f (3 * length xs) False [];
             (p, out) = run_steps (crlf_encode_step do_dots) p xs;
             p = (if length xs > 0 then p\<lparr>ends_with_lf := (xs ! (length xs - 1) = LF)\<rparr> else p)
         in (p, f, buf @ map Some out, outpre f))
      else
        (let (f, buf) = camel_mime_filter_set_size f (length xs + 1) False [];
             (p, out) = crlf_decode_loop do_dots p xs
         in (p, f, buf @ map Some out, outpre f)))"

definition mime_filter_crlf_complete :: "crlf_priv filter_method" where
  "mime_filter_crlf_complete p f xs prespace =
     (let (p, f, out, pre) =
        (if length xs > 0 then mime_filter_crlf_filter p f xs prespace else (p, f, [], prespace));
      (p, f, out, pre) =
        (if direction p = CAMEL_MIME_FILTER_CRLF_ENCODE \<and> saw_cr p \<and> \<not> saw_lf p then
           (let (f, out) = camel_mime_filter_set_size f (length out + 1) False out
            in (p\<lparr>saw_cr := False, ends_with_lf := True\<rparr>, f, out @ [Some LF], outpre f))
         else (p, f, out, pre))
      in if direction p = CAMEL_MIME_FILTER_CRLF_ENCODE \<and> ensure_crlf_end p \<and> \<not> ends_with_lf p then
           (let (f, out) = camel_mime_filter_set_size f (length out + 2) False out
            in (p\<lparr>ends_with_lf := True\<rparr>, f, out @ [Some CR, Some LF], outpre f))
         else (p, f, out, pre))"

section \<open>The encoding, as a transformation of whole streams\<close>

text \<open>Every line end (CR, LF or CR LF) becomes CR LF; with dots, a dot at the start of a line is
  doubled. \<open>bol\<close> says whether the stream starts at the beginning of a line.\<close>

fun crlf_spec :: "bool \<Rightarrow> bool \<Rightarrow> byte list \<Rightarrow> byte list" where
  "crlf_spec dots bol [] = []"
| "crlf_spec dots bol (c # rest) =
     (if c = CR then
        CR # LF # (if rest \<noteq> [] \<and> hd rest = LF then crlf_spec dots True (tl rest)
                   else crlf_spec dots True rest)
      else if c = LF then CR # LF # crlf_spec dots True rest
      else (if dots \<and> bol \<and> c = DOT then [DOT] else []) @ c # crlf_spec dots False rest)"

text \<open>The output that is still owed in a state: the line feed behind a pending carriage return.\<close>

definition crlf_owed :: "crlf_priv \<Rightarrow> byte list" where
  "crlf_owed p = (if saw_cr p \<and> \<not> saw_lf p then [LF] else [])"

text \<open>In a state reached by encoding, what the rest of the stream becomes.\<close>

definition crlf_rest :: "bool \<Rightarrow> crlf_priv \<Rightarrow> byte list \<Rightarrow> byte list" where
  "crlf_rest dots p xs =
     (if saw_cr p \<and> \<not> saw_lf p then
        LF # (if xs \<noteq> [] \<and> hd xs = LF then crlf_spec dots True (tl xs) else crlf_spec dots True xs)
      else crlf_spec dots (saw_lf p) xs)"

definition crlf_inv :: "crlf_priv \<Rightarrow> bool" where
  "crlf_inv p \<longleftrightarrow> direction p = CAMEL_MIME_FILTER_CRLF_ENCODE \<and> \<not> (saw_cr p \<and> saw_lf p)"

lemma crlf_encode_step_rest:
  assumes "crlf_inv p" and "crlf_encode_step dots p c = (p', out)"
  shows "crlf_inv p' \<and> mode p' = mode p \<and> ensure_crlf_end p' = ensure_crlf_end p \<and>
    out @ crlf_rest dots p' xs = crlf_rest dots p (c # xs)"
  using assms
  by (cases "saw_cr p"; cases "saw_lf p"; cases "c = CR"; cases "c = LF")
    (auto simp: crlf_encode_step_def crlf_inv_def crlf_rest_def Let_def)

lemma crlf_encode_run_rest:
  "crlf_inv p \<Longrightarrow> run_steps (crlf_encode_step dots) p xs = (p', out) \<Longrightarrow>
     crlf_inv p' \<and> mode p' = mode p \<and> ensure_crlf_end p' = ensure_crlf_end p \<and>
     out @ crlf_rest dots p' ys = crlf_rest dots p (xs @ ys)"
proof (induction xs arbitrary: p out)
  case Nil
  then show ?case by simp
next
  case (Cons c xs)
  obtain q o1 where 1: "crlf_encode_step dots p c = (q, o1)" by fastforce
  obtain o2 where 2: "run_steps (crlf_encode_step dots) q xs = (p', o2)" and out: "out = o1 @ o2"
    using Cons.prems(2) 1 by (cases "run_steps (crlf_encode_step dots) q xs") auto
  from crlf_encode_step_rest [OF Cons.prems(1) 1] Cons.IH [OF _ 2] out show ?case by auto
qed

lemma crlf_rest_owed: "crlf_inv p \<Longrightarrow> crlf_rest dots p [] = crlf_owed p"
  by (auto simp: crlf_rest_def crlf_owed_def)

lemma crlf_encode_length:
  "length (snd (run_steps (crlf_encode_step dots) p xs)) \<le> 3 * length xs"
proof (induction xs arbitrary: p)
  case (Cons c xs)
  have "length (snd (crlf_encode_step dots p c)) \<le> 3"
    by (auto simp: crlf_encode_step_def Let_def)
  then show ?case
    using Cons.IH [of "fst (crlf_encode_step dots p c)"] by (simp add: split_def Let_def)
qed simp

text \<open>What the flags say of the last byte.\<close>

lemma crlf_encode_run_last:
  assumes "run_steps (crlf_encode_step dots) p xs = (p', out)" and "xs \<noteq> []"
  shows "(saw_cr p' \<longleftrightarrow> last xs = CR) \<and>
    (saw_cr p' \<longrightarrow> \<not> saw_lf p' \<and> length out + 1 \<le> 3 * length xs)"
proof -
  obtain ys c where xs: "xs = ys @ [c]" using assms(2) by (cases xs rule: rev_cases) auto
  let ?q = "fst (run_steps (crlf_encode_step dots) p ys)"
  have p': "p' = fst (crlf_encode_step dots ?q c)"
    and out: "out = snd (run_steps (crlf_encode_step dots) p ys) @ snd (crlf_encode_step dots ?q c)"
    using assms(1) xs by (auto simp: run_steps_append split_def Let_def)
  have "c = CR \<Longrightarrow> length (snd (crlf_encode_step dots ?q c)) \<le> 2"
    by (simp add: crlf_encode_step_def)
  with out crlf_encode_length [of dots p ys] xs
  have "c = CR \<Longrightarrow> length out + 1 \<le> 3 * length xs" by simp
  moreover have "saw_cr p' \<longleftrightarrow> c = CR" and "saw_cr p' \<Longrightarrow> \<not> saw_lf p'"
    unfolding p' by (auto simp: crlf_encode_step_def Let_def)
  ultimately show ?thesis using xs by simp
qed

section \<open>The encoder fulfils the contract of a filter\<close>

definition crlf_own :: "CamelMimeFilterCRLFMode \<Rightarrow> bool \<Rightarrow> crlf_priv \<Rightarrow> bool" where
  "crlf_own md ensure p \<longleftrightarrow>
     direction p = CAMEL_MIME_FILTER_CRLF_ENCODE \<and> mode p = md \<and> ensure_crlf_end p = ensure"

definition crlf_dots :: "CamelMimeFilterCRLFMode \<Rightarrow> bool" where
  "crlf_dots md = (md = CAMEL_MIME_FILTER_CRLF_MODE_CRLF_DOTS)"

definition crlf_stream :: "CamelMimeFilterCRLFMode \<Rightarrow> bool \<Rightarrow> byte list \<Rightarrow> byte list" where
  "crlf_stream md ensure xs = crlf_spec (crlf_dots md) True xs @
     (if ensure \<and> \<not> (xs \<noteq> [] \<and> (last xs = LF \<or> last xs = CR)) then [CR, LF] else [])"

definition crlf_consumed ::
    "CamelMimeFilterCRLFMode \<Rightarrow> bool \<Rightarrow> crlf_priv \<times> CamelMimeFilter \<Rightarrow> byte list \<Rightarrow> byte list \<Rightarrow> bool" where
  "crlf_consumed md ensure st xs ys \<longleftrightarrow>
     (let p = fst st in
      crlf_own md ensure p \<and> crlf_inv p \<and> backbuf (snd st) = [] \<and>
      (saw_cr p \<longleftrightarrow> xs \<noteq> [] \<and> last xs = CR) \<and> (ends_with_lf p \<longleftrightarrow> xs \<noteq> [] \<and> last xs = LF) \<and>
      (\<forall>zs. ys @ crlf_rest (crlf_dots md) p zs = crlf_spec (crlf_dots md) True (xs @ zs)))"

lemma crlf_start_rest: "\<not> saw_cr p \<Longrightarrow> saw_lf p \<Longrightarrow> crlf_rest dots p zs = crlf_spec dots True zs"
  by (simp add: crlf_rest_def)

lemma crlf_rest_ends: "crlf_rest dots (p\<lparr>ends_with_lf := b\<rparr>) zs = crlf_rest dots p zs"
  by (simp add: crlf_rest_def)

text \<open>One call of the filter method.\<close>

lemma crlf_filter_call:
  assumes "crlf_consumed md ensure (p, f) xs ys"
    and "mime_filter_crlf_filter p f piece pre = (p', f', out, pre')"
  shows "\<exists>o'. out = map Some o' \<and> crlf_consumed md ensure (p', f') (xs @ piece) (ys @ o') \<and>
    3 * length piece \<le> outsize f' \<and> length o' \<le> 3 * length piece \<and>
    (piece \<noteq> [] \<and> saw_cr p' \<longrightarrow> length o' + 1 \<le> 3 * length piece)"
proof -
  obtain q o' where run: "run_steps (crlf_encode_step (crlf_dots md)) p piece = (q, o')" by fastforce
  let ?f = "fst (camel_mime_filter_set_size f (3 * length piece) False [])"
  from assms(1) have own: "crlf_own md ensure p" and inv: "crlf_inv p" and bb: "backbuf f = []"
    and rest: "\<And>zs. ys @ crlf_rest (crlf_dots md) p zs = crlf_spec (crlf_dots md) True (xs @ zs)"
    and cr: "saw_cr p \<longleftrightarrow> xs \<noteq> [] \<and> last xs = CR" and lf: "ends_with_lf p \<longleftrightarrow> xs \<noteq> [] \<and> last xs = LF"
    by (auto simp: crlf_consumed_def)
  have run_inv: "crlf_inv q" "mode q = mode p" "ensure_crlf_end q = ensure_crlf_end p"
    "\<And>zs. o' @ crlf_rest (crlf_dots md) q zs = crlf_rest (crlf_dots md) p (piece @ zs)"
    using crlf_encode_run_rest [OF inv run] by auto
  have p': "p' = (if length piece > 0 then q\<lparr>ends_with_lf := (piece ! (length piece - 1) = LF)\<rparr> else q)"
    and f': "f' = ?f" and out: "out = map Some o'"
    using assms(2) own run
    by (auto simp: mime_filter_crlf_filter_def crlf_own_def crlf_dots_def split_def Let_def)
  have "crlf_consumed md ensure (p', f') (xs @ piece) (ys @ o')"
  proof (cases "piece = []")
    case True
    with run assms(1) p' f' show ?thesis by (simp add: crlf_consumed_def)
  next
    case False
    have "ys @ o' @ crlf_rest (crlf_dots md) q zs = crlf_spec (crlf_dots md) True (xs @ piece @ zs)" for zs
      using run_inv(4) [of zs] rest [of "piece @ zs"] by simp
    moreover have "piece ! (length piece - 1) = last piece"
      using False by (simp add: last_conv_nth)
    ultimately show ?thesis
      using False own run_inv crlf_encode_run_last [OF run False] p' f' bb
      by (auto simp: crlf_consumed_def crlf_own_def crlf_inv_def crlf_rest_ends)
  qed
  moreover have "3 * length piece \<le> outsize f'" unfolding f' by simp
  moreover have "length o' \<le> 3 * length piece"
    using crlf_encode_length [of "crlf_dots md" p piece] run by simp
  moreover have "piece \<noteq> [] \<and> saw_cr p' \<longrightarrow> length o' + 1 \<le> 3 * length piece"
    using crlf_encode_run_last [OF run] p' by auto
  ultimately show ?thesis using out by blast
qed

text \<open>\<^verbatim>\<open>filter_run\<close> adds nothing, because this filter keeps nothing back.\<close>

lemma crlf_complete_owed:
  assumes "crlf_consumed md ensure (p, f) xs ys"
  shows "ys @ crlf_owed p = crlf_spec (crlf_dots md) True xs"
    and "crlf_owed p = (if saw_cr p then [LF] else [])"
proof -
  from assms have "crlf_inv p" and "ys @ crlf_rest (crlf_dots md) p [] = crlf_spec (crlf_dots md) True xs"
    unfolding crlf_consumed_def by (auto dest: spec [of _ "[]"])
  then show "ys @ crlf_owed p = crlf_spec (crlf_dots md) True xs" by (simp add: crlf_rest_owed)
  show "crlf_owed p = (if saw_cr p then [LF] else [])"
    using \<open>crlf_inv p\<close> by (auto simp: crlf_inv_def crlf_owed_def)
qed

lemma crlf_complete_empty:
  assumes "crlf_consumed md ensure (p, f) xs ys"
  shows "\<exists>p' f' o' pre'. mime_filter_crlf_complete p f [] pre = (p', f', map Some o', pre') \<and>
    ys @ o' = crlf_stream md ensure xs"
proof -
  from assms have own: "direction p = CAMEL_MIME_FILTER_CRLF_ENCODE" "ensure_crlf_end p = ensure"
    and inv: "\<not> (saw_cr p \<and> saw_lf p)" and cr: "saw_cr p \<longleftrightarrow> xs \<noteq> [] \<and> last xs = CR"
    and lf: "ends_with_lf p \<longleftrightarrow> xs \<noteq> [] \<and> last xs = LF"
    by (auto simp: crlf_consumed_def crlf_own_def crlf_inv_def)
  note owed = crlf_complete_owed [OF assms]
  show ?thesis
  proof (cases "saw_cr p")
    case True
    with own inv cr owed show ?thesis
      by (auto simp: mime_filter_crlf_complete_def crlf_stream_def split_def Let_def intro!: exI [of _ "[LF]"])
  next
    case False
    with own cr lf owed show ?thesis
      by (cases "ensure \<and> \<not> ends_with_lf p")
        (auto simp: mime_filter_crlf_complete_def crlf_stream_def split_def Let_def
          intro!: exI [of _ "[CR, LF]"])
  qed
qed

lemma crlf_complete_full:
  assumes "crlf_consumed md False (p, f) xs ys" and "piece \<noteq> []"
  shows "\<exists>p' f' o' pre'. mime_filter_crlf_complete p f piece pre = (p', f', map Some o', pre') \<and>
    ys @ o' = crlf_stream md False (xs @ piece)"
proof -
  obtain q g out pre1 where call: "mime_filter_crlf_filter p f piece pre = (q, g, out, pre1)"
    by (cases "mime_filter_crlf_filter p f piece pre") auto
  from crlf_filter_call [OF assms(1) call] obtain o' where out: "out = map Some o'"
    and cons: "crlf_consumed md False (q, g) (xs @ piece) (ys @ o')"
    and size: "3 * length piece \<le> outsize g" "saw_cr q \<Longrightarrow> length o' + 1 \<le> 3 * length piece"
    using assms(2) by blast
  from cons have own: "direction q = CAMEL_MIME_FILTER_CRLF_ENCODE" "\<not> ensure_crlf_end q"
    and inv: "\<not> (saw_cr q \<and> saw_lf q)"
    by (auto simp: crlf_consumed_def crlf_own_def crlf_inv_def)
  note owed = crlf_complete_owed [OF cons]
  show ?thesis
  proof (cases "saw_cr q")
    case True
    with size have "length out + 1 \<le> outsize g" by (simp add: out)
    with True own inv owed call out assms(2) show ?thesis
      by (auto simp: mime_filter_crlf_complete_def crlf_stream_def set_size_kept Let_def
          intro!: exI [of _ "o' @ [LF]"])
  next
    case False
    with own owed call out assms(2) show ?thesis
      by (auto simp: mime_filter_crlf_complete_def crlf_stream_def)
  qed
qed

interpretation crlf_filter: resettable_filter mime_filter_crlf_filter mime_filter_crlf_complete
  "crlf_consumed md ensure" "crlf_stream md ensure" "\<lambda>final. ensure \<longrightarrow> final = []"
  "Some mime_filter_crlf_reset" "crlf_own md ensure"
  for md ensure
proof
  fix st xs ys piece
  assume cons: "crlf_consumed md ensure st xs ys"
  obtain p f where st: "st = (p, f)" by (cases st)
  from cons st have bb: "backbuf f = []" by (simp add: crlf_consumed_def)
  show "\<exists>st' out. camel_mime_filter_filter mime_filter_crlf_filter st piece = (st', map Some out) \<and>
      crlf_consumed md ensure st' (xs @ piece) (ys @ out)"
  proof -
    obtain q g out pre where call: "mime_filter_crlf_filter p f piece 0 = (q, g, out, pre)"
      by (cases "mime_filter_crlf_filter p f piece 0") auto
    from crlf_filter_call [OF cons [unfolded st] call] call bb show ?thesis
      by (auto simp: camel_mime_filter_filter_def filter_run_no_backup st)
  qed
  assume final: "ensure \<longrightarrow> piece = []"
  show "\<exists>st' out. camel_mime_filter_complete mime_filter_crlf_complete st piece = (st', map Some out) \<and>
      ys @ out = crlf_stream md ensure (xs @ piece)"
  proof (cases "piece = []")
    case True
    with crlf_complete_empty [OF cons [unfolded st], of 0] bb show ?thesis
      by (auto simp: camel_mime_filter_complete_def filter_run_no_backup st)
  next
    case False
    with final cons have "crlf_consumed md False (p, f) xs ys" and "\<not> ensure" by (auto simp: st)
    from crlf_complete_full [OF this(1) False, of 0] \<open>\<not> ensure\<close> bb show ?thesis
      by (auto simp: camel_mime_filter_complete_def filter_run_no_backup st)
  qed
next
  fix p f
  assume "crlf_own md ensure p"
  then show "crlf_consumed md ensure (camel_mime_filter_reset (Some mime_filter_crlf_reset) p f) [] []"
    by (simp add: crlf_consumed_def camel_mime_filter_reset_def mime_filter_crlf_reset_def
        crlf_own_def crlf_inv_def crlf_start_rest)
qed

section \<open>What the encoding promises\<close>

text \<open>The encoded stream has no CR or LF outside CR LF pairs.\<close>

fun crlf_canonical :: "byte list \<Rightarrow> bool" where
  "crlf_canonical [] = True"
| "crlf_canonical (c # rest) =
     (if c = CR then rest \<noteq> [] \<and> hd rest = LF \<and> crlf_canonical (tl rest)
      else c \<noteq> LF \<and> crlf_canonical rest)"

lemma crlf_spec_canonical: "crlf_canonical (crlf_spec dots bol xs)"
  by (induction dots bol xs rule: crlf_spec.induct) auto

text \<open>No line of the encoded stream starts with a single dot: SMTP's end of data cannot occur in it.\<close>

fun no_lone_dot :: "bool \<Rightarrow> byte list \<Rightarrow> bool" where
  "no_lone_dot bol [] = True"
| "no_lone_dot bol (c # rest) =
     (if bol \<and> c = DOT then rest \<noteq> [] \<and> hd rest = DOT \<and> no_lone_dot False rest
      else no_lone_dot (c = LF) rest)"

lemma crlf_spec_no_lone_dot: "no_lone_dot bol (crlf_spec True bol xs)"
  by (induction "True" bol xs rule: crlf_spec.induct) auto

section \<open>Decoding\<close>

lemma crlf_decode_spec:
  "CR \<notin> set xs \<Longrightarrow> \<not> saw_cr p \<Longrightarrow> saw_lf p = bol \<Longrightarrow>
     snd (crlf_decode_loop dots p (crlf_spec dots bol xs)) = xs"
proof (induction xs arbitrary: p bol)
  case Nil
  then show ?case by simp
next
  case (Cons c xs)
  have IH: "snd (crlf_decode_loop dots q (crlf_spec dots b xs)) = xs" if "\<not> saw_cr q" "saw_lf q = b" for q b
    using Cons.IH [of q b] Cons.prems(1) that by simp
  consider "c = LF" | "c \<noteq> LF" "dots" "c = DOT" "saw_lf p" | "c \<noteq> LF" "\<not> (dots \<and> c = DOT \<and> saw_lf p)"
    by blast
  then show ?case
  proof cases
    case 1
    with Cons.prems IH show ?thesis by (simp add: crlf_decode_step_def split_def)
  next
    case 2
    with Cons.prems IH show ?thesis by (simp add: crlf_decode_step_def split_def)
  next
    case 3
    with Cons.prems IH show ?thesis by (auto simp: crlf_decode_step_def split_def Let_def)
  qed
qed

section \<open>Properties\<close>

text \<open>C28: After a reset, in whatever pieces a stream is fed to the encoding filter, the output is the
  stream with every line end (CR, LF or CR LF) turned into CR LF and, in dots mode, dots at line
  starts doubled; with \<^verbatim>\<open>ensure_crlf_end\<close> it is closed by CR LF, provided that the filter is then completed with
  an empty last piece (with another one the output buffer may be freed when it grows, and what was written is
  lost). The output has no CR or LF outside
  CR LF, and in dots mode no line with a lone dot, so it cannot end an SMTP or NNTP transfer early.\<close>

theorem crlf_encode_filter_correct:
  assumes "crlf_own md ensure p" and "ensure \<Longrightarrow> final = []"
  shows "filter_stream mime_filter_crlf_filter mime_filter_crlf_complete
      (camel_mime_filter_reset (Some mime_filter_crlf_reset) p f) pieces final =
    map Some (crlf_stream md ensure (concat pieces @ final)) \<and>
    crlf_canonical (crlf_spec (crlf_dots md) True (concat pieces @ final)) \<and>
    (crlf_dots md \<longrightarrow> no_lone_dot True (crlf_spec (crlf_dots md) True (concat pieces @ final)))"
proof (intro conjI impI)
  show "filter_stream mime_filter_crlf_filter mime_filter_crlf_complete
      (camel_mime_filter_reset (Some mime_filter_crlf_reset) p f) pieces final =
    map Some (crlf_stream md ensure (concat pieces @ final))"
    using assms by (intro crlf_filter.filter_stream_after_reset) auto
  assume "crlf_dots md"
  then show "no_lone_dot True (crlf_spec (crlf_dots md) True (concat pieces @ final))"
    using crlf_spec_no_lone_dot [of True "concat pieces @ final"] by simp
qed (rule crlf_spec_canonical)

theorem crlf_encode_filter_correct_witness:
  "filter_stream mime_filter_crlf_filter mime_filter_crlf_complete
     (camel_mime_filter_reset (Some mime_filter_crlf_reset)
       (camel_mime_filter_crlf_set_ensure_crlf_end (camel_mime_filter_crlf_new
          CAMEL_MIME_FILTER_CRLF_ENCODE CAMEL_MIME_FILTER_CRLF_MODE_CRLF_DOTS) True)
       camel_mime_filter_init) [[DOT, CR], [LF, DOT, 65]] [] =
   map Some [DOT, DOT, CR, LF, DOT, DOT, 65, CR, LF]"
proof -
  let ?p = "camel_mime_filter_crlf_set_ensure_crlf_end (camel_mime_filter_crlf_new
          CAMEL_MIME_FILTER_CRLF_ENCODE CAMEL_MIME_FILTER_CRLF_MODE_CRLF_DOTS) True"
  have "crlf_own CAMEL_MIME_FILTER_CRLF_MODE_CRLF_DOTS True ?p"
    by (simp add: crlf_own_def camel_mime_filter_crlf_new_def camel_mime_filter_crlf_set_ensure_crlf_end_def)
  from crlf_encode_filter_correct [OF this, of "[]" camel_mime_filter_init "[[DOT, CR], [LF, DOT, 65]]"]
  show ?thesis by (simp add: crlf_stream_def crlf_dots_def)
qed

text \<open>C29: Decoding the encoded form of a stream with LF line ends in one call gives the stream back,
  in both modes.\<close>

theorem crlf_roundtrip:
  assumes "CR \<notin> set xs"
  shows "snd (crlf_decode_loop (md = CAMEL_MIME_FILTER_CRLF_MODE_CRLF_DOTS)
      (camel_mime_filter_crlf_new CAMEL_MIME_FILTER_CRLF_DECODE md)
      (crlf_spec (md = CAMEL_MIME_FILTER_CRLF_MODE_CRLF_DOTS) True xs)) = xs"
  using assms by (intro crlf_decode_spec) (simp_all add: camel_mime_filter_crlf_new_def)

theorem crlf_roundtrip_witness:
  "snd (crlf_decode_loop True
      (camel_mime_filter_crlf_new CAMEL_MIME_FILTER_CRLF_DECODE CAMEL_MIME_FILTER_CRLF_MODE_CRLF_DOTS)
      [DOT, DOT, CR, LF]) = [DOT, LF]"
  using crlf_roundtrip [of "[DOT, LF]" CAMEL_MIME_FILTER_CRLF_MODE_CRLF_DOTS] by simp

text \<open>In dots mode the decoder is not independent of the pieces: when a chunk ends between the two
  dots of a stuffed line, the second dot stays in the text.\<close>

lemma crlf_decode_split_dots:
  "(let p = camel_mime_filter_crlf_new CAMEL_MIME_FILTER_CRLF_DECODE CAMEL_MIME_FILTER_CRLF_MODE_CRLF_DOTS
    in filter_stream mime_filter_crlf_filter mime_filter_crlf_complete (p, camel_mime_filter_init)
         [[65, CR, LF, DOT, DOT, 66]] [] = map Some [65, LF, DOT, 66] \<and>
       filter_stream mime_filter_crlf_filter mime_filter_crlf_complete (p, camel_mime_filter_init)
         [[65, CR, LF, DOT], [DOT, 66]] [] = map Some [65, LF, DOT, DOT, 66])"
  by code_simp

text \<open>When the last piece goes through \<^verbatim>\<open>complete\<close> and \<^verbatim>\<open>ensure_crlf_end\<close> is set, growing the
  buffer for the closing CR LF throws away what was just encoded: the output starts with bytes that
  were never written.\<close>

lemma crlf_complete_loses_output:
  "(let p = camel_mime_filter_crlf_set_ensure_crlf_end (camel_mime_filter_crlf_new
      CAMEL_MIME_FILTER_CRLF_ENCODE CAMEL_MIME_FILTER_CRLF_MODE_CRLF_DOTS) True
    in filter_stream mime_filter_crlf_filter mime_filter_crlf_complete (p, camel_mime_filter_init)
         [] [DOT] = [None, None, Some CR, Some LF])"
  by code_simp

end
