(* ===== verification/Camel_FilterCanon.thy ===== *)
theory Camel_FilterCanon
  imports Camel_MimeFilter
begin

text \<open>
  \<^verbatim>\<open>src/src/camel/camel-mime-filter-canon.c\<close>: the filter that prepares a message for signing. It
  canonicalises line ends, strips trailing white space and escapes \<^verbatim>\<open>From \<close> at line starts.

  The output of the current line (from \<^verbatim>\<open>starto\<close> to \<^verbatim>\<open>o\<close>) is a stack, the last byte written first,
  because the code goes back over it.
\<close>

text \<open>\<^verbatim>\<open>priv->flags\<close> with its three bits.\<close>

record canon_flags =
  CANON_CRLF :: bool
  CANON_FROM :: bool
  CANON_STRIP :: bool

definition camel_mime_filter_canon_new :: "guint32 \<Rightarrow> canon_flags" where
  "camel_mime_filter_canon_new flags =
     \<lparr>CANON_CRLF = (flags AND push_bit 0 1 \<noteq> 0), CANON_FROM = (flags AND push_bit 1 1 \<noteq> 0),
      CANON_STRIP = (flags AND push_bit 2 1 \<noteq> 0)\<rparr>"

text \<open>The start of a line: what is written for it and the input behind it; \<open>None\<close> is the \<^verbatim>\<open>break\<close>
  that waits for more input.\<close>

definition canon_line_start ::
    "canon_flags \<Rightarrow> bool \<Rightarrow> byte list \<Rightarrow> (byte list \<times> byte list) option" where
  "canon_line_start flags lastp inp =
     (if CANON_FROM flags \<and> hd inp = 0x46 then
        (let inptr = tl inp in
         if length inptr > 4 then
           (if take 4 inptr = bytes ''rom '' then Some (rev (bytes ''=46rom ''), drop 4 inptr)
            else Some ([0x46], inptr))
         else if lastp then Some ([0x46], inptr)
         else None)
      else Some ([], inp))"

text \<open>At the end of a line: strip, then canonicalise the line end.\<close>

definition canon_line_end :: "canon_flags \<Rightarrow> byte list \<Rightarrow> byte list" where
  "canon_line_end flags stack =
     (let stack = (if CANON_STRIP flags
                   then dropWhile (\<lambda>b. b = SP \<or> b = TAB \<or> b = CR) stack else stack);
          stack = (if stack \<noteq> [] then
                     (if CANON_CRLF flags then (if hd stack \<noteq> CR then CR # stack else stack)
                      else if hd stack = CR then tl stack else stack)
                   else if CANON_CRLF flags then CR # stack else stack)
      in LF # stack)"

text \<open>The scan for the end of the line. \<open>Inl\<close>: the line is complete, with the rest of the input.
  \<open>Inr\<close>: the input is at its end.\<close>

fun canon_scan :: "canon_flags \<Rightarrow> byte list \<Rightarrow> byte list \<Rightarrow> byte list \<times> byte list + byte list" where
  "canon_scan flags stack [] = Inr stack"
| "canon_scan flags stack (c # inptr) =
     (if c = LF then Inl (canon_line_end flags stack, inptr)
      else canon_scan flags (c # stack) inptr)"

text \<open>The main loop: the complete lines, the unfinished line's output, and the input from \<^verbatim>\<open>start\<close>.\<close>

lemma canon_scan_rest: "canon_scan flags stack inp = Inl (line, rest) \<Longrightarrow> length rest < length inp"
  by (induction flags stack inp rule: canon_scan.induct) (auto split: if_splits)

lemma canon_start_rest:
  "canon_line_start flags lastp inp = Some (stack, rest) \<Longrightarrow> length rest \<le> length inp"
  by (auto simp: canon_line_start_def Let_def split: if_splits)

function canon_loop :: "canon_flags \<Rightarrow> bool \<Rightarrow> byte list \<Rightarrow> byte list \<times> byte list \<times> byte list" where
  "canon_loop flags lastp inp =
     (if inp = [] then ([], [], [])
      else
        (case canon_line_start flags lastp inp of
           None \<Rightarrow> ([], [], inp)
         | Some (stack, inptr) \<Rightarrow>
             (case canon_scan flags stack inptr of
                Inr stack \<Rightarrow> ([], rev stack, inp)
              | Inl (stack, rest) \<Rightarrow>
                  (let (out, partial, start) = canon_loop flags lastp rest
                   in (rev stack @ out, partial, start)))))"
  by pat_completeness auto
termination
  by (relation "measure (\<lambda>(flags, lastp, inp). length inp)")
    (auto dest!: canon_scan_rest canon_scan_rest [OF sym] canon_start_rest canon_start_rest [OF sym])

declare canon_loop.simps [simp del]

definition mime_filter_canon_run :: "bool \<Rightarrow> canon_flags filter_method" where
  "mime_filter_canon_run lastp flags f xs prespace =
     (let (f, buf) = camel_mime_filter_set_size f
            (length xs + length (filter (\<lambda>b. b = LF) xs) * 3 + 4) False [];
          (lines, partial, start) = canon_loop flags lastp xs
      in if lastp then (flags, f, buf @ map Some (lines @ partial), outpre f)
         else (flags, camel_mime_filter_backup f start, buf @ map Some lines, outpre f))"

definition mime_filter_canon_filter :: "canon_flags filter_method" where
  "mime_filter_canon_filter = mime_filter_canon_run False"

definition mime_filter_canon_complete :: "canon_flags filter_method" where
  "mime_filter_canon_complete = mime_filter_canon_run True"

definition mime_filter_canon_reset :: "canon_flags \<Rightarrow> canon_flags" where
  "mime_filter_canon_reset flags = flags"

section \<open>The filter keeps the unfinished line\<close>

definition canon_stream :: "canon_flags \<Rightarrow> byte list \<Rightarrow> byte list" where
  "canon_stream flags xs = (let (lines, partial, start) = canon_loop flags True xs in lines @ partial)"

text \<open>A complete line is treated the same whatever follows it.\<close>

lemma canon_scan_append:
  "canon_scan flags stack inp = Inl (line, rest) \<Longrightarrow>
     canon_scan flags stack (inp @ later) = Inl (line, rest @ later)"
  by (induction flags stack inp rule: canon_scan.induct) (auto split: if_splits)

lemma canon_start_append:
  "inp \<noteq> [] \<Longrightarrow> canon_line_start flags False inp = Some (stack, rest) \<Longrightarrow>
     canon_line_start flags lastp (inp @ later) = Some (stack, rest @ later)"
  by (cases inp) (auto simp: canon_line_start_def Let_def split: if_splits)

lemma canon_loop_append:
  "canon_loop flags False inp = (lines, partial, start) \<Longrightarrow>
     canon_loop flags lastp (inp @ later) =
       (let (lines', partial', start') = canon_loop flags lastp (start @ later)
        in (lines @ lines', partial', start'))"
proof (induction inp arbitrary: lines rule: length_induct)
  case (1 inp)
  show ?case
  proof (cases "inp = []")
    case True
    with 1(2) show ?thesis by (simp add: canon_loop.simps [of flags False])
  next
    case ne: False
    show ?thesis
    proof (cases "canon_line_start flags False inp")
      case None
      with 1(2) ne show ?thesis by (simp add: canon_loop.simps [of flags False])
    next
      case (Some sr)
      then obtain stack rest where start: "canon_line_start flags False inp = Some (stack, rest)"
        by (cases sr) auto
      show ?thesis
      proof (cases "canon_scan flags stack rest")
        case (Inr x)
        with 1(2) ne start show ?thesis by (simp add: canon_loop.simps [of flags False])
      next
        case (Inl lr)
        then obtain line rest' where scan: "canon_scan flags stack rest = Inl (line, rest')"
          by (cases lr) auto
        have shorter: "length rest' < length inp"
          using canon_scan_rest [OF scan] canon_start_rest [OF start] by simp
        from 1(2) ne start scan obtain lines' where loop: "canon_loop flags False rest' = (lines', partial, start)"
            and lines: "lines = rev line @ lines'"
          by (cases "canon_loop flags False rest'") (simp add: canon_loop.simps [of flags False inp])
        from 1(1) [rule_format, OF shorter loop] lines ne show ?thesis
          by (simp add: canon_loop.simps [of flags lastp "inp @ later"] canon_start_append [OF ne start]
              canon_scan_append [OF scan] split_def Let_def)
      qed
    qed
  qed
qed

definition canon_consumed :: "canon_flags \<Rightarrow> canon_flags \<times> CamelMimeFilter \<Rightarrow> byte list \<Rightarrow> byte list \<Rightarrow> bool"
where
  "canon_consumed flags st xs ys \<longleftrightarrow>
     fst st = flags \<and> (\<forall>later. canon_stream flags (xs @ later) = ys @ canon_stream flags (backbuf (snd st) @ later))"

lemma canon_stream_append:
  assumes "canon_loop flags False inp = (lines, partial, start)"
  shows "canon_stream flags (inp @ later) = lines @ canon_stream flags (start @ later)"
  unfolding canon_stream_def canon_loop_append [OF assms] by (simp add: split_def Let_def)

interpretation canon_filter: resettable_filter mime_filter_canon_filter mime_filter_canon_complete
  "canon_consumed flags" "canon_stream flags" "\<lambda>final. True" "Some mime_filter_canon_reset"
  "\<lambda>p. p = flags"
  for flags
proof
  fix st xs ys piece
  assume cons: "canon_consumed flags st xs ys"
  obtain f where st: "st = (flags, f)" using cons by (cases st) (auto simp: canon_consumed_def)
  from cons st have spec: "canon_stream flags (xs @ later) = ys @ canon_stream flags (backbuf f @ later)"
    for later by (simp add: canon_consumed_def)
  obtain lines partial start where loop: "canon_loop flags False (backbuf f @ piece) = (lines, partial, start)"
    by (cases "canon_loop flags False (backbuf f @ piece)") auto
  obtain f' pre where run: "\<And>mthd. filter_run mthd flags f piece 0 = mthd flags f' (backbuf f @ piece) pre"
    by (rule filter_run_with_backup) blast
  let ?g = "fst (camel_mime_filter_set_size f'
      (length (backbuf f @ piece) + length (filter (\<lambda>b. b = LF) (backbuf f @ piece)) * 3 + 4) False [])"
  have "camel_mime_filter_filter mime_filter_canon_filter st piece =
      ((flags, camel_mime_filter_backup ?g start), map Some lines)"
    using loop
    by (simp add: st camel_mime_filter_filter_def run mime_filter_canon_filter_def
        mime_filter_canon_run_def split_def Let_def)
  moreover have "canon_consumed flags (flags, camel_mime_filter_backup ?g start) (xs @ piece) (ys @ lines)"
    using spec [of "piece @ _"] canon_stream_append [OF loop] by (simp add: canon_consumed_def)
  ultimately show "\<exists>st' out. camel_mime_filter_filter mime_filter_canon_filter st piece = (st', map Some out) \<and>
      canon_consumed flags st' (xs @ piece) (ys @ out)" by blast
  have "snd (camel_mime_filter_complete mime_filter_canon_complete st piece) =
      map Some (canon_stream flags (backbuf f @ piece))"
    by (simp add: st camel_mime_filter_complete_def run mime_filter_canon_complete_def
        mime_filter_canon_run_def canon_stream_def split_def Let_def)
  then show "\<exists>st' out. camel_mime_filter_complete mime_filter_canon_complete st piece = (st', map Some out) \<and>
      ys @ out = canon_stream flags (xs @ piece)"
    using spec [of piece] by (metis prod.collapse)
next
  fix p f
  assume "p = flags"
  then show "canon_consumed flags (camel_mime_filter_reset (Some mime_filter_canon_reset) p f) [] []"
    by (simp add: canon_consumed_def camel_mime_filter_reset_def mime_filter_canon_reset_def)
qed

section \<open>The canonical form\<close>

text \<open>Line by line: what becomes of the text of a line, and of a line with its line end.\<close>

definition canon_escape :: "canon_flags \<Rightarrow> byte list \<Rightarrow> byte list" where
  "canon_escape flags line =
     (if CANON_FROM flags \<and> prefix (bytes ''From '') line then bytes ''=46rom '' @ drop 5 line else line)"

text \<open>The text of a line without what belongs to its end: all white space when that is stripped, else one carriage
  return.\<close>

definition canon_text :: "canon_flags \<Rightarrow> byte list \<Rightarrow> byte list" where
  "canon_text flags line =
     (if CANON_STRIP flags then rev (dropWhile (\<lambda>b. b = SP \<or> b = TAB \<or> b = CR) (rev line))
      else if line \<noteq> [] \<and> last line = CR then butlast line
      else line)"

definition canon_line :: "canon_flags \<Rightarrow> byte list \<Rightarrow> byte list" where
  "canon_line flags line =
     canon_text flags (canon_escape flags line) @ (if CANON_CRLF flags then [CR, LF] else [LF])"

lemma canon_line_end_text:
  "rev (canon_line_end flags (rev line)) = canon_text flags line @ (if CANON_CRLF flags then [CR, LF] else [LF])"
proof (cases "CANON_STRIP flags")
  case True
  let ?s = "dropWhile (\<lambda>b. b = SP \<or> b = TAB \<or> b = CR) (rev line)"
  have "?s \<noteq> [] \<Longrightarrow> hd ?s \<noteq> CR"
    using hd_dropWhile [of "\<lambda>b. b = SP \<or> b = TAB \<or> b = CR" "rev line"] by blast
  then show ?thesis using True by (auto simp: canon_line_end_def canon_text_def Let_def)
next
  case False
  then show ?thesis by (cases line rule: rev_cases) (auto simp: canon_line_end_def canon_text_def Let_def)
qed

lemma canon_scan_line:
  "LF \<notin> set line \<Longrightarrow> canon_scan flags stack (line @ LF # rest) =
     Inl (canon_line_end flags (rev line @ stack), rest)"
  by (induction line arbitrary: stack) auto

lemma canon_scan_partial:
  "LF \<notin> set line \<Longrightarrow> canon_scan flags stack line = Inr (rev line @ stack)"
  by (induction line arbitrary: stack) auto

lemma take_prefix_iff: "length p \<le> length xs \<Longrightarrow> take (length p) xs = p \<longleftrightarrow> prefix p xs"
  by (metis append_eq_conv_conj prefix_def take_is_prefix)

lemma canon_line_start_escape:
  assumes "LF \<notin> set line"
  shows "\<exists>stack body. canon_line_start flags True (line @ LF # rest) = Some (stack, body @ LF # rest) \<and>
    LF \<notin> set body \<and> rev stack @ body = canon_escape flags line"
proof (cases "CANON_FROM flags \<and> line \<noteq> [] \<and> hd line = 0x46")
  case False
  then have "canon_escape flags line = line"
    by (auto simp: canon_escape_def prefix_def)
  with False assms show ?thesis
    by (cases line) (auto simp: canon_line_start_def intro!: exI [of _ "[]"])
next
  case True
  then obtain t where line: "line = 0x46 # t" and t: "LF \<notin> set t" using assms by (cases line) auto
  show ?thesis
  proof (cases "prefix (bytes ''rom '') t")
    case True
    then obtain u where "t = bytes ''rom '' @ u" by (auto simp: prefix_def)
    with \<open>CANON_FROM flags \<and> _\<close> line t show ?thesis
      by (intro exI [of _ "rev (bytes ''=46rom '')"] exI [of _ u])
        (simp add: canon_line_start_def canon_escape_def)
  next
    case no: False
    have "take 4 (t @ LF # rest) \<noteq> bytes ''rom ''"
    proof
      assume eq: "take 4 (t @ LF # rest) = bytes ''rom ''"
      have "length t \<ge> 4"
      proof (rule ccontr)
        assume "\<not> 4 \<le> length t"
        then have "take 4 (t @ LF # rest) ! length t = LF" by (simp add: nth_append)
        moreover have "LF \<notin> set (bytes ''rom '')" by simp
        ultimately show False
          using eq \<open>\<not> 4 \<le> length t\<close> by (metis length_append length_take list.size(4) min_less_iff_conj
              nth_mem not_le trans_less_add1 add_Suc_right less_add_Suc1)
      qed
      with eq no take_prefix_iff [of "bytes ''rom ''" t] show False by (simp add: eval_nat_numeral)
    qed
    with \<open>CANON_FROM flags \<and> _\<close> line t no show ?thesis
      by - (rule exI [of _ "[0x46]"], rule exI [of _ t],
          auto simp: canon_line_start_def canon_escape_def Let_def)
  qed
qed

lemma canon_stream_line:
  assumes "LF \<notin> set line"
  shows "canon_stream flags (line @ LF # rest) = canon_line flags line @ canon_stream flags rest"
proof -
  from canon_line_start_escape [OF assms] obtain stack body
    where start: "canon_line_start flags True (line @ LF # rest) = Some (stack, body @ LF # rest)"
      "LF \<notin> set body" "rev stack @ body = canon_escape flags line" by blast
  have "rev body @ stack = rev (canon_escape flags line)"
    using start(3) by (metis rev_append rev_rev_ident)
  with start show ?thesis
    by (simp add: canon_stream_def canon_loop.simps [of flags True "line @ LF # rest"] canon_scan_line
        canon_line_def canon_line_end_text split_def Let_def)
qed

lemma canon_stream_lines:
  "\<forall>l\<in>set ls. LF \<notin> set l \<Longrightarrow>
     canon_stream flags (concat (map (\<lambda>l. l @ [LF]) ls) @ rest) =
       concat (map (canon_line flags) ls) @ canon_stream flags rest"
  by (induction ls) (simp_all add: canon_stream_line)

section \<open>The output buffer\<close>

abbreviation lf_count :: "byte list \<Rightarrow> nat" where
  "lf_count xs \<equiv> length (filter (\<lambda>b. b = LF) xs)"

lemma canon_start_size:
  "inp \<noteq> [] \<Longrightarrow> canon_line_start flags lastp inp = Some (stack, rest) \<Longrightarrow>
     length stack + length rest \<le> length inp + 2 \<and> lf_count rest \<le> lf_count inp"
proof (cases inp)
  case (Cons c t)
  assume "canon_line_start flags lastp inp = Some (stack, rest)"
  moreover have "lf_count (drop 4 t) \<le> lf_count t"
    by (metis append_take_drop_id filter_append le_add2 length_append)
  ultimately show ?thesis
    using Cons by (auto simp: canon_line_start_def Let_def split: if_splits)
qed simp

lemma canon_line_end_size: "length (canon_line_end flags stack) \<le> length stack + 2"
proof -
  have "length (dropWhile P stack) \<le> length stack" for P by (rule length_dropWhile_le)
  then show ?thesis by (auto simp: canon_line_end_def Let_def intro: le_SucI order_trans [OF diff_le_self])
qed

lemma canon_scan_size:
  "canon_scan flags stack inp = Inl (line, rest) \<Longrightarrow>
     length line + length rest \<le> length stack + length inp + 1 \<and> lf_count inp = Suc (lf_count rest)"
  "canon_scan flags stack inp = Inr out \<Longrightarrow> length out = length stack + length inp"
proof (induction flags stack inp rule: canon_scan.induct)
  case (2 flags stack c inptr)
  {
    case 1
    with 2 canon_line_end_size [of flags stack] show ?case by (auto split: if_splits)
  next
    case 2
    with \<open>_ \<Longrightarrow> canon_scan flags (c # stack) inptr = Inr out \<Longrightarrow> _\<close> show ?case
      by (auto split: if_splits)
  }
qed auto

lemma canon_loop_size:
  "canon_loop flags lastp inp = (lines, partial, start) \<Longrightarrow>
     length lines + length partial \<le> length inp + lf_count inp * 3 + 2"
proof (induction inp arbitrary: lines rule: length_induct)
  case (1 inp)
  show ?case
  proof (cases "inp = [] \<or> canon_line_start flags lastp inp = None")
    case True
    with 1(2) show ?thesis
      by (auto simp: canon_loop.simps [of flags lastp inp] split: if_splits option.splits)
  next
    case False
    then obtain stack rest where ne: "inp \<noteq> []"
      and st: "canon_line_start flags lastp inp = Some (stack, rest)" by auto
    note size = canon_start_size [OF ne st]
    show ?thesis
    proof (cases "canon_scan flags stack rest")
      case (Inr x)
      with 1(2) ne st size canon_scan_size(2) [OF Inr] show ?thesis
        by (auto simp: canon_loop.simps [of flags lastp inp])
    next
      case (Inl lr)
      then obtain line rest' where scan: "canon_scan flags stack rest = Inl (line, rest')"
        by (cases lr) auto
      have shorter: "length rest' < length inp"
        using canon_scan_rest [OF scan] canon_start_rest [OF st] by simp
      from 1(2) ne st scan obtain lines' where loop: "canon_loop flags lastp rest' = (lines', partial, start)"
          and lines: "lines = rev line @ lines'"
        by (cases "canon_loop flags lastp rest'") (simp add: canon_loop.simps [of flags lastp inp])
      from 1(1) [rule_format, OF shorter loop] lines size canon_scan_size(1) [OF scan] show ?thesis
        by simp
    qed
  qed
qed

section \<open>Properties\<close>

text \<open>C30: In whatever pieces a message of complete lines is fed to the canonicalising filter, every line of it is
  written in its canonical form, one after the other: \<^verbatim>\<open>From \<close> at its start escaped, when stripping is asked for
  without trailing white space, else with its text unchanged, and closed by CR LF or by LF as the flags say, whichever
  of the two closed it before.\<close>

theorem canon_filter_lines:
  assumes "concat pieces @ final = concat (map (\<lambda>l. l @ [LF]) ls)" and "\<forall>l\<in>set ls. LF \<notin> set l"
  shows "filter_stream mime_filter_canon_filter mime_filter_canon_complete
      (camel_mime_filter_reset (Some mime_filter_canon_reset) flags f) pieces final =
    map Some (concat (map (canon_line flags) ls))"
proof -
  have "canon_stream flags (concat pieces @ final) = concat (map (canon_line flags) ls)"
    using canon_stream_lines [OF assms(2), of flags "[]"] assms(1)
    by (simp add: canon_stream_def [of _ "[]"] canon_loop.simps)
  then show ?thesis
    using canon_filter.filter_stream_after_reset [where flags = flags and p = flags and final = final]
    by simp
qed

theorem canon_filter_lines_witness:
  "filter_stream mime_filter_canon_filter mime_filter_canon_complete
     (camel_mime_filter_reset (Some mime_filter_canon_reset) (camel_mime_filter_canon_new 7)
       camel_mime_filter_init) [bytes ''Fr'', bytes ''om me '' @ [LF]] (bytes ''ok'' @ [LF]) =
   map Some (bytes ''=46rom me'' @ [CR, LF] @ bytes ''ok'' @ [CR, LF])"
proof -
  let ?ls = "[bytes ''From me '', bytes ''ok'']"
  have "concat (map (canon_line (camel_mime_filter_canon_new 7)) ?ls) =
      bytes ''=46rom me'' @ [CR, LF] @ bytes ''ok'' @ [CR, LF]"
    by code_simp
  moreover have "filter_stream mime_filter_canon_filter mime_filter_canon_complete
     (camel_mime_filter_reset (Some mime_filter_canon_reset) (camel_mime_filter_canon_new 7)
       camel_mime_filter_init) [bytes ''Fr'', bytes ''om me '' @ [LF]] (bytes ''ok'' @ [LF]) =
     map Some (concat (map (canon_line (camel_mime_filter_canon_new 7)) ?ls))"
    by (rule canon_filter_lines) simp_all
  ultimately show ?thesis by (simp only:)
qed

text \<open>One call of the canonicalising filter writes no more than the
  \<^verbatim>\<open>len + lf * 3 + 4\<close> bytes it reserves.\<close>

lemma canon_output_fits:
  assumes "mime_filter_canon_run lastp flags f xs pre = (flags', f', out, pre')"
  shows "length out \<le> length xs + lf_count xs * 3 + 4 \<and> length out \<le> outsize f'"
proof -
  let ?n = "length xs + lf_count xs * 3 + 4"
  have set: "?n \<le> outsize (fst (camel_mime_filter_set_size f ?n False []))" by simp
  obtain lines partial start where loop: "canon_loop flags lastp xs = (lines, partial, start)"
    by (cases "canon_loop flags lastp xs") auto
  have "length out \<le> length lines + length partial"
    and "outsize f' = outsize (fst (camel_mime_filter_set_size f ?n False []))"
    using assms loop
    by (auto simp: mime_filter_canon_run_def split_def Let_def camel_mime_filter_backup_def
        split: if_splits)
  with canon_loop_size [OF loop] set show ?thesis by linarith
qed

theorem canon_output_fits_witness:
  "length (fst (snd (snd (mime_filter_canon_run True (camel_mime_filter_canon_new 3)
     camel_mime_filter_init (bytes ''From x'' @ [LF]) 0)))) \<le> 14"
proof -
  obtain flags f out pre where call: "mime_filter_canon_run True (camel_mime_filter_canon_new 3)
      camel_mime_filter_init (bytes ''From x'' @ [LF]) 0 = (flags, f, out, pre)"
    by (cases "mime_filter_canon_run True (camel_mime_filter_canon_new 3)
      camel_mime_filter_init (bytes ''From x'' @ [LF]) 0") auto
  from canon_output_fits [OF this] call show ?thesis by simp
qed

end
