(* ===== verification/Camel_FilterFrom.thy ===== *)
theory Camel_FilterFrom
  imports Camel_MimeFilter
begin

text \<open>
  \<^verbatim>\<open>src/src/camel/camel-mime-filter-from.c\<close>: the filter that escapes \<^verbatim>\<open>From \<close> at the start of a
  line by a \<^verbatim>\<open>>\<close>, as mbox folders need it. Its own data is the flag \<^verbatim>\<open>midline\<close>. The stack-allocated
  list of \<^verbatim>\<open>struct fromnode\<close> is the list of the positions it points to.
\<close>

text \<open>The inner loop over the rest of a line: whether a line feed was met, and the input behind it.\<close>

fun from_skip_line :: "byte list \<Rightarrow> bool \<times> byte list" where
  "from_skip_line [] = (False, [])"
| "from_skip_line (c # inptr) = (if c = LF then (True, inptr) else from_skip_line inptr)"

lemma from_skip_line_split:
  "from_skip_line inp = (found, rest) \<Longrightarrow>
     \<exists>line. inp = line @ (if found then LF # rest else []) \<and> LF \<notin> set line \<and> (\<not> found \<longrightarrow> rest = [])"
proof (induction inp)
  case (Cons c inp)
  then show ?case
    by (auto split: if_splits intro: exI [of _ "[]"] exI [of _ "c # _"])
qed simp

lemma from_skip_line_shorter: "(found, y) = from_skip_line inp \<Longrightarrow> inp \<noteq> [] \<Longrightarrow> length y < length inp"
  by (auto dest!: from_skip_line_split [OF sym] split: if_splits)

text \<open>The first loop: the positions to escape, the new \<^verbatim>\<open>midline\<close>, and what is kept back.\<close>

function from_loop :: "bool \<Rightarrow> nat \<Rightarrow> byte list \<Rightarrow> nat list \<times> bool \<times> byte list" where
  "from_loop midline pos inp =
     (if inp = [] then ([], midline, [])
      else
        (let (found, inptr) = (if midline then from_skip_line inp else (False, inp));
             pos = pos + (length inp - length inptr)
         in if found \<or> \<not> midline then
              (let left = length inptr in
               if left > 0 then
                 (if left < 5 then
                    (if hd inptr = 0x46 then ([], False, inptr) else from_loop True pos inptr)
                  else if take 5 inptr = bytes ''From '' then
                    (let (nodes, rest) = from_loop True (pos + 5) (drop 5 inptr) in (pos # nodes, rest))
                  else from_loop True pos inptr)
               else from_loop False pos inptr)
            else from_loop midline pos inptr))"
  by pat_completeness auto
termination
proof (relation "measure (\<lambda>(midline, pos, inp). 2 * length inp + (if midline then 0 else 1))", goal_cases)
  case 1
  show ?case by simp
qed (auto dest: from_skip_line_shorter split: if_splits)

declare from_loop.simps [simp del]

text \<open>The copy loop, from position \<open>cur\<close> of the input on.\<close>

fun from_copy :: "nat \<Rightarrow> nat list \<Rightarrow> byte list \<Rightarrow> byte list" where
  "from_copy cur [] inptr = inptr"
| "from_copy cur (node # nodes) inptr =
     take (node - cur) inptr @ [0x3e] @ from_copy node nodes (drop (node - cur) inptr)"

definition mime_filter_from_filter :: "bool filter_method" where
  "mime_filter_from_filter midline f xs prespace =
     (let (nodes, midline, back) = from_loop midline 0 xs;
          f = (if back \<noteq> [] then camel_mime_filter_backup f back else f);
          upto_inend = take (length xs - length back) xs
      in if length nodes > 0 then
           (let (f, buf) = camel_mime_filter_set_size f (length xs + length nodes) False []
            in (midline, f, buf @ map Some (from_copy 0 nodes upto_inend), outpre f))
         else (midline, f, map Some upto_inend, prespace))"

definition mime_filter_from_complete :: "bool filter_method" where
  "mime_filter_from_complete midline f xs prespace = (midline, f, map Some xs, prespace)"

text \<open>A new filter is at the start of a line; the class has no \<^verbatim>\<open>reset\<close> method.\<close>

definition camel_mime_filter_from_new :: bool where
  "camel_mime_filter_from_new = False"

section \<open>The escaping of whole streams\<close>

fun from_spec :: "bool \<Rightarrow> byte list \<Rightarrow> byte list" where
  "from_spec bol [] = []"
| "from_spec bol (c # rest) =
     (if bol \<and> take 5 (c # rest) = bytes ''From '' then [0x3e] else []) @ c # from_spec (c = LF) rest"

declare from_spec.simps(2) [simp del]

lemma from_spec_skip: "LF \<notin> set line \<Longrightarrow> from_spec False (line @ rest) = line @ from_spec False rest"
  by (induction line) (simp_all add: from_spec.simps(2))

lemma from_spec_line:
  "LF \<notin> set line \<Longrightarrow> from_spec False (line @ LF # rest) = line @ LF # from_spec True rest"
  by (simp add: from_spec_skip from_spec.simps(2))

lemma from_spec_other: "take 5 inp \<noteq> bytes ''From '' \<Longrightarrow> from_spec True inp = from_spec False inp"
  by (cases inp) (simp_all add: from_spec.simps(2))

lemma from_spec_From: "from_spec True (bytes ''From '' @ rest) = [0x3e] @ bytes ''From '' @ from_spec False rest"
  by (simp add: from_spec.simps(2))

lemma from_spec_short: "length xs < 5 \<Longrightarrow> from_spec bol xs = xs"
proof (induction xs arbitrary: bol)
  case (Cons c xs)
  then have "take 5 (c # xs) = c # xs" by simp
  moreover have "length (bytes ''From '') = 5" by simp
  then have "c # xs \<noteq> bytes ''From ''" using Cons.prems by (metis less_irrefl)
  ultimately show ?case using Cons by (simp add: from_spec.simps(2))
qed simp

section \<open>The loops compute the escaping\<close>

lemma from_skip_line_eqs:
  "LF \<notin> set line \<Longrightarrow> from_skip_line (line @ LF # rest) = (True, rest)"
  "LF \<notin> set line \<Longrightarrow> from_skip_line line = (False, [])"
  by (induction line) auto

lemma from_loop_Nil: "from_loop midline pos [] = ([], midline, [])"
  by (simp add: from_loop.simps)

lemma from_loop_mid:
  "LF \<notin> set line \<Longrightarrow> from_loop True pos (line @ LF # rest) = from_loop False (pos + length line + 1) rest"
  by (subst from_loop.simps, cases rest)
    (simp_all add: from_loop.simps [of False _ "_ # _"] from_skip_line_eqs from_loop_Nil Let_def)

lemma from_loop_mid_end: "LF \<notin> set line \<Longrightarrow> from_loop True pos line = ([], True, [])"
  by (cases line) (simp_all add: from_loop.simps [of True pos "_ # _"] from_skip_line_eqs from_loop_Nil)

lemma from_loop_start:
  "inp \<noteq> [] \<Longrightarrow> from_loop False pos inp =
     (if length inp < 5 \<and> hd inp = 0x46 then ([], False, inp)
      else if take 5 inp = bytes ''From '' then
        (let (nodes, rest) = from_loop True (pos + 5) (drop 5 inp) in (pos # nodes, rest))
      else from_loop True pos inp)"
  by (auto simp: from_loop.simps [of False pos inp] Let_def)

lemma from_copy_skip:
  "\<forall>n\<in>set nodes. cur + length s \<le> n \<Longrightarrow>
     from_copy cur nodes (s @ xs) = s @ from_copy (cur + length s) nodes xs"
  by (cases nodes) auto

text \<open>Input that begins at a line start, or not, and ends at one.\<close>

definition to_line_start :: "bool \<Rightarrow> byte list \<Rightarrow> bool" where
  "to_line_start bol xs \<longleftrightarrow> (if xs = [] then bol else last xs = LF)"

lemma to_line_start_append: "to_line_start bol (xs @ ys) \<longleftrightarrow> to_line_start (to_line_start bol xs) ys"
  by (auto simp: to_line_start_def)

definition from_done :: "bool \<Rightarrow> nat \<Rightarrow> byte list \<Rightarrow> nat list \<Rightarrow> bool \<Rightarrow> byte list \<Rightarrow> bool" where
  "from_done midline pos inp nodes midline' back \<longleftrightarrow>
     (\<exists>used. inp = used @ back \<and> (\<forall>n\<in>set nodes. pos \<le> n) \<and> length back < 5 \<and>
        (back \<noteq> [] \<longrightarrow> \<not> midline') \<and> (\<not> midline' \<longrightarrow> to_line_start (\<not> midline) used) \<and>
        (\<forall>zs. from_copy pos nodes used @ from_spec (\<not> midline') (back @ zs) =
           from_spec (\<not> midline) (inp @ zs)))"

lemma from_done_line:
  assumes "from_done False (pos + length line + 1) rest nodes midline' back" and "LF \<notin> set line"
  shows "from_done True pos (line @ LF # rest) nodes midline' back"
proof -
  from assms(1) obtain used where used: "rest = used @ back" "\<forall>n\<in>set nodes. pos + length line + 1 \<le> n"
      "length back < 5" "back \<noteq> [] \<longrightarrow> \<not> midline'" "\<not> midline' \<longrightarrow> to_line_start True used"
    and spec: "\<And>zs. from_copy (pos + length line + 1) nodes used @ from_spec (\<not> midline') (back @ zs) =
       from_spec True (rest @ zs)"
    by (auto simp: from_done_def)
  have "from_copy pos nodes ((line @ [LF]) @ used) = line @ LF # from_copy (pos + length line + 1) nodes used"
    using used(2) by (subst from_copy_skip) auto
  moreover have "\<not> midline' \<longrightarrow> to_line_start False (line @ LF # used)"
    using used(5) by (simp add: to_line_start_def)
  ultimately show ?thesis using used spec from_spec_line [OF assms(2)]
    unfolding from_done_def by (intro exI [of _ "line @ LF # used"]) fastforce
qed

lemma from_done_From:
  assumes "from_done True (pos + 5) rest nodes midline' back"
  shows "from_done False pos (bytes ''From '' @ rest) (pos # nodes) midline' back"
proof -
  from assms obtain used where used: "rest = used @ back" "\<forall>n\<in>set nodes. pos + 5 \<le> n"
      "length back < 5" "back \<noteq> [] \<longrightarrow> \<not> midline'" "\<not> midline' \<longrightarrow> to_line_start False used"
    and spec: "\<And>zs. from_copy (pos + 5) nodes used @ from_spec (\<not> midline') (back @ zs) =
       from_spec False (rest @ zs)"
    by (auto simp: from_done_def)
  have "from_copy pos nodes (bytes ''From '' @ used) = bytes ''From '' @ from_copy (pos + 5) nodes used"
    using used(2) from_copy_skip [of nodes pos "bytes ''From ''" used] by (simp add: eval_nat_numeral)
  moreover have "\<not> midline' \<longrightarrow> to_line_start True (bytes ''From '' @ used)"
    using used(5) by (auto simp: to_line_start_def split: if_splits)
  ultimately show ?thesis using used spec from_spec_From
    unfolding from_done_def by (intro exI [of _ "bytes ''From '' @ used"]) fastforce
qed

lemma from_loop_done:
  "from_loop midline pos inp = (nodes, midline', back) \<Longrightarrow> from_done midline pos inp nodes midline' back"
proof (induction "2 * length inp + (if midline then 0 else 1)" arbitrary: midline pos inp nodes rule: less_induct)
  case less
  show ?case
  proof (cases "inp = []")
    case True
    with less.prems show ?thesis by (simp add: from_loop_Nil from_done_def to_line_start_def)
  next
    case ne: False
    show ?thesis
    proof (cases midline)
      case True
      show ?thesis
      proof (cases "LF \<in> set inp")
        case True
        then obtain line rest where inp: "inp = line @ LF # rest" "LF \<notin> set line"
          using split_list_first by metis
        have "from_done False (pos + length line + 1) rest nodes midline' back"
          using less.prems \<open>midline\<close> inp by (intro less.hyps) (simp_all add: from_loop_mid)
        with \<open>midline\<close> inp show ?thesis by (simp add: from_done_line)
      next
        case False
        with less.prems \<open>midline\<close> from_spec_skip [OF False] show ?thesis
          by (auto simp: from_loop_mid_end from_done_def)
      qed
    next
      case start: False
      consider "length inp < 5 \<and> hd inp = 0x46"
        | "\<not> (length inp < 5 \<and> hd inp = 0x46)" "take 5 inp = bytes ''From ''"
        | "\<not> (length inp < 5 \<and> hd inp = 0x46)" "take 5 inp \<noteq> bytes ''From ''" by blast
      then show ?thesis
      proof cases
        case 1
        with less.prems start ne show ?thesis
          by (auto simp: from_loop_start from_done_def to_line_start_def)
      next
        case 2
        obtain nodes' where rec: "from_loop True (pos + 5) (drop 5 inp) = (nodes', midline', back)"
          and nodes: "nodes = pos # nodes'"
          using 2 less.prems start ne by (cases "from_loop True (pos + 5) (drop 5 inp)")
            (auto simp: from_loop_start)
        have inp: "inp = bytes ''From '' @ drop 5 inp"
          using 2(2) by (metis append_take_drop_id)
        have "from_done True (pos + 5) (drop 5 inp) nodes' midline' back"
          using rec ne start by (intro less.hyps) auto
        with start nodes show ?thesis by (subst inp) (simp only: from_done_From)
      next
        case 3
        have "from_done True pos inp nodes midline' back"
          using 3 less.prems start ne by (intro less.hyps) (auto simp: from_loop_start)
        then obtain used where used: "inp = used @ back" "\<forall>n\<in>set nodes. pos \<le> n" "length back < 5"
            "back \<noteq> [] \<longrightarrow> \<not> midline'" "\<not> midline' \<longrightarrow> to_line_start False used"
          and spec: "\<And>zs. from_copy pos nodes used @ from_spec (\<not> midline') (back @ zs) =
             from_spec False (inp @ zs)"
          by (auto simp: from_done_def)
        have "take 5 (inp @ zs) \<noteq> bytes ''From ''" for zs
          using 3 ne by (cases inp; cases "length inp < 5") auto
        then have "from_spec True (inp @ zs) = from_spec False (inp @ zs)" for zs
          by (rule from_spec_other)
        moreover have "\<not> midline' \<longrightarrow> to_line_start True used"
          using used(5) by (auto simp: to_line_start_def split: if_splits)
        ultimately show ?thesis
          using start used spec unfolding from_done_def by (intro exI [of _ used]) simp
      qed
    qed
  qed
qed

section \<open>The contract of a filter\<close>

definition from_consumed :: "bool \<Rightarrow> bool \<times> CamelMimeFilter \<Rightarrow> byte list \<Rightarrow> byte list \<Rightarrow> bool" where
  "from_consumed bol st xs ys \<longleftrightarrow>
     (let midline = fst st; back = backbuf (snd st)
      in (\<exists>used. xs = used @ back \<and> (\<not> midline \<longrightarrow> to_line_start bol used)) \<and>
         length back < 5 \<and> (back \<noteq> [] \<longrightarrow> \<not> midline) \<and>
         (\<forall>zs. ys @ from_spec (\<not> midline) (back @ zs) = from_spec bol (xs @ zs)))"

lemma from_filter_call:
  assumes "from_done midline 0 inp nodes midline' back" and "from_loop midline 0 inp = (nodes, midline', back)"
    and "backbuf f = []"
  shows "\<exists>f' pre'. mime_filter_from_filter midline f inp pre =
      (midline', f', map Some (from_copy 0 nodes (take (length inp - length back) inp)), pre') \<and>
    backbuf f' = back"
proof (cases "nodes = []")
  case True
  with assms(2,3) show ?thesis by (auto simp: mime_filter_from_filter_def)
next
  case False
  let ?f = "if back \<noteq> [] then camel_mime_filter_backup f back else f"
  let ?g = "fst (camel_mime_filter_set_size ?f (length inp + length nodes) False [])"
  have "backbuf ?g = back" using assms(3) by auto
  with False assms(2) show ?thesis
    by (intro exI [of _ ?g] exI [of _ "outpre ?g"])
      (simp add: mime_filter_from_filter_def split_def Let_def)
qed

interpretation from_filter: stream_filter mime_filter_from_filter mime_filter_from_complete
  "from_consumed bol" "from_spec bol" "\<lambda>final. final = []"
  for bol
proof
  fix st xs ys piece
  assume cons: "from_consumed bol st xs ys"
  obtain midline f where st: "st = (midline, f)" by (cases st)
  from cons obtain taken where bk: "length (backbuf f) < 5" "backbuf f \<noteq> [] \<longrightarrow> \<not> midline"
    and taken: "xs = taken @ backbuf f" "\<not> midline \<longrightarrow> to_line_start bol taken"
    and spec: "\<And>zs. ys @ from_spec (\<not> midline) (backbuf f @ zs) = from_spec bol (xs @ zs)"
    by (auto simp: from_consumed_def st Let_def)
  obtain f' pre where run: "\<And>mthd. filter_run mthd midline f piece 0 = mthd midline f' (backbuf f @ piece) pre"
    and f': "backbuf f' = []" by (rule filter_run_with_backup) blast
  let ?inp = "backbuf f @ piece"
  obtain nodes midline' back' where loop: "from_loop midline 0 ?inp = (nodes, midline', back')"
    by (cases "from_loop midline 0 ?inp") auto
  note finished = from_loop_done [OF loop]
  from finished obtain used where used: "?inp = used @ back'" "length back' < 5" "back' \<noteq> [] \<longrightarrow> \<not> midline'"
      "\<not> midline' \<longrightarrow> to_line_start (\<not> midline) used"
    and step: "\<And>zs. from_copy 0 nodes used @ from_spec (\<not> midline') (back' @ zs) =
       from_spec (\<not> midline) (?inp @ zs)"
    unfolding from_done_def by blast
  from from_filter_call [OF finished loop f', of pre] obtain g pre'
    where call: "mime_filter_from_filter midline f' ?inp pre = (midline', g, map Some (from_copy 0 nodes used), pre')"
      and g: "backbuf g = back'" using used(1) by auto
  have split: "xs @ piece = (taken @ used) @ back'" using taken(1) used(1) by simp
  have "(ys @ from_copy 0 nodes used) @ from_spec (\<not> midline') (back' @ zs) = from_spec bol ((xs @ piece) @ zs)"
    for zs using step [of zs] spec [of "piece @ zs"] by simp
  moreover have "\<not> midline' \<longrightarrow> to_line_start bol (taken @ used)"
    using used(4) taken(2) by (cases "used = []") (auto simp: to_line_start_def split: if_splits)
  ultimately have "from_consumed bol (midline', g) (xs @ piece) (ys @ from_copy 0 nodes used)"
    using used(2,3) split unfolding from_consumed_def Let_def fst_conv snd_conv g
    by (intro conjI allI exI [of _ "taken @ used"])
  with call show "\<exists>st' out. camel_mime_filter_filter mime_filter_from_filter st piece = (st', map Some out) \<and>
      from_consumed bol st' (xs @ piece) (ys @ out)"
    by (auto simp: camel_mime_filter_filter_def st run)
  assume empty: "piece = []"
  then have "camel_mime_filter_complete mime_filter_from_complete st piece =
      ((midline, f'), map Some (backbuf f))"
    by (simp add: camel_mime_filter_complete_def st run [unfolded empty] mime_filter_from_complete_def)
  moreover have "ys @ backbuf f = from_spec bol (xs @ piece)"
    using spec [of "[]"] bk(1) empty by (simp add: from_spec_short)
  ultimately show "\<exists>st' out. camel_mime_filter_complete mime_filter_from_complete st piece = (st', map Some out) \<and>
      ys @ out = from_spec bol (xs @ piece)" by blast
qed

text \<open>The last piece is not looked at, and so comes out as it is behind the text kept back.\<close>

lemma from_complete_verbatim:
  assumes "from_consumed bol st xs ys"
  shows "\<exists>st' out. camel_mime_filter_complete mime_filter_from_complete st final = (st', map Some out) \<and>
    ys @ out = from_spec bol xs @ final"
proof -
  obtain midline f where st: "st = (midline, f)" by (cases st)
  have ys: "ys @ backbuf f = from_spec bol xs"
    using assms spec [where x = "[]" and P = "\<lambda>zs. ys @ from_spec _ (backbuf f @ zs) = from_spec bol (xs @ zs)"]
    by (auto simp: from_consumed_def st Let_def from_spec_short)
  obtain f' pre where "\<And>mthd. filter_run mthd midline f final 0 = mthd midline f' (backbuf f @ final) pre"
    by (rule filter_run_with_backup) blast
  then show ?thesis
    by (intro exI [of _ "(midline, f')"] exI [of _ "backbuf f @ final"])
      (simp add: camel_mime_filter_complete_def st mime_filter_from_complete_def flip: ys)
qed

lemma from_stream:
  assumes "from_consumed bol st [] []"
  shows "filter_stream mime_filter_from_filter mime_filter_from_complete st pieces final =
    map Some (from_spec bol (concat pieces) @ final)"
proof -
  obtain st1 o1 where 1: "filter_pieces mime_filter_from_filter st pieces = (st1, map Some o1)"
      "from_consumed bol st1 (concat pieces) o1"
    using from_filter.filter_pieces_consumed [OF assms, of pieces] by auto
  obtain st2 o2 where "camel_mime_filter_complete mime_filter_from_complete st1 final = (st2, map Some o2)"
      "o1 @ o2 = from_spec bol (concat pieces) @ final"
    using from_complete_verbatim [OF 1(2)] by blast
  with 1(1) show ?thesis by (simp add: filter_stream_def flip: map_append)
qed

lemma from_consumed_new: "from_consumed True (camel_mime_filter_from_new, camel_mime_filter_init) [] []"
  by (simp add: from_consumed_def to_line_start_def camel_mime_filter_from_new_def camel_mime_filter_init_def)

section \<open>Properties\<close>

text \<open>C31: In whatever pieces a message is fed to a new mbox filter, every line of them that starts with
  \<^verbatim>\<open>From \<close> is written with a \<^verbatim>\<open>>\<close> before it and nothing else changes, also where the line is split over
  several pieces. The last piece, which is given to \<^verbatim>\<open>complete\<close>, is written as it is, whatever lines it has.\<close>

theorem from_filter_escapes:
  "filter_stream mime_filter_from_filter mime_filter_from_complete
     (camel_mime_filter_from_new, camel_mime_filter_init) pieces final =
   map Some (from_spec True (concat pieces) @ final)"
  by (rule from_stream [OF from_consumed_new])



end
