(* ===== verification/Camel_Sexp.thy ===== *)
theory Camel_Sexp
  imports EDS_Prelude
begin

text \<open>
  \<^verbatim>\<open>src/src/camel/camel-sexp.c\<close>: the evaluator of the s-expressions in which message filters,
  virtual folders and calendar queries are written.

  \<^verbatim>\<open>gint\<close> is a 32-bit word and \<^verbatim>\<open>time_t\<close> a 64-bit one, both signed; arithmetic wraps. The fatal
  errors, \<^verbatim>\<open>longjmp\<close> to the caller of \<^verbatim>\<open>camel_sexp_eval\<close>, are the left values of a sum. Symbols
  that a client adds are interpreted by the parameters \<open>cfunc\<close> (called on values) and \<open>cifunc\<close>
  (called on terms); the visiting order of \<^verbatim>\<open>g_hash_table_foreach\<close> is the parameter \<open>ht_order\<close>. The
  memory chunks and the debugging stack \<^verbatim>\<open>operators\<close> have no part in the result.
\<close>

type_synonym gint = "32 word"
type_synonym time_t = "64 word"

text \<open>The built-in symbols and those of the client, which are known by their name.\<close>

datatype sexp_symbol =
    Sym_and | Sym_or | Sym_not | Sym_lt | Sym_gt | Sym_eq | Sym_plus | Sym_sub
  | Sym_castint | Sym_caststring | Sym_if | Sym_begin
  | Sym_client cstring

text \<open>The table \<^verbatim>\<open>symbols[]\<close>: names, functions, and whether they take unevaluated terms.\<close>

definition sexp_symbols :: "(cstring \<times> sexp_symbol \<times> bool) list" where
  "sexp_symbols =
     [(bytes ''and'', Sym_and, True), (bytes ''or'', Sym_or, True), (bytes ''not'', Sym_not, False),
      (bytes ''<'', Sym_lt, True), (bytes ''>'', Sym_gt, True), (bytes ''='', Sym_eq, True),
      (bytes ''+'', Sym_plus, False), (bytes ''-'', Sym_sub, False),
      (bytes ''cast-int'', Sym_castint, False), (bytes ''cast-string'', Sym_caststring, False),
      (bytes ''if'', Sym_if, True), (bytes ''begin'', Sym_begin, True)]"

text \<open>\<^verbatim>\<open>sym->name\<close>.\<close>

definition sym_name :: "sexp_symbol \<Rightarrow> cstring" where
  "sym_name symb = (case symb of
       Sym_client name \<Rightarrow> name
     | _ \<Rightarrow> fst (hd (filter (\<lambda>(n, s, b). s = symb) sexp_symbols)))"

datatype CamelSExpTerm =
    TERM_INT gint
  | TERM_BOOL gint
  | TERM_STRING cstring
  | TERM_TIME time_t
  | TERM_FUNC sexp_symbol "CamelSExpTerm list"
  | TERM_IFUNC sexp_symbol "CamelSExpTerm list"
  | TERM_VAR cstring

datatype sexp_value =
    RES_ARRAY_PTR "cstring list"
  | RES_INT gint
  | RES_STRING cstring
  | RES_BOOL gint
  | RES_TIME time_t
  | RES_UNDEFINED

datatype CamelSExpResultType =
  ARRAY_PTR_TYPE | INT_TYPE | STRING_TYPE | BOOL_TYPE | TIME_TYPE | UNDEFINED_TYPE

fun res_type :: "sexp_value \<Rightarrow> CamelSExpResultType" where
  "res_type (RES_ARRAY_PTR a) = ARRAY_PTR_TYPE"
| "res_type (RES_INT n) = INT_TYPE"
| "res_type (RES_STRING s) = STRING_TYPE"
| "res_type (RES_BOOL b) = BOOL_TYPE"
| "res_type (RES_TIME t) = TIME_TYPE"
| "res_type RES_UNDEFINED = UNDEFINED_TYPE"

text \<open>C truth values.\<close>

definition gbool :: "bool \<Rightarrow> gint" where "gbool b = (if b then 1 else 0)"

section \<open>C library: comparing, reading and printing\<close>

text \<open>The order of \<^verbatim>\<open>strcmp\<close>, on unsigned bytes.\<close>

fun strcmp :: "cstring \<Rightarrow> cstring \<Rightarrow> int" where
  "strcmp [] [] = 0"
| "strcmp [] (b # bs) = -1"
| "strcmp (a # as) [] = 1"
| "strcmp (a # as) (b # bs) = (if a < b then -1 else if b < a then 1 else strcmp as bs)"

definition digit :: "byte \<Rightarrow> bool" where "digit c \<longleftrightarrow> 48 \<le> c \<and> c \<le> 57"

definition digits_value :: "cstring \<Rightarrow> nat" where
  "digits_value ds = foldl (\<lambda>n d. n * 10 + unat (d - 48)) 0 ds"

text \<open>\<^verbatim>\<open>strtoul (s, NULL, 10)\<close> on a 64-bit \<^verbatim>\<open>unsigned long\<close>: white space, a sign, digits; too large
  numbers give \<^verbatim>\<open>ULONG_MAX\<close>, a minus sign negates.\<close>

definition strtoul :: "cstring \<Rightarrow> 64 word" where
  "strtoul s =
     (let s = dropWhile isspace s;
          (neg, s) = (case s of [] \<Rightarrow> (False, s)
            | c # r \<Rightarrow> if c = 0x2d then (True, r) else if c = 0x2b then (False, r) else (False, s));
          n = digits_value (takeWhile digit s)
      in if n > 2 ^ 64 - 1 then - 1
         else if neg then - word_of_nat n else word_of_nat n)"

text \<open>\<^verbatim>\<open>printf\<close>'s \<^verbatim>\<open>%d\<close>.\<close>

function dec_digits :: "nat \<Rightarrow> cstring" where
  "dec_digits n = (if n < 10 then [word_of_nat (48 + n)]
     else dec_digits (n div 10) @ [word_of_nat (48 + n mod 10)])"
  by pat_completeness auto
termination by (relation "measure id") auto

declare dec_digits.simps [simp del]

definition printf_d :: "gint \<Rightarrow> cstring" where
  "printf_d i = (if sint i < 0 then 0x2d # dec_digits (nat (- sint i)) else dec_digits (nat (sint i)))"

section \<open>The hash table of \<^verbatim>\<open>and\<close> and \<^verbatim>\<open>or\<close>\<close>

text \<open>A table from strings to numbers, as the list of its entries.\<close>

type_synonym sexp_ht = "(cstring \<times> nat) list"

fun ht_insert :: "sexp_ht \<Rightarrow> cstring \<Rightarrow> nat \<Rightarrow> sexp_ht" where
  "ht_insert [] k n = [(k, n)]"
| "ht_insert ((k', n') # ht) k n = (if k' = k then (k, n) # ht else (k', n') # ht_insert ht k n)"

definition ht_lookup :: "sexp_ht \<Rightarrow> cstring \<Rightarrow> nat" where
  "ht_lookup ht k = (case map_of ht k of None \<Rightarrow> 0 | Some n \<Rightarrow> n)"

text \<open>The loop of \<^verbatim>\<open>term_eval_and\<close> over one array, and that of \<^verbatim>\<open>term_eval_or\<close>.\<close>

fun ht_count :: "sexp_ht \<Rightarrow> cstring list \<Rightarrow> sexp_ht" where
  "ht_count ht [] = ht"
| "ht_count ht (a # as) = ht_count (ht_insert ht a (ht_lookup ht a + 1)) as"

fun ht_add :: "sexp_ht \<Rightarrow> cstring list \<Rightarrow> sexp_ht" where
  "ht_add ht [] = ht"
| "ht_add ht (a # as) = ht_add (ht_insert ht a 1) as"

text \<open>\<^verbatim>\<open>htand\<close> and \<^verbatim>\<open>htor\<close>, called on every entry.\<close>

definition htand :: "nat \<Rightarrow> sexp_ht \<Rightarrow> cstring list" where
  "htand cnt ht = map fst (filter (\<lambda>(key, n). n = cnt) ht)"

definition htor :: "sexp_ht \<Rightarrow> cstring list" where
  "htor ht = map fst ht"

section \<open>Functions on values\<close>

type_synonym sexp_error = string

definition term_eval_not :: "sexp_value list \<Rightarrow> sexp_error + sexp_value" where
  "term_eval_not argv =
     (let res = (case argv of
          RES_BOOL b # _ \<Rightarrow> if b \<noteq> 0 then 0 else 1
        | _ \<Rightarrow> 1)
      in Inr (RES_BOOL res))"

text \<open>The comparisons, after their two arguments are evaluated.\<close>

definition compare_lt :: "sexp_value \<Rightarrow> sexp_value \<Rightarrow> sexp_error + sexp_value" where
  "compare_lt r1 r2 =
     (if res_type r1 \<noteq> res_type r2 then Inl ''Incompatible types in compare <''
      else (case (r1, r2) of
         (RES_INT a, RES_INT b) \<Rightarrow> Inr (RES_BOOL (gbool (a <s b)))
       | (RES_TIME a, RES_TIME b) \<Rightarrow> Inr (RES_BOOL (gbool (a <s b)))
       | (RES_STRING a, RES_STRING b) \<Rightarrow> Inr (RES_BOOL (gbool (strcmp a b < 0)))
       | _ \<Rightarrow> Inr RES_UNDEFINED))"

definition compare_gt :: "sexp_value \<Rightarrow> sexp_value \<Rightarrow> sexp_error + sexp_value" where
  "compare_gt r1 r2 =
     (if res_type r1 \<noteq> res_type r2 then Inl ''Incompatible types in compare >''
      else (case (r1, r2) of
         (RES_INT a, RES_INT b) \<Rightarrow> Inr (RES_BOOL (gbool (b <s a)))
       | (RES_TIME a, RES_TIME b) \<Rightarrow> Inr (RES_BOOL (gbool (b <s a)))
       | (RES_STRING a, RES_STRING b) \<Rightarrow> Inr (RES_BOOL (gbool (strcmp a b > 0)))
       | _ \<Rightarrow> Inr RES_UNDEFINED))"

definition compare_eq :: "sexp_value \<Rightarrow> sexp_value \<Rightarrow> sexp_error + sexp_value" where
  "compare_eq r1 r2 =
     (case (r1, r2) of
        (RES_INT a, RES_INT b) \<Rightarrow> Inr (RES_BOOL (gbool (a = b)))
      | (RES_BOOL a, RES_BOOL b) \<Rightarrow> Inr (RES_BOOL (gbool (a = b)))
      | (RES_TIME a, RES_TIME b) \<Rightarrow> Inr (RES_BOOL (gbool (a = b)))
      | (RES_STRING a, RES_STRING b) \<Rightarrow> Inr (RES_BOOL (gbool (strcmp a b = 0)))
      | _ \<Rightarrow> Inr (RES_BOOL 0))"

text \<open>The summing loops; \<open>None\<close> is leaving the loop before the last argument.\<close>

fun plus_ints :: "gint \<Rightarrow> sexp_value list \<Rightarrow> gint option" where
  "plus_ints tot [] = Some tot"
| "plus_ints tot (RES_INT n # argv) = plus_ints (tot + n) argv"
| "plus_ints tot (RES_TIME t # argv) = plus_ints (tot + ucast t) argv"
| "plus_ints tot (_ # argv) = None"

fun plus_times :: "time_t \<Rightarrow> sexp_value list \<Rightarrow> time_t option" where
  "plus_times tot [] = Some tot"
| "plus_times tot (RES_TIME t # argv) = plus_times (tot + t) argv"
| "plus_times tot (RES_INT n # argv) = plus_times (tot + scast n) argv"
| "plus_times tot (_ # argv) = None"

fun plus_strings :: "cstring \<Rightarrow> sexp_value list \<Rightarrow> cstring option" where
  "plus_strings s [] = Some s"
| "plus_strings s (RES_STRING t # argv) = plus_strings (s @ t) argv"
| "plus_strings s (_ # argv) = None"

definition term_eval_plus :: "sexp_value list \<Rightarrow> sexp_error + sexp_value" where
  "term_eval_plus argv =
     (case argv of
        RES_INT n # rest \<Rightarrow>
          (case plus_ints n rest of
             Some tot \<Rightarrow> Inr (RES_INT tot) | None \<Rightarrow> Inl ''Invalid types in (+ ints)'')
      | RES_STRING s # rest \<Rightarrow>
          (case plus_strings s rest of
             Some tot \<Rightarrow> Inr (RES_STRING tot) | None \<Rightarrow> Inl ''Invalid types in (+ strings)'')
      | RES_TIME t # rest \<Rightarrow>
          (case plus_times t rest of
             Some tot \<Rightarrow> Inr (RES_TIME tot) | None \<Rightarrow> Inl ''Invalid types in (+ time_t)'')
      | _ \<Rightarrow> Inr (RES_INT 0))"

text \<open>The loop of the integer subtraction has no way out: arguments of other types are passed over.\<close>

fun sub_ints :: "gint \<Rightarrow> sexp_value list \<Rightarrow> gint" where
  "sub_ints tot [] = tot"
| "sub_ints tot (RES_INT n # argv) = sub_ints (tot - n) argv"
| "sub_ints tot (RES_TIME t # argv) = sub_ints (tot - ucast t) argv"
| "sub_ints tot (_ # argv) = sub_ints tot argv"

fun sub_times :: "time_t \<Rightarrow> sexp_value list \<Rightarrow> time_t option" where
  "sub_times tot [] = Some tot"
| "sub_times tot (RES_TIME t # argv) = sub_times (tot - t) argv"
| "sub_times tot (RES_INT n # argv) = sub_times (tot - scast n) argv"
| "sub_times tot (_ # argv) = None"

definition term_eval_sub :: "sexp_value list \<Rightarrow> sexp_error + sexp_value" where
  "term_eval_sub argv =
     (case argv of
        RES_INT n # rest \<Rightarrow> Inr (RES_INT (sub_ints n rest))
      | RES_TIME t # rest \<Rightarrow>
          (case sub_times t rest of
             Some tot \<Rightarrow> Inr (RES_TIME tot) | None \<Rightarrow> Inl ''Invalid types in (- time_t)'')
      | _ \<Rightarrow> Inr (RES_INT 0))"

definition term_eval_castint :: "sexp_value list \<Rightarrow> sexp_error + sexp_value" where
  "term_eval_castint argv =
     (case argv of
        [v] \<Rightarrow> (case v of
            RES_INT n \<Rightarrow> Inr (RES_INT n)
          | RES_BOOL b \<Rightarrow> Inr (RES_INT (gbool (b \<noteq> 0)))
          | RES_STRING s \<Rightarrow> Inr (RES_INT (ucast (strtoul s)))
          | _ \<Rightarrow> Inl ''Invalid type in (cast-int )'')
      | _ \<Rightarrow> Inl ''Incorrect argument count to (gint )'')"

definition term_eval_caststring :: "sexp_value list \<Rightarrow> sexp_error + sexp_value" where
  "term_eval_caststring argv =
     (case argv of
        [v] \<Rightarrow> (case v of
            RES_INT n \<Rightarrow> Inr (RES_STRING (printf_d n))
          | RES_BOOL b \<Rightarrow> Inr (RES_STRING (printf_d (gbool (b \<noteq> 0))))
          | RES_STRING s \<Rightarrow> Inr (RES_STRING s)
          | _ \<Rightarrow> Inl ''Invalid type in (gint )'')
      | _ \<Rightarrow> Inl ''Incorrect argument count to (cast-string )'')"

section \<open>Evaluation of terms\<close>

text \<open>What a client supplies.\<close>

record sexp_env =
  cfunc :: "cstring \<Rightarrow> sexp_value list \<Rightarrow> sexp_error + sexp_value"
  cifunc :: "cstring \<Rightarrow> CamelSExpTerm list \<Rightarrow> sexp_error + sexp_value"
  ht_order :: "sexp_ht \<Rightarrow> sexp_ht"

text \<open>A \<^verbatim>\<open>FUNC\<close> symbol is called on the values of its arguments.\<close>

definition call_func :: "sexp_env \<Rightarrow> sexp_symbol \<Rightarrow> sexp_value list \<Rightarrow> sexp_error + sexp_value" where
  "call_func env symb argv = (case symb of
       Sym_not \<Rightarrow> term_eval_not argv
     | Sym_plus \<Rightarrow> term_eval_plus argv
     | Sym_sub \<Rightarrow> term_eval_sub argv
     | Sym_castint \<Rightarrow> term_eval_castint argv
     | Sym_caststring \<Rightarrow> term_eval_caststring argv
     | Sym_client name \<Rightarrow> cfunc env name argv
     | _ \<Rightarrow> Inr RES_UNDEFINED)"

text \<open>The results of the two loops.\<close>

definition and_result ::
    "sexp_env \<Rightarrow> nat \<Rightarrow> CamelSExpResultType option \<Rightarrow> gint \<Rightarrow> sexp_ht \<Rightarrow> sexp_value" where
  "and_result env argc ty v ht =
     (if ty = Some ARRAY_PTR_TYPE then RES_ARRAY_PTR (htand argc (ht_order env ht))
      else if ty = Some BOOL_TYPE then RES_BOOL v
      else RES_UNDEFINED)"

definition or_result :: "sexp_env \<Rightarrow> CamelSExpResultType option \<Rightarrow> gint \<Rightarrow> sexp_ht \<Rightarrow> sexp_value" where
  "or_result env ty v ht =
     (if ty = Some ARRAY_PTR_TYPE then RES_ARRAY_PTR (htor (ht_order env ht))
      else if ty = Some BOOL_TYPE then RES_BOOL v
      else RES_UNDEFINED)"

text \<open>
  The loops and the immediate functions consult the outcomes of their arguments' evaluations one by
  one, and stop where the code stops: an outcome that is not consulted, be it an error, has no
  influence. Evaluation has no side effects on the expression, so this is the code's short-circuit
  evaluation.
\<close>

type_synonym sexp_outcome = "sexp_error + sexp_value"

fun eval_args :: "sexp_outcome list \<Rightarrow> sexp_error + sexp_value list" where
  "eval_args [] = Inr []"
| "eval_args (r # rs) =
     (case r of
        Inl e \<Rightarrow> Inl e
      | Inr v \<Rightarrow> (case eval_args rs of Inl e \<Rightarrow> Inl e | Inr vs \<Rightarrow> Inr (v # vs)))"

primrec and_loop :: "sexp_outcome list \<Rightarrow> CamelSExpResultType option \<Rightarrow> gint \<Rightarrow> sexp_ht \<Rightarrow>
    sexp_error + (CamelSExpResultType option \<times> gint \<times> sexp_ht)" where
  "and_loop [] ty v ht = Inr (ty, v, ht)"
| "and_loop (r # rs) ty v ht =
     (if v = 0 then Inr (ty, v, ht)
      else (case r of
         Inl e \<Rightarrow> Inl e
       | Inr r1 \<Rightarrow>
           (let ty = (if ty = None then Some (res_type r1) else ty) in
            if ty \<noteq> Some (res_type r1) then Inl ''Invalid types in AND''
            else (case r1 of
               RES_ARRAY_PTR a \<Rightarrow> and_loop rs ty v (ht_count ht a)
             | RES_BOOL b \<Rightarrow> and_loop rs ty (gbool (v \<noteq> 0 \<and> b \<noteq> 0)) ht
             | _ \<Rightarrow> and_loop rs ty v ht))))"

primrec or_loop :: "sexp_outcome list \<Rightarrow> CamelSExpResultType option \<Rightarrow> gint \<Rightarrow> sexp_ht \<Rightarrow>
    sexp_error + (CamelSExpResultType option \<times> gint \<times> sexp_ht)" where
  "or_loop [] ty v ht = Inr (ty, v, ht)"
| "or_loop (r # rs) ty v ht =
     (if v \<noteq> 0 then Inr (ty, v, ht)
      else (case r of
         Inl e \<Rightarrow> Inl e
       | Inr r1 \<Rightarrow>
           (let ty = (if ty = None then Some (res_type r1) else ty) in
            if ty \<noteq> Some (res_type r1) then Inl ''Invalid types in OR''
            else (case r1 of
               RES_ARRAY_PTR a \<Rightarrow> or_loop rs ty v (ht_add ht a)
             | RES_BOOL b \<Rightarrow> or_loop rs ty (v OR b) ht
             | _ \<Rightarrow> or_loop rs ty v ht))))"

definition term_eval_and :: "sexp_env \<Rightarrow> sexp_outcome list \<Rightarrow> sexp_outcome" where
  "term_eval_and env args =
     (case and_loop args None 1 [] of
        Inl e \<Rightarrow> Inl e
      | Inr (ty, v, ht) \<Rightarrow> Inr (and_result env (length args) ty v ht))"

definition term_eval_or :: "sexp_env \<Rightarrow> sexp_outcome list \<Rightarrow> sexp_outcome" where
  "term_eval_or env args =
     (case or_loop args None 0 [] of
        Inl e \<Rightarrow> Inl e
      | Inr (ty, v, ht) \<Rightarrow> Inr (or_result env ty v ht))"

text \<open>\<^verbatim>\<open>term_eval_lt\<close>, \<^verbatim>\<open>_gt\<close> and \<^verbatim>\<open>_eq\<close>: both arguments are evaluated; \<open>other\<close> is the result for
  any other number of arguments.\<close>

definition eval_compare ::
    "(sexp_value \<Rightarrow> sexp_value \<Rightarrow> sexp_outcome) \<Rightarrow> sexp_value \<Rightarrow> sexp_outcome list \<Rightarrow> sexp_outcome" where
  "eval_compare cmp other args =
     (if length args = 2 then
        (case eval_args args of Inl e \<Rightarrow> Inl e | Inr argv \<Rightarrow> cmp (argv ! 0) (argv ! 1))
      else Inr other)"

definition term_eval_lt :: "sexp_outcome list \<Rightarrow> sexp_outcome" where
  "term_eval_lt = eval_compare compare_lt RES_UNDEFINED"

definition term_eval_gt :: "sexp_outcome list \<Rightarrow> sexp_outcome" where
  "term_eval_gt = eval_compare compare_gt RES_UNDEFINED"

definition term_eval_eq :: "sexp_outcome list \<Rightarrow> sexp_outcome" where
  "term_eval_eq = eval_compare compare_eq (RES_BOOL 0)"

definition term_eval_if :: "sexp_outcome list \<Rightarrow> sexp_outcome" where
  "term_eval_if args =
     (if length args \<ge> 2 \<and> length args \<le> 3 then
        (case args ! 0 of
           Inl e \<Rightarrow> Inl e
         | Inr r \<Rightarrow>
             (let doit = (case r of RES_BOOL b \<Rightarrow> b \<noteq> 0 | _ \<Rightarrow> False)
              in if doit then args ! 1
                 else if length args > 2 then args ! 2
                 else Inr RES_UNDEFINED))
      else Inr RES_UNDEFINED)"

fun begin_loop :: "sexp_outcome list \<Rightarrow> sexp_value \<Rightarrow> sexp_outcome" where
  "begin_loop [] result = Inr result"
| "begin_loop (r # rs) result = (case r of Inl e \<Rightarrow> Inl e | Inr v \<Rightarrow> begin_loop rs v)"

definition term_eval_begin :: "sexp_outcome list \<Rightarrow> sexp_outcome" where
  "term_eval_begin args = begin_loop args RES_UNDEFINED"

text \<open>An \<^verbatim>\<open>IFUNC\<close> symbol is called on its terms; \<open>args\<close> are their outcomes.\<close>

definition call_ifunc ::
    "sexp_env \<Rightarrow> sexp_symbol \<Rightarrow> CamelSExpTerm list \<Rightarrow> sexp_outcome list \<Rightarrow> sexp_outcome" where
  "call_ifunc env symb terms args = (case symb of
       Sym_and \<Rightarrow> term_eval_and env args
     | Sym_or \<Rightarrow> term_eval_or env args
     | Sym_lt \<Rightarrow> term_eval_lt args
     | Sym_gt \<Rightarrow> term_eval_gt args
     | Sym_eq \<Rightarrow> term_eval_eq args
     | Sym_if \<Rightarrow> term_eval_if args
     | Sym_begin \<Rightarrow> term_eval_begin args
     | Sym_client name \<Rightarrow> cifunc env name terms
     | _ \<Rightarrow> Inr RES_UNDEFINED)"

fun camel_sexp_term_eval :: "sexp_env \<Rightarrow> CamelSExpTerm \<Rightarrow> sexp_outcome" where
  "camel_sexp_term_eval env (TERM_STRING s) = Inr (RES_STRING s)"
| "camel_sexp_term_eval env (TERM_INT n) = Inr (RES_INT n)"
| "camel_sexp_term_eval env (TERM_BOOL b) = Inr (RES_BOOL b)"
| "camel_sexp_term_eval env (TERM_TIME t) = Inr (RES_TIME t)"
| "camel_sexp_term_eval env (TERM_VAR v) = Inl ''Unknown type in parse tree''"
| "camel_sexp_term_eval env (TERM_FUNC symb terms) =
     (case eval_args (map (camel_sexp_term_eval env) terms) of
        Inl e \<Rightarrow> Inl e
      | Inr argv \<Rightarrow> call_func env symb argv)"
| "camel_sexp_term_eval env (TERM_IFUNC symb terms) =
     call_ifunc env symb terms (map (camel_sexp_term_eval env) terms)"

section \<open>The time window of an expression\<close>

text \<open>A result with the window in which the objects that satisfy the expression occur.\<close>

record occur_result =
  ovalue :: sexp_value
  time_generator :: bool
  occuring_start :: time_t
  occuring_end :: time_t

text \<open>\<^verbatim>\<open>camel_sexp_result_new\<close>; \<^verbatim>\<open>_TIME_MAX\<close> is \<^verbatim>\<open>(time_t) INT_MAX\<close>.\<close>

definition TIME_MAX :: time_t where "TIME_MAX = 0x7fffffff"

definition camel_sexp_result_new :: "sexp_value \<Rightarrow> occur_result" where
  "camel_sexp_result_new v =
     \<lparr>ovalue = v, time_generator = False, occuring_start = 0, occuring_end = TIME_MAX\<rparr>"

text \<open>Generators; \<open>None\<close> is their \<^verbatim>\<open>FALSE\<close>.\<close>

definition occur_in_time_range_generator :: "occur_result list \<Rightarrow> occur_result \<Rightarrow> occur_result option" where
  "occur_in_time_range_generator argv result =
     (if \<not> (length argv = 2 \<or> length argv = 3) then None
      else (case (ovalue (argv ! 0), ovalue (argv ! 1)) of
         (RES_TIME a, RES_TIME b) \<Rightarrow> Some (result\<lparr>occuring_start := a, occuring_end := b\<rparr>)
       | _ \<Rightarrow> None))"

definition binary_generator :: "occur_result list \<Rightarrow> occur_result \<Rightarrow> occur_result option" where
  "binary_generator argv result =
     (if length argv \<noteq> 2 then None
      else (case (ovalue (argv ! 0), ovalue (argv ! 1)) of
         (RES_TIME a, RES_TIME b) \<Rightarrow> Some (result\<lparr>occuring_start := a, occuring_end := b\<rparr>)
       | _ \<Rightarrow> None))"

definition unary_generator :: "occur_result list \<Rightarrow> occur_result \<Rightarrow> occur_result option" where
  "unary_generator argv result =
     (if length argv \<noteq> 1 then None
      else (case ovalue (argv ! 0) of
         RES_TIME a \<Rightarrow> Some (result\<lparr>occuring_start := 0, occuring_end := a\<rparr>)
       | _ \<Rightarrow> None))"

definition smin :: "time_t \<Rightarrow> time_t \<Rightarrow> time_t" where "smin a b = (if a <s b then a else b)"
definition smax :: "time_t \<Rightarrow> time_t \<Rightarrow> time_t" where "smax a b = (if b <s a then a else b)"

definition or_operator :: "occur_result list \<Rightarrow> occur_result \<Rightarrow> occur_result option" where
  "or_operator argv result =
     (if argv = [] then None
      else
        (let result = result\<lparr>time_generator := (\<forall>a\<in>set argv. time_generator a)\<rparr> in
         if time_generator result then
           Some (result\<lparr>occuring_start := foldl (\<lambda>s a. smin s (occuring_start a))
                   (occuring_start (hd argv)) (tl argv),
                 occuring_end := foldl (\<lambda>e a. smax e (occuring_end a))
                   (occuring_end (hd argv)) (tl argv)\<rparr>)
         else Some result))"

definition and_operator :: "occur_result list \<Rightarrow> occur_result \<Rightarrow> occur_result option" where
  "and_operator argv result =
     (if argv = [] then None
      else
        (let result = result\<lparr>time_generator := (\<exists>a\<in>set argv. time_generator a)\<rparr> in
         if time_generator result then
           Some (result\<lparr>occuring_start := foldl (\<lambda>s a. smax s (occuring_start a))
                   (occuring_start (hd argv)) (tl argv),
                 occuring_end := foldl (\<lambda>e a. smin e (occuring_end a))
                   (occuring_end (hd argv)) (tl argv)\<rparr>)
         else Some result))"

definition time_functions :: "cstring list" where
  "time_functions = map (map of_char) [''time-now'', ''make-time'', ''time-add-day'', ''time-day-begin'', ''time-day-end'']"

definition is_time_function :: "cstring \<Rightarrow> bool" where
  "is_time_function fname \<longleftrightarrow> fname \<in> set time_functions"

definition get_generator_function ::
    "cstring \<Rightarrow> (occur_result list \<Rightarrow> occur_result \<Rightarrow> occur_result option) option" where
  "get_generator_function fname =
     (if fname = bytes ''occur-in-time-range?'' then Some occur_in_time_range_generator
      else if fname = bytes ''due-in-time-range?'' then Some binary_generator
      else if fname = bytes ''has-alarms-in-range?'' then Some binary_generator
      else if fname = bytes ''completed-before?'' then Some unary_generator
      else None)"

definition get_operator_function ::
    "cstring \<Rightarrow> (occur_result list \<Rightarrow> occur_result \<Rightarrow> occur_result option) option" where
  "get_operator_function fname =
     (if fname = bytes ''or'' then Some or_operator
      else if fname = bytes ''and'' then Some and_operator
      else None)"

text \<open>The call for a function symbol on its arguments' results; \<open>Inl\<close> is the error in the parse tree
  or that of a time function, which the client supplies (as a \<^verbatim>\<open>FUNC\<close> symbol).\<close>

definition occur_func ::
    "sexp_env \<Rightarrow> sexp_symbol \<Rightarrow> occur_result list \<Rightarrow> sexp_error + occur_result" where
  "occur_func env symb argv =
     (let fname = sym_name symb; result = camel_sexp_result_new RES_UNDEFINED in
      if is_time_function fname then
        (case call_func env symb (map ovalue argv) of
           Inl e \<Rightarrow> Inl e | Inr v \<Rightarrow> Inr (camel_sexp_result_new v))
      else
        (case get_generator_function fname of
           Some generator \<Rightarrow>
             (case generator argv (result\<lparr>time_generator := True\<rparr>) of
                None \<Rightarrow> Inl ''Error in parse tree'' | Some r \<Rightarrow> Inr r)
         | None \<Rightarrow>
             (case get_operator_function fname of
                Some operator \<Rightarrow>
                  (case operator argv result of
                     None \<Rightarrow> Inl ''Error in parse tree'' | Some r \<Rightarrow> Inr r)
              | None \<Rightarrow> Inr (result\<lparr>time_generator := False\<rparr>))))"

fun occur_args :: "(sexp_error + occur_result) list \<Rightarrow> sexp_error + occur_result list" where
  "occur_args [] = Inr []"
| "occur_args (r # rs) =
     (case r of
        Inl e \<Rightarrow> Inl e
      | Inr v \<Rightarrow> (case occur_args rs of Inl e \<Rightarrow> Inl e | Inr vs \<Rightarrow> Inr (v # vs)))"

fun camel_sexp_term_evaluate_occur_times :: "sexp_env \<Rightarrow> CamelSExpTerm \<Rightarrow> sexp_error + occur_result" where
  "camel_sexp_term_evaluate_occur_times env (TERM_STRING s) = Inr (camel_sexp_result_new (RES_STRING s))"
| "camel_sexp_term_evaluate_occur_times env (TERM_IFUNC symb terms) =
     (case occur_args (map (camel_sexp_term_evaluate_occur_times env) terms) of
        Inl e \<Rightarrow> Inl e
      | Inr argv \<Rightarrow> occur_func env symb argv)"
| "camel_sexp_term_evaluate_occur_times env (TERM_FUNC symb terms) =
     (case occur_args (map (camel_sexp_term_evaluate_occur_times env) terms) of
        Inl e \<Rightarrow> Inl e
      | Inr argv \<Rightarrow> occur_func env symb argv)"
| "camel_sexp_term_evaluate_occur_times env (TERM_INT n) = Inr (camel_sexp_result_new RES_UNDEFINED)"
| "camel_sexp_term_evaluate_occur_times env (TERM_BOOL b) = Inr (camel_sexp_result_new RES_UNDEFINED)"
| "camel_sexp_term_evaluate_occur_times env (TERM_TIME t) = Inr (camel_sexp_result_new RES_UNDEFINED)"
| "camel_sexp_term_evaluate_occur_times env (TERM_VAR v) = Inl ''Error in parse tree''"

text \<open>\<^verbatim>\<open>camel_sexp_evaluate_occur_times\<close>: the window, or \<open>None\<close> when every object has to be looked at.\<close>

definition camel_sexp_evaluate_occur_times :: "sexp_env \<Rightarrow> CamelSExpTerm \<Rightarrow> (time_t \<times> time_t) option" where
  "camel_sexp_evaluate_occur_times env tree =
     (case camel_sexp_term_evaluate_occur_times env tree of
        Inl e \<Rightarrow> None
      | Inr result \<Rightarrow>
          if time_generator result then Some (occuring_start result, occuring_end result) else None)"

text \<open>\<^verbatim>\<open>camel_sexp_eval\<close>: a fatal error gives \<^verbatim>\<open>NULL\<close>.\<close>

definition camel_sexp_eval :: "sexp_env \<Rightarrow> CamelSExpTerm \<Rightarrow> sexp_value option" where
  "camel_sexp_eval env tree =
     (case camel_sexp_term_eval env tree of Inl e \<Rightarrow> None | Inr r \<Rightarrow> Some r)"

end
