(* ===== verification/Camel_SexpProps.thy ===== *)
theory Camel_SexpProps
  imports Camel_Sexp
begin

text \<open>
  What the evaluator of \<^verbatim>\<open>camel-sexp.c\<close> computes: truth values, sets of message uids, conversions,
  and the time window of a calendar query.
\<close>

section \<open>Formulas\<close>

text \<open>The boolean expressions over terms that are not themselves \<^verbatim>\<open>and\<close>, \<^verbatim>\<open>or\<close> or \<^verbatim>\<open>not\<close>.\<close>

datatype formula =
    F_atom CamelSExpTerm
  | F_and "formula list"
  | F_or "formula list"
  | F_not formula

fun formula_term :: "formula \<Rightarrow> CamelSExpTerm" where
  "formula_term (F_atom t) = t"
| "formula_term (F_and fs) = TERM_IFUNC Sym_and (map formula_term fs)"
| "formula_term (F_or fs) = TERM_IFUNC Sym_or (map formula_term fs)"
| "formula_term (F_not f) = TERM_FUNC Sym_not [formula_term f]"

fun formula_holds :: "(CamelSExpTerm \<Rightarrow> bool) \<Rightarrow> formula \<Rightarrow> bool" where
  "formula_holds val (F_atom t) = val t"
| "formula_holds val (F_and fs) = list_all (formula_holds val) fs"
| "formula_holds val (F_or fs) = list_ex (formula_holds val) fs"
| "formula_holds val (F_not f) = (\<not> formula_holds val f)"

fun formula_atoms :: "formula \<Rightarrow> CamelSExpTerm list" where
  "formula_atoms (F_atom t) = [t]"
| "formula_atoms (F_and fs) = concat (map formula_atoms fs)"
| "formula_atoms (F_or fs) = concat (map formula_atoms fs)"
| "formula_atoms (F_not f) = formula_atoms f"

text \<open>\<^verbatim>\<open>and\<close> and \<^verbatim>\<open>or\<close> of nothing have no type, so they are left out.\<close>

fun no_empty :: "formula \<Rightarrow> bool" where
  "no_empty (F_atom t) = True"
| "no_empty (F_and fs) = (fs \<noteq> [] \<and> list_all no_empty fs)"
| "no_empty (F_or fs) = (fs \<noteq> [] \<and> list_all no_empty fs)"
| "no_empty (F_not f) = no_empty f"

text \<open>An outcome is a truth value.\<close>

definition is_truth :: "sexp_outcome \<Rightarrow> bool \<Rightarrow> bool" where
  "is_truth r b \<longleftrightarrow> (\<exists>v. r = Inr (RES_BOOL v) \<and> (v \<noteq> 0) = b)"

lemma and_loop_truth:
  assumes "list_all2 is_truth rs bs" and "ty = None \<or> ty = Some BOOL_TYPE"
  shows "\<exists>ty' v'. and_loop rs ty v ht = Inr (ty', v', ht) \<and>
    (v' \<noteq> 0 \<longleftrightarrow> v \<noteq> 0 \<and> list_all id bs) \<and> (ty' = ty \<or> ty' = Some BOOL_TYPE) \<and>
    (rs \<noteq> [] \<and> v \<noteq> 0 \<longrightarrow> ty' = Some BOOL_TYPE)"
  using assms
proof (induction rs bs arbitrary: ty v rule: list_all2_induct)
  case Nil
  show ?case by simp
next
  case (Cons r rs b bs)
  then obtain w where w: "r = Inr (RES_BOOL w)" "(w \<noteq> 0) = b" by (auto simp: is_truth_def)
  show ?case
  proof (cases "v = 0")
    case True
    then show ?thesis by simp
  next
    case False
    from Cons.prems have "ty = None \<or> ty = Some BOOL_TYPE" .
    with Cons.IH [of "Some BOOL_TYPE" "gbool (v \<noteq> 0 \<and> w \<noteq> 0)"] False w show ?thesis
      by (elim disjE) (auto simp: gbool_def)
  qed
qed

lemma or_nonzero: "(v :: gint) OR w \<noteq> 0 \<longleftrightarrow> v \<noteq> 0 \<or> w \<noteq> 0"
  by (simp add: or_eq_0_iff)

lemma or_loop_truth:
  assumes "list_all2 is_truth rs bs" and "ty = None \<or> ty = Some BOOL_TYPE"
  shows "\<exists>ty' v'. or_loop rs ty v ht = Inr (ty', v', ht) \<and>
    (v' \<noteq> 0 \<longleftrightarrow> v \<noteq> 0 \<or> list_ex id bs) \<and> (ty' = ty \<or> ty' = Some BOOL_TYPE) \<and>
    (rs \<noteq> [] \<and> v = 0 \<longrightarrow> ty' = Some BOOL_TYPE)"
  using assms
proof (induction rs bs arbitrary: ty v rule: list_all2_induct)
  case Nil
  show ?case by simp
next
  case (Cons r rs b bs)
  then obtain w where w: "r = Inr (RES_BOOL w)" "(w \<noteq> 0) = b" by (auto simp: is_truth_def)
  show ?case
  proof (cases "v = 0")
    case False
    then show ?thesis by simp
  next
    case True
    from Cons.prems have "ty = None \<or> ty = Some BOOL_TYPE" .
    with Cons.IH [of "Some BOOL_TYPE" w] True w show ?thesis
      by (elim disjE) auto
  qed
qed

lemma formula_truth:
  "no_empty f \<Longrightarrow> \<forall>t\<in>set (formula_atoms f). is_truth (camel_sexp_term_eval env t) (val t) \<Longrightarrow>
     is_truth (camel_sexp_term_eval env (formula_term f)) (formula_holds val f)"
proof (induction f)
  case (F_atom t)
  then show ?case by simp
next
  case (F_and fs)
  then have "list_all2 is_truth (map (camel_sexp_term_eval env \<circ> formula_term) fs) (map (formula_holds val) fs)"
    by (auto simp: list_all2_conv_all_nth list_all_length)
  from and_loop_truth [OF this, of None 1 "[]"] F_and.prems(1) show ?case
    by (auto simp: call_ifunc_def term_eval_and_def and_result_def is_truth_def o_def list_all_iff)
next
  case (F_or fs)
  then have "list_all2 is_truth (map (camel_sexp_term_eval env \<circ> formula_term) fs) (map (formula_holds val) fs)"
    by (auto simp: list_all2_conv_all_nth list_all_length)
  from or_loop_truth [OF this, of None 0 "[]"] F_or.prems(1) show ?case
    by (auto simp: call_ifunc_def term_eval_or_def or_result_def is_truth_def o_def list_ex_iff)
next
  case (F_not f)
  then show ?case
    by (auto simp: call_func_def term_eval_not_def is_truth_def)
qed

section \<open>Sets of uids\<close>

lemma ht_lookup_insert: "ht_lookup (ht_insert ht k n) k' = (if k' = k then n else ht_lookup ht k')"
  by (induction ht k n rule: ht_insert.induct) (auto simp: ht_lookup_def)

lemma ht_insert_keys: "set (map fst (ht_insert ht k n)) = insert k (set (map fst ht))"
  by (induction ht k n rule: ht_insert.induct) auto

lemma ht_insert_distinct: "distinct (map fst ht) \<Longrightarrow> distinct (map fst (ht_insert ht k n))"
proof (induction ht k n rule: ht_insert.induct)
  case (2 k' n' ht k n)
  then show ?case using ht_insert_keys [of ht k n] by auto
qed simp

lemma ht_count_lookup: "ht_lookup (ht_count ht as) k = ht_lookup ht k + length (filter ((=) k) as)"
  by (induction ht as rule: ht_count.induct) (auto simp: ht_lookup_insert)

lemma ht_count_keys:
  "set (map fst (ht_count ht as)) = set (map fst ht) \<union> set as \<and>
   (distinct (map fst ht) \<longrightarrow> distinct (map fst (ht_count ht as)))"
  by (induction ht as rule: ht_count.induct) (auto simp: ht_insert_keys ht_insert_distinct simp del: set_map)

lemma ht_add_keys:
  "set (map fst (ht_add ht as)) = set (map fst ht) \<union> set as \<and>
   (distinct (map fst ht) \<longrightarrow> distinct (map fst (ht_add ht as)))"
  by (induction ht as rule: ht_add.induct) (auto simp: ht_insert_keys ht_insert_distinct simp del: set_map)

lemma ht_count_append: "ht_count (ht_count ht as) bs = ht_count ht (as @ bs)"
  by (induction ht as rule: ht_count.induct) auto

lemma ht_add_append: "ht_add (ht_add ht as) bs = ht_add ht (as @ bs)"
  by (induction ht as rule: ht_add.induct) auto

lemma and_loop_arrays:
  "ty = None \<and> ass \<noteq> [] \<or> ty = Some ARRAY_PTR_TYPE \<Longrightarrow>
     and_loop (map (\<lambda>a. Inr (RES_ARRAY_PTR a)) ass) ty 1 ht = Inr (Some ARRAY_PTR_TYPE, 1, ht_count ht (concat ass))"
proof (induction ass arbitrary: ty ht)
  case (Cons a ass)
  from Cons.IH [of "Some ARRAY_PTR_TYPE" "ht_count ht a"] Cons.prems show ?case
    by (auto simp: ht_count_append)
qed simp

lemma or_loop_arrays:
  "ty = None \<and> ass \<noteq> [] \<or> ty = Some ARRAY_PTR_TYPE \<Longrightarrow>
     or_loop (map (\<lambda>a. Inr (RES_ARRAY_PTR a)) ass) ty 0 ht = Inr (Some ARRAY_PTR_TYPE, 0, ht_add ht (concat ass))"
proof (induction ass arbitrary: ty ht)
  case (Cons a ass)
  from Cons.IH [of "Some ARRAY_PTR_TYPE" "ht_add ht a"] Cons.prems show ?case
    by (auto simp: ht_add_append)
qed simp

lemma count_distinct_lists:
  assumes "\<forall>a\<in>set ass. distinct a"
  shows "length (filter ((=) k) (concat ass)) = length (filter (\<lambda>a. k \<in> set a) ass)"
  using assms
proof (induction ass)
  case (Cons a ass)
  have "length (filter ((=) k) a) = (if k \<in> set a then 1 else 0)"
    using Cons.prems by (induction a) auto
  with Cons show ?case by simp
qed simp

lemma ht_entry:
  assumes "distinct (map fst ht)"
  shows "(k, n) \<in> set ht \<longleftrightarrow> k \<in> set (map fst ht) \<and> ht_lookup ht k = n"
proof -
  have "(k, n) \<in> set ht \<longleftrightarrow> map_of ht k = Some n"
    using map_of_eq_Some_iff [OF assms] by simp
  moreover have "k \<in> set (map fst ht) \<longleftrightarrow> map_of ht k \<noteq> None"
    by (simp add: map_of_eq_None_iff)
  ultimately show ?thesis by (auto simp: ht_lookup_def)
qed

lemma htand_set:
  assumes "distinct (map fst ht)" and "mset (shuffled) = mset ht"
  shows "set (htand n shuffled) = {k \<in> set (map fst ht). ht_lookup ht k = n}"
proof -
  have "set shuffled = set ht" using assms(2) by (rule mset_eq_setD)
  then have "k \<in> set (htand n shuffled) \<longleftrightarrow> (k, n) \<in> set ht" for k
    by (auto simp: htand_def image_iff)
  then show ?thesis using ht_entry [OF assms(1)] by blast
qed

lemma length_filter_all: "length (filter P xs) = length xs \<longleftrightarrow> (\<forall>x\<in>set xs. P x)"
proof (induction xs)
  case (Cons x xs)
  show ?case
  proof (cases "P x")
    case True
    with Cons show ?thesis by simp
  next
    case False
    with le_imp_less_Suc [OF length_filter_le [of P xs]] show ?thesis by auto
  qed
qed simp

section \<open>Conversions\<close>

lemma dec_digits_digits: "\<forall>d\<in>set (dec_digits n). digit d"
proof (induction n rule: less_induct)
  case (less n)
  have one: "digit (word_of_nat (48 + m))" if "m < 10" for m
    using that by (simp add: digit_def word_le_nat_alt unat_word_ariths unat_of_nat)
  show ?case
    using less [of "n div 10"] one [of n] one [of "n mod 10"]
    by (auto simp: dec_digits.simps [of n])
qed

lemma digits_value_dec: "digits_value (dec_digits n) = n"
proof (induction n rule: less_induct)
  case (less n)
  have one: "unat (word_of_nat (48 + m) - 48 :: byte) = m" if "m < 10" for m
    using that by (simp add: unat_of_nat)
  show ?case
  proof (cases "n < 10")
    case True
    then show ?thesis by (simp add: dec_digits.simps [of n] digits_value_def unat_of_nat)
  next
    case False
    with less [of "n div 10"] one [of "n mod 10"] show ?thesis
      by (simp add: dec_digits.simps [of n] digits_value_def)
  qed
qed

lemma dec_digits_ne: "dec_digits n \<noteq> []"
  by (simp add: dec_digits.simps [of n])

lemma strtoul_dec:
  assumes "n < 2 ^ 64"
  shows "strtoul (dec_digits n) = word_of_nat n" and "strtoul (0x2d # dec_digits n) = - word_of_nat n"
proof -
  obtain d ds where dd: "dec_digits n = d # ds" by (cases "dec_digits n") (auto simp: dec_digits_ne)
  have "digit d" using dec_digits_digits [of n] dd by simp
  then have d: "\<not> isspace d" "d \<noteq> 0x2d" "d \<noteq> 0x2b"
    by (auto simp: digit_def isspace_def word_le_nat_alt)
  have tw: "takeWhile digit (d # ds) = d # ds"
    using dec_digits_digits [of n] unfolding dd takeWhile_eq_all_conv .
  have val: "digits_value (d # ds) = n" using digits_value_dec [of n] unfolding dd .
  have small: "\<not> n > 2 ^ 64 - 1" using assms by linarith
  have space: "\<not> isspace 0x2d" by (simp add: isspace_def)
  have "strtoul (d # ds) = word_of_nat n"
    unfolding strtoul_def
    by (simp only: dropWhile.simps d if_False list.case Let_def prod.case tw val small)
  then show "strtoul (dec_digits n) = word_of_nat n" unfolding dd .
  have "strtoul (0x2d # d # ds) = - word_of_nat n"
    unfolding strtoul_def
    by (simp only: dropWhile.simps space if_False if_True list.case Let_def prod.case tw val small simp_thms)
  then show "strtoul (0x2d # dec_digits n) = - word_of_nat n" unfolding dd .
qed

lemma truncate_of_int: "ucast (word_of_int k :: 64 word) = (word_of_int k :: gint)"
  by (rule bit_word_eqI) (simp add: bit_ucast_iff bit_word_of_int_iff)

lemma cast_string_int: "ucast (strtoul (printf_d i)) = i"
proof -
  have range: "- (2 ^ 31) \<le> sint i" "sint i < 2 ^ 31"
    using sint_ge [of i] sint_lt [of i] by simp_all
  show ?thesis
  proof (cases "sint i < 0")
    case True
    with range have "strtoul (printf_d i) = - word_of_nat (nat (- sint i))"
      by (simp add: printf_d_def strtoul_dec(2))
    also have "\<dots> = word_of_int (sint i)" using True by simp
    finally have "ucast (strtoul (printf_d i)) = (word_of_int (sint i) :: gint)"
      by (simp only: truncate_of_int)
    then show ?thesis by simp
  next
    case False
    with range have "strtoul (printf_d i) = word_of_nat (nat (sint i))"
      by (simp add: printf_d_def strtoul_dec(1))
    also have "\<dots> = word_of_int (sint i)" using False by simp
    finally have "ucast (strtoul (printf_d i)) = (word_of_int (sint i) :: gint)"
      by (simp only: truncate_of_int)
    then show ?thesis by simp
  qed
qed

section \<open>The window contains every match\<close>

text \<open>A result that is no time generator has the default window, from the epoch to \<^verbatim>\<open>_TIME_MAX\<close>.\<close>

lemma generator_default:
  assumes "camel_sexp_term_evaluate_occur_times env t = Inr r" and "\<not> time_generator r"
  shows "occuring_start r = 0 \<and> occuring_end r = TIME_MAX"
proof -
  have gen: "generator argv res = Some r' \<Longrightarrow> time_generator r' = time_generator res"
    if "get_generator_function nm = Some generator" for nm generator argv res r'
    using that
    by (auto simp: get_generator_function_def occur_in_time_range_generator_def binary_generator_def
        unary_generator_def split: if_splits sexp_value.splits)
  have op: "operator argv res = Some r' \<Longrightarrow> \<not> time_generator r' \<Longrightarrow>
      occuring_start r' = occuring_start res \<and> occuring_end r' = occuring_end res"
    if "get_operator_function nm = Some operator" for nm operator argv res r'
    using that
    by (auto simp: get_operator_function_def or_operator_def and_operator_def Let_def split: if_splits)
  have new: "occuring_start (camel_sexp_result_new v) = 0 \<and> occuring_end (camel_sexp_result_new v) = TIME_MAX"
    for v by (simp add: camel_sexp_result_new_def)
  have func: "occuring_start r = 0 \<and> occuring_end r = TIME_MAX"
    if "occur_func env symb argv = Inr r" for symb argv
    using that assms(2) new gen op
    by (fastforce simp: occur_func_def Let_def split: if_splits option.splits sum.splits)
  show ?thesis
    using assms func new by (cases t) (auto split: sum.splits)
qed

text \<open>A signed 64-bit interval test, and the folds of the two operators.\<close>

definition overlaps :: "time_t \<Rightarrow> time_t \<Rightarrow> time_t \<Rightarrow> time_t \<Rightarrow> bool" where
  "overlaps os oe s e \<longleftrightarrow> os \<le>s e \<and> s \<le>s oe"

lemma fold_smax: "foldl (\<lambda>s a. smax s (f a)) s0 xs \<le>s t \<longleftrightarrow> s0 \<le>s t \<and> (\<forall>a\<in>set xs. f a \<le>s t)"
  by (induction xs arbitrary: s0) (auto simp: smax_def word_sle_eq word_sless_alt)

lemma fold_smin: "t \<le>s foldl (\<lambda>s a. smin s (f a)) s0 xs \<longleftrightarrow> t \<le>s s0 \<and> (\<forall>a\<in>set xs. t \<le>s f a)"
  by (induction xs arbitrary: s0) (auto simp: smin_def word_sle_eq word_sless_alt)

lemma fold_smin_le: "s0 \<le>s t \<or> (\<exists>a\<in>set xs. f a \<le>s t) \<Longrightarrow> foldl (\<lambda>s a. smin s (f a)) s0 xs \<le>s t"
  by (induction xs arbitrary: s0) (auto simp: smin_def word_sle_eq word_sless_alt)

lemma fold_smax_ge: "t \<le>s s0 \<or> (\<exists>a\<in>set xs. t \<le>s f a) \<Longrightarrow> t \<le>s foldl (\<lambda>s a. smax s (f a)) s0 xs"
  by (induction xs arbitrary: s0) (auto simp: smax_def word_sle_eq word_sless_alt)

lemma occur_args_Inr: "occur_args rs = Inr vs \<Longrightarrow> rs = map Inr vs"
  by (induction rs arbitrary: vs) (auto split: sum.splits)

lemma connective_names:
  "sym_name Sym_and = bytes ''and''" "sym_name Sym_or = bytes ''or''" "sym_name Sym_not = bytes ''not''"
  by (simp_all add: sym_name_def sexp_symbols_def)

lemma connective_not_special:
  "nm \<in> {bytes ''and'', bytes ''or'', bytes ''not''} \<Longrightarrow>
     \<not> is_time_function nm \<and> get_generator_function nm = None"
  by (auto simp: is_time_function_def time_functions_def get_generator_function_def)

lemma occur_func_connectives:
  "occur_func env Sym_and argv =
     (case and_operator argv (camel_sexp_result_new RES_UNDEFINED) of
        None \<Rightarrow> Inl ''Error in parse tree'' | Some r \<Rightarrow> Inr r)"
  "occur_func env Sym_or argv =
     (case or_operator argv (camel_sexp_result_new RES_UNDEFINED) of
        None \<Rightarrow> Inl ''Error in parse tree'' | Some r \<Rightarrow> Inr r)"
  "occur_func env Sym_not argv = Inr (camel_sexp_result_new RES_UNDEFINED)"
  using connective_not_special
  by (simp_all add: occur_func_def connective_names get_operator_function_def Let_def)
    (simp add: camel_sexp_result_new_def)

lemma window_and:
  assumes "and_operator argv res = Some r" and "time_generator r"
    and "\<forall>a\<in>set argv. overlaps os oe (occuring_start a) (occuring_end a)"
  shows "overlaps os oe (occuring_start r) (occuring_end r)"
proof -
  have ne: "argv \<noteq> []" using assms(1) by (auto simp: and_operator_def split: if_splits)
  then have "hd argv \<in> set argv" "\<forall>a\<in>set (tl argv). a \<in> set argv" by (auto simp: list.set_sel)
  with assms(3) have "os \<le>s occuring_end (hd argv) \<and> occuring_start (hd argv) \<le>s oe"
    "\<forall>a\<in>set (tl argv). os \<le>s occuring_end a \<and> occuring_start a \<le>s oe"
    unfolding overlaps_def by blast+
  with assms(1,2) ne show ?thesis
    by (auto simp: and_operator_def overlaps_def fold_smax fold_smin Let_def split: if_splits)
qed

lemma window_or:
  assumes "or_operator argv res = Some r" and "time_generator r"
    and "\<exists>a\<in>set argv. overlaps os oe (occuring_start a) (occuring_end a)"
  shows "overlaps os oe (occuring_start r) (occuring_end r)"
proof -
  have ne: "argv \<noteq> []" using assms(1) by (auto simp: or_operator_def split: if_splits)
  from assms(3) ne have ex: "os \<le>s occuring_end (hd argv) \<and> occuring_start (hd argv) \<le>s oe \<or>
      (\<exists>a\<in>set (tl argv). os \<le>s occuring_end a \<and> occuring_start a \<le>s oe)"
    by (cases argv) (auto simp: overlaps_def)
  with assms(1,2) ne show ?thesis
    by (auto simp: or_operator_def overlaps_def Let_def split: if_splits
        intro!: fold_smin_le fold_smax_ge)
qed

lemma window_sound:
  assumes default: "overlaps os oe 0 TIME_MAX"
    and atoms: "\<forall>t\<in>set (formula_atoms f). val t \<longrightarrow> (\<forall>r.
      camel_sexp_term_evaluate_occur_times env t = Inr r \<longrightarrow> time_generator r \<longrightarrow>
      overlaps os oe (occuring_start r) (occuring_end r))"
    and "formula_holds val f" and "camel_sexp_term_evaluate_occur_times env (formula_term f) = Inr r"
  shows "overlaps os oe (occuring_start r) (occuring_end r)"
  using atoms assms(3,4)
proof (induction f arbitrary: r)
  case (F_atom t)
  then show ?case
    using generator_default [of env t r] default by (cases "time_generator r") auto
next
  case (F_not f)
  then show ?case
    using default
    by (auto simp: occur_func_connectives camel_sexp_result_new_def split: sum.splits)
next
  case (F_and fs)
  then obtain argv where args: "occur_args (map (camel_sexp_term_evaluate_occur_times env \<circ> formula_term) fs) = Inr argv"
    and func: "occur_func env Sym_and argv = Inr r"
    by (auto simp: o_def split: sum.splits)
  note elems = occur_args_Inr [OF args]
  have all: "overlaps os oe (occuring_start a) (occuring_end a)" if "a \<in> set argv" for a
  proof -
    from that elems obtain f where f: "f \<in> set fs"
      "camel_sexp_term_evaluate_occur_times env (formula_term f) = Inr a"
      by (metis (no_types, lifting) comp_apply imageE image_eqI image_set)
    with F_and.IH [OF f(1) _ _ f(2)] F_and.prems(1,2) show ?thesis
      by (auto simp: list_all_iff)
  qed
  show ?case
  proof (cases "time_generator r")
    case True
    from func obtain r' where "and_operator argv (camel_sexp_result_new RES_UNDEFINED) = Some r'" "r' = r"
      by (auto simp: occur_func_connectives split: option.splits)
    with window_and [of argv _ r os oe] True all show ?thesis by blast
  next
    case False
    with generator_default [OF F_and.prems(3)] default show ?thesis by simp
  qed
next
  case (F_or fs)
  then obtain argv where args: "occur_args (map (camel_sexp_term_evaluate_occur_times env \<circ> formula_term) fs) = Inr argv"
    and func: "occur_func env Sym_or argv = Inr r"
    by (auto simp: o_def split: sum.splits)
  note elems = occur_args_Inr [OF args]
  from F_or.prems(2) obtain f where f: "f \<in> set fs" "formula_holds val f" by (auto simp: list_ex_iff)
  with elems obtain a where a: "a \<in> set argv"
    "camel_sexp_term_evaluate_occur_times env (formula_term f) = Inr a"
    by (metis (no_types, lifting) comp_apply imageE image_eqI image_set)
  have "overlaps os oe (occuring_start a) (occuring_end a)"
    using F_or.IH [OF f(1) _ f(2) a(2)] F_or.prems(1) f(1) by auto
  with a(1) have ex: "\<exists>a\<in>set argv. overlaps os oe (occuring_start a) (occuring_end a)" by blast
  show ?case
  proof (cases "time_generator r")
    case True
    from func obtain r' where "or_operator argv (camel_sexp_result_new RES_UNDEFINED) = Some r'" "r' = r"
      by (auto simp: occur_func_connectives split: option.splits)
    with window_or [of argv _ r os oe] True ex show ?thesis by blast
  next
    case False
    with generator_default [OF F_or.prems(3)] default show ?thesis by simp
  qed
qed

section \<open>Properties\<close>

text \<open>C33: For every nesting of \<^verbatim>\<open>and\<close>, \<^verbatim>\<open>or\<close> and \<^verbatim>\<open>not\<close> over tests that give truth values, evaluating the
  expression succeeds and gives the truth value of the formula, short-circuit evaluation included.\<close>

theorem sexp_boolean_semantics:
  assumes "no_empty f"
    and "\<forall>t\<in>set (formula_atoms f). is_truth (camel_sexp_term_eval env t) (val t)"
  shows "\<exists>b. camel_sexp_eval env (formula_term f) = Some (RES_BOOL b) \<and> (b \<noteq> 0 \<longleftrightarrow> formula_holds val f)"
  using formula_truth [OF assms] by (auto simp: is_truth_def camel_sexp_eval_def)

definition sexp_example_env :: sexp_env where
  "sexp_example_env =
     \<lparr>cfunc = (\<lambda>name argv. if name = bytes ''make-time'' then Inr (RES_TIME 0x100000000)
                else Inr (RES_BOOL 1)),
      cifunc = (\<lambda>name terms. Inr (RES_BOOL 0)), ht_order = (\<lambda>ht. ht)\<rparr>"

theorem sexp_boolean_semantics_witness:
  "\<exists>b. camel_sexp_eval sexp_example_env
      (formula_term (F_or [F_not (F_atom (TERM_BOOL 1)), F_and [F_atom (TERM_BOOL 1)]])) = Some (RES_BOOL b) \<and> b \<noteq> 0"
proof -
  let ?f = "F_or [F_not (F_atom (TERM_BOOL 1)), F_and [F_atom (TERM_BOOL 1)]]"
  have "\<exists>b. camel_sexp_eval sexp_example_env (formula_term ?f) = Some (RES_BOOL b) \<and>
      (b \<noteq> 0 \<longleftrightarrow> formula_holds (\<lambda>t. t = TERM_BOOL 1) ?f)"
    by (rule sexp_boolean_semantics) (simp_all add: is_truth_def)
  then show ?thesis by simp
qed

text \<open>C34: \<^verbatim>\<open>and\<close> of lists of uids that are each free of repetitions is their intersection, and \<^verbatim>\<open>or\<close> of
  any lists is their union without repetitions, in whatever order the hash table is visited.\<close>

theorem sexp_list_semantics:
  assumes "ass \<noteq> []" and "\<forall>a\<in>set ass. distinct a" and "\<forall>ht. mset (ht_order env ht) = mset ht"
  shows "(\<exists>r. term_eval_and env (map (\<lambda>a. Inr (RES_ARRAY_PTR a)) ass) = Inr (RES_ARRAY_PTR r) \<and>
      set r = \<Inter> (set ` set ass)) \<and>
    (\<exists>r. term_eval_or env (map (\<lambda>a. Inr (RES_ARRAY_PTR a)) ass) = Inr (RES_ARRAY_PTR r) \<and>
      set r = \<Union> (set ` set ass) \<and> distinct r)"
proof
  let ?ht = "ht_count [] (concat ass)"
  have dist: "distinct (map fst ?ht)" and keys: "set (map fst ?ht) = set (concat ass)"
    using ht_count_keys [of "[]" "concat ass"] by auto
  have "ht_lookup ?ht k = length (filter (\<lambda>a. k \<in> set a) ass)" for k
    using ht_count_lookup [of "[]" "concat ass" k] count_distinct_lists [OF assms(2), of k]
    by (simp add: ht_lookup_def)
  then have "ht_lookup ?ht k = length ass \<longleftrightarrow> (\<forall>a\<in>set ass. k \<in> set a)" for k
    by (simp add: length_filter_all)
  moreover have "set (htand (length ass) (ht_order env ?ht)) =
      {k \<in> set (map fst ?ht). ht_lookup ?ht k = length ass}"
    using assms(3) by (intro htand_set [OF dist]) simp
  ultimately have "set (htand (length ass) (ht_order env ?ht)) = \<Inter> (set ` set ass)"
    using assms(1) keys by (auto simp: neq_Nil_conv)
  then show "\<exists>r. term_eval_and env (map (\<lambda>a. Inr (RES_ARRAY_PTR a)) ass) = Inr (RES_ARRAY_PTR r) \<and>
      set r = \<Inter> (set ` set ass)"
    using and_loop_arrays [of None ass "[]"] assms(1)
    by (simp add: term_eval_and_def and_result_def)
next
  let ?ht = "ht_add [] (concat ass)"
  have dist: "distinct (map fst ?ht)" and keys: "set (map fst ?ht) = set (concat ass)"
    using ht_add_keys [of "[]" "concat ass"] by auto
  have perm: "mset (map fst (ht_order env ?ht)) = mset (map fst ?ht)"
    using assms(3) by simp
  have "set (htor (ht_order env ?ht)) = \<Union> (set ` set ass)" and "distinct (htor (ht_order env ?ht))"
    using keys dist mset_eq_setD [OF perm] mset_eq_imp_distinct_iff [OF perm]
    unfolding htor_def by (auto simp: image_iff)
  then show "\<exists>r. term_eval_or env (map (\<lambda>a. Inr (RES_ARRAY_PTR a)) ass) = Inr (RES_ARRAY_PTR r) \<and>
      set r = \<Union> (set ` set ass) \<and> distinct r"
    using or_loop_arrays [of None ass "[]"] assms(1)
    by (simp add: term_eval_or_def or_result_def)
qed

theorem sexp_list_semantics_witness:
  "\<exists>r. term_eval_and sexp_example_env [Inr (RES_ARRAY_PTR [[49], [50]]), Inr (RES_ARRAY_PTR [[50]])] =
     Inr (RES_ARRAY_PTR r) \<and> set r = {[50]}"
  using sexp_list_semantics [of "[[[49], [50]], [[50]]]" sexp_example_env]
  by (simp add: sexp_example_env_def insert_commute)

text \<open>When a list of uids repeats an entry, \<^verbatim>\<open>and\<close> counts it twice: the result contains a uid that is
  not in the other list.\<close>

lemma sexp_and_repeated_uid:
  "term_eval_and sexp_example_env [Inr (RES_ARRAY_PTR [[49], [49]]), Inr (RES_ARRAY_PTR [[50]])] =
     Inr (RES_ARRAY_PTR [[49]])"
  by code_simp

text \<open>C36: How the time window of a query is put together from the windows of its time tests misses no match. Let every
  time test of the query hold only of objects that overlap the window of its own arguments, as
  \<^verbatim>\<open>occur-in-time-range?\<close> does (the windows of \<^verbatim>\<open>has-alarms-in-range?\<close> and \<^verbatim>\<open>completed-before?\<close> do not have this property:
  an alarm, or the completion, may lie elsewhere than the object). Then an object that satisfies a query built with
  \<^verbatim>\<open>and\<close>, \<^verbatim>\<open>or\<close> and \<^verbatim>\<open>not\<close> from such tests and any others overlaps the window of the query, provided it overlaps the
  times from 0 to \<^verbatim>\<open>_TIME_MAX\<close>.\<close>

theorem sexp_window_sound:
  assumes "camel_sexp_evaluate_occur_times env (formula_term f) = Some (s, e)"
    and "formula_holds val f" and "overlaps os oe 0 TIME_MAX"
    and "\<forall>t\<in>set (formula_atoms f). val t \<longrightarrow> (\<forall>r.
      camel_sexp_term_evaluate_occur_times env t = Inr r \<longrightarrow> time_generator r \<longrightarrow>
      overlaps os oe (occuring_start r) (occuring_end r))"
  shows "overlaps os oe s e"
proof -
  from assms(1) obtain r where "camel_sexp_term_evaluate_occur_times env (formula_term f) = Inr r"
    "s = occuring_start r" "e = occuring_end r"
    by (auto simp: camel_sexp_evaluate_occur_times_def split: sum.splits if_splits)
  with window_sound [OF assms(3,4,2)] show ?thesis by blast
qed

theorem sexp_window_sound_witness:
  "overlaps 5 9 7 8"
proof (rule sexp_window_sound)
  let ?range = "TERM_FUNC (Sym_client (bytes ''occur-in-time-range?'')) [TERM_FUNC (Sym_client (bytes ''make-time'')) [TERM_STRING []], TERM_FUNC (Sym_client (bytes ''time-now'')) []]"
  let ?env = "sexp_example_env\<lparr>cfunc := (\<lambda>name argv. Inr (RES_TIME (if argv = [] then 8 else 7)))\<rparr>"
  show "camel_sexp_evaluate_occur_times ?env (formula_term (F_and [F_atom ?range])) = Some (7, 8)"
    by code_simp
  show "formula_holds (\<lambda>t. True) (F_and [F_atom ?range])" by simp
  show "overlaps 5 9 0 TIME_MAX" by code_simp
  have "camel_sexp_term_evaluate_occur_times ?env ?range =
      Inr \<lparr>ovalue = RES_UNDEFINED, time_generator = True, occuring_start = 7, occuring_end = 8\<rparr>"
    by code_simp
  moreover have "overlaps 5 9 7 8" by code_simp
  ultimately show "\<forall>t\<in>set (formula_atoms (F_and [F_atom ?range])). True \<longrightarrow> (\<forall>r.
      camel_sexp_term_evaluate_occur_times ?env t = Inr r \<longrightarrow> time_generator r \<longrightarrow>
      overlaps 5 9 (occuring_start r) (occuring_end r))" by simp
qed

text \<open>Beside a plain test under \<^verbatim>\<open>and\<close>, a time range past January 2038 is cut off: for a range from
  2^32 to 2^33 the window is empty.\<close>

lemma sexp_window_2038:
  "camel_sexp_evaluate_occur_times
     (sexp_example_env\<lparr>cfunc := (\<lambda>name argv.
        Inr (RES_TIME (if argv = [] then 0x200000000 else 0x100000000)))\<rparr>)
     (formula_term (F_and
       [F_atom (TERM_FUNC (Sym_client (bytes ''occur-in-time-range?''))
          [TERM_FUNC (Sym_client (bytes ''make-time'')) [TERM_STRING []],
           TERM_FUNC (Sym_client (bytes ''time-now'')) []]),
        F_atom (TERM_FUNC (Sym_client (bytes ''contains?'')) [])])) =
   Some (0x100000000, 0x7fffffff)"
  by code_simp

text \<open>Casting an integer to a string and back gives the integer, for every 32-bit value.\<close>

lemma sexp_cast_roundtrip:
  "\<exists>s. term_eval_caststring [RES_INT n] = Inr (RES_STRING s) \<and>
     term_eval_castint [RES_STRING s] = Inr (RES_INT n)"
  by (simp add: term_eval_caststring_def term_eval_castint_def cast_string_int)

end
