(* ===== verification/Camel_SexpParser.thy ===== *)
theory Camel_SexpParser
  imports Camel_Sexp
begin

text \<open>
  The parser of \<^verbatim>\<open>src/src/camel/camel-sexp.c\<close>, over the tokens that GLib's \<^verbatim>\<open>GScanner\<close> delivers; the
  end of the list is \<^verbatim>\<open>G_TOKEN_EOF\<close>. A symbol token carries the symbol the scanner found in its table:
  a function, an immediate function, or a variable with the symbol it stands for.

  The parser functions take fuel, \<open>None\<close> being fuel that ran out; \<open>camel_sexp_parse\<close> gives them twice
  the number of tokens, which is always enough (\<open>parser_ok\<close>).
\<close>

datatype scanner_symbol =
    SYM_FUNC sexp_symbol
  | SYM_IFUNC sexp_symbol
  | SYM_VAR cstring scanner_symbol

datatype gtoken =
    TOKEN_LEFT_PAREN
  | TOKEN_RIGHT_PAREN
  | TOKEN_STRING cstring
  | TOKEN_INT "64 word"
  | TOKEN_MINUS
  | TOKEN_HASH
  | TOKEN_SYMBOL scanner_symbol
  | TOKEN_IDENTIFIER cstring
  | TOKEN_OTHER byte

text \<open>The base of a variable: \<^verbatim>\<open>while (sym->type == CAMEL_SEXP_TERM_VAR)\<close>.\<close>

fun symbol_base :: "scanner_symbol \<Rightarrow> sexp_symbol" where
  "symbol_base (SYM_FUNC f) = f"
| "symbol_base (SYM_IFUNC f) = f"
| "symbol_base (SYM_VAR name s) = symbol_base s"

text \<open>The term \<^verbatim>\<open>parse_list\<close> makes for a head symbol. Its type is that of the symbol it met, also for a
  variable: such a term is no function.\<close>

fun list_term :: "scanner_symbol \<Rightarrow> CamelSExpTerm list \<Rightarrow> CamelSExpTerm" where
  "list_term (SYM_FUNC f) terms = TERM_FUNC f terms"
| "list_term (SYM_IFUNC f) terms = TERM_IFUNC f terms"
| "list_term (SYM_VAR name s) terms = TERM_VAR (sym_name (symbol_base s))"

type_synonym 'a parsed = "(sexp_error + 'a \<times> gtoken list) option"

fun parse_value :: "nat \<Rightarrow> gtoken list \<Rightarrow> CamelSExpTerm option parsed"
and parse_list :: "nat \<Rightarrow> gtoken list \<Rightarrow> CamelSExpTerm option parsed"
and parse_values :: "nat \<Rightarrow> gtoken list \<Rightarrow> CamelSExpTerm list \<Rightarrow> CamelSExpTerm list parsed"
where
  "parse_value 0 toks = None"
| "parse_value (Suc n) toks =
     (case toks of
        [] \<Rightarrow> Some (Inr (None, []))
      | tok # rest \<Rightarrow>
          (case tok of
             TOKEN_LEFT_PAREN \<Rightarrow> parse_list n rest
           | TOKEN_STRING s \<Rightarrow> Some (Inr (Some (TERM_STRING s), rest))
           | TOKEN_MINUS \<Rightarrow>
               (case rest of
                  TOKEN_INT v # rest' \<Rightarrow> Some (Inr (Some (TERM_INT (- ucast v)), rest'))
                | _ \<Rightarrow> Some (Inl ''Invalid format for a integer value''))
           | TOKEN_INT v \<Rightarrow> Some (Inr (Some (TERM_INT (ucast v)), rest))
           | TOKEN_HASH \<Rightarrow>
               (case rest of
                  TOKEN_IDENTIFIER str # rest' \<Rightarrow>
                    if str = [0x74] \<or> str = [0x66]
                    then Some (Inr (Some (TERM_BOOL (gbool (hd str = 0x74))), rest'))
                    else Some (Inl ''Invalid format for a boolean value'')
                | _ \<Rightarrow> Some (Inl ''Invalid format for a boolean value''))
           | TOKEN_SYMBOL s \<Rightarrow>
               (case s of
                  SYM_VAR name s' \<Rightarrow> Some (Inr (Some (TERM_VAR name), rest))
                | _ \<Rightarrow>
                    (case parse_values n rest [] of
                       None \<Rightarrow> None
                     | Some (Inl e) \<Rightarrow> Some (Inl e)
                     | Some (Inr (terms, rest')) \<Rightarrow> Some (Inr (Some (list_term s terms), rest'))))
           | TOKEN_IDENTIFIER str \<Rightarrow> Some (Inl ''Unknown identifier'')
           | _ \<Rightarrow> Some (Inl ''Unexpected token encountered'')))"
| "parse_list 0 toks = None"
| "parse_list (Suc n) toks =
     (case toks of
        TOKEN_SYMBOL s # rest \<Rightarrow>
          (case parse_values n rest [] of
             None \<Rightarrow> None
           | Some (Inl e) \<Rightarrow> Some (Inl e)
           | Some (Inr (terms, rest')) \<Rightarrow>
               (case rest' of
                  TOKEN_RIGHT_PAREN # rest'' \<Rightarrow> Some (Inr (Some (list_term s terms), rest''))
                | _ \<Rightarrow> Some (Inl ''Missing right parenthesis'')))
      | TOKEN_IDENTIFIER str # rest \<Rightarrow> Some (Inl ''Unknown identifier'')
      | TOKEN_LEFT_PAREN # rest \<Rightarrow> parse_list n rest
      | _ \<Rightarrow> Some (Inl ''Unexpected token encountered''))"
| "parse_values 0 toks acc = None"
| "parse_values (Suc n) toks acc =
     (if toks = [] \<or> hd toks = TOKEN_RIGHT_PAREN then Some (Inr (rev acc, toks))
      else
        (case parse_value n toks of
           None \<Rightarrow> None
         | Some (Inl e) \<Rightarrow> Some (Inl e)
         | Some (Inr (None, rest)) \<Rightarrow> Some (Inr ([], rest))
         | Some (Inr (Some t, rest)) \<Rightarrow> parse_values n rest (t # acc)))"

text \<open>\<^verbatim>\<open>camel_sexp_parse\<close>: \<open>None\<close> is its result -1; the tree of an empty text is \<^verbatim>\<open>NULL\<close>.\<close>

definition camel_sexp_parse :: "gtoken list \<Rightarrow> CamelSExpTerm option option" where
  "camel_sexp_parse toks =
     (case parse_value (2 * length toks + 1) toks of
        Some (Inr (t, rest)) \<Rightarrow> Some t
      | _ \<Rightarrow> None)"

text \<open>\<^verbatim>\<open>camel_sexp_encode_bool\<close> and \<^verbatim>\<open>camel_sexp_encode_string\<close> write the text of a literal.\<close>

definition camel_sexp_encode_bool :: "cstring \<Rightarrow> bool \<Rightarrow> cstring" where
  "camel_sexp_encode_bool str v_bool = str @ (if v_bool then bytes '' #t'' else bytes '' #f'')"

fun encode_string_loop :: "cstring \<Rightarrow> cstring" where
  "encode_string_loop [] = []"
| "encode_string_loop (c # p) =
     (if c = 0x5c \<or> c = 0x22 \<or> c = 0x27 then [0x5c] else []) @ c # encode_string_loop p"

definition camel_sexp_encode_string :: "cstring \<Rightarrow> cstring option \<Rightarrow> cstring" where
  "camel_sexp_encode_string str v_string =
     (let p = (case v_string of None \<Rightarrow> [] | Some s \<Rightarrow> s)
      in str @ [0x20, 0x22] @ encode_string_loop p @ [0x22])"

section \<open>The fuel is enough\<close>

text \<open>Each function returns with enough fuel, and leaves a rest no longer than its input.\<close>

definition leaves :: "'a parsed \<Rightarrow> nat \<Rightarrow> bool" where
  "leaves res k \<longleftrightarrow> (\<exists>r. res = Some r \<and> (\<forall>t rest. r = Inr (t, rest) \<longrightarrow> length rest \<le> k))"

definition value_ok :: "nat \<Rightarrow> bool" where
  "value_ok n \<longleftrightarrow> (\<forall>toks. toks \<noteq> [] \<and> 2 * length toks + 1 \<le> n \<longrightarrow> leaves (parse_value n toks) (length toks - 1))"

definition list_ok :: "nat \<Rightarrow> bool" where
  "list_ok n \<longleftrightarrow> (\<forall>toks. 2 * length toks + 1 \<le> n \<longrightarrow> leaves (parse_list n toks) (length toks - 1))"

definition values_ok :: "nat \<Rightarrow> bool" where
  "values_ok n \<longleftrightarrow> (\<forall>toks acc. 2 * length toks + 2 \<le> n \<longrightarrow> leaves (parse_values n toks acc) (length toks))"

lemma leaves_simps [simp]:
  "leaves (Some (Inl e)) k" "leaves (Some (Inr (t, rest))) k \<longleftrightarrow> length rest \<le> k"
  by (simp_all add: leaves_def)

lemma leaves_cases:
  assumes "leaves res k"
  obtains e where "res = Some (Inl e)" | t rest where "res = Some (Inr (t, rest))" and "length rest \<le> k"
  using assms by (auto simp: leaves_def) (metis old.sum.exhaust surj_pair)

lemma leaves_mono: "leaves res k \<Longrightarrow> k \<le> k' \<Longrightarrow> leaves res k'"
  by (auto simp: leaves_def)

lemma values_ok_D: "values_ok n \<Longrightarrow> 2 * length toks + 2 \<le> n \<Longrightarrow> leaves (parse_values n toks acc) (length toks)"
  by (simp add: values_ok_def)

lemma list_ok_D: "list_ok n \<Longrightarrow> 2 * length toks + 1 \<le> n \<Longrightarrow> leaves (parse_list n toks) (length toks)"
  unfolding list_ok_def by (meson diff_le_self leaves_mono)

lemma list_ok_step:
  assumes "list_ok n" and "values_ok n"
  shows "list_ok (Suc n)"
  unfolding list_ok_def
proof (intro allI impI)
  fix toks :: "gtoken list" assume n: "2 * length toks + 1 \<le> Suc n"
  show "leaves (parse_list (Suc n) toks) (length toks - 1)"
  proof (cases toks)
    case Nil
    then show ?thesis by simp
  next
    case (Cons tok rest)
    show ?thesis
    proof (cases "\<exists>s. tok = TOKEN_SYMBOL s")
      case True
      with Cons n values_ok_D [OF assms(2), of rest "[]"] show ?thesis
        by (auto elim!: leaves_cases split: list.splits gtoken.splits)
    next
      case False
      have "leaves (parse_list n rest) (length rest)"
        if "tok = TOKEN_LEFT_PAREN"
        using list_ok_D [OF assms(1), of rest] n Cons by simp
      with False Cons show ?thesis by (cases tok) auto
    qed
  qed
qed

lemma value_ok_step:
  assumes "list_ok n" and "values_ok n"
  shows "value_ok (Suc n)"
  unfolding value_ok_def
proof (intro allI impI)
  fix toks :: "gtoken list" assume n: "toks \<noteq> [] \<and> 2 * length toks + 1 \<le> Suc n"
  then obtain tok rest where toks: "toks = tok # rest" by (cases toks) auto
  have lst: "leaves (parse_list n rest) (length rest)"
    using list_ok_D [OF assms(1), of rest] n toks by simp
  have vals: "leaves (parse_values n rest []) (length rest)"
    using values_ok_D [OF assms(2), of rest "[]"] n toks by simp
  show "leaves (parse_value (Suc n) toks) (length toks - 1)"
  proof (cases tok)
    case (TOKEN_SYMBOL s)
    with toks vals show ?thesis by (cases s) (auto elim!: leaves_cases)
  next
    case TOKEN_MINUS
    with toks show ?thesis by (auto split: list.splits gtoken.splits)
  next
    case TOKEN_HASH
    with toks show ?thesis by (auto split: list.splits gtoken.splits)
  qed (use toks lst in auto)
qed

lemma values_ok_step:
  assumes "value_ok n" and "values_ok n"
  shows "values_ok (Suc n)"
  unfolding values_ok_def
proof (intro allI impI)
  fix toks :: "gtoken list" and acc assume n: "2 * length toks + 2 \<le> Suc n"
  show "leaves (parse_values (Suc n) toks acc) (length toks)"
  proof (cases "toks = [] \<or> hd toks = TOKEN_RIGHT_PAREN")
    case True
    then show ?thesis by auto
  next
    case False
    then have "leaves (parse_value n toks) (length toks - 1)"
      using assms(1) n by (simp add: value_ok_def)
    then show ?thesis
    proof (cases rule: leaves_cases)
      case (1 e)
      with False show ?thesis by simp
    next
      case (2 t rest)
      have "leaves (parse_values n rest acc') (length toks)" for acc'
        using values_ok_D [OF assms(2), of rest acc'] 2(2) n False
        by (cases toks) (auto intro: leaves_mono)
      with 2 False show ?thesis by (cases t) auto
    qed
  qed
qed

lemma parser_ok: "value_ok n \<and> list_ok n \<and> values_ok n"
proof (induction n)
  case 0
  show ?case by (simp add: value_ok_def list_ok_def values_ok_def)
next
  case (Suc n)
  then show ?case using value_ok_step list_ok_step values_ok_step by blast
qed

section \<open>Reading back the tokens of a term\<close>

text \<open>The tokens of a term that can be written down.\<close>

fun term_tokens :: "CamelSExpTerm \<Rightarrow> gtoken list" where
  "term_tokens (TERM_INT n) = (if n <s 0 then [TOKEN_MINUS, TOKEN_INT (ucast (- n))] else [TOKEN_INT (ucast n)])"
| "term_tokens (TERM_BOOL b) = [TOKEN_HASH, TOKEN_IDENTIFIER (if b = 0 then [0x66] else [0x74])]"
| "term_tokens (TERM_STRING s) = [TOKEN_STRING s]"
| "term_tokens (TERM_FUNC f ts) =
     TOKEN_LEFT_PAREN # TOKEN_SYMBOL (SYM_FUNC f) # concat (map term_tokens ts) @ [TOKEN_RIGHT_PAREN]"
| "term_tokens (TERM_IFUNC f ts) =
     TOKEN_LEFT_PAREN # TOKEN_SYMBOL (SYM_IFUNC f) # concat (map term_tokens ts) @ [TOKEN_RIGHT_PAREN]"
| "term_tokens (TERM_TIME t) = []"
| "term_tokens (TERM_VAR v) = []"

fun printable :: "CamelSExpTerm \<Rightarrow> bool" where
  "printable (TERM_BOOL b) \<longleftrightarrow> b = 0 \<or> b = 1"
| "printable (TERM_FUNC f ts) \<longleftrightarrow> list_all printable ts"
| "printable (TERM_IFUNC f ts) \<longleftrightarrow> list_all printable ts"
| "printable (TERM_TIME t) \<longleftrightarrow> False"
| "printable (TERM_VAR v) \<longleftrightarrow> False"
| "printable _ \<longleftrightarrow> True"

lemma wide_narrow: "ucast (ucast (n :: gint) :: 64 word) = n"
  by (rule bit_word_eqI) (simp add: bit_ucast_iff)

lemma term_tokens_start: "printable t \<Longrightarrow> term_tokens t \<noteq> [] \<and> hd (term_tokens t @ rest) \<noteq> TOKEN_RIGHT_PAREN"
  by (cases t) auto

lemma parse_values_tokens:
  assumes "\<And>t n rest. t \<in> set ts \<Longrightarrow> 2 * length (term_tokens t) \<le> n \<Longrightarrow>
      parse_value n (term_tokens t @ rest) = Some (Inr (Some t, rest))"
    and "list_all printable ts"
    and "2 * length (concat (map term_tokens ts)) + 1 \<le> n"
  shows "parse_values n (concat (map term_tokens ts) @ TOKEN_RIGHT_PAREN # rest) acc =
    Some (Inr (rev acc @ ts, TOKEN_RIGHT_PAREN # rest))"
  using assms
proof (induction ts arbitrary: n acc)
  case Nil
  then show ?case by (cases n) auto
next
  case (Cons t ts)
  from Cons.prems(3) obtain m where n: "n = Suc m" by (cases n) auto
  let ?rest = "concat (map term_tokens ts) @ TOKEN_RIGHT_PAREN # rest"
  from Cons.prems(2) term_tokens_start [of t ?rest] have start: "term_tokens t \<noteq> []"
    "hd (term_tokens t @ ?rest) \<noteq> TOKEN_RIGHT_PAREN" by auto
  have "parse_value m (term_tokens t @ ?rest) = Some (Inr (Some t, ?rest))"
    using Cons.prems(1) [of t m ?rest] Cons.prems(3) n by simp
  moreover have "parse_values m ?rest (t # acc) = Some (Inr (rev (t # acc) @ ts, TOKEN_RIGHT_PAREN # rest))"
    using Cons.prems start n by (intro Cons.IH) (auto simp: Suc_le_eq neq_Nil_conv)
  ultimately show ?case using start by (simp add: n)
qed

lemma parse_value_tokens:
  "printable t \<Longrightarrow> 2 * length (term_tokens t) \<le> n \<Longrightarrow>
     parse_value n (term_tokens t @ rest) = Some (Inr (Some t, rest))"
proof (induction t arbitrary: n rest)
  case (TERM_FUNC f ts)
  then obtain m where n: "n = Suc (Suc m)" by (cases n rule: nat.exhaust [of _ thesis]; cases "n - 1") auto
  have "parse_values m (concat (map term_tokens ts) @ TOKEN_RIGHT_PAREN # rest) [] =
      Some (Inr ([] @ ts, TOKEN_RIGHT_PAREN # rest))"
    using TERM_FUNC n by (subst parse_values_tokens) (auto simp: list_all_iff)
  then show ?case by (simp add: n)
next
  case (TERM_IFUNC f ts)
  then obtain m where n: "n = Suc (Suc m)" by (cases n rule: nat.exhaust [of _ thesis]; cases "n - 1") auto
  have "parse_values m (concat (map term_tokens ts) @ TOKEN_RIGHT_PAREN # rest) [] =
      Some (Inr ([] @ ts, TOKEN_RIGHT_PAREN # rest))"
    using TERM_IFUNC n by (subst parse_values_tokens) (auto simp: list_all_iff)
  then show ?case by (simp add: n)
next
  case (TERM_INT k)
  then show ?case by (cases n) (auto simp: wide_narrow split: if_splits)
next
  case (TERM_BOOL b)
  then show ?case by (cases n) (auto simp: gbool_def)
next
  case (TERM_STRING s)
  then show ?case by (cases n) auto
qed auto

section \<open>Properties\<close>

text \<open>C35: The parser always returns, and reading the tokens of an expression that can be written down
  gives that expression.\<close>

theorem sexp_parser_roundtrip:
  assumes "printable t"
  shows "camel_sexp_parse (term_tokens t) = Some (Some t) \<and>
    parse_value (2 * length toks + 1) toks \<noteq> None"
proof
  show "camel_sexp_parse (term_tokens t) = Some (Some t)"
    using parse_value_tokens [OF assms, of "2 * length (term_tokens t) + 1" "[]"]
    by (simp add: camel_sexp_parse_def)
  show "parse_value (2 * length toks + 1) toks \<noteq> None"
    using parser_ok [of "2 * length toks + 1"]
    by (cases "toks = []") (auto simp: value_ok_def leaves_def)
qed

theorem sexp_parser_roundtrip_witness:
  "camel_sexp_parse [TOKEN_LEFT_PAREN, TOKEN_SYMBOL (SYM_IFUNC Sym_and), TOKEN_HASH, TOKEN_IDENTIFIER [0x74],
      TOKEN_MINUS, TOKEN_INT 3, TOKEN_RIGHT_PAREN] =
   Some (Some (TERM_IFUNC Sym_and [TERM_BOOL 1, TERM_INT (- 3)]))"
proof -
  have "term_tokens (TERM_IFUNC Sym_and [TERM_BOOL 1, TERM_INT (- 3)]) =
      [TOKEN_LEFT_PAREN, TOKEN_SYMBOL (SYM_IFUNC Sym_and), TOKEN_HASH, TOKEN_IDENTIFIER [0x74],
       TOKEN_MINUS, TOKEN_INT 3, TOKEN_RIGHT_PAREN]"
    by code_simp
  with sexp_parser_roundtrip [of "TERM_IFUNC Sym_and [TERM_BOOL 1, TERM_INT (- 3)]" "[]"]
  show ?thesis by simp
qed

end
