(* ===== verification/Camel_FolderThread.thy ===== *)
theory Camel_FolderThread
  imports EDS_Prelude "HOL-Library.AList"
begin

unbundle bit_operations_syntax

text \<open>
  \<^verbatim>\<open>src/src/camel/camel-folder-thread.c\<close>: messages are grouped into conversations by their ids and
  references, and then by subject.

  Nodes live in a store and are linked by pointers to the next sibling, the parent and the first child. The
  code walks a list with a pointer to the node before, and the head of a list, \<^verbatim>\<open>&head\<close> or
  \<^verbatim>\<open>&node->child\<close>, is cast to a node, whose field \<^verbatim>\<open>next\<close> the head then is. Such a pointer is a \<open>slot\<close>.
  A loop over pointers is a partial function; reading through a null pointer gives \<open>None\<close>, like a loop that
  does not end. The address of a node that was freed is not given out again.
\<close>

section \<open>Nodes\<close>

type_synonym node_ptr = nat

record 'i thread_node =
  nnext :: "node_ptr option"
  parent :: "node_ptr option"
  child :: "node_ptr option"
  item :: "'i option"
  root_subject :: "cstring option"
  norder :: "31 word"
  re :: bool

record 'i thread_store =
  nodes :: "node_ptr \<Rightarrow> 'i thread_node"
  tree :: "node_ptr option"
  next_node :: node_ptr
  freed :: "node_ptr list"

text \<open>The functions by which items are accessed. \<^verbatim>\<open>NULL\<close> references are the empty list.\<close>

record 'i ItemFunctions =
  get_subject_func :: "'i \<Rightarrow> cstring option"
  get_message_id_func :: "'i \<Rightarrow> 64 word"
  get_references_func :: "'i \<Rightarrow> 64 word list"
  get_date_sent_func :: "('i \<Rightarrow> int) option"
  get_date_received_func :: "('i \<Rightarrow> int) option"

datatype slot = Head | Child node_ptr | Next node_ptr

definition upd_node :: "node_ptr \<Rightarrow> ('i thread_node \<Rightarrow> 'i thread_node) \<Rightarrow> 'i thread_store \<Rightarrow> 'i thread_store" where
  "upd_node p f st = st\<lparr>nodes := (nodes st)(p := f (nodes st p))\<rparr>"

fun slot_next :: "'i thread_store \<Rightarrow> slot \<Rightarrow> node_ptr option" where
  "slot_next st Head = tree st"
| "slot_next st (Child p) = child (nodes st p)"
| "slot_next st (Next p) = nnext (nodes st p)"

fun set_slot :: "slot \<Rightarrow> node_ptr option \<Rightarrow> 'i thread_store \<Rightarrow> 'i thread_store" where
  "set_slot Head v st = st\<lparr>tree := v\<rparr>"
| "set_slot (Child p) v st = upd_node p (\<lambda>n. n\<lparr>child := v\<rparr>) st"
| "set_slot (Next p) v st = upd_node p (\<lambda>n. n\<lparr>nnext := v\<rparr>) st"

definition alloc0 :: "'i thread_store \<Rightarrow> 'i thread_store \<times> node_ptr" where
  "alloc0 st =
     (upd_node (next_node st) (\<lambda>n. \<lparr>nnext = None, parent = None, child = None, item = None, root_subject = None,
        norder = 0, re = False\<rparr>) st\<lparr>next_node := next_node st + 1\<rparr>, next_node st)"

definition free_node :: "node_ptr \<Rightarrow> 'i thread_store \<Rightarrow> 'i thread_store" where
  "free_node p st = st\<lparr>freed := p # freed st\<rparr>"

section \<open>Linking\<close>

definition container_add_child :: "'i thread_store \<Rightarrow> node_ptr \<Rightarrow> node_ptr \<Rightarrow> 'i thread_store" where
  "container_add_child st node ch =
     (let st = upd_node ch (\<lambda>n. n\<lparr>nnext := child (nodes st node)\<rparr>) st;
          st = upd_node node (\<lambda>n. n\<lparr>child := Some ch\<rparr>) st
      in upd_node ch (\<lambda>n. n\<lparr>parent := Some node\<rparr>) st)"

text \<open>\<^verbatim>\<open>while (node) { if (node == child) return; node = node->parent; }\<close>\<close>

partial_function (option) has_ancestor :: "'i thread_store \<Rightarrow> node_ptr option \<Rightarrow> node_ptr \<Rightarrow> bool option" where
  "has_ancestor st node ch =
     (case node of
        None \<Rightarrow> Some False
      | Some n \<Rightarrow> if n = ch then Some True else has_ancestor st (parent (nodes st n)) ch)"

text \<open>\<^verbatim>\<open>while (c->next) { if (c->next == node) ...; c = c->next; }\<close>\<close>

partial_function (option) scan_list :: "'i thread_store \<Rightarrow> slot \<Rightarrow> node_ptr \<Rightarrow> slot option option" where
  "scan_list st c node =
     (case slot_next st c of
        None \<Rightarrow> Some None
      | Some n \<Rightarrow> if n = node then Some (Some c) else scan_list st (Next n) node)"

text \<open>\<^verbatim>\<open>c->next = c->next->next\<close>\<close>

definition unlink_next :: "slot \<Rightarrow> 'i thread_store \<Rightarrow> 'i thread_store" where
  "unlink_next c st =
     (case slot_next st c of None \<Rightarrow> st | Some n \<Rightarrow> set_slot c (nnext (nodes st n)) st)"

definition container_parent_child :: "'i thread_store \<Rightarrow> node_ptr \<Rightarrow> node_ptr \<Rightarrow> 'i thread_store option" where
  "container_parent_child st par ch =
     (if parent (nodes st ch) = Some par then Some st
      else Option.bind (has_ancestor st (parent (nodes st par)) ch) (\<lambda>loop.
        if loop then Some st
        else
          (case parent (nodes st ch) of
             None \<Rightarrow> Some (container_add_child st par ch)
           | Some node \<Rightarrow>
               Option.bind (scan_list st (Child node) ch) (\<lambda>found.
                 case found of
                   Some c \<Rightarrow>
                     (let st = unlink_next c st;
                          st = upd_node ch (\<lambda>n. n\<lparr>parent := None\<rparr>) st
                      in Some (container_add_child st par ch))
                 | None \<Rightarrow> Some st))))"

section \<open>Pruning\<close>

text \<open>The children of an empty node \<open>c\<close> go one by one to the front of what follows \<open>lastc\<close>.\<close>

definition promote_one :: "'i thread_store \<Rightarrow> slot \<Rightarrow> node_ptr \<Rightarrow> node_ptr \<Rightarrow> 'i thread_store" where
  "promote_one st lastc c ch =
     (let st = upd_node ch (\<lambda>n. n\<lparr>parent := parent (nodes st c)\<rparr>) st;
          st = upd_node ch (\<lambda>n. n\<lparr>nnext := slot_next st lastc\<rparr>) st
      in set_slot lastc (Some ch) st)"

partial_function (option) promote ::
    "'i thread_store \<Rightarrow> slot \<Rightarrow> node_ptr \<Rightarrow> node_ptr option \<Rightarrow> 'i thread_store option" where
  "promote st lastc c ch =
     (case ch of
        None \<Rightarrow> Some st
      | Some p \<Rightarrow> promote (promote_one st lastc c p) lastc c (nnext (nodes st p)))"

text \<open>The loop of \<^verbatim>\<open>prune_empty\<close>, started at the head of the list.\<close>

partial_function (option) prune_empty :: "'i thread_store \<Rightarrow> slot \<Rightarrow> 'i thread_store option" where
  "prune_empty st lastc =
     (case slot_next st lastc of
        None \<Rightarrow> Some st
      | Some c \<Rightarrow>
          Option.bind (prune_empty st (Child c)) (\<lambda>st.
            if item (nodes st c) = None \<and> child (nodes st c) = None
            then prune_empty (free_node c (set_slot lastc (nnext (nodes st c)) st)) lastc
            else if item (nodes st c) = None \<and>
              (parent (nodes st c) \<noteq> None \<or> nnext (nodes st (the (child (nodes st c)))) = None)
            then
              Option.bind (promote (set_slot lastc (nnext (nodes st c)) st) lastc c (child (nodes st c)))
                (\<lambda>st. prune_empty st lastc)
            else prune_empty st (Next c)))"

text \<open>\<^verbatim>\<open>hashloop\<close> on one value of a table.\<close>

definition hashloop :: "node_ptr \<Rightarrow> 'i thread_store \<Rightarrow> 'i thread_store" where
  "hashloop c st =
     (if parent (nodes st c) = None
      then upd_node c (\<lambda>n. n\<lparr>nnext := tree st\<rparr>) st\<lparr>tree := Some c\<rparr>
      else st)"

section \<open>Subjects\<close>

text \<open>A C string is the list of its bytes before the NUL, a pointer into it a suffix. The classes of characters are
  those of the C locale.\<close>

definition isdigit :: "byte \<Rightarrow> bool" where
  "isdigit c \<longleftrightarrow> 48 \<le> c \<and> c \<le> 57"

definition ispunct :: "byte \<Rightarrow> bool" where
  "ispunct c \<longleftrightarrow> 33 \<le> c \<and> c \<le> 47 \<or> 58 \<le> c \<and> c \<le> 64 \<or> 91 \<le> c \<and> c \<le> 96 \<or> 123 \<le> c \<and> c \<le> 126"

fun skip_dash :: "cstring \<Rightarrow> cstring" where
  "skip_dash (a # b # s) = (if a = 45 \<and> isspace b then s else a # b # s)"
| "skip_dash s = s"

lemma length_skip_dash: "length (skip_dash s) \<le> length s"
  by (induction s rule: skip_dash.induct) auto

lemma skip_ids_shorter:
  assumes "dropWhile p t = x # s'"
  shows "length (dropWhile isspace (skip_dash (dropWhile isspace s'))) < length t"
proof -
  have "length s' < length t" using length_dropWhile_le [of p t] assms by simp
  moreover have "length (dropWhile isspace (skip_dash (dropWhile isspace s'))) \<le> length s'"
    using length_dropWhile_le [of isspace] length_skip_dash le_trans by metis
  ultimately show ?thesis by simp
qed

function skip_ids :: "cstring \<Rightarrow> cstring" where
  "skip_ids s =
     (case s of
        [] \<Rightarrow> s
      | b # t \<Rightarrow>
          if b \<noteq> 91 then s
          else
            (case dropWhile (\<lambda>x. x \<noteq> 93 \<and> \<not> isspace x) t of
               [] \<Rightarrow> s
             | x # s' \<Rightarrow>
                 if x \<noteq> 93 then s
                 else skip_ids (dropWhile isspace (skip_dash (dropWhile isspace s')))))"
  by pat_completeness auto
termination
  by (relation "measure length") (auto dest!: skip_ids_shorter)

declare skip_ids.simps [simp del]

definition skip_list_ids :: "cstring \<Rightarrow> cstring" where
  "skip_list_ids s = skip_ids (dropWhile isspace s)"

lemma length_skip_ids: "length (skip_ids s) \<le> length s"
proof (induction s rule: skip_ids.induct)
  case (1 s)
  show ?case
  proof (cases s)
    case (Cons b t)
    show ?thesis
    proof (cases "dropWhile (\<lambda>x. x \<noteq> 93 \<and> \<not> isspace x) t")
      case (Cons x s')
      then show ?thesis using 1 [OF \<open>s = b # t\<close>] \<open>s = b # t\<close> skip_ids_shorter [OF Cons]
        by (cases "x = 93") (force simp: skip_ids.simps [of "b # t"])+
    qed (simp add: skip_ids.simps [of "b # t"] \<open>s = b # t\<close> del: dropWhile_eq_Nil_conv)
  qed (simp add: skip_ids.simps [of "[]"])
qed

lemma length_skip_list_ids: "length (skip_list_ids s) \<le> length s"
  using length_skip_ids length_dropWhile_le le_trans unfolding skip_list_ids_def by blast

text \<open>The loop that skips \<^verbatim>\<open>Re:\<close> prefixes, with the flag for one.\<close>

lemma strip_re_shorter:
  assumes "dropWhile isspace s = a # b # p" and "dropWhile P p = c # q"
  shows "length (skip_list_ids q) < length s"
proof -
  have "length q < length p" using length_dropWhile_le [of P p] assms(2) by simp
  moreover have "length p < length s" using length_dropWhile_le [of isspace s] assms(1) by simp
  ultimately show ?thesis using length_skip_list_ids [of q] by simp
qed

function strip_re :: "cstring \<Rightarrow> bool \<Rightarrow> cstring \<times> bool" where
  "strip_re s r =
     (let s = dropWhile isspace s in
      case s of
        a # b # p \<Rightarrow>
          if (a = 114 \<or> a = 82) \<and> (b = 101 \<or> b = 69)
          then
            (case dropWhile (\<lambda>x. isdigit x \<or> ispunct x \<and> x \<noteq> 58) p of
               c # q \<Rightarrow> if c = 58 then strip_re (skip_list_ids q) True else (s, r)
             | [] \<Rightarrow> (s, r))
          else (s, r)
      | _ \<Rightarrow> (s, r))"
  by pat_completeness auto
termination
  by (relation "measure (\<lambda>(s, r). length s)") (auto dest: strip_re_shorter [OF sym])

declare strip_re.simps [simp del]

text \<open>The first of the children that has an item.\<close>

partial_function (option) scan_items :: "'i thread_store \<Rightarrow> node_ptr option \<Rightarrow> 'i option option" where
  "scan_items st scan =
     (case scan of
        None \<Rightarrow> Some None
      | Some p \<Rightarrow>
          if item (nodes st p) \<noteq> None then Some (item (nodes st p))
          else scan_items st (nnext (nodes st p)))"

text \<open>The result and the flag \<^verbatim>\<open>re\<close>.\<close>

definition root_of_subject :: "cstring option \<Rightarrow> cstring option \<times> bool" where
  "root_of_subject s =
     (case s of
        None \<Rightarrow> (None, False)
      | Some s \<Rightarrow>
          (let (s, r) = strip_re (skip_list_ids s) False in (if s \<noteq> [] then Some s else None, r)))"

definition get_root_subject ::
    "'i ItemFunctions \<Rightarrow> 'i thread_store \<Rightarrow> node_ptr \<Rightarrow> (cstring option \<times> bool) option" where
  "get_root_subject f st c =
     Option.bind
       (if item (nodes st c) \<noteq> None then Some (item (nodes st c))
        else scan_items st (child (nodes st c)))
       (\<lambda>i. Some (root_of_subject (Option.bind i (get_subject_func f))))"

section \<open>Grouping by subject\<close>

definition thread_remove_node :: "'i thread_store \<Rightarrow> node_ptr \<Rightarrow> slot \<Rightarrow> ('i thread_store \<times> slot) option" where
  "thread_remove_node st node clast =
     Option.bind
       (scan_list st (case parent (nodes st node) of Some p \<Rightarrow> Child p | None \<Rightarrow> Head) node)
       (\<lambda>found.
          case found of
            Some c \<Rightarrow> Some (unlink_next c st, if clast = Next node then c else clast)
          | None \<Rightarrow> Some (st, clast))"

type_synonym subject_table = "cstring \<Rightarrow> node_ptr option"

text \<open>\<^verbatim>\<open>group_root_set\<close>: the first loop gathers the subjects, the second merges the nodes.\<close>

definition gather_one ::
    "'i ItemFunctions \<Rightarrow> 'i thread_store \<Rightarrow> subject_table \<Rightarrow> node_ptr \<Rightarrow>
       ('i thread_store \<times> subject_table) option" where
  "gather_one f st table c =
     Option.bind (get_root_subject f st c) (\<lambda>(s, r).
       (let st = upd_node c (\<lambda>n. n\<lparr>root_subject := s, re := r\<rparr>) st in
        case s of
          None \<Rightarrow> Some (st, table)
        | Some s \<Rightarrow>
            (case table s of
               None \<Rightarrow> Some (st, table(s \<mapsto> c))
             | Some container \<Rightarrow>
                 if item (nodes st container) = None \<and> item (nodes st c) \<noteq> None \<or>
                   re (nodes st container) \<and> \<not> re (nodes st c)
                 then Some (st, table(s \<mapsto> c))
                 else Some (st, table))))"

partial_function (option) gather ::
    "'i ItemFunctions \<Rightarrow> 'i thread_store \<Rightarrow> subject_table \<Rightarrow> node_ptr option \<Rightarrow>
       ('i thread_store \<times> subject_table) option" where
  "gather f st table c =
     (case c of
        None \<Rightarrow> Some (st, table)
      | Some p \<Rightarrow>
          Option.bind (gather_one f st table p) (\<lambda>r. gather f (fst r) (snd r) (nnext (nodes (fst r) p))))"

text \<open>\<^verbatim>\<open>while (scan->next) scan = scan->next\<close>\<close>

partial_function (option) list_end :: "'i thread_store \<Rightarrow> slot \<Rightarrow> slot option" where
  "list_end st scan =
     (case slot_next st scan of None \<Rightarrow> Some scan | Some p \<Rightarrow> list_end st (Next p))"

text \<open>The node \<open>c\<close> after \<open>clast\<close>, in the second loop. The results are the store, the table and the next \<open>clast\<close>.\<close>

definition merge_one ::
    "'i thread_store \<Rightarrow> subject_table \<Rightarrow> slot \<Rightarrow> node_ptr \<Rightarrow> ('i thread_store \<times> subject_table \<times> slot) option" where
  "merge_one st table clast c =
     (case Option.bind (root_subject (nodes st c)) table of
        None \<Rightarrow> Some (st, table, Next c)
      | Some container \<Rightarrow>
          if container = c then Some (st, table, Next c)
          else if item (nodes st c) = None \<and> item (nodes st container) = None
          then
            Option.bind (list_end st (Child container)) (\<lambda>scan.
              (let st = set_slot scan (child (nodes st c)) st;
                   st = set_slot clast (nnext (nodes st c)) st
               in Some (free_node c st, table, clast)))
          else if item (nodes st c) = None \<and> item (nodes st container) \<noteq> None
          then
            Option.bind (thread_remove_node st container clast) (\<lambda>(st, clast).
              Some (container_add_child st c container, table, Next c))
          else if item (nodes st c) \<noteq> None \<and> item (nodes st container) = None
          then Some (container_add_child (set_slot clast (nnext (nodes st c)) st) container c, table, clast)
          else if re (nodes st c) \<and> \<not> re (nodes st container)
          then Some (container_add_child (set_slot clast (nnext (nodes st c)) st) container c, table, clast)
          else if \<not> re (nodes st c) \<and> re (nodes st container)
          then
            Option.bind (thread_remove_node st container clast) (\<lambda>(st, clast).
              Some (container_add_child st c container, table, Next c))
          else
            Option.bind (thread_remove_node st container clast) (\<lambda>(st, clast).
              Option.bind (thread_remove_node st c clast) (\<lambda>(st, clast).
                (let (st, scan) = alloc0 st;
                     st = upd_node scan (\<lambda>n. n\<lparr>root_subject := root_subject (nodes st c),
                            re := re (nodes st c) \<and> re (nodes st container), nnext := nnext (nodes st c)\<rparr>) st;
                     st = set_slot clast (Some scan) st;
                     st = container_add_child st scan c;
                     st = container_add_child st scan container;
                     table = (case root_subject (nodes st scan) of Some s \<Rightarrow> table(s \<mapsto> scan) | None \<Rightarrow> table)
                 in Some (st, table, Next scan)))))"

partial_function (option) merge_loop :: "'i thread_store \<Rightarrow> subject_table \<Rightarrow> slot \<Rightarrow> 'i thread_store option" where
  "merge_loop st table clast =
     (case slot_next st clast of
        None \<Rightarrow> Some st
      | Some c \<Rightarrow>
          Option.bind (merge_one st table clast c)
            (\<lambda>r. merge_loop (fst r) (fst (snd r)) (snd (snd r))))"

definition group_root_set :: "'i ItemFunctions \<Rightarrow> 'i thread_store \<Rightarrow> 'i thread_store option" where
  "group_root_set f st =
     Option.bind (gather f st (\<lambda>s. None) (tree st)) (\<lambda>(st, table). merge_loop st table Head)"

section \<open>Sorting\<close>

definition sort_time :: "('i \<Rightarrow> int) \<Rightarrow> ('i \<Rightarrow> int) \<Rightarrow> 'i \<Rightarrow> int" where
  "sort_time sent received i = (if sent i \<le> 0 then received i else sent i)"

definition sort_node_cb ::
    "('i \<Rightarrow> int) \<Rightarrow> ('i \<Rightarrow> int) \<Rightarrow> 'i thread_store \<Rightarrow> node_ptr \<Rightarrow> node_ptr \<Rightarrow> int" where
  "sort_node_cb sent received st a b =
     (let a1 = nodes st (if item (nodes st a) = None then the (child (nodes st a)) else a);
          b1 = nodes st (if item (nodes st b) = None then the (child (nodes st b)) else b);
          ptime1 = map_option (sort_time sent received) (item a1);
          ptime2 = map_option (sort_time sent received) (item b1)
      in if ptime1 \<noteq> None \<and> ptime2 \<noteq> None \<and> ptime1 \<noteq> ptime2
         then (if the ptime1 < the ptime2 then -1 else 1)
         else if norder a1 = norder b1 then 0
         else if norder a1 < norder b1 then -1
         else 1)"

text \<open>\<open>qsort\<close> stands for \<^verbatim>\<open>g_qsort_with_data\<close>. An empty node without a child would be read through a null
  pointer by the comparison.\<close>

type_synonym qsort = "(node_ptr \<Rightarrow> node_ptr \<Rightarrow> int) \<Rightarrow> node_ptr list \<Rightarrow> node_ptr list"

partial_function (option) collect_list :: "'i thread_store \<Rightarrow> node_ptr option \<Rightarrow> node_ptr list option" where
  "collect_list st c =
     (case c of
        None \<Rightarrow> Some []
      | Some p \<Rightarrow> Option.bind (collect_list st (nnext (nodes st p))) (\<lambda>ps. Some (p # ps)))"

fun link_list :: "'i thread_store \<Rightarrow> node_ptr list \<Rightarrow> 'i thread_store \<times> node_ptr option" where
  "link_list st [] = (st, None)"
| "link_list st (p # ps) =
     (let (st, head) = link_list st ps in (upd_node p (\<lambda>n. n\<lparr>nnext := head\<rparr>) st, Some p))"

definition sort_list ::
    "qsort \<Rightarrow> ('i \<Rightarrow> int) \<Rightarrow> ('i \<Rightarrow> int) \<Rightarrow> 'i thread_store \<Rightarrow> slot \<Rightarrow> nat \<Rightarrow> 'i thread_store option" where
  "sort_list qsort sent received st cp n =
     (if n < 2 then Some st
      else
        Option.bind (collect_list st (slot_next st cp)) (\<lambda>carray.
          if \<forall>p\<in>set carray. item (nodes st p) \<noteq> None \<or> child (nodes st p) \<noteq> None
          then
            (let (st, head) = link_list st (qsort (sort_node_cb sent received st) carray)
             in Some (set_slot cp head st))
          else None))"

text \<open>The first loop of \<^verbatim>\<open>sort_thread\<close>: it sorts the children and counts.\<close>

partial_function (option) sort_children ::
    "qsort \<Rightarrow> ('i \<Rightarrow> int) \<Rightarrow> ('i \<Rightarrow> int) \<Rightarrow> 'i thread_store \<Rightarrow> node_ptr option \<Rightarrow> nat \<Rightarrow>
       ('i thread_store \<times> nat) option" where
  "sort_children qsort sent received st c n =
     (case c of
        None \<Rightarrow> Some (st, n)
      | Some p \<Rightarrow>
          Option.bind
            (if child (nodes st p) \<noteq> None
             then
               Option.bind (sort_children qsort sent received st (child (nodes st p)) 0)
                 (\<lambda>r. sort_list qsort sent received (fst r) (Child p) (snd r))
             else Some st)
            (\<lambda>st. sort_children qsort sent received st (nnext (nodes st p)) (n + 1)))"

definition sort_thread ::
    "qsort \<Rightarrow> ('i \<Rightarrow> int) \<Rightarrow> ('i \<Rightarrow> int) \<Rightarrow> 'i thread_store \<Rightarrow> slot \<Rightarrow> 'i thread_store option" where
  "sort_thread qsort sent received st cp =
     Option.bind (sort_children qsort sent received st (slot_next st cp) 0)
       (\<lambda>(st, n). sort_list qsort sent received st cp n)"

section \<open>Removing the empty roots\<close>

definition pick_time :: "('i \<Rightarrow> int) \<Rightarrow> ('i \<Rightarrow> int) \<Rightarrow> 'i \<Rightarrow> int" where
  "pick_time sent received i = (if sent i = 0 \<or> sent i = -1 then received i else sent i)"

definition swap_nodes :: "node_ptr \<Rightarrow> node_ptr \<Rightarrow> 'i thread_store \<Rightarrow> 'i thread_store" where
  "swap_nodes newtop node st =
     (let a = nodes st newtop; b = nodes st node;
          st = upd_node newtop (\<lambda>n. n\<lparr>item := item b, root_subject := root_subject b, norder := norder b, re := re b\<rparr>) st
      in upd_node node (\<lambda>n. n\<lparr>item := item a, root_subject := root_subject a, norder := norder a, re := re a\<rparr>) st)"

text \<open>The oldest item among the siblings of \<open>newtop\<close> goes to \<open>newtop\<close>. One step takes a sibling and the time so far.\<close>

definition pick_one ::
    "('i \<Rightarrow> int) \<Rightarrow> ('i \<Rightarrow> int) \<Rightarrow> node_ptr \<Rightarrow> 'i thread_store \<Rightarrow> node_ptr \<Rightarrow> int \<Rightarrow> 'i thread_store \<times> int" where
  "pick_one sent received newtop st node cur =
     (case item (nodes st node) of
        None \<Rightarrow> (st, cur)
      | Some i \<Rightarrow>
          (let t = pick_time sent received i in
           if t \<noteq> 0 \<and> t \<noteq> -1 \<and> (t < cur \<or> cur = 0 \<or> cur = -1)
           then (swap_nodes newtop node st, t)
           else (st, cur)))"

partial_function (option) pick_oldest ::
    "('i \<Rightarrow> int) \<Rightarrow> ('i \<Rightarrow> int) \<Rightarrow> node_ptr \<Rightarrow> 'i thread_store \<Rightarrow> node_ptr option \<Rightarrow> int \<Rightarrow>
       'i thread_store option" where
  "pick_oldest sent received newtop st node cur =
     (case node of
        None \<Rightarrow> Some st
      | Some p \<Rightarrow>
          pick_oldest sent received newtop (fst (pick_one sent received newtop st p cur))
            (nnext (nodes (fst (pick_one sent received newtop st p cur)) p))
            (snd (pick_one sent received newtop st p cur)))"

partial_function (option) fix_parents ::
    "'i thread_store \<Rightarrow> slot \<Rightarrow> node_ptr \<Rightarrow> 'i thread_store option" where
  "fix_parents st scan newtop =
     (case slot_next st scan of
        None \<Rightarrow> Some st
      | Some p \<Rightarrow> fix_parents (upd_node p (\<lambda>n. n\<lparr>parent := Some newtop\<rparr>) st) (Next p) newtop)"

text \<open>The empty root \<open>ch\<close> after \<open>c\<close> gives way to its first child, \<open>newtop\<close>. The results are the store and the next \<open>c\<close>.\<close>

definition remove_phantom ::
    "'i ItemFunctions \<Rightarrow> bool \<Rightarrow> 'i thread_store \<Rightarrow> slot \<Rightarrow> node_ptr \<Rightarrow> ('i thread_store \<times> slot) option" where
  "remove_phantom f by_date st c ch =
     (case child (nodes st ch) of
        None \<Rightarrow> None
      | Some newtop \<Rightarrow>
          (let st = upd_node newtop (\<lambda>n. n\<lparr>parent := None\<rparr>) st;
               st = set_slot c (Some newtop) st
           in
            Option.bind
              (case (by_date, get_date_sent_func f, get_date_received_func f) of
                 (False, Some sent, Some received) \<Rightarrow>
                   pick_oldest sent received newtop st (nnext (nodes st newtop))
                     (case item (nodes st newtop) of None \<Rightarrow> 0 | Some i \<Rightarrow> pick_time sent received i)
               | _ \<Rightarrow> Some st)
              (\<lambda>st. Option.bind (list_end st (Child newtop)) (\<lambda>scan.
                (let st = set_slot scan (nnext (nodes st newtop)) st in
                 Option.bind (fix_parents st scan newtop) (\<lambda>st.
                   (let st = upd_node newtop (\<lambda>n. n\<lparr>nnext := nnext (nodes st ch)\<rparr>) st
                    in Some (free_node ch st, Next newtop))))))))"

partial_function (option) remove_phantoms ::
    "'i ItemFunctions \<Rightarrow> bool \<Rightarrow> 'i thread_store \<Rightarrow> slot \<Rightarrow> 'i thread_store option" where
  "remove_phantoms f by_date st c =
     (case slot_next st c of
        None \<Rightarrow> Some st
      | Some ch \<Rightarrow>
          if item (nodes st ch) = None
          then
            Option.bind (remove_phantom f by_date st c ch)
              (\<lambda>r. remove_phantoms f by_date (fst r) (snd r))
          else remove_phantoms f by_date st (Next ch))"

section \<open>Threading\<close>

type_synonym 'i tables = "(64 word \<times> node_ptr) list \<times> ('i \<times> node_ptr) list"

text \<open>The references of an item, from parent to root. The new store and table of ids.\<close>

fun link_references ::
    "'i thread_store \<Rightarrow> (64 word \<times> node_ptr) list \<Rightarrow> node_ptr \<Rightarrow> 64 word list \<Rightarrow>
       ('i thread_store \<times> (64 word \<times> node_ptr) list) option" where
  "link_references st id_table ch [] = Some (st, id_table)"
| "link_references st id_table ch (r # rs) =
     (if r = 0 then link_references st id_table ch rs
      else
        (case map_of id_table r of
           None \<Rightarrow>
             (let (st, c) = alloc0 st; id_table = AList.update r c id_table in
              if c \<noteq> ch
              then Option.bind (container_parent_child st c ch) (\<lambda>st. link_references st id_table c rs)
              else link_references st id_table c rs)
         | Some c \<Rightarrow>
             if c \<noteq> ch
             then Option.bind (container_parent_child st c ch) (\<lambda>st. Some (st, id_table))
             else link_references st id_table c rs))"

text \<open>The node of an item.\<close>

definition item_node ::
    "'i ItemFunctions \<Rightarrow> 'i thread_store \<Rightarrow> 'i tables \<Rightarrow> 'i \<Rightarrow> 'i thread_store \<times> 'i tables \<times> node_ptr" where
  "item_node f st tables i =
     (let (id_table, no_id_table) = tables; message_id = get_message_id_func f i in
      if message_id \<noteq> 0
      then
        (case map_of id_table message_id of
           Some c \<Rightarrow>
             if norder (nodes st c) \<noteq> 0
             then (let (st, c) = alloc0 st in (st, (id_table, AList.update i c no_id_table), c))
             else (st, (id_table, no_id_table), c)
         | None \<Rightarrow>
             (let (st, c) = alloc0 st in (st, (AList.update message_id c id_table, no_id_table), c)))
      else (let (st, c) = alloc0 st in (st, (id_table, AList.update i c no_id_table), c)))"

definition thread_item ::
    "'i ItemFunctions \<Rightarrow> 'i thread_store \<Rightarrow> 'i tables \<Rightarrow> nat \<Rightarrow> 'i \<Rightarrow> ('i thread_store \<times> 'i tables) option" where
  "thread_item f st tables k i =
     (let (st, (id_table, no_id_table), c) = item_node f st tables i;
          st = upd_node c (\<lambda>n. n\<lparr>item := Some i, norder := of_nat (k + 1)\<rparr>) st
      in Option.bind (link_references st id_table c (get_references_func f i))
           (\<lambda>(st, id_table). Some (st, (id_table, no_id_table))))"

fun link_items ::
    "'i ItemFunctions \<Rightarrow> 'i thread_store \<Rightarrow> 'i tables \<Rightarrow> nat \<Rightarrow> 'i list \<Rightarrow> ('i thread_store \<times> 'i tables) option" where
  "link_items f st tables k [] = Some (st, tables)"
| "link_items f st tables k (i # is) =
     Option.bind (thread_item f st tables k i) (\<lambda>(st, tables). link_items f st tables (k + 1) is)"

definition empty_store :: "'i thread_store" where
  "empty_store =
     \<lparr>nodes = (\<lambda>p. \<lparr>nnext = None, parent = None, child = None, item = None, root_subject = None, norder = 0, re = False\<rparr>),
      tree = None, next_node = 0, freed = []\<rparr>"

text \<open>The values of the two hash tables in the order in which GLib visits them, and its sorting function.\<close>

record 'i glib =
  id_foreach :: "(64 word \<times> node_ptr) list \<Rightarrow> node_ptr list"
  no_id_foreach :: "('i \<times> node_ptr) list \<Rightarrow> node_ptr list"
  qsort_with_data :: qsort

definition FLAG_SUBJECT :: guint32 where "FLAG_SUBJECT = 1"
definition FLAG_SORT :: guint32 where "FLAG_SORT = 2"

definition thread_items ::
    "'i glib \<Rightarrow> 'i ItemFunctions \<Rightarrow> guint32 \<Rightarrow> 'i list \<Rightarrow> 'i thread_store option" where
  "thread_items glib f flags items =
     Option.bind (link_items f empty_store ([], []) 0 items) (\<lambda>(st, id_table, no_id_table).
       (let st = fold hashloop (id_foreach glib id_table) st;
            st = fold hashloop (no_id_foreach glib no_id_table) st
        in
         Option.bind (prune_empty st Head) (\<lambda>st.
         Option.bind (if flags AND FLAG_SUBJECT \<noteq> 0 then group_root_set f st else Some st) (\<lambda>st.
         Option.bind
           (if flags AND FLAG_SORT \<noteq> 0
            then
              (case (get_date_sent_func f, get_date_received_func f) of
                 (Some sent, Some received) \<Rightarrow> sort_thread (qsort_with_data glib) sent received st Head
               | _ \<Rightarrow> None)
            else Some st)
           (\<lambda>st. remove_phantoms f (flags AND FLAG_SORT \<noteq> 0) st Head)))))"

text \<open>\<^verbatim>\<open>NULL\<close> (\<open>Some None\<close>) is the result when a date function that sorting needs is missing.\<close>

definition camel_folder_thread_new_items ::
    "'i glib \<Rightarrow> 'i list \<Rightarrow> guint32 \<Rightarrow> 'i ItemFunctions \<Rightarrow> 'i thread_store option option" where
  "camel_folder_thread_new_items glib items flags f =
     (if flags AND FLAG_SORT \<noteq> 0 \<and> (get_date_sent_func f = None \<or> get_date_received_func f = None)
      then Some None
      else map_option Some (thread_items glib f flags items))"

declare has_ancestor.simps [code]
  and scan_list.simps [code]
  and promote.simps [code]
  and prune_empty.simps [code]
  and scan_items.simps [code]
  and gather.simps [code]
  and list_end.simps [code]
  and merge_loop.simps [code]
  and collect_list.simps [code]
  and sort_children.simps [code]
  and pick_oldest.simps [code]
  and fix_parents.simps [code]
  and remove_phantoms.simps [code]

end
