(* ===== verification/Camel_ThreadTree.thy ===== *)
theory Camel_ThreadTree
  imports Camel_FolderThread
begin

text \<open>
  Threads as trees, and the trees that the store of \<open>Camel_FolderThread\<close> holds: a list of siblings is a segment
  of linked nodes. What an operation leaves alone is a \<open>slot_frame\<close>.
\<close>

section \<open>Threads\<close>

datatype message_tree = Thread (top: node_ptr) (kids: "message_tree list")

fun tree_ptrs :: "message_tree list \<Rightarrow> node_ptr list" where
  "tree_ptrs [] = []"
| "tree_ptrs (Thread q us # ts) = q # tree_ptrs us @ tree_ptrs ts"

lemma ptrs_append [simp]: "tree_ptrs (ts @ us) = tree_ptrs ts @ tree_ptrs us"
  by (induction ts rule: tree_ptrs.induct) auto

lemma ptrs_Nil_iff [simp]: "tree_ptrs ts = [] \<longleftrightarrow> ts = []"
  by (cases ts rule: tree_ptrs.cases) auto

lemma ptrs_Cons: "tree_ptrs (t # ts) = top t # tree_ptrs (kids t) @ tree_ptrs ts"
  by (cases t) simp

lemma top_in_ptrs: "t \<in> set ts \<Longrightarrow> top t \<in> set (tree_ptrs ts)"
  by (induction ts) (auto simp: ptrs_Cons)

lemma kids_in_ptrs: "t \<in> set ts \<Longrightarrow> set (tree_ptrs (kids t)) \<subseteq> set (tree_ptrs ts)"
  by (induction ts) (auto simp: ptrs_Cons)

lemma mset_ptrs_rev [simp]: "mset (tree_ptrs (rev ts)) = mset (tree_ptrs ts)"
  by (induction ts) (auto simp: ptrs_Cons)

lemma set_ptrs_rev [simp]: "set (tree_ptrs (rev ts)) = set (tree_ptrs ts)"
  by (metis mset_ptrs_rev set_mset_mset)

lemma distinct_ptrs_rev [simp]: "distinct (tree_ptrs (rev ts)) = distinct (tree_ptrs ts)"
  by (metis mset_ptrs_rev mset_eq_imp_distinct_iff)

lemma length_ptrs_rev [simp]: "length (tree_ptrs (rev ts)) = length (tree_ptrs ts)"
  by (metis mset_ptrs_rev size_mset)

text \<open>A segment of siblings from \<open>p\<close> up to \<open>r\<close>; \<open>kin\<close>: the pointers to parents.\<close>

fun seg :: "(node_ptr \<Rightarrow> 'i thread_node) \<Rightarrow> node_ptr option \<Rightarrow> message_tree list \<Rightarrow> node_ptr option \<Rightarrow> bool" where
  "seg h p [] r \<longleftrightarrow> p = r"
| "seg h p (Thread q us # ts) r \<longleftrightarrow> p = Some q \<and> seg h (child (h q)) us None \<and> seg h (nnext (h q)) ts r"

abbreviation trees_at :: "(node_ptr \<Rightarrow> 'i thread_node) \<Rightarrow> node_ptr option \<Rightarrow> message_tree list \<Rightarrow> bool" where
  "trees_at h p ts \<equiv> seg h p ts None"

fun kin :: "(node_ptr \<Rightarrow> 'i thread_node) \<Rightarrow> node_ptr option \<Rightarrow> message_tree list \<Rightarrow> bool" where
  "kin h par [] \<longleftrightarrow> True"
| "kin h par (Thread q us # ts) \<longleftrightarrow> parent (h q) = par \<and> kin h (Some q) us \<and> kin h par ts"

lemma seg_append: "seg h p (ts @ us) r \<longleftrightarrow> (\<exists>m. seg h p ts m \<and> seg h m us r)"
  by (induction h p ts r rule: seg.induct) auto

lemma kin_append [simp]: "kin h par (ts @ us) \<longleftrightarrow> kin h par ts \<and> kin h par us"
  by (induction h par ts rule: kin.induct) auto

lemma seg_Cons: "seg h p (t # ts) r \<longleftrightarrow> p = Some (top t) \<and> trees_at h (child (h (top t))) (kids t) \<and> seg h (nnext (h (top t))) ts r"
  by (cases t) simp

lemma kin_Cons: "kin h par (t # ts) \<longleftrightarrow> parent (h (top t)) = par \<and> kin h (Some (top t)) (kids t) \<and> kin h par ts"
  by (cases t) simp

lemma kin_rev [simp]: "kin h par (rev ts) \<longleftrightarrow> kin h par ts"
  by (induction ts) (auto simp: kin_Cons)

lemma seg_cong:
  "(\<And>q. q \<in> set (tree_ptrs ts) \<Longrightarrow> child (h' q) = child (h q) \<and> nnext (h' q) = nnext (h q)) \<Longrightarrow> seg h' p ts r = seg h p ts r"
  by (induction h p ts r rule: seg.induct) auto

lemma kin_cong:
  "(\<And>q. q \<in> set (tree_ptrs ts) \<Longrightarrow> parent (h' q) = parent (h q)) \<Longrightarrow> kin h' par ts = kin h par ts"
  by (induction h par ts rule: kin.induct) auto

section \<open>Frames\<close>

fun slot_out :: "slot \<Rightarrow> node_ptr set \<Rightarrow> bool" where
  "slot_out Head A \<longleftrightarrow> True"
| "slot_out (Child p) A \<longleftrightarrow> p \<notin> A"
| "slot_out (Next p) A \<longleftrightarrow> p \<notin> A"

text \<open>Only nodes of \<open>A\<close> and the slot \<open>s\<close> change.\<close>

definition slot_frame :: "slot \<Rightarrow> node_ptr set \<Rightarrow> 'i thread_store \<Rightarrow> 'i thread_store \<Rightarrow> bool" where
  "slot_frame s A st st' \<longleftrightarrow> next_node st' = next_node st \<and> tree (set_slot s None st') = tree (set_slot s None st) \<and>
     (\<forall>q. q \<notin> A \<longrightarrow> nodes (set_slot s None st') q = nodes (set_slot s None st) q)"

lemma nodes_upd [simp]: "nodes (upd_node p f st) = (nodes st)(p := f (nodes st p))"
  and tree_upd [simp]: "tree (upd_node p f st) = tree st"
  and next_node_upd [simp]: "next_node (upd_node p f st) = next_node st"
  and freed_upd [simp]: "freed (upd_node p f st) = freed st"
  by (simp_all add: upd_node_def)

lemma slot_next_set_slot [simp]: "slot_next (set_slot s v st) s = v"
  by (cases s) simp_all

lemma set_slot_simps [simp]:
  "next_node (set_slot s v st) = next_node st" "freed (set_slot s v st) = freed st"
  "item (nodes (set_slot s v st) q) = item (nodes st q)" "parent (nodes (set_slot s v st) q) = parent (nodes st q)"
  "root_subject (nodes (set_slot s v st) q) = root_subject (nodes st q)"
  "norder (nodes (set_slot s v st) q) = norder (nodes st q)" "re (nodes (set_slot s v st) q) = re (nodes st q)"
  by (cases s; simp)+

lemma free_node_simps [simp]:
  "nodes (free_node p st) = nodes st" "tree (free_node p st) = tree st" "next_node (free_node p st) = next_node st"
  "freed (free_node p st) = p # freed st" "slot_next (free_node p st) s = slot_next st s"
  by (cases s; simp add: free_node_def)+

lemma frame_refl [simp]: "slot_frame s A st st"
  by (simp add: slot_frame_def)

lemma frame_trans: "slot_frame s A st st' \<Longrightarrow> slot_frame s A st' st'' \<Longrightarrow> slot_frame s A st st''"
  by (simp add: slot_frame_def)

lemma frame_mono: "slot_frame s A st st' \<Longrightarrow> A \<subseteq> B \<Longrightarrow> slot_frame s B st st'"
  by (auto simp: slot_frame_def)

lemma frame_set_slot [simp]: "slot_frame s A st (set_slot s v st)"
  by (cases s) (simp_all add: slot_frame_def)

lemma frame_upd: "p \<in> A \<Longrightarrow> slot_frame s A st (upd_node p f st)"
  by (cases s) (auto simp: slot_frame_def)

lemma frame_free [simp]: "slot_frame s A st (free_node p st)"
  by (cases s) (simp_all add: slot_frame_def)

lemma frame_nodes: "slot_frame s A st st' \<Longrightarrow> q \<notin> A \<Longrightarrow> slot_out s {q} \<Longrightarrow> nodes st' q = nodes st q"
  by (cases s) (auto simp: slot_frame_def fun_upd_def)

lemma frameI:
  "(\<And>q. q \<notin> A \<Longrightarrow> nodes st' q = nodes st q) \<Longrightarrow> tree st' = tree st \<Longrightarrow> next_node st' = next_node st \<Longrightarrow> slot_frame s A st st'"
  by (cases s) (auto simp: slot_frame_def)

text \<open>A frame on a slot of a node of \<open>B\<close> is a frame on any slot.\<close>

lemma frame_inner:
  assumes "slot_frame s' A st st'" and "s' = Child c \<or> s' = Next c" and "c \<in> B" and "A \<subseteq> B"
  shows "slot_frame s B st st'"
proof (rule frameI)
  show "nodes st' q = nodes st q" if "q \<notin> B" for q
  proof -
    have "q \<notin> A" "q \<noteq> c" using assms(3,4) that by auto
    then show ?thesis using frame_nodes [OF assms(1), of q] assms(2) by auto
  qed
  show "tree st' = tree st" "next_node st' = next_node st"
    using assms(1,2) by (auto simp: slot_frame_def)
qed

lemma frame_fields:
  assumes "slot_frame s A st st'" and "q \<notin> A"
  shows "s \<noteq> Next q \<longrightarrow> nnext (nodes st' q) = nnext (nodes st q)"
    and "s \<noteq> Child q \<longrightarrow> child (nodes st' q) = child (nodes st q)"
    and "parent (nodes st' q) = parent (nodes st q)" and "item (nodes st' q) = item (nodes st q)"
    and "root_subject (nodes st' q) = root_subject (nodes st q)" and "re (nodes st' q) = re (nodes st q)"
    and "norder (nodes st' q) = norder (nodes st q)"
proof -
  have eq: "nodes (set_slot s None st') q = nodes (set_slot s None st) q"
    using assms by (simp add: slot_frame_def)
  show "parent (nodes st' q) = parent (nodes st q)" "item (nodes st' q) = item (nodes st q)"
    "root_subject (nodes st' q) = root_subject (nodes st q)" "re (nodes st' q) = re (nodes st q)"
    "norder (nodes st' q) = norder (nodes st q)"
    using arg_cong [OF eq, of parent] arg_cong [OF eq, of item] arg_cong [OF eq, of root_subject]
      arg_cong [OF eq, of re] arg_cong [OF eq, of norder] by simp_all
  show "s \<noteq> Next q \<longrightarrow> nnext (nodes st' q) = nnext (nodes st q)"
    using arg_cong [OF eq, of nnext] by (cases s) (auto split: if_splits)
  show "s \<noteq> Child q \<longrightarrow> child (nodes st' q) = child (nodes st q)"
    using arg_cong [OF eq, of child] by (cases s) (auto split: if_splits)
qed

text \<open>Trees outside a frame stay.\<close>

lemma frame_seg:
  assumes "slot_frame s A st st'" and "set (tree_ptrs ts) \<inter> A = {}" and "slot_out s (set (tree_ptrs ts))"
  shows "seg (nodes st') p ts r = seg (nodes st) p ts r"
proof (rule seg_cong)
  fix q assume "q \<in> set (tree_ptrs ts)"
  then have "q \<notin> A" "s \<noteq> Next q" "s \<noteq> Child q" using assms(2,3) by auto
  then show "child (nodes st' q) = child (nodes st q) \<and> nnext (nodes st' q) = nnext (nodes st q)"
    using frame_fields(1,2) [OF assms(1), of q] by simp
qed

lemma frame_kin:
  "slot_frame s A st st' \<Longrightarrow> set (tree_ptrs ts) \<inter> A = {} \<Longrightarrow> kin (nodes st') par ts = kin (nodes st) par ts"
  by (rule kin_cong, rule frame_fields(3)) auto

lemma frame_slot_next:
  assumes "slot_frame s' A st st'" and "s' = Child c \<or> s' = Next c" and "slot_out s (insert c A)"
  shows "slot_next st' s = slot_next st s"
  using frame_nodes [OF assms(1)] assms by (cases s) (auto simp: slot_frame_def)

lemma seg_set_slot [simp]:
  "slot_out s (set (tree_ptrs ts)) \<Longrightarrow> seg (nodes (set_slot s v st)) p ts r = seg (nodes st) p ts r"
  by (rule frame_seg [OF frame_set_slot, of _ "{}"]) simp_all

lemma kin_set_slot [simp]: "kin (nodes (set_slot s v st)) par ts = kin (nodes st) par ts"
  by (rule kin_cong) simp

lemma slot_out_mono: "slot_out s A \<Longrightarrow> B \<subseteq> A \<Longrightarrow> slot_out s B"
  by (cases s) auto

lemma slot_out_Un [simp]: "slot_out s (A \<union> B) \<longleftrightarrow> slot_out s A \<and> slot_out s B"
  by (cases s) auto

lemma slot_out_insert: "slot_out s (insert a A) \<longleftrightarrow> slot_out s {a} \<and> slot_out s A"
  by (cases s) auto

lemma set_slot_out [simp]: "slot_out s {q} \<Longrightarrow> nodes (set_slot s v st) q = nodes st q"
  by (cases s) auto

lemma slot_next_upd: "slot_out s {p} \<Longrightarrow> slot_next (upd_node p f st) s = slot_next st s"
  by (cases s) auto

section \<open>Chains\<close>

text \<open>A list of nodes linked by \<open>nnext\<close>, without what is below them. \<open>end_slot s xs\<close> is where the list goes on.\<close>

fun chain :: "(node_ptr \<Rightarrow> 'i thread_node) \<Rightarrow> node_ptr option \<Rightarrow> node_ptr list \<Rightarrow> bool" where
  "chain h p [] \<longleftrightarrow> p = None"
| "chain h p (x # xs) \<longleftrightarrow> p = Some x \<and> chain h (nnext (h x)) xs"

fun end_slot :: "slot \<Rightarrow> node_ptr list \<Rightarrow> slot" where
  "end_slot s [] = s"
| "end_slot s (x # xs) = end_slot (Next x) xs"

lemma end_slot_snoc [simp]: "end_slot s (xs @ [x]) = Next x"
  by (induction xs arbitrary: s) auto

lemma seg_chain: "trees_at h p ts \<Longrightarrow> chain h p (map top ts)"
  by (induction ts arbitrary: p) (auto simp: seg_Cons)

lemma chain_cong: "(\<And>q. q \<in> set xs \<Longrightarrow> nnext (h' q) = nnext (h q)) \<Longrightarrow> chain h' p xs = chain h p xs"
  by (induction xs arbitrary: p) auto

lemma scan_list_finds:
  "chain (nodes st) (slot_next st s) (xs @ c # ys) \<Longrightarrow> c \<notin> set xs \<Longrightarrow> scan_list st s c = Some (Some (end_slot s xs))"
proof (induction xs arbitrary: s)
  case Nil
  then show ?case by (simp add: scan_list.simps [of st s])
next
  case (Cons x xs)
  then show ?case using Cons.IH [of "Next x"] by (simp add: scan_list.simps [of st s])
qed

lemma list_end_finds: "chain (nodes st) (slot_next st s) xs \<Longrightarrow> list_end st s = Some (end_slot s xs)"
proof (induction xs arbitrary: s)
  case Nil
  then show ?case by (simp add: list_end.simps [of st s])
next
  case (Cons x xs)
  then show ?case using Cons.IH [of "Next x"] by (simp add: list_end.simps [of st s])
qed

lemma chain_set_slot [simp]:
  "slot_out s (set xs) \<Longrightarrow> chain (nodes (set_slot s v st)) p xs = chain (nodes st) p xs"
  by (rule chain_cong) (cases s, auto)

lemma slot_end_slot: "chain (nodes st) (slot_next st s) (xs @ ys) \<Longrightarrow> chain (nodes st) (slot_next st (end_slot s xs)) ys"
  by (induction xs arbitrary: s) auto

lemma slot_out_end: "slot_out s A \<Longrightarrow> set xs \<inter> A = {} \<Longrightarrow> slot_out (end_slot s xs) A"
  by (induction xs arbitrary: s) auto

text \<open>Writing the slot after \<open>xs\<close> replaces what comes there.\<close>

lemma chain_set_end:
  "chain (nodes st) (slot_next st s) (xs @ ys) \<Longrightarrow> distinct xs \<Longrightarrow> slot_out s (set xs) \<Longrightarrow>
     chain (nodes (set_slot (end_slot s xs) v st)) v zs \<Longrightarrow>
     chain (nodes (set_slot (end_slot s xs) v st)) (slot_next (set_slot (end_slot s xs) v st) s) (xs @ zs)"
proof (induction xs arbitrary: s)
  case Nil
  then show ?case by simp
next
  case (Cons x xs)
  let ?st = "set_slot (end_slot (Next x) xs) v st"
  have "slot_next ?st s = Some x"
  proof -
    have out: "slot_out s (set (x # xs))" using Cons.prems(3) .
    then have "end_slot (Next x) xs \<noteq> s" by (cases s; cases xs rule: rev_cases) auto
    moreover have "slot_next st s = Some x" using Cons.prems(1) by simp
    ultimately show ?thesis
      using out by (cases s; cases xs rule: rev_cases) (auto simp: upd_node_def)
  qed
  moreover have "chain (nodes ?st) (slot_next ?st (Next x)) (xs @ zs)"
    using Cons.IH [of "Next x"] Cons.prems by simp
  ultimately show ?case by simp
qed

section \<open>Pruning\<close>

lemma promote_works:
  assumes "trees_at (nodes st) ch us" and "kin (nodes st) par us" and "distinct (tree_ptrs us @ tree_ptrs rest)" and "c \<notin> set (tree_ptrs us)"
    and "slot_out s (set (tree_ptrs us) \<union> set (tree_ptrs rest))" and "trees_at (nodes st) (slot_next st s) rest"
  shows "\<exists>st'. promote st s c ch = Some st' \<and> trees_at (nodes st') (slot_next st' s) (rev us @ rest) \<and>
    kin (nodes st') (parent (nodes st c)) us \<and> slot_frame s (set (tree_ptrs us)) st st' \<and>
    (\<forall>q. item (nodes st' q) = item (nodes st q)) \<and> freed st' = freed st"
  using assms
proof (induction us arbitrary: st ch rest)
  case Nil
  then show ?case by (simp add: promote.simps)
next
  case (Cons t us)
  define st1 where "st1 = promote_one st s c (top t)"
  have ch: "ch = Some (top t)" "trees_at (nodes st) (child (nodes st (top t))) (kids t)"
      "trees_at (nodes st) (nnext (nodes st (top t))) us"
    using Cons.prems(1) by (simp_all add: seg_Cons)
  have out: "slot_out s {top t}" "slot_out s (set (tree_ptrs (kids t)))" "slot_out s (set (tree_ptrs us))" "slot_out s (set (tree_ptrs rest))"
    using Cons.prems(5) by (cases s; auto simp: ptrs_Cons)+
  have dis: "top t \<notin> set (tree_ptrs (kids t))" "top t \<notin> set (tree_ptrs us)" "top t \<notin> set (tree_ptrs rest)"
    "set (tree_ptrs (kids t)) \<inter> set (tree_ptrs us) = {}" "top t \<noteq> c" "distinct (tree_ptrs us @ tree_ptrs (t # rest))"
    using Cons.prems(3,4) by (auto simp: ptrs_Cons)
  have fr: "slot_frame s {top t} st st1"
    unfolding st1_def promote_one_def Let_def
    by (intro frame_trans [OF _ frame_set_slot] frame_trans [OF _ frame_upd] frame_refl) simp_all
  have st1: "slot_next st1 s = Some (top t)" "nnext (nodes st1 (top t)) = slot_next st s"
      "child (nodes st1 (top t)) = child (nodes st (top t))" "parent (nodes st1 (top t)) = parent (nodes st c)"
    using out(1) by (simp_all add: st1_def promote_one_def slot_next_upd)
  have it: "item (nodes st1 q) = item (nodes st q)" "freed st1 = freed st" for q
    by (simp_all add: st1_def promote_one_def Let_def)
  have "parent (nodes st1 c) = parent (nodes st c)" using frame_fields(3) [OF fr, of c] dis(5) by simp
  moreover have "trees_at (nodes st1) (nnext (nodes st (top t))) us"
    using frame_seg [OF fr, of us] dis(2) out(3) ch(3) by simp
  moreover have "kin (nodes st1) par us"
    using frame_kin [OF fr, of us] dis(2) Cons.prems(2) by (simp add: kin_Cons)
  moreover have "trees_at (nodes st1) (slot_next st1 s) (t # rest)"
    using frame_seg [OF fr, of "kids t"] frame_seg [OF fr, of rest] dis(1,3) out(2,4) ch(2) Cons.prems(6) st1
    by (simp add: seg_Cons)
  moreover have "slot_out s (set (tree_ptrs us) \<union> set (tree_ptrs (t # rest)))"
    using Cons.prems(5) by (cases s) (auto simp: ptrs_Cons)
  moreover have "c \<notin> set (tree_ptrs us)" using Cons.prems(4) by (simp add: ptrs_Cons)
  ultimately obtain st' where st': "promote st1 s c (nnext (nodes st (top t))) = Some st'"
      "trees_at (nodes st') (slot_next st' s) (rev us @ t # rest)" "kin (nodes st') (parent (nodes st c)) us"
      "slot_frame s (set (tree_ptrs us)) st1 st'" "\<forall>q. item (nodes st' q) = item (nodes st1 q)" "freed st' = freed st1"
    using Cons.IH [of st1 "nnext (nodes st (top t))" "t # rest"] dis(6) by auto
  have "kin (nodes st1) (Some (top t)) (kids t)"
    using frame_kin [OF fr, of "kids t"] dis(1) Cons.prems(2) by (simp add: kin_Cons)
  then have "kin (nodes st') (Some (top t)) (kids t)"
    using frame_kin [OF st'(4), of "kids t"] dis(4) by simp
  moreover have "parent (nodes st' (top t)) = parent (nodes st c)"
    using frame_fields(3) [OF st'(4) dis(2)] st1(4) by simp
  moreover have "slot_frame s (set (tree_ptrs (t # us))) st st'"
    by (rule frame_trans [OF frame_mono [OF fr] frame_mono [OF st'(4)]]) (auto simp: ptrs_Cons)
  moreover have "promote st s c ch = Some st'"
    using st'(1) ch(1) by (simp add: promote.simps [of st] st1_def)
  ultimately show ?case using st' it by (simp add: kin_Cons)
qed

text \<open>All nodes have an item; only roots have none, and then two children.\<close>

definition filled :: "(node_ptr \<Rightarrow> 'i thread_node) \<Rightarrow> message_tree list \<Rightarrow> bool" where
  "filled h ts \<longleftrightarrow> (\<forall>q\<in>set (tree_ptrs ts). item (h q) \<noteq> None)"

definition settled :: "(node_ptr \<Rightarrow> 'i thread_node) \<Rightarrow> bool \<Rightarrow> message_tree list \<Rightarrow> bool" where
  "settled h root ts \<longleftrightarrow>
     (\<forall>t\<in>set ts. filled h (kids t) \<and> (item (h (top t)) = None \<longrightarrow> root \<and> 2 \<le> length (kids t)))"

lemma settled_filled: "settled h False ts \<longleftrightarrow> filled h ts"
  by (induction ts) (auto simp: settled_def filled_def ptrs_Cons)

lemma settled_Cons:
  "settled h root (t # ts) \<longleftrightarrow>
     filled h (kids t) \<and> (item (h (top t)) = None \<longrightarrow> root \<and> 2 \<le> length (kids t)) \<and> settled h root ts"
  by (auto simp: settled_def)

lemma settled_cong: "(\<And>q. item (h' q) = item (h q)) \<Longrightarrow> settled h' root ts = settled h root ts"
  by (simp add: settled_def filled_def)

definition pruned ::
    "slot \<Rightarrow> node_ptr option \<Rightarrow> 'i thread_store \<Rightarrow> message_tree list \<Rightarrow> 'i thread_store \<Rightarrow> message_tree list \<Rightarrow> bool" where
  "pruned s par st ts st' ts' \<longleftrightarrow>
     trees_at (nodes st') (slot_next st' s) ts' \<and> kin (nodes st') par ts' \<and> distinct (tree_ptrs ts') \<and>
     set (tree_ptrs ts') \<subseteq> set (tree_ptrs ts) \<and> slot_frame s (set (tree_ptrs ts)) st st' \<and>
     (\<forall>q. item (nodes st' q) = item (nodes st q)) \<and>
     (\<forall>q\<in>set (tree_ptrs ts) - set (tree_ptrs ts'). item (nodes st q) = None) \<and> settled (nodes st') (par = None) ts' \<and>
     (\<exists>F. freed st' = F @ freed st \<and> distinct F \<and> set F \<subseteq> set (tree_ptrs ts) - set (tree_ptrs ts'))"

lemma prunedD:
  assumes "pruned s par st ts st' ts'"
  shows "trees_at (nodes st') (slot_next st' s) ts'" "kin (nodes st') par ts'" "distinct (tree_ptrs ts')"
    "set (tree_ptrs ts') \<subseteq> set (tree_ptrs ts)" "slot_frame s (set (tree_ptrs ts)) st st'" "\<And>q. item (nodes st' q) = item (nodes st q)"
    "\<And>q. q \<in> set (tree_ptrs ts) \<Longrightarrow> q \<notin> set (tree_ptrs ts') \<Longrightarrow> item (nodes st q) = None" "settled (nodes st') (par = None) ts'"
    "\<exists>F. freed st' = F @ freed st \<and> distinct F \<and> set F \<subseteq> set (tree_ptrs ts) - set (tree_ptrs ts')"
  using assms by (auto simp: pruned_def)

text \<open>One loop after another, the first on \<open>ts\<close> and the second on what it left.\<close>

lemma pruned_compose:
  assumes "pruned s par st1 ts1 st2 ts2" and "slot_frame s A st st1" and "\<And>q. item (nodes st1 q) = item (nodes st q)"
    and "freed st1 = F1 @ freed st" and "distinct F1" and "set F1 \<subseteq> A - set (tree_ptrs ts1)" and "set (tree_ptrs ts1) \<subseteq> A"
    and "\<And>q. q \<in> A \<Longrightarrow> q \<notin> set (tree_ptrs ts1) \<Longrightarrow> item (nodes st q) = None" and "A = set (tree_ptrs ts)"
  shows "pruned s par st ts st2 ts2"
proof -
  note p = prunedD [OF assms(1)]
  obtain F where F: "freed st2 = F @ freed st1" "distinct F" "set F \<subseteq> set (tree_ptrs ts1) - set (tree_ptrs ts2)" using p(9) by blast
  have "slot_frame s A st st2" using assms(2) frame_mono [OF p(5) assms(7)] frame_trans by blast
  moreover have "\<exists>F. freed st2 = F @ freed st \<and> distinct F \<and> set F \<subseteq> A - set (tree_ptrs ts2)"
    using F assms(4-7) p(4) by (intro exI [of _ "F @ F1"]) auto
  moreover have "item (nodes st q) = None" if "q \<in> A" "q \<notin> set (tree_ptrs ts2)" for q
    using assms(8) [OF that(1)] p(7) [of q] that(2) assms(3) by (cases "q \<in> set (tree_ptrs ts1)") auto
  ultimately show ?thesis
    using p(1-4,6,8) assms(3,7,9) unfolding pruned_def by auto
qed

lemma prune_works:
  "trees_at (nodes st) (slot_next st s) ts \<Longrightarrow> kin (nodes st) par ts \<Longrightarrow> distinct (tree_ptrs ts) \<Longrightarrow>
     slot_out s (set (tree_ptrs ts)) \<Longrightarrow> \<exists>st' ts'. prune_empty st s = Some st' \<and> pruned s par st ts st' ts'"
proof (induction "length (tree_ptrs ts)" arbitrary: st s par ts rule: less_induct)
  case less
  show ?case
  proof (cases ts)
    case Nil
    then show ?thesis using less.prems
      by (intro exI [of _ st] exI [of _ "[]"]) (simp add: prune_empty.simps pruned_def settled_def)
  next
    case (Cons t rest)
    obtain c us where t: "t = Thread c us" by (cases t)
    have ts: "ts = Thread c us # rest" using Cons t by simp
    have dis: "c \<notin> set (tree_ptrs us)" "c \<notin> set (tree_ptrs rest)" "distinct (tree_ptrs us)" "distinct (tree_ptrs rest)"
        "set (tree_ptrs us) \<inter> set (tree_ptrs rest) = {}"
      using less.prems(3) by (auto simp: ts)
    have out: "slot_out s {c}" "slot_out s (set (tree_ptrs us))" "slot_out s (set (tree_ptrs rest))"
      using less.prems(4) by (cases s; auto simp: ts)+
    have sh: "slot_next st s = Some c" "trees_at (nodes st) (child (nodes st c)) us" "trees_at (nodes st) (nnext (nodes st c)) rest"
      and kn: "parent (nodes st c) = par" "kin (nodes st) (Some c) us" "kin (nodes st) par rest"
      using less.prems(1,2) by (simp_all add: ts)
    obtain st1 us' where run1: "prune_empty st (Child c) = Some st1" and p: "pruned (Child c) (Some c) st us st1 us'"
      using less.hyps [of us st "Child c" "Some c"] sh(2) kn(2) dis(1,3) by (auto simp: ts)
    note d = prunedD [OF p]
    have fl: "filled (nodes st1) us'" using d(8) by (simp add: settled_filled)
    have c1: "nnext (nodes st1 c) = nnext (nodes st c)" "parent (nodes st1 c) = par" "item (nodes st1 c) = item (nodes st c)"
      using frame_fields [OF d(5) dis(1)] kn(1) by simp_all
    have fr1: "slot_frame s (set (tree_ptrs ts)) st st1"
      by (rule frame_inner [OF d(5), of c]) (auto simp: ts)
    have s1: "slot_next st1 s = Some c"
      using frame_slot_next [OF d(5) _ iffD2 [OF slot_out_insert]] out(1,2) sh(1) by auto
    have r1: "trees_at (nodes st1) (nnext (nodes st1 c)) rest" "kin (nodes st1) par rest"
      using frame_seg [OF d(5), of rest] frame_kin [OF d(5), of rest] dis(2,5) sh(3) kn(3) c1(1) by auto
    have sub: "set (tree_ptrs us') \<subseteq> set (tree_ptrs us)" using d(4) .
    have us': "trees_at (nodes st1) (child (nodes st1 c)) us'" using d(1) by simp
    obtain F1 where F1: "freed st1 = F1 @ freed st" "distinct F1" "set F1 \<subseteq> set (tree_ptrs us) - set (tree_ptrs us')" using d(9) by blast
    note run = prune_empty.simps [of st s]
    consider (drop) "item (nodes st1 c) = None" "child (nodes st1 c) = None"
      | (prom) "item (nodes st1 c) = None" "child (nodes st1 c) \<noteq> None"
          "par \<noteq> None \<or> nnext (nodes st1 (the (child (nodes st1 c)))) = None"
      | (keep) "item (nodes st1 c) = None \<longrightarrow>
          child (nodes st1 c) \<noteq> None \<and> par = None \<and> nnext (nodes st1 (the (child (nodes st1 c)))) \<noteq> None"
      by argo
    then show ?thesis
    proof cases
      case drop
      have "us' = []" using us' drop(2) by (cases us') (auto simp: seg_Cons)
      define st2 where "st2 = free_node c (set_slot s (nnext (nodes st1 c)) st1)"
      have "trees_at (nodes st2) (slot_next st2 s) rest" "kin (nodes st2) par rest"
        using r1 out(3)
        by (simp_all add: st2_def)
      then obtain st' ts' where st': "prune_empty st2 s = Some st'" "pruned s par st2 rest st' ts'"
        using less.hyps [of rest st2 s par] dis(4) out(3) by (auto simp: ts)
      have "pruned s par st ts st' ts'"
      proof (rule pruned_compose [OF st'(2)])
        show "slot_frame s (set (tree_ptrs ts)) st st2"
          unfolding st2_def by (intro frame_trans [OF _ frame_free] frame_trans [OF _ frame_set_slot] fr1)
        show "freed st2 = (c # F1) @ freed st" using F1(1) by (simp add: st2_def)
        show "distinct (c # F1)" "set (c # F1) \<subseteq> set (tree_ptrs ts) - set (tree_ptrs rest)"
          using F1 dis by (auto simp: ts)
        show "item (nodes st q) = None" if "q \<in> set (tree_ptrs ts)" "q \<notin> set (tree_ptrs rest)" for q
          using that d(7) [of q] drop(1) c1(3) \<open>us' = []\<close> by (auto simp: ts)
      qed (use d(6) in \<open>auto simp: st2_def ts\<close>)
      then show ?thesis using st'(1) run run1 sh(1) drop by (auto simp: st2_def)
    next
      case prom
      define st2 where "st2 = set_slot s (nnext (nodes st1 c)) st1"
      have cn: "nodes st2 c = nodes st1 c" using out(1) by (simp add: st2_def)
      have out': "slot_out s (set (tree_ptrs us'))" using slot_out_mono [OF out(2) sub] .
      have "trees_at (nodes st2) (child (nodes st1 c)) us'" "kin (nodes st2) (Some c) us'" "trees_at (nodes st2) (slot_next st2 s) rest"
        using us' d(2) r1 out(3) out' by (simp_all add: st2_def)
      moreover have "distinct (tree_ptrs us' @ tree_ptrs rest)" "c \<notin> set (tree_ptrs us')" using d(3) dis sub by auto
      ultimately obtain st3 where st3: "promote st2 s c (child (nodes st1 c)) = Some st3"
          "trees_at (nodes st3) (slot_next st3 s) (rev us' @ rest)" "kin (nodes st3) par us'"
          "slot_frame s (set (tree_ptrs us')) st2 st3" "\<forall>q. item (nodes st3 q) = item (nodes st2 q)" "freed st3 = freed st2"
        using promote_works [of st2 "child (nodes st1 c)" us' "Some c" rest c s] out(3) out' cn c1(2) by auto
      have k3: "kin (nodes st3) par (rev us' @ rest)"
        using st3(3) frame_kin [OF st3(4), of rest] r1(2) dis(5) sub
        by (auto simp: st2_def)
      have "length (tree_ptrs us') \<le> length (tree_ptrs us)"
        using distinct_card [OF d(3)] distinct_card [OF dis(3)] card_mono [OF _ sub] by simp
      then have "length (tree_ptrs (rev us' @ rest)) < length (tree_ptrs ts)" by (simp add: ts)
      moreover have "distinct (tree_ptrs (rev us' @ rest))" "slot_out s (set (tree_ptrs (rev us' @ rest)))"
        using d(3) dis sub out(3) out' by auto
      ultimately obtain st' ts' where st': "prune_empty st3 s = Some st'" "pruned s par st3 (rev us' @ rest) st' ts'"
        using less.hyps st3(2) k3 by blast
      have "pruned s par st ts st' ts'"
      proof (rule pruned_compose [OF st'(2)])
        have "slot_frame s (set (tree_ptrs ts)) st2 st3" by (rule frame_mono [OF st3(4)]) (use sub in \<open>auto simp: ts\<close>)
        then show "slot_frame s (set (tree_ptrs ts)) st st3"
          unfolding st2_def using frame_trans [OF frame_trans [OF fr1 frame_set_slot]] by blast
        show "freed st3 = F1 @ freed st" using F1(1) st3(6) by (simp add: st2_def)
        show "set F1 \<subseteq> set (tree_ptrs ts) - set (tree_ptrs (rev us' @ rest))" using F1(3) dis by (auto simp: ts)
        show "item (nodes st q) = None" if "q \<in> set (tree_ptrs ts)" "q \<notin> set (tree_ptrs (rev us' @ rest))" for q
          using that d(7) [of q] prom(1) c1(3) by (auto simp: ts)
        show "item (nodes st3 q) = item (nodes st q)" for q using st3(5) d(6) by (simp add: st2_def)
      qed (use F1(2) sub in \<open>auto simp: ts\<close>)
      moreover have "prune_empty st s = Some st'"
        using st'(1) run run1 sh(1) prom st3(1) c1(2) by (simp add: st2_def)
      ultimately show ?thesis by blast
    next
      case keep
      obtain st' rest' where st': "prune_empty st1 (Next c) = Some st'" "pruned (Next c) par st1 rest st' rest'"
        using less.hyps [of rest st1 "Next c" par] r1 dis(2,4) by (auto simp: ts)
      note e = prunedD [OF st'(2)]
      obtain F where F: "freed st' = F @ freed st1" "distinct F" "set F \<subseteq> set (tree_ptrs rest) - set (tree_ptrs rest')" using e(9) by blast
      have c': "child (nodes st' c) = child (nodes st1 c)" "parent (nodes st' c) = par"
        using frame_fields [OF e(5) dis(2)] c1(2) by simp_all
      have "slot_next st' s = Some c"
        using frame_slot_next [OF e(5) _ iffD2 [OF slot_out_insert]] out(1,3) s1 by auto
      moreover have "set (tree_ptrs us') \<inter> set (tree_ptrs rest) = {}" "c \<notin> set (tree_ptrs us')" using sub dis(1,5) by auto
      then have "trees_at (nodes st') (child (nodes st' c)) us'" "kin (nodes st') (Some c) us'"
        using frame_seg [OF e(5), of us'] frame_kin [OF e(5), of us'] us' d(2) c'(1) by simp_all
      moreover have "slot_frame s (set (tree_ptrs ts)) st st'"
        by (rule frame_trans [OF fr1 frame_inner [OF e(5), of c]]) (auto simp: ts)
      moreover have "settled (nodes st') (par = None) (Thread c us' # rest')"
      proof -
        have "2 \<le> length us' \<and> par = None" if "item (nodes st' c) = None"
        proof -
          have k: "child (nodes st1 c) \<noteq> None" "par = None" "nnext (nodes st1 (the (child (nodes st1 c)))) \<noteq> None"
            using that keep e(6) by auto
          then obtain a b us2 where "us' = a # b # us2" using us' by (cases us' rule: remdups_adj.cases) (auto simp: seg_Cons)
          then show ?thesis using k by simp
        qed
        moreover have "filled (nodes st') us'" using fl e(6) by (simp add: filled_def)
        ultimately show ?thesis using e(8) by (auto simp: settled_Cons)
      qed
      moreover have "\<exists>F. freed st' = F @ freed st \<and> distinct F \<and> set F \<subseteq> set (tree_ptrs ts) - set (tree_ptrs (Thread c us' # rest'))"
        using F F1 dis sub e(4) by (intro exI [of _ "F @ F1"]) (auto simp: ts)
      ultimately have "pruned s par st ts st' (Thread c us' # rest')"
        using e(1-4,6,7) d(3,6,7) c'(2) sub dis unfolding pruned_def ts by auto
      moreover have "prune_empty st s = Some st'"
        using st'(1) run run1 sh(1) keep c1(2) by auto
      ultimately show ?thesis by blast
    qed
  qed
qed

end
