(* ===== verification/Camel_ThreadLink.thy ===== *)
theory Camel_ThreadLink
  imports Camel_ThreadTree
begin

text \<open>
  The first phase of \<^verbatim>\<open>thread_items\<close>: nodes are linked by parents. The links are consistent (\<open>linked\<close>): every node
  lists just the nodes whose parent it is, and no node is its own ancestor. Such links form trees.
\<close>

definition up :: "'i thread_store \<Rightarrow> (node_ptr \<times> node_ptr) set" where
  "up st = {(r, q). r < next_node st \<and> parent (nodes st r) = Some q}"

definition linked :: "'i thread_store \<Rightarrow> bool" where
  "linked st \<longleftrightarrow>
     (\<forall>q<next_node st. \<exists>xs. chain (nodes st) (child (nodes st q)) xs \<and> distinct xs \<and> set xs = {r. (r, q) \<in> up st}) \<and>
     (\<forall>(r, q)\<in>up st. q < next_node st) \<and> acyclic (up st)"

lemma linkedD:
  assumes "linked st"
  shows "q < next_node st \<Longrightarrow> \<exists>xs. chain (nodes st) (child (nodes st q)) xs \<and> distinct xs \<and> set xs = {r. (r, q) \<in> up st}"
    and "(r, q) \<in> up st \<Longrightarrow> q < next_node st" and "acyclic (up st)"
  using assms by (auto simp: linked_def)

lemma finite_up: "linked st \<Longrightarrow> finite (up st)"
  using finite_subset [of "up st" "{..<next_node st} \<times> {..<next_node st}"] linkedD(2) by (force simp: up_def)

lemma wf_up: "linked st \<Longrightarrow> wf (up st)" and wf_down: "linked st \<Longrightarrow> wf ((up st)\<inverse>)"
  using finite_up linkedD(3) finite_acyclic_wf finite_acyclic_wf_converse by blast+

lemma single_valued_up: "single_valued (up st)"
  by (auto simp: single_valued_def up_def)

section \<open>Linking a node to a parent\<close>

lemma has_ancestor_decides:
  assumes "linked st" and "p < next_node st"
  shows "has_ancestor st (Some p) c = Some ((p, c) \<in> (up st)\<^sup>*)"
  using wf_down [OF assms(1)] assms(2)
proof (induction p rule: wf_induct_rule)
  case (less p)
  have eq: "has_ancestor st (Some p) c = (if p = c then Some True else has_ancestor st (parent (nodes st p)) c)"
    by (subst has_ancestor.simps) simp
  show ?case
  proof (cases "parent (nodes st p)")
    case None
    then have "(p, c) \<in> (up st)\<^sup>* \<longleftrightarrow> p = c" by (auto simp: up_def elim: converse_rtranclE)
    then show ?thesis using eq None by (simp add: has_ancestor.simps)
  next
    case (Some q)
    then have q: "(p, q) \<in> up st" using less.prems by (simp add: up_def)
    have "(p, c) \<in> (up st)\<^sup>* \<longleftrightarrow> p = c \<or> (q, c) \<in> (up st)\<^sup>*"
    proof
      assume "(p, c) \<in> (up st)\<^sup>*"
      then show "p = c \<or> (q, c) \<in> (up st)\<^sup>*"
      proof (cases rule: converse_rtranclE)
        case (step z)
        then have "z = q" using Some by (simp add: up_def)
        then show ?thesis using step by simp
      qed simp
    next
      assume "p = c \<or> (q, c) \<in> (up st)\<^sup>*"
      then show "(p, c) \<in> (up st)\<^sup>*" using q by (metis converse_rtrancl_into_rtrancl rtrancl.rtrancl_refl)
    qed
    then show ?thesis
      using less.IH [of q] q linkedD(2) [OF assms(1) q] eq Some by auto
  qed
qed

text \<open>What the phase leaves alone.\<close>

definition same_items :: "'i thread_store \<Rightarrow> 'i thread_store \<Rightarrow> bool" where
  "same_items st st' \<longleftrightarrow> tree st' = tree st \<and> freed st' = freed st \<and>
     (\<forall>q. item (nodes st' q) = item (nodes st q) \<and> norder (nodes st' q) = norder (nodes st q))"

lemma add_child_linked:
  assumes lk: "linked st" and c: "c < next_node st" "parent (nodes st c) = None"
    and p: "p < next_node st" "(p, c) \<notin> (up st)\<^sup>*"
  shows "linked (container_add_child st p c)" and "next_node (container_add_child st p c) = next_node st"
    and "same_items st (container_add_child st p c)"
proof -
  define st' where "st' = container_add_child st p c"
  have pc: "p \<noteq> c" using p(2) by auto
  have f: "parent (nodes st' q) = (if q = c then Some p else parent (nodes st q))"
      "child (nodes st' q) = (if q = p then Some c else child (nodes st q))"
      "nnext (nodes st' q) = (if q = c then child (nodes st p) else nnext (nodes st q))" "next_node st' = next_node st" for q
    using pc by (simp_all add: st'_def container_add_child_def Let_def)
  have up': "up st' = insert (c, p) (up st)" using c by (auto simp: up_def f split: if_splits)
  have "\<exists>xs. chain (nodes st') (child (nodes st' q)) xs \<and> distinct xs \<and> set xs = {r. (r, q) \<in> up st'}"
    if q: "q < next_node st'" for q
  proof -
    obtain xs where xs: "chain (nodes st) (child (nodes st q)) xs" "distinct xs" "set xs = {r. (r, q) \<in> up st}"
      using linkedD(1) [OF lk] q f(4) by metis
    have cx: "c \<notin> set xs" using xs(3) c(2) by (auto simp: up_def)
    then have "chain (nodes st') (child (nodes st q)) xs" using xs(1) chain_cong [of xs "nodes st'" "nodes st"] f(3) by metis
    then show ?thesis
      using xs cx by (cases "q = p") (auto simp: up' f intro: exI [of _ xs] exI [of _ "c # xs"])
  qed
  moreover have "q < next_node st'" if "(r, q) \<in> up st'" for r q
    using that linkedD(2) [OF lk] p(1) by (auto simp: up' f)
  moreover have "acyclic (up st')" using linkedD(3) [OF lk] p(2) by (simp add: up')
  ultimately show "linked (container_add_child st p c)" unfolding st'_def [symmetric] by (auto simp: linked_def)
  show "next_node (container_add_child st p c) = next_node st" using f(4) by (simp add: st'_def)
  show "same_items st (container_add_child st p c)" by (simp add: container_add_child_def same_items_def Let_def)
qed

text \<open>Taking a node out of the list of its parent.\<close>

lemma unlink_chain:
  assumes "chain (nodes st) (slot_next st s) (xs @ c # ys)" and "distinct (xs @ c # ys)" and "slot_out s (set (xs @ c # ys))"
  defines "st' \<equiv> unlink_next (end_slot s xs) st"
  shows "chain (nodes st') (slot_next st' s) (xs @ ys)"
    and "st' = set_slot (end_slot s xs) (nnext (nodes st c)) st"
proof -
  have c: "chain (nodes st) (slot_next st (end_slot s xs)) (c # ys)" by (rule slot_end_slot [OF assms(1)])
  then show st': "st' = set_slot (end_slot s xs) (nnext (nodes st c)) st" by (simp add: st'_def unlink_next_def)
  have "slot_out (end_slot s xs) (set ys)"
    using slot_out_end [of s "set ys" xs] assms(2,3) by (cases s) auto
  then have "chain (nodes st') (nnext (nodes st c)) ys" unfolding st' using c chain_set_slot by auto
  then show "chain (nodes st') (slot_next st' s) (xs @ ys)"
    using chain_set_end [OF assms(1), of "nnext (nodes st c)" ys] assms(2,3) st' by (cases s) auto
qed

lemma detach_linked:
  assumes lk: "linked st" and c: "c < next_node st" "parent (nodes st c) = Some p"
  shows "\<exists>s. scan_list st (Child p) c = Some (Some s) \<and> linked (upd_node c (\<lambda>n. n\<lparr>parent := None\<rparr>) (unlink_next s st)) \<and>
    next_node (upd_node c (\<lambda>n. n\<lparr>parent := None\<rparr>) (unlink_next s st)) = next_node st \<and>
    up (upd_node c (\<lambda>n. n\<lparr>parent := None\<rparr>) (unlink_next s st)) = up st - {(c, p)} \<and>
    same_items st (upd_node c (\<lambda>n. n\<lparr>parent := None\<rparr>) (unlink_next s st))"
proof -
  have cp: "(c, p) \<in> up st" using c by (simp add: up_def)
  have p: "p < next_node st" using linkedD(2) [OF lk cp] .
  obtain zs where zs: "chain (nodes st) (child (nodes st p)) zs" "distinct zs" "set zs = {r. (r, p) \<in> up st}"
    using linkedD(1) [OF lk p] by blast
  then obtain xs ys where split: "zs = xs @ c # ys" using cp by (metis mem_Collect_eq split_list)
  have pz: "p \<notin> set zs" using zs(3) linkedD(3) [OF lk] by (auto simp: acyclic_def)
  define s where "s = end_slot (Child p) xs"
  define st1 where "st1 = unlink_next s st"
  define st2 where "st2 = upd_node c (\<lambda>n. n\<lparr>parent := None\<rparr>) st1"
  have ch: "chain (nodes st) (slot_next st (Child p)) (xs @ c # ys)" using zs(1) split by simp
  note u = unlink_chain [OF ch, folded s_def, folded st1_def]
  have out: "slot_out (Child p) (set (xs @ c # ys))" "distinct (xs @ c # ys)" using pz zs(2) split by simp_all
  have st1: "st1 = set_slot s (nnext (nodes st c)) st" using u(2) out by simp
  have sn: "s = Child p \<or> (\<exists>x\<in>set xs. s = Next x)" unfolding s_def by (cases xs rule: rev_cases) auto
  have f: "parent (nodes st2 q) = (if q = c then None else parent (nodes st q))" "next_node st2 = next_node st" for q
    by (simp_all add: st2_def st1)
  have up2: "up st2 = up st - {(c, p)}" using c by (auto simp: up_def f split: if_splits)
  have "\<exists>xs. chain (nodes st2) (child (nodes st2 q)) xs \<and> distinct xs \<and> set xs = {r. (r, q) \<in> up st2}"
    if q: "q < next_node st2" for q
  proof (cases "q = p")
    case True
    have "chain (nodes st2) (child (nodes st2 p)) (xs @ ys)"
      using u(1) out chain_cong [of "xs @ ys" "nodes st2" "nodes st1"] by (simp add: st2_def)
    then show ?thesis
      using True zs(2,3) split by (intro exI [of _ "xs @ ys"]) (auto simp: up2)
  next
    case False
    obtain ws where ws: "chain (nodes st) (child (nodes st q)) ws" "distinct ws" "set ws = {r. (r, q) \<in> up st}"
      using linkedD(1) [OF lk] q f(2) by metis
    have "r \<notin> set zs" if "r \<in> set ws" for r
    proof
      assume "r \<in> set zs"
      then have "(r, p) \<in> up st" "(r, q) \<in> up st" using that ws(3) zs(3) by simp_all
      then show False using False by (simp add: up_def)
    qed
    then have n: "nnext (nodes st2 r) = nnext (nodes st r)" if "r \<in> set ws" for r
      using that sn split by (auto simp: st2_def st1)
    moreover have "child (nodes st2 q) = child (nodes st q)" using sn False by (auto simp: st2_def st1)
    ultimately have "chain (nodes st2) (child (nodes st2 q)) ws" using ws(1) chain_cong by metis
    then show ?thesis using ws(2,3) False by (intro exI [of _ ws]) (auto simp: up2)
  qed
  moreover have "acyclic (up st2)" using linkedD(3) [OF lk] acyclic_subset up2 by (metis Diff_subset)
  moreover have "q < next_node st2" if "(r, q) \<in> up st2" for r q
    using that linkedD(2) [OF lk] by (auto simp: up2 f)
  ultimately have "linked st2" by (auto simp: linked_def)
  moreover have "same_items st st2" using sn by (auto simp: same_items_def st2_def st1)
  moreover have "scan_list st (Child p) c = Some (Some s)"
    using scan_list_finds [OF ch] out(2) by (simp add: s_def)
  ultimately show ?thesis using f(2) up2 unfolding st2_def st1_def by blast
qed

lemma parent_child_linked:
  assumes lk: "linked st" and c: "c < next_node st" and p: "p < next_node st" "p \<noteq> c"
  shows "\<exists>st'. container_parent_child st p c = Some st' \<and> linked st' \<and> next_node st' = next_node st \<and> same_items st st'"
proof (cases "parent (nodes st c) = Some p")
  case True
  then show ?thesis using lk by (simp add: container_parent_child_def same_items_def)
next
  case False
  have anc: "has_ancestor st (parent (nodes st p)) c = Some ((p, c) \<in> (up st)\<^sup>*)"
    using has_ancestor_decides [OF lk p(1), of c] p(2) by (simp add: has_ancestor.simps [of st "Some p"])
  show ?thesis
  proof (cases "(p, c) \<in> (up st)\<^sup>*")
    case True
    then show ?thesis using anc False lk by (simp add: container_parent_child_def same_items_def)
  next
    case nc: False
    show ?thesis
    proof (cases "parent (nodes st c)")
      case None
      then show ?thesis
        using anc False nc add_child_linked [OF lk c None p(1) nc] by (simp add: container_parent_child_def)
    next
      case (Some q)
      obtain s where s: "scan_list st (Child q) c = Some (Some s)"
          "linked (upd_node c (\<lambda>n. n\<lparr>parent := None\<rparr>) (unlink_next s st))"
          "next_node (upd_node c (\<lambda>n. n\<lparr>parent := None\<rparr>) (unlink_next s st)) = next_node st"
          "up (upd_node c (\<lambda>n. n\<lparr>parent := None\<rparr>) (unlink_next s st)) = up st - {(c, q)}"
          "same_items st (upd_node c (\<lambda>n. n\<lparr>parent := None\<rparr>) (unlink_next s st))"
        using detach_linked [OF lk c Some] by blast
      define st1 where "st1 = upd_node c (\<lambda>n. n\<lparr>parent := None\<rparr>) (unlink_next s st)"
      have "(p, c) \<notin> (up st1)\<^sup>*"
        using nc rtrancl_mono [of "up st1" "up st"] s(4) by (auto simp: st1_def)
      moreover have "parent (nodes st1 c) = None" by (simp add: st1_def)
      ultimately have "linked (container_add_child st1 p c)" "next_node (container_add_child st1 p c) = next_node st1"
          "same_items st1 (container_add_child st1 p c)"
        using add_child_linked [of st1 c p] s(2,3) c p(1) by (simp_all add: st1_def)
      moreover have "container_parent_child st p c = Some (container_add_child st1 p c)"
        using anc False nc Some s(1) by (simp add: container_parent_child_def st1_def)
      ultimately show ?thesis using s(3,5) by (simp add: same_items_def st1_def)
    qed
  qed
qed

section \<open>The nodes of items\<close>

lemma alloc0_linked:
  assumes lk: "linked st" and a: "alloc0 st = (st', c)"
  shows "linked st'" and "c = next_node st" and "next_node st' = Suc (next_node st)"
    and "tree st' = tree st" and "freed st' = freed st"
    and "item (nodes st' c) = None" and "norder (nodes st' c) = 0"
    and "q \<noteq> c \<Longrightarrow> nodes st' q = nodes st q"
proof -
  show c: "c = next_node st" and n: "next_node st' = Suc (next_node st)" and "tree st' = tree st"
    and "freed st' = freed st" and "item (nodes st' c) = None" and "norder (nodes st' c) = 0"
    using a by (auto simp: alloc0_def)
  show o: "q \<noteq> c \<Longrightarrow> nodes st' q = nodes st q" for q using a by (auto simp: alloc0_def)
  have new: "parent (nodes st' c) = None" "child (nodes st' c) = None" using a by (auto simp: alloc0_def)
  have up': "up st' = up st" using o new c n by (auto simp: up_def less_Suc_eq)
  have "\<exists>xs. chain (nodes st') (child (nodes st' q)) xs \<and> distinct xs \<and> set xs = {r. (r, q) \<in> up st'}"
    if q: "q < next_node st'" for q
  proof (cases "q = c")
    case True
    then have "{r. (r, q) \<in> up st'} = {}" using linkedD(2) [OF lk] c by (auto simp: up')
    then show ?thesis using True new by (intro exI [of _ "[]"]) simp
  next
    case False
    then obtain xs where xs: "chain (nodes st) (child (nodes st q)) xs" "distinct xs" "set xs = {r. (r, q) \<in> up st}"
      using linkedD(1) [OF lk, of q] q c n by auto
    then have "c \<notin> set xs" using c by (auto simp: up_def)
    then have "nnext (nodes st' r) = nnext (nodes st r)" if "r \<in> set xs" for r using o that by metis
    then have "chain (nodes st') (child (nodes st q)) xs" using xs(1) chain_cong by metis
    then show ?thesis using xs(2,3) o False by (auto simp: up')
  qed
  moreover have "q < next_node st'" if "(r, q) \<in> up st'" for r q
    using linkedD(2) [OF lk, of r q] that n up' by simp
  ultimately show "linked st'" using linkedD(3) [OF lk] by (auto simp: linked_def up')
qed

text \<open>The items of a set of nodes.\<close>

definition items_in :: "(node_ptr \<Rightarrow> 'i thread_node) \<Rightarrow> node_ptr set \<Rightarrow> 'i multiset" where
  "items_in h A = image_mset (\<lambda>q. the (item (h q))) (mset_set {q \<in> A. item (h q) \<noteq> None})"

lemma items_in_cong:
  assumes "\<And>q. q \<in> A \<Longrightarrow> item (h' q) = item (h q)"
  shows "items_in h' A = items_in h A"
proof -
  have "{q \<in> A. item (h' q) \<noteq> None} = {q \<in> A. item (h q) \<noteq> None}" using assms by auto
  moreover have "image_mset (\<lambda>q. the (item (h' q))) (mset_set {q \<in> A. item (h q) \<noteq> None}) = items_in h A"
    unfolding items_in_def
  proof (rule image_mset_cong)
    fix q assume "q \<in># mset_set {q \<in> A. item (h q) \<noteq> None}"
    then have "q \<in> A" by (cases "finite {q \<in> A. item (h q) \<noteq> None}") auto
    then show "the (item (h' q)) = the (item (h q))" using assms by simp
  qed
  ultimately show ?thesis by (simp add: items_in_def)
qed

lemma items_in_drop:
  assumes "B \<subseteq> A" and "\<And>q. q \<in> A \<Longrightarrow> q \<notin> B \<Longrightarrow> item (h q) = None"
  shows "items_in h A = items_in h B"
proof -
  have "q \<in> A \<and> item (h q) \<noteq> None \<longleftrightarrow> q \<in> B \<and> item (h q) \<noteq> None" for q
    using assms(1) assms(2) [of q] by (cases "q \<in> B") auto
  then show ?thesis by (simp add: items_in_def)
qed

lemma items_in_add:
  assumes "finite A" and "c \<in> A" and "item (h c) = None" and "item (h' c) = Some i"
    and "\<And>q. q \<noteq> c \<Longrightarrow> item (h' q) = item (h q)"
  shows "items_in h' A = add_mset i (items_in h A)"
proof -
  have "{q \<in> A. item (h' q) \<noteq> None} = insert c {q \<in> A. item (h q) \<noteq> None}" using assms by fastforce
  moreover have "c \<notin> {q \<in> A. item (h q) \<noteq> None}" using assms(3) by simp
  moreover have "image_mset (\<lambda>q. the (item (h' q))) (mset_set {q \<in> A. item (h q) \<noteq> None}) = items_in h A"
    unfolding items_in_def
  proof (rule image_mset_cong)
    fix q assume "q \<in># mset_set {q \<in> A. item (h q) \<noteq> None}"
    then have "q \<noteq> c" using assms(1,3) by auto
    then show "the (item (h' q)) = the (item (h q))" using assms(5) by simp
  qed
  ultimately show ?thesis using assms(1,4) by (simp add: items_in_def)
qed

lemma items_in_empty_node: "item (h c) = None \<Longrightarrow> items_in h (insert c A) = items_in h A"
  by (rule items_in_drop) auto

text \<open>The tables hold every node once, items are in the nodes that have an order.\<close>

definition tabled :: "'i thread_store \<Rightarrow> 'i tables \<Rightarrow> 'i list \<Rightarrow> bool" where
  "tabled st tables done \<longleftrightarrow>
     linked st \<and> tree st = None \<and> freed st = [] \<and>
     mset (map snd (fst tables) @ map snd (snd tables)) = mset_set {..<next_node st} \<and>
     (\<forall>q<next_node st. norder (nodes st q) = 0 \<longleftrightarrow> item (nodes st q) = None) \<and>
     items_in (nodes st) {..<next_node st} = mset done"

lemma update_new: "k \<notin> fst ` set al \<Longrightarrow> AList.update k v al = al @ [(k, v)]"
  by (induction al) auto

lemma mset_set_Suc: "mset_set {..<Suc n} = add_mset n (mset_set {..<n})"
  by (simp add: lessThan_Suc)

lemma map_of_in_range: "map_of al k = Some v \<Longrightarrow> mset (map snd al @ bs) = mset_set {..<n} \<Longrightarrow> v < (n :: nat)"
proof -
  assume "map_of al k = Some v" "mset (map snd al @ bs) = mset_set {..<n}"
  then have "v \<in> set (map snd al)" by (metis map_of_SomeD in_set_conv_decomp list.set_map image_eqI snd_conv)
  then have "v \<in># mset (map snd al @ bs)" by simp
  then have "v \<in># mset_set {..<n}" using \<open>mset (map snd al @ bs) = mset_set {..<n}\<close> by (simp only:)
  then show ?thesis by simp
qed

lemma link_references_tabled:
  "tabled st (ids, nos) done \<Longrightarrow> c < next_node st \<Longrightarrow>
     \<exists>st' ids'. link_references st ids c refs = Some (st', ids') \<and> tabled st' (ids', nos) done"
proof (induction refs arbitrary: st ids c)
  case Nil
  then show ?case by simp
next
  case (Cons r refs)
  have lk: "linked st" using Cons.prems(1) by (simp add: tabled_def)
  show ?case
  proof (cases "r = 0")
    case True
    then show ?thesis using Cons by simp
  next
    case r: False
    show ?thesis
    proof (cases "map_of ids r")
      case None
      obtain st1 p where a: "alloc0 st = (st1, p)" by fastforce
      note n = alloc0_linked [OF lk a]
      have new: "r \<notin> fst ` set ids" using None by (simp add: map_of_eq_None_iff)
      have "items_in (nodes st1) {..<next_node st1} = items_in (nodes st1) {..<next_node st}"
        using items_in_empty_node [of "nodes st1" p "{..<next_node st}"] n(2,3,6) by (simp add: lessThan_Suc)
      also have "\<dots> = items_in (nodes st) {..<next_node st}"
        by (rule items_in_cong) (use n(2,8) in auto)
      finally have t1: "tabled st1 (AList.update r p ids, nos) done"
        using Cons.prems(1) n new by (auto simp: tabled_def update_new mset_set_Suc less_Suc_eq)
      have "c \<noteq> p" using Cons.prems(2) n(2) by simp
      then obtain st2 where st2: "container_parent_child st1 p c = Some st2" "linked st2" "next_node st2 = next_node st1"
          "same_items st1 st2"
        using parent_child_linked [OF n(1), of c p] Cons.prems(2) n(2,3) by auto
      have "items_in (nodes st2) {..<next_node st1} = items_in (nodes st1) {..<next_node st1}"
        by (rule items_in_cong) (use st2(4) in \<open>simp add: same_items_def\<close>)
      then have "tabled st2 (AList.update r p ids, nos) done"
        using t1 st2 by (simp add: tabled_def same_items_def)
      then show ?thesis
        using Cons.IH [of st2 "AList.update r p ids" p] st2 n(2,3) r None a \<open>c \<noteq> p\<close> by auto
    next
      case (Some p)
      have p: "p < next_node st"
        using map_of_in_range [OF Some, of "map snd nos"] Cons.prems(1) by (simp add: tabled_def)
      show ?thesis
      proof (cases "p = c")
        case True
        then show ?thesis using Cons r Some by simp
      next
        case False
        then obtain st2 where st2: "container_parent_child st p c = Some st2" "linked st2" "next_node st2 = next_node st"
            "same_items st st2"
          using parent_child_linked [OF lk Cons.prems(2) p] by auto
        have "items_in (nodes st2) {..<next_node st} = items_in (nodes st) {..<next_node st}"
          by (rule items_in_cong) (use st2(4) in \<open>simp add: same_items_def\<close>)
        then have "tabled st2 (ids, nos) done"
          using Cons.prems(1) st2 by (simp add: tabled_def same_items_def)
        then show ?thesis using r Some False st2(1) by simp
      qed
    qed
  qed
qed

lemma item_node_tabled:
  assumes t: "tabled st tables done" and i: "i \<notin> fst ` set (snd tables)"
  shows "\<exists>st' tables' c. item_node f st tables i = (st', tables', c) \<and> tabled st' tables' done \<and>
    c < next_node st' \<and> item (nodes st' c) = None \<and> fst ` set (snd tables') \<subseteq> insert i (fst ` set (snd tables))"
proof -
  obtain ids nos where tb: "tables = (ids, nos)" by fastforce
  have lk: "linked st" using t by (simp add: tabled_def)
  obtain st1 p where a: "alloc0 st = (st1, p)" by fastforce
  note n = alloc0_linked [OF lk a]
  have "items_in (nodes st1) {..<next_node st1} = items_in (nodes st1) {..<next_node st}"
    using items_in_empty_node [of "nodes st1" p "{..<next_node st}"] n(2,3,6) by (simp add: lessThan_Suc)
  also have "\<dots> = items_in (nodes st) {..<next_node st}"
    by (rule items_in_cong) (use n(2,8) in auto)
  finally have common: "linked st1" "tree st1 = None" "freed st1 = []"
      "\<forall>q<next_node st1. norder (nodes st1 q) = 0 \<longleftrightarrow> item (nodes st1 q) = None"
      "items_in (nodes st1) {..<next_node st1} = mset done"
      "mset_set {..<next_node st1} = add_mset p (mset (map snd ids @ map snd nos))"
    using t n by (auto simp: tabled_def mset_set_Suc less_Suc_eq tb)
  have no: "tabled st1 (ids, AList.update i p nos) done"
    using common i by (simp add: tabled_def update_new tb)
  have keys: "fst ` set (AList.update i p nos) \<subseteq> insert i (fst ` set nos)"
    using i by (auto simp: update_new tb)
  show ?thesis
  proof (cases "get_message_id_func f i = 0")
    case True
    then show ?thesis using no n keys a by (auto simp: item_node_def tb)
  next
    case id: False
    show ?thesis
    proof (cases "map_of ids (get_message_id_func f i)")
      case None
      then have "tabled st1 (AList.update (get_message_id_func f i) p ids, nos) done"
        using common by (simp add: tabled_def update_new map_of_eq_None_iff)
      then show ?thesis using None id n a by (auto simp: item_node_def tb)
    next
      case (Some c)
      have c: "c < next_node st"
        using map_of_in_range [OF Some, of "map snd nos"] t by (simp add: tabled_def tb)
      show ?thesis
      proof (cases "norder (nodes st c) = 0")
        case True
        then have "item (nodes st c) = None" using t c by (simp add: tabled_def)
        then show ?thesis using Some id True t c by (auto simp: item_node_def tb)
      next
        case False
        then show ?thesis using no n keys a Some id by (auto simp: item_node_def tb)
      qed
    qed
  qed
qed

lemma order_nonzero:
  assumes "k + 1 < 2 ^ 31"
  shows "of_nat (k + 1) \<noteq> (0 :: 31 word)"
proof
  assume "of_nat (k + 1) = (0 :: 31 word)"
  then have "unat (of_nat (k + 1) :: 31 word) = 0" by simp
  then have "(k + 1) mod 2 ^ 31 = 0" by (simp add: unat_of_nat del: of_nat_Suc of_nat_add)
  then show False using assms by simp
qed

lemma thread_item_tabled:
  assumes t: "tabled st tables done" and i: "i \<notin> fst ` set (snd tables)" and k: "k + 1 < 2 ^ 31"
  shows "\<exists>st' tables'. thread_item f st tables k i = Some (st', tables') \<and> tabled st' tables' (i # done) \<and>
    fst ` set (snd tables') \<subseteq> insert i (fst ` set (snd tables))"
proof -
  obtain st1 ids nos c where 1: "item_node f st tables i = (st1, (ids, nos), c)" "tabled st1 (ids, nos) done"
      "c < next_node st1" "item (nodes st1 c) = None" "fst ` set nos \<subseteq> insert i (fst ` set (snd tables))"
    using item_node_tabled [OF assms(1,2), of f] by (metis prod.exhaust snd_conv)
  define st2 where "st2 = upd_node c (\<lambda>n. n\<lparr>item := Some i, norder := of_nat (k + 1)\<rparr>) st1"
  have f: "parent (nodes st2 q) = parent (nodes st1 q)" "child (nodes st2 q) = child (nodes st1 q)"
      "nnext (nodes st2 q) = nnext (nodes st1 q)" "next_node st2 = next_node st1" for q
    by (simp_all add: st2_def)
  have ch: "chain (nodes st2) p xs = chain (nodes st1) p xs" for p xs by (rule chain_cong) (simp add: f)
  have up2: "up st2 = up st1" by (simp add: up_def f)
  have lk: "linked st2" using 1(2) by (simp add: tabled_def linked_def up2 ch f)
  have "items_in (nodes st2) {..<next_node st1} = add_mset i (items_in (nodes st1) {..<next_node st1})"
    by (rule items_in_add [of _ c]) (use 1 in \<open>simp_all add: st2_def\<close>)
  then have "tabled st2 (ids, nos) (i # done)"
    using 1(2) lk order_nonzero [OF k] by (auto simp: tabled_def st2_def)
  then obtain st' ids' where "link_references st2 ids c (get_references_func f i) = Some (st', ids')"
      "tabled st' (ids', nos) (i # done)"
    using link_references_tabled [of st2 ids nos "i # done" c "get_references_func f i"] 1(3) f(4) by metis
  then show ?thesis using 1(1,5) by (auto simp: thread_item_def st2_def)
qed

lemma link_items_tabled:
  "tabled st tables done \<Longrightarrow> fst ` set (snd tables) \<subseteq> set done \<Longrightarrow> distinct is \<Longrightarrow> set is \<inter> set done = {} \<Longrightarrow>
     k + length is < 2 ^ 31 \<Longrightarrow>
     \<exists>st' tables'. link_items f st tables k is = Some (st', tables') \<and> tabled st' tables' (rev is @ done)"
proof (induction "is" arbitrary: st tables k "done")
  case Nil
  then show ?case by simp
next
  case (Cons i "is")
  then obtain st1 tables1 where 1: "thread_item f st tables k i = Some (st1, tables1)" "tabled st1 tables1 (i # done)"
      "fst ` set (snd tables1) \<subseteq> insert i (fst ` set (snd tables))"
    using thread_item_tabled [OF Cons.prems(1), of i k f] by fastforce
  have "fst ` set (snd tables1) \<subseteq> set (i # done)" using 1(3) Cons.prems(2) by auto
  then show ?case
    using Cons.IH [OF 1(2), of "k + 1"] Cons.prems 1(1) by auto
qed

section \<open>The trees that the links form\<close>

text \<open>The roots go to the front of the list one after the other.\<close>

lemma hashloops_chain:
  "linked st \<Longrightarrow> chain (nodes st) (tree st) rs \<Longrightarrow> distinct (xs @ rs) \<Longrightarrow> set (xs @ rs) \<subseteq> {..<next_node st} \<Longrightarrow>
     (\<forall>r\<in>set rs. parent (nodes st r) = None) \<Longrightarrow>
     \<exists>st' rs'. fold hashloop xs st = st' \<and> linked st' \<and> chain (nodes st') (tree st') rs' \<and> distinct rs' \<and>
       set rs' = set rs \<union> {r \<in> set xs. parent (nodes st r) = None} \<and> up st' = up st \<and>
       next_node st' = next_node st \<and> freed st' = freed st \<and> (\<forall>q. item (nodes st' q) = item (nodes st q)) \<and>
       (\<forall>q. parent (nodes st' q) = parent (nodes st q))"
proof (induction xs arbitrary: st rs)
  case Nil
  then show ?case by auto
next
  case (Cons x xs)
  show ?case
  proof (cases "parent (nodes st x)")
    case (Some p)
    then have "hashloop x st = st" by (simp add: hashloop_def)
    moreover have "{r \<in> set (x # xs). parent (nodes st r) = None} = {r \<in> set xs. parent (nodes st r) = None}"
      using Some by auto
    ultimately show ?thesis using Cons.IH [OF Cons.prems(1,2)] Cons.prems(3-5) by simp
  next
    case None
    define st1 where "st1 = hashloop x st"
    have f: "nnext (nodes st1 q) = (if q = x then tree st else nnext (nodes st q))" "child (nodes st1 q) = child (nodes st q)"
        "parent (nodes st1 q) = parent (nodes st q)" "next_node st1 = next_node st" "tree st1 = Some x"
        "freed st1 = freed st" "item (nodes st1 q) = item (nodes st q)" for q
      using None by (simp_all add: st1_def hashloop_def)
    have up1: "up st1 = up st" by (simp add: up_def f)
    have ch: "chain (nodes st1) p ys = chain (nodes st) p ys" if "x \<notin> set ys" for p ys
      by (rule chain_cong) (use f(1) that in auto)
    have "\<exists>ys. chain (nodes st1) (child (nodes st1 q)) ys \<and> distinct ys \<and> set ys = {r. (r, q) \<in> up st1}"
      if "q < next_node st1" for q
    proof -
      have "q < next_node st" using that f(4) by simp
      then obtain ys where ys: "chain (nodes st) (child (nodes st q)) ys" "distinct ys" "set ys = {r. (r, q) \<in> up st}"
        using linkedD(1) [OF Cons.prems(1)] by blast
      then have "x \<notin> set ys" using None by (auto simp: up_def)
      then show ?thesis using ys ch f(2) up1 by metis
    qed
    then have "linked st1" using Cons.prems(1) by (simp add: linked_def up1 f)
    moreover have "chain (nodes st1) (tree st1) (x # rs)" using Cons.prems(2,3) ch [of rs] f(1,5) by simp
    moreover have "distinct (xs @ x # rs)" "set (xs @ x # rs) \<subseteq> {..<next_node st1}" using Cons.prems(3,4) f(4) by auto
    moreover have "\<forall>r\<in>set (x # rs). parent (nodes st1 r) = None" using Cons.prems(5) None f(3) by simp
    ultimately obtain rs' where "linked (fold hashloop xs st1)" "chain (nodes (fold hashloop xs st1)) (tree (fold hashloop xs st1)) rs'"
        "distinct rs'" "set rs' = set (x # rs) \<union> {r \<in> set xs. parent (nodes st1 r) = None}" "up (fold hashloop xs st1) = up st1"
        "next_node (fold hashloop xs st1) = next_node st1" "freed (fold hashloop xs st1) = freed st1"
        "\<forall>q. item (nodes (fold hashloop xs st1) q) = item (nodes st1 q)"
        "\<forall>q. parent (nodes (fold hashloop xs st1) q) = parent (nodes st1 q)"
      using Cons.IH [of st1 "x # rs"] by blast
    moreover have "set (x # rs) \<union> {r \<in> set xs. parent (nodes st1 r) = None} =
        set rs \<union> {r \<in> set (x # xs). parent (nodes st r) = None}" using None f(3) by auto
    ultimately show ?thesis using up1 f unfolding st1_def by (intro exI [of _ rs'] exI) simp
  qed
qed

text \<open>\<open>below st q\<close>: the nodes under \<open>q\<close>.\<close>

definition below :: "'i thread_store \<Rightarrow> node_ptr \<Rightarrow> node_ptr set" where
  "below st q = {r. (r, q) \<in> (up st)\<^sup>+}"

lemma list_trees:
  assumes "chain (nodes st) p xs" and "distinct xs"
    and "\<And>x. x \<in> set xs \<Longrightarrow> \<exists>us. trees_at (nodes st) (child (nodes st x)) us \<and> kin (nodes st) (Some x) us \<and>
           distinct (tree_ptrs us) \<and> set (tree_ptrs us) = below st x"
    and "\<And>x. x \<in> set xs \<Longrightarrow> parent (nodes st x) = par" and "acyclic (up st)"
    and "\<And>x y. x \<in> set xs \<Longrightarrow> y \<in> set xs \<Longrightarrow> x \<noteq> y \<Longrightarrow> (x, y) \<notin> (up st)\<^sup>*"
  shows "\<exists>ts. trees_at (nodes st) p ts \<and> kin (nodes st) par ts \<and> distinct (tree_ptrs ts) \<and>
    set (tree_ptrs ts) = (\<Union>x\<in>set xs. insert x (below st x))"
  using assms(1-4,6)
proof (induction xs arbitrary: p)
  case Nil
  then show ?case by (intro exI [of _ "[]"]) simp
next
  case (Cons x xs)
  obtain us where us: "trees_at (nodes st) (child (nodes st x)) us" "kin (nodes st) (Some x) us"
      "distinct (tree_ptrs us)" "set (tree_ptrs us) = below st x"
    using Cons.prems(3) [of x] by auto
  obtain ts where ts: "trees_at (nodes st) (nnext (nodes st x)) ts" "kin (nodes st) par ts" "distinct (tree_ptrs ts)"
      "set (tree_ptrs ts) = (\<Union>x\<in>set xs. insert x (below st x))"
    using Cons.IH [of "nnext (nodes st x)"] Cons.prems by auto
  have "x \<notin> below st x" using assms(5) by (simp add: below_def acyclic_def)
  moreover have "r \<notin> insert y (below st y)" if r: "r \<in> insert x (below st x)" and y: "y \<in> set xs" for r y
  proof
    assume "r \<in> insert y (below st y)"
    then have "(r, x) \<in> (up st)\<^sup>*" "(r, y) \<in> (up st)\<^sup>*" using r by (auto simp: below_def)
    then have "(x, y) \<in> (up st)\<^sup>* \<or> (y, x) \<in> (up st)\<^sup>*" using single_valued_confluent [OF single_valued_up] by blast
    then show False using Cons.prems(2) Cons.prems(5) [of x y] Cons.prems(5) [of y x] y by auto
  qed
  then have "set (tree_ptrs ts) \<inter> insert x (below st x) = {}" unfolding ts(4) by blast
  ultimately show ?case
    using us ts Cons.prems(1) Cons.prems(4) [of x] by (intro exI [of _ "Thread x us # ts"]) auto
qed

lemma below_trees:
  assumes lk: "linked st" and "q < next_node st"
  shows "\<exists>us. trees_at (nodes st) (child (nodes st q)) us \<and> kin (nodes st) (Some q) us \<and> distinct (tree_ptrs us) \<and>
    set (tree_ptrs us) = below st q"
  using wf_up [OF lk] assms(2)
proof (induction q rule: wf_induct_rule)
  case (less q)
  obtain xs where xs: "chain (nodes st) (child (nodes st q)) xs" "distinct xs" "set xs = {r. (r, q) \<in> up st}"
    using linkedD(1) [OF lk less.prems] by blast
  have "(\<Union>x\<in>set xs. insert x (below st x)) = below st q"
    unfolding xs(3) below_def by (auto intro: trancl_into_trancl elim: tranclE)
  moreover have "\<exists>ts. trees_at (nodes st) (child (nodes st q)) ts \<and> kin (nodes st) (Some q) ts \<and> distinct (tree_ptrs ts) \<and>
    set (tree_ptrs ts) = (\<Union>x\<in>set xs. insert x (below st x))"
  proof (rule list_trees [OF xs(1,2)])
    show "acyclic (up st)" using linkedD(3) [OF lk] .
    fix x assume x: "x \<in> set xs"
    then have xq: "(x, q) \<in> up st" using xs(3) by simp
    then show "parent (nodes st x) = Some q" by (simp add: up_def)
    show "\<exists>us. trees_at (nodes st) (child (nodes st x)) us \<and> kin (nodes st) (Some x) us \<and>
        distinct (tree_ptrs us) \<and> set (tree_ptrs us) = below st x"
      using less.IH [OF xq] xq by (simp add: up_def)
    fix y assume y: "y \<in> set xs" "x \<noteq> y"
    then have yq: "(y, q) \<in> up st" using xs(3) by simp
    show "(x, y) \<notin> (up st)\<^sup>*"
    proof
      assume "(x, y) \<in> (up st)\<^sup>*"
      then obtain z where "(x, z) \<in> up st" "(z, y) \<in> (up st)\<^sup>*" using y(2) by (auto elim: converse_rtranclE)
      then have "(q, y) \<in> (up st)\<^sup>*" using xq by (auto simp: up_def)
      then have "(q, q) \<in> (up st)\<^sup>+" using yq by auto
      then show False using linkedD(3) [OF lk] by (simp add: acyclic_def)
    qed
  qed
  ultimately show ?case by simp
qed

lemma linked_trees:
  assumes lk: "linked st" and "chain (nodes st) (tree st) rs" and "distinct rs"
    and rs: "set rs = {r. r < next_node st \<and> parent (nodes st r) = None}"
  shows "\<exists>ts. trees_at (nodes st) (tree st) ts \<and> kin (nodes st) None ts \<and> distinct (tree_ptrs ts) \<and>
    set (tree_ptrs ts) = {..<next_node st}"
proof -
  have "\<exists>ts. trees_at (nodes st) (tree st) ts \<and> kin (nodes st) None ts \<and> distinct (tree_ptrs ts) \<and>
    set (tree_ptrs ts) = (\<Union>x\<in>set rs. insert x (below st x))"
  proof (rule list_trees [OF assms(2,3)])
    show "acyclic (up st)" using linkedD(3) [OF lk] .
    fix x assume x: "x \<in> set rs"
    then show "parent (nodes st x) = None" using rs by simp
    show "\<exists>us. trees_at (nodes st) (child (nodes st x)) us \<and> kin (nodes st) (Some x) us \<and>
        distinct (tree_ptrs us) \<and> set (tree_ptrs us) = below st x"
      using below_trees [OF lk] x rs by simp
    have "(x, z) \<notin> up st" for z using x rs by (simp add: up_def)
    then show "(x, y) \<notin> (up st)\<^sup>*" if "x \<noteq> y" for y
      using that by (metis converse_rtranclE)
  qed
  moreover have "r \<in> (\<Union>x\<in>set rs. insert x (below st x))" if "r < next_node st" for r
    using wf_down [OF lk] that
  proof (induction r rule: wf_induct_rule)
    case (less r)
    show ?case
    proof (cases "parent (nodes st r)")
      case None
      then show ?thesis using less.prems rs by auto
    next
      case (Some q)
      then have rq: "(r, q) \<in> up st" using less.prems by (simp add: up_def)
      then obtain x where "x \<in> set rs" "q \<in> insert x (below st x)"
        using less.IH [of q] linkedD(2) [OF lk rq] by auto
      then show ?thesis using rq by (auto simp: below_def intro: trancl_into_trancl2)
    qed
  qed
  moreover have "r < next_node st" if "r \<in> (\<Union>x\<in>set rs. insert x (below st x))" for r
    using that rs by (auto simp: below_def up_def elim: converse_tranclE)
  ultimately show ?thesis by (metis lessThan_iff subsetI subset_antisym)
qed

end
