(* ===== verification/Camel_ThreadGroup.thy ===== *)
theory Camel_ThreadGroup
  imports Camel_ThreadLink
begin

text \<open>
  Grouping by subject. The list of roots is split where \<^verbatim>\<open>clast\<close> stands; \<open>root_ok\<close> is what holds of each root,
  relative to the nodes that are in the table of subjects.
\<close>

section \<open>Moving trees\<close>

text \<open>Writing the slot after \<open>xs\<close> replaces the trees that come there.\<close>

lemma seg_set_end:
  "trees_at (nodes st) (slot_next st s) (xs @ ys) \<Longrightarrow> distinct (tree_ptrs xs) \<Longrightarrow> slot_out s (set (tree_ptrs xs)) \<Longrightarrow>
     trees_at (nodes (set_slot (end_slot s (map top xs)) v st)) v zs \<Longrightarrow>
     trees_at (nodes (set_slot (end_slot s (map top xs)) v st)) (slot_next (set_slot (end_slot s (map top xs)) v st) s) (xs @ zs)"
proof (induction xs arbitrary: s)
  case Nil
  then show ?case by simp
next
  case (Cons t xs)
  let ?e = "end_slot (Next (top t)) (map top xs)"
  let ?st = "set_slot ?e v st"
  have t: "slot_next st s = Some (top t)" "trees_at (nodes st) (child (nodes st (top t))) (kids t)"
      "trees_at (nodes st) (slot_next st (Next (top t))) (xs @ ys)"
    using Cons.prems(1) by (simp_all add: seg_Cons)
  have d: "top t \<notin> set (tree_ptrs (kids t))" "distinct (tree_ptrs xs)" "slot_out (Next (top t)) (set (tree_ptrs xs))"
      "set (tree_ptrs (kids t)) \<inter> set (tree_ptrs xs) = {}" "top t \<notin> set (tree_ptrs xs)"
    using Cons.prems(2) by (auto simp: ptrs_Cons)
  have e: "?e = Next (top t) \<or> (\<exists>u\<in>set xs. ?e = Next (top u))"
    by (cases xs rule: rev_cases) auto
  have ne: "?e \<noteq> s" using e Cons.prems(3) top_in_ptrs [of _ xs] by (cases s) (auto simp: ptrs_Cons)
  have "slot_next ?st s = Some (top t)"
    using ne t(1) e by (cases s) (auto simp: upd_node_def)
  moreover have "slot_out ?e (set (tree_ptrs (kids t)))" using e d(1,4) top_in_ptrs [of _ xs] by auto
  then have "trees_at (nodes ?st) (child (nodes st (top t))) (kids t)" using t(2) by simp
  moreover have "child (nodes ?st (top t)) = child (nodes st (top t))" using e by auto
  moreover have "trees_at (nodes ?st) (slot_next ?st (Next (top t))) (xs @ zs)"
    by (rule Cons.IH [OF t(3) d(2,3)]) (use Cons.prems(4) in simp)
  ultimately show ?case by (simp add: seg_Cons)
qed

text \<open>What the group phase leaves alone.\<close>

definition same_data :: "'i thread_store \<Rightarrow> 'i thread_store \<Rightarrow> bool" where
  "same_data st st' \<longleftrightarrow> next_node st' = next_node st \<and> freed st' = freed st \<and>
     (\<forall>q. parent (nodes st' q) = parent (nodes st q) \<and> item (nodes st' q) = item (nodes st q) \<and>
       root_subject (nodes st' q) = root_subject (nodes st q) \<and> re (nodes st' q) = re (nodes st q))"

lemma same_data_set_slot [simp]: "same_data st (set_slot s v st)"
  by (simp add: same_data_def)

lemma unlink_tree:
  assumes "trees_at (nodes st) (slot_next st s) (xs @ K # ys)" and "distinct (tree_ptrs (xs @ K # ys))"
    and "slot_out s (set (tree_ptrs (xs @ K # ys)))"
  defines "e \<equiv> end_slot s (map top xs)"
  defines "st' \<equiv> set_slot e (nnext (nodes st (top K))) st"
  shows "unlink_next e st = st'" and "scan_list st s (top K) = Some (Some e)"
    and "trees_at (nodes st') (slot_next st' s) (xs @ ys)"
    and "trees_at (nodes st') (child (nodes st' (top K))) (kids K)"
    and "e = s \<or> (\<exists>u\<in>set xs. e = Next (top u))"
proof -
  have ch: "chain (nodes st) (slot_next st s) (map top xs @ top K # map top ys)"
    using seg_chain [OF assms(1)] by simp
  have dis: "top K \<notin> set (tree_ptrs xs)" "distinct (tree_ptrs xs)" "top K \<notin> set (tree_ptrs (kids K))" "set (tree_ptrs xs) \<inter> set (tree_ptrs (kids K)) = {}"
      "set (tree_ptrs xs) \<inter> set (tree_ptrs ys) = {}"
    using assms(2) by (auto simp: ptrs_Cons)
  have nk: "top K \<notin> set (map top xs)" using dis(1) top_in_ptrs [of _ xs] by auto
  show sc: "scan_list st s (top K) = Some (Some e)" unfolding e_def by (rule scan_list_finds [OF ch nk])
  have "slot_next st e = Some (top K)" using slot_end_slot [OF ch] by (simp add: e_def)
  then show "unlink_next e st = st'" by (simp add: unlink_next_def st'_def)
  show e: "e = s \<or> (\<exists>u\<in>set xs. e = Next (top u))"
    unfolding e_def by (cases xs rule: rev_cases) auto
  then have out: "slot_out e (set (tree_ptrs ys))" "slot_out e (set (tree_ptrs (kids K)))" "slot_out e {top K}"
    using assms(3) dis top_in_ptrs [of _ xs] by (cases s; auto simp: ptrs_Cons)+
  obtain m where m: "seg (nodes st) (slot_next st s) xs m" "trees_at (nodes st) m (K # ys)"
    using assms(1) by (auto simp: seg_append)
  have "trees_at (nodes st') (nnext (nodes st (top K))) ys"
    using m(2) out(1) by (simp add: seg_Cons st'_def)
  then show "trees_at (nodes st') (slot_next st' s) (xs @ ys)"
    unfolding st'_def e_def using seg_set_end [OF assms(1) dis(2)] assms(3) by (cases s) (auto simp: ptrs_Cons)
  show "trees_at (nodes st') (child (nodes st' (top K))) (kids K)"
    using m(2) out(2,3) by (simp add: seg_Cons st'_def)
qed

lemma end_slot_append: "end_slot s (xs @ ys) = end_slot (end_slot s xs) ys"
  by (induction xs arbitrary: s) auto

lemma end_slot_Next: "xs \<noteq> [] \<Longrightarrow> end_slot s xs = Next (last xs)"
  by (cases xs rule: rev_cases) auto

lemma in_ptrs_tree: "q \<in> set (tree_ptrs ts) \<Longrightarrow> \<exists>t\<in>set ts. q = top t \<or> q \<in> set (tree_ptrs (kids t))"
  by (induction ts) (auto simp: ptrs_Cons)

section \<open>What holds of the roots\<close>

text \<open>A root that was visited may have nodes of the table as children, one that was not, or is in the table itself, has none
  below. The children that were taken over from another empty root still point to that one.\<close>

definition root_ok :: "node_ptr set \<Rightarrow> (node_ptr \<Rightarrow> 'i thread_node) \<Rightarrow> bool \<Rightarrow> message_tree \<Rightarrow> bool" where
  "root_ok tb h vis t \<longleftrightarrow>
     parent (h (top t)) = None \<and>
     (\<forall>u\<in>set (kids t). kin h (Some (top u)) (kids u) \<and>
        (parent (h (top u)) = Some (top t) \<or> item (h (top t)) = None \<and> top u \<notin> tb)) \<and>
     filled h (kids t) \<and>
     (item (h (top t)) = None \<longrightarrow> (\<exists>u\<in>set (kids t). top u \<notin> tb)) \<and>
     (\<forall>u\<in>set (kids t). set (tree_ptrs (kids u)) \<inter> tb = {}) \<and>
     (\<not> vis \<or> top t \<in> tb \<longrightarrow> set (tree_ptrs (kids t)) \<inter> tb = {})"

text \<open>A tree that is in no list.\<close>

definition loose :: "node_ptr set \<Rightarrow> (node_ptr \<Rightarrow> 'i thread_node) \<Rightarrow> message_tree \<Rightarrow> bool" where
  "loose tb h K \<longleftrightarrow> trees_at h (child (h (top K))) (kids K) \<and> kin h (Some (top K)) (kids K) \<and> filled h (kids K) \<and>
     set (tree_ptrs (kids K)) \<inter> tb = {}"

lemma root_ok_cong:
  assumes "\<And>q. q \<in> set (tree_ptrs [t]) \<Longrightarrow> parent (h' q) = parent (h q) \<and> item (h' q) = item (h q)"
  shows "root_ok tb h' vis t = root_ok tb h vis t"
proof -
  have q: "parent (h' q) = parent (h q)" "item (h' q) = item (h q)" if "q = top t \<or> q \<in> set (tree_ptrs (kids t))" for q
    using assms that by (auto simp: ptrs_Cons)
  have u: "top u \<in> set (tree_ptrs (kids t))" "set (tree_ptrs (kids u)) \<subseteq> set (tree_ptrs (kids t))" if "u \<in> set (kids t)" for u
    using that top_in_ptrs kids_in_ptrs by auto
  then have "kin h' (Some (top u)) (kids u) = kin h (Some (top u)) (kids u)" "parent (h' (top u)) = parent (h (top u))"
    if "u \<in> set (kids t)" for u using that q by (auto intro!: kin_cong)
  moreover have "filled h' (kids t) = filled h (kids t)" using q by (simp add: filled_def)
  ultimately show ?thesis using q(1,2) [of "top t"] by (simp add: root_ok_def cong: ball_cong)
qed

lemma root_ok_same: "same_data st st' \<Longrightarrow> root_ok tb (nodes st') vis t = root_ok tb (nodes st) vis t"
  by (rule root_ok_cong) (simp add: same_data_def)

lemma root_ok_mono: "root_ok tb h vis t \<Longrightarrow> tb' \<subseteq> tb \<Longrightarrow> root_ok tb' h vis t"
  unfolding root_ok_def by blast

lemma root_ok_visit: "root_ok tb h False t \<Longrightarrow> root_ok tb h vis t"
  by (simp add: root_ok_def)

lemma kin_items: "kin h par ts \<longleftrightarrow> (\<forall>u\<in>set ts. parent (h (top u)) = par \<and> kin h (Some (top u)) (kids u))"
  by (induction ts) (auto simp: kin_Cons)

lemma root_loose:
  assumes "root_ok tb h vis t" and "top t \<in> tb \<or> \<not> vis" and "item (h (top t)) \<noteq> None"
    and "trees_at h (child (h (top t))) (kids t)"
  shows "loose tb h t"
  using assms kin_items [of h "Some (top t)" "kids t"] by (auto simp: root_ok_def loose_def)

lemma kin_same: "same_data st st' \<Longrightarrow> kin (nodes st') par ts = kin (nodes st) par ts"
  by (rule kin_cong) (simp add: same_data_def)

lemma filled_same: "same_data st st' \<Longrightarrow> filled (nodes st') ts = filled (nodes st) ts"
  by (simp add: filled_def same_data_def)

lemma loose_same: "same_data st st' \<Longrightarrow> trees_at (nodes st') (child (nodes st' (top K))) (kids K) \<Longrightarrow>
    loose tb (nodes st) K \<Longrightarrow> loose tb (nodes st') K"
  by (simp add: loose_def kin_same filled_same)

section \<open>Taking a node of the table out of its list\<close>

text \<open>\<open>taken\<close>: the result of \<^verbatim>\<open>remove_node (cp, k, &clast)\<close> when \<open>C\<close> is the tree after \<^verbatim>\<open>clast\<close>.\<close>

definition taken ::
    "node_ptr set \<Rightarrow> 'i thread_store \<Rightarrow> message_tree list \<Rightarrow> message_tree \<Rightarrow> message_tree list \<Rightarrow> node_ptr \<Rightarrow>
       'i thread_store \<Rightarrow> message_tree \<Rightarrow> message_tree list \<Rightarrow> message_tree list \<Rightarrow> bool" where
  "taken tb st pre C post k st1 K pre1 post1 \<longleftrightarrow>
     thread_remove_node st k (end_slot Head (map top pre)) = Some (st1, end_slot Head (map top pre1)) \<and>
     same_data st st1 \<and> trees_at (nodes st1) (tree st1) (pre1 @ C # post1) \<and> top K = k \<and> loose tb (nodes st1) K \<and>
     mset (tree_ptrs (pre1 @ post1)) + mset (tree_ptrs [K]) = mset (tree_ptrs (pre @ post)) \<and> length post1 \<le> length post \<and>
     (\<forall>t\<in>set pre1. root_ok tb (nodes st1) True t) \<and> (\<forall>t\<in>set post1. root_ok tb (nodes st1) False t)"

lemma take_root:
  assumes sh: "trees_at (nodes st) (tree st) (xs @ K # ys)" and dis: "distinct (tree_ptrs (xs @ K # ys))"
    and par: "parent (nodes st (top K)) = None"
  defines "st1 \<equiv> set_slot (end_slot Head (map top xs)) (nnext (nodes st (top K))) st"
  shows "thread_remove_node st (top K) clast =
      Some (st1, if clast = Next (top K) then end_slot Head (map top xs) else clast)"
    and "trees_at (nodes st1) (tree st1) (xs @ ys)" and "trees_at (nodes st1) (child (nodes st1 (top K))) (kids K)"
    and "same_data st st1"
proof -
  note u = unlink_tree [of st Head xs K ys, simplified, OF sh dis [simplified]]
  show "thread_remove_node st (top K) clast = Some (st1, if clast = Next (top K) then end_slot Head (map top xs) else clast)"
    using u(1,2) par by (simp add: thread_remove_node_def st1_def)
  show "trees_at (nodes st1) (tree st1) (xs @ ys)" "trees_at (nodes st1) (child (nodes st1 (top K))) (kids K)"
    using u(3,4) by (simp_all add: st1_def)
  show "same_data st st1" by (simp add: st1_def)
qed

text \<open>Replacing what is below one root.\<close>

lemma seg_kids:
  assumes "trees_at (nodes st) (tree st) (as @ Thread p us # bs)" and "tree st1 = tree st"
    and "\<And>q. q \<in> set (tree_ptrs as) \<union> set (tree_ptrs bs) \<Longrightarrow> nnext (nodes st1 q) = nnext (nodes st q) \<and> child (nodes st1 q) = child (nodes st q)"
    and "nnext (nodes st1 p) = nnext (nodes st p)" and "trees_at (nodes st1) (child (nodes st1 p)) vs"
  shows "trees_at (nodes st1) (tree st1) (as @ Thread p vs # bs)"
proof -
  obtain m where m: "seg (nodes st) (tree st) as m" "m = Some p" "trees_at (nodes st) (nnext (nodes st p)) bs"
    using assms(1) by (auto simp: seg_append)
  have "seg (nodes st1) (tree st) as m" using m(1) seg_cong [of as "nodes st1" "nodes st"] assms(3) by simp
  moreover have "trees_at (nodes st1) (nnext (nodes st p)) bs" using m(3) seg_cong [of bs "nodes st1" "nodes st"] assms(3) by simp
  ultimately show ?thesis using m(2) assms(2,4,5) by (auto simp: seg_append)
qed

lemma take_kid:
  assumes sh: "trees_at (nodes st) (tree st) (as @ Thread p (xs @ K # ys) # bs)"
    and dis: "distinct (tree_ptrs (as @ Thread p (xs @ K # ys) # bs))" and par: "parent (nodes st (top K)) = Some p"
    and cl: "clast \<noteq> Next (top K)"
  shows "\<exists>st1. thread_remove_node st (top K) clast = Some (st1, clast) \<and>
    trees_at (nodes st1) (tree st1) (as @ Thread p (xs @ ys) # bs) \<and> trees_at (nodes st1) (child (nodes st1 (top K))) (kids K) \<and>
    same_data st st1"
proof -
  define e where "e = end_slot (Child p) (map top xs)"
  define st1 where "st1 = set_slot e (nnext (nodes st (top K))) st"
  have "trees_at (nodes st) (slot_next st (Child p)) (xs @ K # ys)" using sh by (auto simp: seg_append)
  moreover have "distinct (tree_ptrs (xs @ K # ys))" "slot_out (Child p) (set (tree_ptrs (xs @ K # ys)))" using dis by auto
  ultimately have u: "unlink_next e st = st1" "scan_list st (Child p) (top K) = Some (Some e)"
      "trees_at (nodes st1) (slot_next st1 (Child p)) (xs @ ys)" "trees_at (nodes st1) (child (nodes st1 (top K))) (kids K)"
      "e = Child p \<or> (\<exists>u\<in>set xs. e = Next (top u))"
    using unlink_tree [of st "Child p" xs K ys] unfolding e_def st1_def by blast+
  have "trees_at (nodes st1) (tree st1) (as @ Thread p (xs @ ys) # bs)"
  proof (rule seg_kids [OF sh])
    show "tree st1 = tree st" using u(5) by (auto simp: st1_def)
    have p: "p \<notin> set (tree_ptrs xs)" "p \<notin> set (tree_ptrs as) \<union> set (tree_ptrs bs)"
        "set (tree_ptrs xs) \<inter> (set (tree_ptrs as) \<union> set (tree_ptrs bs)) = {}" using dis by auto
    show "nnext (nodes st1 p) = nnext (nodes st p)" using u(5) p(1) top_in_ptrs [of _ xs] by (auto simp: st1_def)
    show "nnext (nodes st1 q) = nnext (nodes st q) \<and> child (nodes st1 q) = child (nodes st q)"
      if "q \<in> set (tree_ptrs as) \<union> set (tree_ptrs bs)" for q
    proof -
      have "top u \<noteq> q" if "u \<in> set xs" for u
        using p(3) top_in_ptrs [OF that] \<open>q \<in> set (tree_ptrs as) \<union> set (tree_ptrs bs)\<close> by blast
      then have "slot_out e {q}" using u(5) p(2) that by auto
      then show ?thesis by (simp add: st1_def)
    qed
    show "trees_at (nodes st1) (child (nodes st1 p)) (xs @ ys)" using u(3) by simp
  qed
  moreover have "thread_remove_node st (top K) clast = Some (st1, clast)"
    using u(1,2) par cl by (simp add: thread_remove_node_def)
  ultimately show ?thesis using u(4) by (intro exI [of _ st1]) (simp add: st1_def)
qed

lemma take_node:
  assumes sh: "trees_at (nodes st) (tree st) (pre @ C # post)" and dis: "distinct (tree_ptrs (pre @ C # post))"
    and ok: "\<forall>t\<in>set pre. root_ok tb (nodes st) True t" "\<forall>t\<in>set (C # post). root_ok tb (nodes st) False t"
    and k: "k \<in> tb" "k \<noteq> top C" "k \<in> set (tree_ptrs (pre @ C # post))" "item (nodes st k) \<noteq> None"
  shows "\<exists>st1 K pre1 post1. taken tb st pre C post k st1 K pre1 post1"
proof -
  have tops: "distinct (map top (pre @ C # post))"
  proof -
    have "distinct (map top ts)" if "distinct (tree_ptrs ts)" for ts
      using that by (induction ts) (auto simp: ptrs_Cons dest: top_in_ptrs)
    then show ?thesis using dis by blast
  qed
  obtain t where t: "t \<in> set (pre @ C # post)" "k = top t \<or> k \<in> set (tree_ptrs (kids t))" using in_ptrs_tree [OF k(3)] by blast
  have nopost: "k \<notin> set (tree_ptrs (kids t))" if "t \<in> set (C # post)" using ok(2) that k(1) by (auto simp: root_ok_def)
  consider (pre_root) "t \<in> set pre" "k = top t" | (post_root) "t \<in> set post" "k = top t"
    | (kid) "t \<in> set pre" "k \<in> set (tree_ptrs (kids t))"
    using t k(2) nopost by auto
  then show ?thesis
  proof cases
    case pre_root
    then obtain as bs where pre: "pre = as @ t # bs" by (meson split_list)
    have rt: "root_ok tb (nodes st) True t" using ok(1) pre by simp
    define st1 where "st1 = set_slot (end_slot Head (map top as)) (nnext (nodes st (top t))) st"
    have "parent (nodes st (top t)) = None" using rt by (simp add: root_ok_def)
    have sh': "trees_at (nodes st) (tree st) (as @ t # bs @ C # post)" "distinct (tree_ptrs (as @ t # bs @ C # post))"
      using sh dis by (simp_all add: pre)
    note run = take_root(1) [OF sh' \<open>parent (nodes st (top t)) = None\<close>, of "end_slot Head (map top pre)", folded st1_def]
    note r = take_root(2-4) [OF sh' \<open>parent (nodes st (top t)) = None\<close>, folded st1_def]
    have "(if end_slot Head (map top pre) = Next (top t) then end_slot Head (map top as) else end_slot Head (map top pre)) =
        end_slot Head (map top (as @ bs))"
    proof (cases "bs = []")
      case False
      then have "end_slot Head (map top pre) = Next (top (last bs))" "end_slot Head (map top (as @ bs)) = Next (top (last bs))"
        by (simp_all add: pre end_slot_Next last_map)
      moreover have "top (last bs) \<noteq> top t"
        using tops imageI [OF last_in_set [OF False], of top] by (auto simp: pre)
      ultimately show ?thesis by simp
    qed (simp add: pre)
    moreover have "loose tb (nodes st1) t"
      using root_loose [OF rt] k pre_root loose_same [OF r(3,2)] sh' by (auto simp: seg_append seg_Cons)
    ultimately show ?thesis
      using run r ok k(2) pre_root(2) root_ok_same [OF r(3)] unfolding taken_def
      by (intro exI [of _ st1] exI [of _ t] exI [of _ "as @ bs"] exI [of _ post]) (auto simp: pre ptrs_Cons)
  next
    case post_root
    then obtain as bs where post: "post = as @ t # bs" by (meson split_list)
    have rt: "root_ok tb (nodes st) False t" using ok(2) post by simp
    define st1 where "st1 = set_slot (end_slot Head (map top (pre @ C # as))) (nnext (nodes st (top t))) st"
    have par: "parent (nodes st (top t)) = None" using rt by (simp add: root_ok_def)
    have sh': "trees_at (nodes st) (tree st) ((pre @ C # as) @ t # bs)" "distinct (tree_ptrs ((pre @ C # as) @ t # bs))"
      using sh dis by (simp_all add: post)
    note run = take_root(1) [OF sh' par, of "end_slot Head (map top pre)", folded st1_def]
    note r = take_root(2-4) [OF sh' par, folded st1_def]
    have "end_slot Head (map top pre) \<noteq> Next (top t)"
      using tops by (cases pre rule: rev_cases) (auto simp: post)
    moreover have "loose tb (nodes st1) t"
      using root_loose [OF rt] k post_root loose_same [OF r(3,2)] sh' by (auto simp: seg_append seg_Cons)
    ultimately show ?thesis
      using run r ok k(2) post_root(2) root_ok_same [OF r(3)] unfolding taken_def
      by (intro exI [of _ st1] exI [of _ t] exI [of _ pre] exI [of _ "as @ bs"]) (auto simp: post ptrs_Cons)
  next
    case kid
    then obtain as bs where pre: "pre = as @ t # bs" by (meson split_list)
    have rt: "root_ok tb (nodes st) True t" using ok(1) pre by simp
    obtain K where K: "K \<in> set (kids t)" "k = top K"
      using in_ptrs_tree [OF kid(2)] rt k(1) by (auto simp: root_ok_def)
    then obtain xs ys where us: "kids t = xs @ K # ys" by (meson split_list)
    have tt: "t = Thread (top t) (xs @ K # ys)" using us by (cases t) simp
    have par: "parent (nodes st (top K)) = Some (top t)" using rt K k(1) by (auto simp: root_ok_def)
    have sh': "trees_at (nodes st) (tree st) (as @ Thread (top t) (xs @ K # ys) # bs @ C # post)"
        "distinct (tree_ptrs (as @ Thread (top t) (xs @ K # ys) # bs @ C # post))"
      using sh dis tt by (simp_all add: pre)
    have "k \<in> set (tree_ptrs [t])" using kid(2) by (simp add: ptrs_Cons)
    have "end_slot Head (map top pre) \<noteq> Next (top K)"
    proof -
      have "top K \<notin> set (map top pre)"
      proof
        assume "top K \<in> set (map top pre)"
        then have "top K \<in> set (tree_ptrs as) \<or> top K = top t \<or> top K \<in> set (tree_ptrs bs)"
          using top_in_ptrs by (auto simp: pre)
        then show False using sh'(2) by (auto simp: ptrs_Cons)
      qed
      then show ?thesis by (cases pre rule: rev_cases) auto
    qed
    from take_kid [OF sh' par this] obtain st1 where st1: "thread_remove_node st (top K) (end_slot Head (map top pre)) = Some (st1, end_slot Head (map top pre))"
        "trees_at (nodes st1) (tree st1) (as @ Thread (top t) (xs @ ys) # bs @ C # post)"
        "trees_at (nodes st1) (child (nodes st1 (top K))) (kids K)" "same_data st st1" by blast
    define pre1 where "pre1 = as @ Thread (top t) (xs @ ys) # bs"
    have "root_ok tb (nodes st) True (Thread (top t) (xs @ ys))"
    proof -
      have "\<exists>u\<in>set (xs @ ys). top u \<notin> tb" if "item (nodes st (top t)) = None"
        using rt that us K(2) k(1) by (auto simp: root_ok_def)
      moreover have "filled (nodes st) (xs @ ys)" using rt us unfolding root_ok_def filled_def by (simp add: ptrs_Cons ball_Un)
      moreover have "top t \<notin> tb" using rt kid(2) k(1) by (auto simp: root_ok_def)
      ultimately show ?thesis using rt us by (auto simp: root_ok_def)
    qed
    then have "\<forall>u\<in>set pre1. root_ok tb (nodes st1) True u"
      using ok(1) root_ok_same [OF st1(4)] by (auto simp: pre1_def pre)
    moreover have "loose tb (nodes st1) K"
      using rt K k(1) st1(3) kin_same [OF st1(4)] filled_same [OF st1(4)] us
      by (auto simp: loose_def root_ok_def filled_def ptrs_Cons)
    moreover have "mset (tree_ptrs (pre1 @ post)) + mset (tree_ptrs [K]) = mset (tree_ptrs (pre @ post))"
      by (simp add: pre1_def pre ptrs_Cons us)
    ultimately show ?thesis
      using st1 ok(2) K(2) root_ok_same [OF st1(4)] unfolding taken_def
      by (intro exI [of _ st1] exI [of _ K] exI [of _ pre1] exI [of _ post]) (simp add: pre1_def pre)
  qed
qed

end
