(* ===== verification/Camel_ThreadMerge.thy ===== *)
theory Camel_ThreadMerge
  imports Camel_ThreadGroup
begin

text \<open>The moves of the second loop of \<^verbatim>\<open>group_root_set\<close>, each on the list of roots, and the loop.\<close>

section \<open>Adding a child\<close>

lemma seg_kids_at:
  assumes "seg h p0 (as @ Thread p us # bs) r"
    and "\<And>q. q \<in> set (tree_ptrs as) \<union> set (tree_ptrs bs) \<Longrightarrow> nnext (h' q) = nnext (h q) \<and> child (h' q) = child (h q)"
    and "nnext (h' p) = nnext (h p)" and "trees_at h' (child (h' p)) vs"
  shows "seg h' p0 (as @ Thread p vs # bs) r"
proof -
  obtain m where m: "seg h p0 as m" "m = Some p" "seg h (nnext (h p)) bs r" using assms(1) by (auto simp: seg_append)
  have "seg h' p0 as m" using m(1) seg_cong [of as h' h] assms(2) by simp
  moreover have "seg h' (nnext (h p)) bs r" using m(3) seg_cong [of bs h' h] assms(2) by simp
  ultimately show ?thesis using m(2) assms(3,4) by (auto simp: seg_append)
qed

lemma add_child_fields:
  assumes "n \<noteq> k" and "st' = container_add_child st n k"
  shows "parent (nodes st' q) = (if q = k then Some n else parent (nodes st q))"
    and "child (nodes st' q) = (if q = n then Some k else child (nodes st q))"
    and "nnext (nodes st' q) = (if q = k then child (nodes st n) else nnext (nodes st q))"
    and "item (nodes st' q) = item (nodes st q)" and "root_subject (nodes st' q) = root_subject (nodes st q)"
    and "re (nodes st' q) = re (nodes st q)" and "tree st' = tree st" and "next_node st' = next_node st"
    and "freed st' = freed st"
  using assms by (simp_all add: container_add_child_def Let_def)

lemma add_child_seg:
  assumes sh: "seg (nodes st) p0 (as @ Thread n us # bs) r" and K: "trees_at (nodes st) (child (nodes st (top K))) (kids K)"
    and dis: "distinct (tree_ptrs (K # as @ Thread n us # bs))"
  shows "seg (nodes (container_add_child st n (top K))) p0 (as @ Thread n (K # us) # bs) r"
proof -
  define st' where "st' = container_add_child st n (top K)"
  have nk: "n \<noteq> top K" using dis by (auto simp: ptrs_Cons)
  note f = add_child_fields [OF nk st'_def]
  have us: "trees_at (nodes st) (child (nodes st n)) us" using sh by (auto simp: seg_append)
  show ?thesis
    unfolding st'_def [symmetric]
  proof (rule seg_kids_at [OF sh])
    show "nnext (nodes st' q) = nnext (nodes st q) \<and> child (nodes st' q) = child (nodes st q)"
      if "q \<in> set (tree_ptrs as) \<union> set (tree_ptrs bs)" for q
      using that dis f(2,3) [of q] by (auto simp: ptrs_Cons)
    show "nnext (nodes st' n) = nnext (nodes st n)" using f(3) [of n] nk by simp
    have "trees_at (nodes st') (child (nodes st (top K))) (kids K)"
      using K by (rule seg_cong [THEN iffD2, rotated]) (use dis f(2,3) in \<open>auto simp: ptrs_Cons\<close>)
    moreover have "trees_at (nodes st') (child (nodes st n)) us"
      using us by (rule seg_cong [THEN iffD2, rotated]) (use dis f(2,3) in \<open>auto simp: ptrs_Cons\<close>)
    ultimately show "trees_at (nodes st') (child (nodes st' n)) (K # us)" using f(2,3) nk by (simp add: seg_Cons)
  qed
qed

text \<open>A tree under the root that is visited.\<close>

lemma add_to_root_ok:
  assumes rt: "root_ok tb (nodes st) vis C" and K: "loose tb (nodes st) K" "item (nodes st (top K)) \<noteq> None"
    and dis: "distinct (tree_ptrs [K, C])" and c: "top C \<notin> tb \<and> vis' \<or> top K \<notin> tb \<and> vis' = vis"
  shows "root_ok tb (nodes (container_add_child st (top C) (top K))) vis' (Thread (top C) (K # kids C))"
proof -
  define st' where "st' = container_add_child st (top C) (top K)"
  have ck: "top C \<noteq> top K" using dis by (auto simp: ptrs_Cons)
  note f = add_child_fields [OF ck st'_def]
  have out: "top K \<notin> set (tree_ptrs (kids C))" "top K \<notin> set (tree_ptrs (kids K))" using dis by (auto simp: ptrs_Cons)
  have kin': "kin (nodes st') par ts = kin (nodes st) par ts" if "top K \<notin> set (tree_ptrs ts)" for par ts
    by (rule kin_cong) (use that f(1) in auto)
  have u: "top u \<noteq> top K" "top K \<notin> set (tree_ptrs (kids u))" if "u \<in> set (kids C)" for u
    using that out(1) top_in_ptrs [OF that] kids_in_ptrs [OF that] by auto
  have "kin (nodes st') (Some (top u)) (kids u) \<and>
      (parent (nodes st' (top u)) = Some (top C) \<or> item (nodes st' (top C)) = None \<and> top u \<notin> tb)"
    if "u \<in> set (kids C)" for u
    using rt that u [OF that] kin' f(1,4) by (auto simp: root_ok_def)
  moreover have "kin (nodes st') (Some (top K)) (kids K)" using K(1) kin' out(2) by (simp add: loose_def)
  moreover have "filled (nodes st') (K # kids C)"
    using rt K by (auto simp: filled_def root_ok_def loose_def ptrs_Cons f(4))
  moreover have "item (nodes st' (top C)) = None \<longrightarrow> (\<exists>u\<in>set (kids C). top u \<notin> tb)"
    using rt by (auto simp: root_ok_def f(4))
  ultimately show ?thesis
    using rt K(1) c ck f(1) unfolding st'_def [symmetric] by (auto simp: root_ok_def loose_def ptrs_Cons)
qed

text \<open>A tree under a child of a root.\<close>

lemma add_to_kid_ok:
  assumes rt: "root_ok tb (nodes st) True t" and us: "kids t = xs @ N # ys" and N: "top N \<in> tb"
    and K: "loose tb (nodes st) K" "item (nodes st (top K)) \<noteq> None" "top K \<notin> tb" and dis: "distinct (tree_ptrs [K, t])"
  shows "root_ok tb (nodes (container_add_child st (top N) (top K))) True
      (Thread (top t) (xs @ Thread (top N) (K # kids N) # ys))"
proof -
  define st' where "st' = container_add_child st (top N) (top K)"
  have nk: "top N \<noteq> top K" using N K(3) by auto
  note f = add_child_fields [OF nk st'_def]
  have out: "top K \<notin> set (tree_ptrs (kids K))" "top K \<notin> set (tree_ptrs (kids N))" "top K \<noteq> top t"
    using dis us by (auto simp: ptrs_Cons)
  have kin': "kin (nodes st') par ts = kin (nodes st) par ts" if "top K \<notin> set (tree_ptrs ts)" for par ts
    by (rule kin_cong) (use that f(1) in auto)
  have u: "top u \<noteq> top K" "top K \<notin> set (tree_ptrs (kids u))" if "u \<in> set (xs @ ys)" for u
  proof -
    have "top K \<notin> set (tree_ptrs (xs @ ys))" using dis us by (auto simp: ptrs_Cons)
    then show "top u \<noteq> top K" "top K \<notin> set (tree_ptrs (kids u))" using top_in_ptrs [OF that] kids_in_ptrs [OF that] by auto
  qed
  have tt: "top t \<notin> tb" using rt us N by (auto simp: root_ok_def ptrs_Cons)
  have "kin (nodes st') (Some (top u)) (kids u) \<and>
      (parent (nodes st' (top u)) = Some (top t) \<or> item (nodes st' (top t)) = None \<and> top u \<notin> tb)"
    if "u \<in> set (xs @ ys)" for u
    using rt that us u [OF that] kin' f(1,4) by (auto simp: root_ok_def)
  moreover have "kin (nodes st') (Some (top N)) (K # kids N)"
    using rt us K(1) kin' out f(1) by (auto simp: root_ok_def loose_def kin_Cons)
  moreover have "parent (nodes st' (top N)) = Some (top t)" using rt us N f(1) nk by (auto simp: root_ok_def)
  moreover have "filled (nodes st') (xs @ Thread (top N) (K # kids N) # ys)"
    using rt us K unfolding filled_def root_ok_def loose_def by (simp add: ptrs_Cons f(4) ball_Un)
  moreover have "\<exists>u\<in>set (xs @ ys). top u \<notin> tb" if "item (nodes st' (top t)) = None"
    using rt us N that by (auto simp: root_ok_def f(4))
  ultimately show ?thesis
    using rt us K(1,3) tt out(3) f(1) unfolding st'_def [symmetric] by (auto simp: root_ok_def loose_def ptrs_Cons)
qed

lemma add_under:
  assumes sh: "trees_at (nodes st) (tree st) (pre @ post)" and dis: "distinct (tree_ptrs (K # pre @ post))"
    and ok: "\<forall>t\<in>set pre. root_ok tb (nodes st) True t" "\<forall>t\<in>set post. root_ok tb (nodes st) False t"
    and k: "k \<in> tb" "k \<in> set (tree_ptrs (pre @ post))"
    and K: "loose tb (nodes st) K" "item (nodes st (top K)) \<noteq> None" "top K \<notin> tb"
  defines "st' \<equiv> container_add_child st k (top K)"
  shows "\<exists>pre1 post1. trees_at (nodes st') (tree st') (pre1 @ post1) \<and> map top pre1 = map top pre \<and>
    length post1 = length post \<and> mset (tree_ptrs (pre1 @ post1)) = mset (tree_ptrs (K # pre @ post)) \<and>
    (\<forall>t\<in>set pre1. root_ok tb (nodes st') True t) \<and> (\<forall>t\<in>set post1. root_ok tb (nodes st') False t)"
proof -
  have kK: "k \<noteq> top K" using k(1) K(3) by auto
  note f = add_child_fields [OF kK st'_def [THEN meta_eq_to_obj_eq]]
  have Ks: "trees_at (nodes st) (child (nodes st (top K))) (kids K)" using K(1) by (simp add: loose_def)
  have other: "root_ok tb (nodes st') vis t = root_ok tb (nodes st) vis t" if "t \<in> set (pre @ post)" for vis t
  proof (rule root_ok_cong)
    fix q assume "q \<in> set (tree_ptrs [t])"
    then have "q \<in> set (tree_ptrs (pre @ post))" using that top_in_ptrs [OF that] kids_in_ptrs [OF that] by (auto simp: ptrs_Cons)
    then have "q \<noteq> top K" using dis by (auto simp: ptrs_Cons)
    then show "parent (nodes st' q) = parent (nodes st q) \<and> item (nodes st' q) = item (nodes st q)" using f(1,4) by simp
  qed
  obtain t where t: "t \<in> set (pre @ post)" "k = top t \<or> k \<in> set (tree_ptrs (kids t))" using in_ptrs_tree [OF k(2)] by blast
  obtain as bs where split: "pre @ post = as @ t # bs" using t(1) by (meson split_list)
  have pos: "\<exists>pre1 post1. as @ t' # bs = pre1 @ post1 \<and> map top pre1 = map top pre \<and> length post1 = length post \<and>
      (\<forall>t\<in>set pre1. root_ok tb (nodes st') True t) \<and> (\<forall>t\<in>set post1. root_ok tb (nodes st') False t)"
    if t': "top t' = top t" "\<And>vis. root_ok tb (nodes st) vis t \<Longrightarrow> vis \<or> k = top t \<Longrightarrow> root_ok tb (nodes st') vis t'" for t'
  proof (cases "length as < length pre")
    case True
    then obtain cs where cs: "pre = as @ t # cs" "bs = cs @ post"
      using split by (auto simp: append_eq_append_conv2 append_eq_Cons_conv Cons_eq_append_conv)
    have "root_ok tb (nodes st') True t'" using t'(2) ok(1) cs by simp
    then show ?thesis
      using ok other t'(1) cs by (intro exI [of _ "as @ t' # cs"] exI [of _ post]) auto
  next
    case False
    then obtain cs where cs: "as = pre @ cs" "post = cs @ t # bs"
      using split by (auto simp: append_eq_append_conv2 append_eq_Cons_conv Cons_eq_append_conv)
    have rt: "root_ok tb (nodes st) False t" using ok(2) cs by simp
    then have "k = top t" using t(2) k(1) by (auto simp: root_ok_def)
    then have "root_ok tb (nodes st') False t'" using t'(2) rt by simp
    then show ?thesis
      using ok other cs by (intro exI [of _ pre] exI [of _ "cs @ t' # bs"]) auto
  qed
  show ?thesis
  proof (cases "k = top t")
    case True
    have "trees_at (nodes st') (tree st') (as @ Thread k (K # kids t) # bs)"
      unfolding f(7) unfolding st'_def
      by (rule add_child_seg [OF _ Ks]) (use sh dis split True in \<open>cases t; auto simp: ptrs_Cons\<close>)+
    moreover have "root_ok tb (nodes st') vis (Thread k (K # kids t))" if "root_ok tb (nodes st) vis t" for vis
    proof -
      have "distinct (tree_ptrs [K, t])" using dis split by (auto simp: ptrs_Cons)
      then show ?thesis using add_to_root_ok [OF that K(1,2)] K(3) True unfolding st'_def by simp
    qed
    then obtain pre1 post1 where "as @ Thread k (K # kids t) # bs = pre1 @ post1" "map top pre1 = map top pre"
        "length post1 = length post" "\<forall>t\<in>set pre1. root_ok tb (nodes st') True t"
        "\<forall>t\<in>set post1. root_ok tb (nodes st') False t"
      using pos [of "Thread k (K # kids t)"] True by auto
    moreover have "mset (tree_ptrs (as @ Thread k (K # kids t) # bs)) = mset (tree_ptrs (K # pre @ post))"
      using split True by (simp add: ptrs_Cons)
    ultimately show ?thesis by (intro exI [of _ pre1] exI [of _ post1]) simp
  next
    case False
    then have kt: "k \<in> set (tree_ptrs (kids t))" using t(2) by simp
    have vis: "t \<in> set pre" using t(1) kt ok(2) k(1) by (auto simp: root_ok_def)
    then have rt: "root_ok tb (nodes st) True t" using ok(1) by simp
    obtain N where N: "N \<in> set (kids t)" "k = top N"
      using in_ptrs_tree [OF kt] rt k(1) by (auto simp: root_ok_def)
    then obtain xs ys where us: "kids t = xs @ N # ys" by (meson split_list)
    define t' where "t' = Thread (top t) (xs @ Thread k (K # kids N) # ys)"
    have d2: "distinct (tree_ptrs [K, t])" using dis split by (auto simp: ptrs_Cons)
    have "trees_at (nodes st') (tree st') (as @ t' # bs)"
      unfolding t'_def
    proof (rule seg_kids_at)
      show "trees_at (nodes st) (tree st') (as @ Thread (top t) (kids t) # bs)" using sh split f(7) by (cases t) simp
      show "nnext (nodes st' q) = nnext (nodes st q) \<and> child (nodes st' q) = child (nodes st q)"
        if "q \<in> set (tree_ptrs as) \<union> set (tree_ptrs bs)" for q
      proof -
        have "distinct (tree_ptrs (K # as @ t # bs))" using dis split by (simp add: ptrs_Cons)
        then have "q \<noteq> top K" "q \<notin> set (tree_ptrs (kids t))" using that by (auto simp: ptrs_Cons)
        then have "q \<noteq> top K" "q \<noteq> k" using kt by auto
        then show ?thesis using f(2,3) by simp
      qed
      show "nnext (nodes st' (top t)) = nnext (nodes st (top t))" using f(3) d2 by (auto simp: ptrs_Cons)
      have "child (nodes st' (top t)) = child (nodes st (top t))" using f(2) False by auto
      moreover have "trees_at (nodes st) (child (nodes st (top t))) (xs @ Thread k (kids N) # ys)"
        using sh split us N(2) by (cases N) (auto simp: seg_append seg_Cons)
      then have "trees_at (nodes st') (child (nodes st (top t))) (xs @ Thread k (K # kids N) # ys)"
        unfolding st'_def by (rule add_child_seg [OF _ Ks]) (use d2 us N(2) in \<open>auto simp: ptrs_Cons\<close>)
      ultimately show "trees_at (nodes st') (child (nodes st' (top t))) (xs @ Thread k (K # kids N) # ys)" by simp
    qed
    moreover have "root_ok tb (nodes st') True t'"
      using add_to_kid_ok [OF rt us _ K d2] k(1) N(2) unfolding st'_def t'_def by simp
    then obtain pre1 post1 where "as @ t' # bs = pre1 @ post1" "map top pre1 = map top pre"
        "length post1 = length post" "\<forall>t\<in>set pre1. root_ok tb (nodes st') True t"
        "\<forall>t\<in>set post1. root_ok tb (nodes st') False t"
      using pos [of t'] False by (auto simp: t'_def)
    moreover have "mset (tree_ptrs (as @ t' # bs)) = mset (tree_ptrs (K # pre @ post))"
      using split us N(2) by (simp add: ptrs_Cons t'_def)
    ultimately show ?thesis by (intro exI [of _ pre1] exI [of _ post1]) simp
  qed
qed

section \<open>The invariant of the loop\<close>

text \<open>Memory: no node is freed twice, and none that is in use.\<close>

definition memory_ok :: "'i thread_store \<Rightarrow> node_ptr set \<Rightarrow> bool" where
  "memory_ok st A \<longleftrightarrow> distinct (freed st) \<and> set (freed st) \<subseteq> {..<next_node st} \<and> set (freed st) \<inter> A = {} \<and> A \<subseteq> {..<next_node st}"

definition group_inv ::
    "'i thread_store \<Rightarrow> subject_table \<Rightarrow> message_tree list \<Rightarrow> message_tree list \<Rightarrow> 'i multiset \<Rightarrow> bool" where
  "group_inv st table pre post M \<longleftrightarrow>
     trees_at (nodes st) (tree st) (pre @ post) \<and> distinct (tree_ptrs (pre @ post)) \<and>
     (\<forall>t\<in>set pre. root_ok (ran table) (nodes st) True t) \<and> (\<forall>t\<in>set post. root_ok (ran table) (nodes st) False t) \<and>
     (\<forall>s k. table s = Some k \<longrightarrow> root_subject (nodes st k) = Some s) \<and> ran table \<subseteq> set (tree_ptrs (pre @ post)) \<and>
     items_in (nodes st) (set (tree_ptrs (pre @ post))) = M \<and> memory_ok st (set (tree_ptrs (pre @ post)))"

lemma group_invD:
  assumes "group_inv st table pre post M"
  shows "trees_at (nodes st) (tree st) (pre @ post)" "distinct (tree_ptrs (pre @ post))"
    "\<forall>t\<in>set pre. root_ok (ran table) (nodes st) True t" "\<forall>t\<in>set post. root_ok (ran table) (nodes st) False t"
    "\<And>s k. table s = Some k \<Longrightarrow> root_subject (nodes st k) = Some s" "ran table \<subseteq> set (tree_ptrs (pre @ post))"
    "items_in (nodes st) (set (tree_ptrs (pre @ post))) = M" "memory_ok st (set (tree_ptrs (pre @ post)))"
  using assms unfolding group_inv_def by blast+

text \<open>The invariant after a step that keeps the nodes, the items and the table.\<close>

lemma group_inv_step:
  assumes inv: "group_inv st table pre post M" and m: "mset (tree_ptrs (pre' @ post')) = mset (tree_ptrs (pre @ post))"
    and "trees_at (nodes st') (tree st') (pre' @ post')"
    and "\<forall>t\<in>set pre'. root_ok (ran table) (nodes st') True t" and "\<forall>t\<in>set post'. root_ok (ran table) (nodes st') False t"
    and "\<And>q. item (nodes st' q) = item (nodes st q)" and "\<And>q. root_subject (nodes st' q) = root_subject (nodes st q)"
    and "next_node st' = next_node st" and "freed st' = freed st"
  shows "group_inv st' table pre' post' M"
proof -
  have s: "set (tree_ptrs (pre' @ post')) = set (tree_ptrs (pre @ post))" by (rule mset_eq_setD [OF m])
  have d: "distinct (tree_ptrs (pre' @ post'))" using m group_invD(2) [OF inv] mset_eq_imp_distinct_iff by blast
  have "items_in (nodes st') (set (tree_ptrs (pre @ post))) = M"
    using items_in_cong [of _ "nodes st'" "nodes st"] assms(6) group_invD(7) [OF inv] by metis
  then show ?thesis
    using assms(3-5,7-9) group_invD(5,6,8) [OF inv] d unfolding group_inv_def s memory_ok_def by auto
qed

lemma other_ok:
  assumes "k \<notin> set (tree_ptrs [t])" and "n \<noteq> k"
  shows "root_ok tb (nodes (container_add_child st n k)) vis t = root_ok tb (nodes st) vis t"
proof (rule root_ok_cong)
  fix q assume "q \<in> set (tree_ptrs [t])"
  then have "q \<noteq> k" using assms(1) by auto
  then show "parent (nodes (container_add_child st n k) q) = parent (nodes st q) \<and>
      item (nodes (container_add_child st n k) q) = item (nodes st q)"
    using add_child_fields(1,4) [OF assms(2) refl, of st q] by simp
qed

section \<open>One node\<close>

lemma merge_visit:
  assumes "group_inv st table pre (C # post) M"
  shows "group_inv st table (pre @ [C]) post M"
  using assms root_ok_visit unfolding group_inv_def by auto

text \<open>The node \<open>k\<close> of the table goes under \<open>C\<close>.\<close>

lemma merge_container_under:
  assumes inv: "group_inv st table pre (C # post) M" and k: "k \<in> ran table" "item (nodes st k) \<noteq> None"
    and c: "top C \<notin> ran table"
  shows "\<exists>st1 pre1 post1. thread_remove_node st k (end_slot Head (map top pre)) = Some (st1, end_slot Head (map top pre1)) \<and>
    (\<exists>C'. top C' = top C \<and> group_inv (container_add_child st1 (top C) k) table (pre1 @ [C']) post1 M \<and>
       length post1 \<le> length post)"
proof -
  note g = group_invD [OF inv]
  have kc: "k \<noteq> top C" using k(1) c by auto
  have kin_list: "k \<in> set (tree_ptrs (pre @ C # post))" using g(6) k(1) by blast
  obtain st1 K pre1 post1 where "taken (ran table) st pre C post k st1 K pre1 post1"
    using take_node [OF g(1,2,3,4) k(1) kc kin_list k(2)] by blast
  then have t: "thread_remove_node st k (end_slot Head (map top pre)) = Some (st1, end_slot Head (map top pre1))"
      "same_data st st1" "trees_at (nodes st1) (tree st1) (pre1 @ C # post1)" "top K = k" "loose (ran table) (nodes st1) K"
      "mset (tree_ptrs (pre1 @ post1)) + mset (tree_ptrs [K]) = mset (tree_ptrs (pre @ post))" "length post1 \<le> length post"
      "\<forall>t\<in>set pre1. root_ok (ran table) (nodes st1) True t" "\<forall>t\<in>set post1. root_ok (ran table) (nodes st1) False t"
    by (simp_all add: taken_def)
  define C' where "C' = Thread (top C) (K # kids C)"
  define st2 where "st2 = container_add_child st1 (top C) k"
  have m: "mset (tree_ptrs (K # pre1 @ C # post1)) = mset (tree_ptrs (pre @ C # post))"
    using t(6) by (simp add: ptrs_Cons ac_simps)
  have dis: "distinct (tree_ptrs (K # pre1 @ C # post1))" using m g(2) mset_eq_imp_distinct_iff by blast
  have "K = Thread k (kids K)" using t(4) by (cases K) simp
  note f = add_child_fields [OF kc [symmetric] st2_def]
  have CC: "C = Thread (top C) (kids C)" by (cases C) simp
  have "trees_at (nodes st2) (tree st1) (pre1 @ C' # post1)"
    unfolding C'_def st2_def t(4) [symmetric]
  proof (rule add_child_seg)
    show "trees_at (nodes st1) (tree st1) (pre1 @ Thread (top C) (kids C) # post1)" using t(3) CC by simp
    show "trees_at (nodes st1) (child (nodes st1 (top K))) (kids K)" using t(5) by (simp add: loose_def)
    show "distinct (tree_ptrs (K # pre1 @ Thread (top C) (kids C) # post1))" using dis CC by simp
  qed
  then have sh: "trees_at (nodes st2) (tree st2) ((pre1 @ [C']) @ post1)" using f(7) by simp
  have "root_ok (ran table) (nodes st2) True C'"
    unfolding C'_def st2_def t(4) [symmetric]
  proof (rule add_to_root_ok)
    show "root_ok (ran table) (nodes st1) False C" using g(4) root_ok_same [OF t(2)] by simp
    show "loose (ran table) (nodes st1) K" by (rule t(5))
    show "item (nodes st1 (top K)) \<noteq> None" using k(2) t(2,4) by (simp add: same_data_def)
    show "distinct (tree_ptrs [K, C])" using dis by (auto simp: ptrs_Cons)
  qed (use c in simp)
  moreover have "root_ok (ran table) (nodes st2) vis t = root_ok (ran table) (nodes st1) vis t"
    if "t \<in> set (pre1 @ post1)" for vis t
  proof -
    have "k \<notin> set (tree_ptrs [t])"
    proof
      assume "k \<in> set (tree_ptrs [t])"
      then have "k \<in> set (tree_ptrs (pre1 @ post1))" using that top_in_ptrs [OF that] kids_in_ptrs [OF that] by (auto simp: ptrs_Cons)
      then show False using dis t(4) by (auto simp: ptrs_Cons)
    qed
    then show ?thesis unfolding st2_def using other_ok kc by metis
  qed
  ultimately have "\<forall>t\<in>set (pre1 @ [C']). root_ok (ran table) (nodes st2) True t"
      "\<forall>t\<in>set post1. root_ok (ran table) (nodes st2) False t" using t(8,9) by auto
  moreover have "mset (tree_ptrs ((pre1 @ [C']) @ post1)) = mset (tree_ptrs (pre @ C # post))"
    using m by (simp add: ptrs_Cons C'_def ac_simps)
  ultimately have "group_inv st2 table (pre1 @ [C']) post1 M"
    using sh f(4,5,8,9) t(2) by (intro group_inv_step [OF inv]) (simp_all add: same_data_def)
  then show ?thesis using t(1,7) unfolding st2_def C'_def by (metis message_tree.sel(1))
qed

text \<open>\<open>C\<close> is taken out of the list of roots.\<close>

lemma drop_root:
  assumes sh: "trees_at (nodes st) (tree st) (pre @ C # post)" and dis: "distinct (tree_ptrs (pre @ C # post))"
  defines "st1 \<equiv> set_slot (end_slot Head (map top pre)) (nnext (nodes st (top C))) st"
  shows "trees_at (nodes st1) (tree st1) (pre @ post)" and "trees_at (nodes st1) (child (nodes st1 (top C))) (kids C)"
    and "same_data st st1"
  using unlink_tree(3,4) [of st Head pre C post] assms by simp_all

text \<open>\<open>C\<close> goes under the node \<open>k\<close> of the table.\<close>

lemma merge_under_container:
  assumes inv: "group_inv st table pre (C # post) M" and k: "k \<in> ran table"
    and c: "top C \<notin> ran table" "item (nodes st (top C)) \<noteq> None"
  shows "\<exists>pre1 post1. map top pre1 = map top pre \<and> length post1 = length post \<and>
    group_inv (container_add_child (set_slot (end_slot Head (map top pre)) (nnext (nodes st (top C))) st) k (top C))
      table pre1 post1 M"
proof -
  note g = group_invD [OF inv]
  define st1 where "st1 = set_slot (end_slot Head (map top pre)) (nnext (nodes st (top C))) st"
  note d = drop_root [OF g(1,2), folded st1_def]
  have rC: "root_ok (ran table) (nodes st1) False C" using g(4) root_ok_same [OF d(3)] by simp
  have lo: "loose (ran table) (nodes st1) C"
    by (rule root_loose [OF rC _ _ d(2)]) (use c(2) d(3) in \<open>simp_all add: same_data_def\<close>)
  have nk: "k \<notin> set (tree_ptrs [C])"
    using g(4) k c(1) by (auto simp: root_ok_def ptrs_Cons)
  then have "k \<in> set (tree_ptrs (pre @ post))" using g(6) k by (auto simp: ptrs_Cons)
  moreover have "distinct (tree_ptrs (C # pre @ post))" using g(2) by (auto simp: ptrs_Cons)
  moreover have "\<forall>t\<in>set pre. root_ok (ran table) (nodes st1) True t" "\<forall>t\<in>set post. root_ok (ran table) (nodes st1) False t"
    using g(3,4) root_ok_same [OF d(3)] by simp_all
  moreover have "item (nodes st1 (top C)) \<noteq> None" using c(2) d(3) by (simp add: same_data_def)
  ultimately obtain pre1 post1 where r: "trees_at (nodes (container_add_child st1 k (top C))) (tree (container_add_child st1 k (top C))) (pre1 @ post1)"
      "map top pre1 = map top pre" "length post1 = length post" "mset (tree_ptrs (pre1 @ post1)) = mset (tree_ptrs (C # pre @ post))"
      "\<forall>t\<in>set pre1. root_ok (ran table) (nodes (container_add_child st1 k (top C))) True t"
      "\<forall>t\<in>set post1. root_ok (ran table) (nodes (container_add_child st1 k (top C))) False t"
    using add_under [OF d(1), of C "ran table" k] k lo c(1) by blast
  have kC: "k \<noteq> top C" using nk by (auto simp: ptrs_Cons)
  note f = add_child_fields [OF kC refl, of st1]
  have "mset (tree_ptrs (pre1 @ post1)) = mset (tree_ptrs (pre @ C # post))" using r(4) by (simp add: ptrs_Cons ac_simps)
  then have "group_inv (container_add_child st1 k (top C)) table pre1 post1 M"
    using r(1,5,6) f(4,5,8,9) d(3) by (intro group_inv_step [OF inv]) (simp_all add: same_data_def)
  then show ?thesis using r(2,3) unfolding st1_def by blast
qed

text \<open>Writing to different places.\<close>

lemma link_commute: "n\<lparr>nnext := w, child := v\<rparr> = (n :: 'i thread_node)\<lparr>child := v, nnext := w\<rparr>"
  by (cases n) simp

lemma set_slot_commute: "s \<noteq> s' \<Longrightarrow> set_slot s v (set_slot s' w st) = set_slot s' w (set_slot s v st)"
  by (cases s; cases s') (auto simp: upd_node_def fun_upd_twist link_commute)

text \<open>The children of the empty \<open>C\<close> go to the end of those of the empty \<open>k\<close>.\<close>

lemma merge_children:
  assumes inv: "group_inv st table pre (C # post) M" and k: "k \<in> ran table" "item (nodes st k) = None"
    and c: "top C \<notin> ran table" "item (nodes st (top C)) = None"
  shows "\<exists>scan st' pre1 post1. list_end st (Child k) = Some scan \<and>
    st' = free_node (top C) (set_slot (end_slot Head (map top pre))
      (nnext (nodes (set_slot scan (child (nodes st (top C))) st) (top C))) (set_slot scan (child (nodes st (top C))) st)) \<and>
    map top pre1 = map top pre \<and> length post1 = length post \<and> group_inv st' table pre1 post1 M"
proof -
  note g = group_invD [OF inv]
  have nk: "k \<notin> set (tree_ptrs [C])" using g(4) k c(1) by (auto simp: root_ok_def ptrs_Cons)
  then have kl: "k \<in> set (tree_ptrs (pre @ post))" using g(6) k(1) by (auto simp: ptrs_Cons)
  then obtain t where t: "t \<in> set (pre @ post)" "k = top t \<or> k \<in> set (tree_ptrs (kids t))" using in_ptrs_tree by blast
  have kt: "k = top t"
  proof (rule ccontr)
    assume "k \<noteq> top t"
    then have "k \<in> set (tree_ptrs (kids t))" using t(2) by simp
    moreover obtain vis where "root_ok (ran table) (nodes st) vis t" using t(1) g(3,4) by auto
    then have "filled (nodes st) (kids t)" unfolding root_ok_def by blast
    ultimately show False using k(2) unfolding filled_def by blast
  qed
  obtain as bs where split: "pre @ post = as @ t # bs" using t(1) by (meson split_list)
  define st1 where "st1 = set_slot (end_slot Head (map top pre)) (nnext (nodes st (top C))) st"
  note d = drop_root [OF g(1,2), folded st1_def]
  have dis: "distinct (tree_ptrs (C # as @ t # bs))" using g(2) split [symmetric] by (auto simp: ptrs_Cons)
  define scan where "scan = end_slot (Child k) (map top (kids t))"
  have ksh: "trees_at (nodes st) (child (nodes st k)) (kids t)"
  proof -
    have "t \<in> set (pre @ C # post)" using t(1) by auto
    then obtain xs ys where "pre @ C # post = xs @ t # ys" by (meson split_list)
    then show ?thesis using g(1) kt by (auto simp: seg_append seg_Cons)
  qed
  have end_kids: "list_end st (Child k) = Some scan"
    using list_end_finds [of st "Child k" "map top (kids t)"] seg_chain [OF ksh] by (simp add: scan_def)
  have sc: "scan = Child k \<or> (\<exists>u\<in>set (kids t). scan = Next (top u))"
    unfolding scan_def by (cases "kids t" rule: rev_cases) auto
  have sp: "end_slot Head (map top pre) = Head \<or> (\<exists>u\<in>set pre. end_slot Head (map top pre) = Next (top u))"
    by (cases pre rule: rev_cases) auto
  have tops: "top u \<notin> set (tree_ptrs (kids t))" if "u \<in> set pre" for u
  proof
    assume a: "top u \<in> set (tree_ptrs (kids t))"
    have "u \<in> set (as @ t # bs)" using that split [symmetric] by auto
    then show False using dis a top_in_ptrs [of u as] top_in_ptrs [of u bs] by (auto simp: ptrs_Cons)
  qed
  have "top u \<noteq> top u'" if "u \<in> set pre" "u' \<in> set (kids t)" for u u'
    using tops [OF that(1)] top_in_ptrs [OF that(2)] by auto
  then have ne: "end_slot Head (map top pre) \<noteq> scan" using sc sp by fastforce
  have sout: "slot_out scan A" if "A \<inter> insert k (set (tree_ptrs (kids t))) = {}" for A
    using sc
  proof
    assume "\<exists>u\<in>set (kids t). scan = Next (top u)"
    then obtain u where "scan = Next (top u)" "top u \<in> set (tree_ptrs (kids t))" using top_in_ptrs by blast
    then show ?thesis using that by auto
  qed (use that in auto)
  have scC: "slot_out scan {top C}" "slot_out scan (set (tree_ptrs (kids C)))" "slot_out scan (set (tree_ptrs as))"
      "slot_out scan (set (tree_ptrs bs))"
    by (rule sout; use dis kt in \<open>auto simp: ptrs_Cons\<close>)+
  define st2 where "st2 = set_slot scan (child (nodes st (top C))) st1"
  have st2: "set_slot (end_slot Head (map top pre)) (nnext (nodes (set_slot scan (child (nodes st (top C))) st) (top C)))
      (set_slot scan (child (nodes st (top C))) st) = st2"
    using scC(1) ne by (simp add: st2_def st1_def set_slot_commute)
  have cC: "child (nodes st1 (top C)) = child (nodes st (top C))"
    using sp by (auto simp: st1_def)
  have sh1: "trees_at (nodes st1) (tree st1) (as @ t # bs)" using d(1) split by simp
  then have t1: "trees_at (nodes st1) (slot_next st1 (Child k)) (kids t @ [])" using kt by (simp add: seg_append seg_Cons)
  have "trees_at (nodes st2) (child (nodes st (top C))) (kids C)" using d(2) cC scC(2) by (simp add: st2_def)
  then have "trees_at (nodes st2) (slot_next st2 (Child k)) (kids t @ kids C)"
    unfolding st2_def scan_def
    using seg_set_end [OF t1] dis kt by (auto simp: ptrs_Cons)
  moreover have "nodes st2 q = nodes st1 q" if "q \<in> set (tree_ptrs as) \<union> set (tree_ptrs bs)" for q
    using that scC(3,4) by (cases scan) (auto simp: st2_def)
  moreover have "nnext (nodes st2 k) = nnext (nodes st1 k)"
  proof -
    have "scan \<noteq> Next k"
    proof
      assume a: "scan = Next k"
      then obtain u where "u \<in> set (kids t)" "k = top u" using sc by auto
      then have "k \<in> set (tree_ptrs (kids t))" using top_in_ptrs by blast
      then show False using dis kt by (auto simp: ptrs_Cons)
    qed
    then show ?thesis by (cases scan) (auto simp: st2_def)
  qed
  moreover have "tree st2 = tree st1" using sc by (auto simp: st2_def)
  moreover have "as @ t # bs = as @ Thread k (kids t) # bs" using kt by (cases t) simp
  ultimately have sh2: "trees_at (nodes st2) (tree st2) (as @ Thread k (kids t @ kids C) # bs)"
    using sh1 seg_kids_at [of "nodes st1" "tree st1" as k "kids t" bs None "nodes st2" "kids t @ kids C"] by simp
  have sd: "same_data st st2" using d(3) by (simp add: same_data_def st2_def)
  have rC: "root_ok (ran table) (nodes st) False C" using g(4) by simp
  have rt: "root_ok (ran table) (nodes st) vis (Thread k (kids t @ kids C))" if r: "root_ok (ran table) (nodes st) vis t" for vis
  proof -
    have "top u \<notin> ran table" if "u \<in> set (kids C)" for u
      using rC top_in_ptrs [OF that] by (auto simp: root_ok_def)
    then show ?thesis using r rC k kt by (auto simp: root_ok_def filled_def)
  qed
  have "\<exists>pre1 post1. as @ Thread k (kids t @ kids C) # bs = pre1 @ post1 \<and> map top pre1 = map top pre \<and>
      length post1 = length post \<and> (\<forall>t\<in>set pre1. root_ok (ran table) (nodes st) True t) \<and>
      (\<forall>t\<in>set post1. root_ok (ran table) (nodes st) False t)"
  proof (cases "length as < length pre")
    case True
    then obtain cs where cs: "pre = as @ t # cs" "bs = cs @ post"
      using split by (auto simp: append_eq_append_conv2 append_eq_Cons_conv Cons_eq_append_conv)
    then show ?thesis
      using g(3,4) rt kt by (intro exI [of _ "as @ Thread k (kids t @ kids C) # cs"] exI [of _ post]) auto
  next
    case False
    then obtain cs where cs: "as = pre @ cs" "post = cs @ t # bs"
      using split by (auto simp: append_eq_append_conv2 append_eq_Cons_conv Cons_eq_append_conv)
    then show ?thesis
      using g(3,4) rt kt by (intro exI [of _ pre] exI [of _ "cs @ Thread k (kids t @ kids C) # bs"]) auto
  qed
  then obtain pre1 post1 where p: "as @ Thread k (kids t @ kids C) # bs = pre1 @ post1" "map top pre1 = map top pre"
      "length post1 = length post" "\<forall>t\<in>set pre1. root_ok (ran table) (nodes st) True t"
      "\<forall>t\<in>set post1. root_ok (ran table) (nodes st) False t" by blast
  define st' where "st' = free_node (top C) st2"
  have "add_mset (top C) (mset (tree_ptrs (pre1 @ post1))) = mset (tree_ptrs (pre @ C # post))"
  proof -
    have "mset (tree_ptrs (pre1 @ post1)) = mset (tree_ptrs (pre @ post)) + mset (tree_ptrs (kids C))"
      unfolding p(1) [symmetric] split using kt by (simp add: ptrs_Cons ac_simps)
    then show ?thesis by (simp add: ptrs_Cons ac_simps)
  qed
  then have ms: "mset (top C # tree_ptrs (pre1 @ post1)) = mset (tree_ptrs (pre @ C # post))" by simp
  have s: "set (tree_ptrs (pre @ C # post)) = insert (top C) (set (tree_ptrs (pre1 @ post1)))"
    using mset_eq_setD [OF ms, symmetric] by (simp only: list.set)
  have "distinct (top C # tree_ptrs (pre1 @ post1))" using ms g(2) mset_eq_imp_distinct_iff by blast
  then have d': "distinct (tree_ptrs (pre1 @ post1))" "top C \<notin> set (tree_ptrs (pre1 @ post1))" by simp_all
  have it: "items_in (nodes st') (set (tree_ptrs (pre1 @ post1))) = M"
  proof -
    have "items_in (nodes st') (set (tree_ptrs (pre1 @ post1))) = items_in (nodes st) (set (tree_ptrs (pre1 @ post1)))"
      by (rule items_in_cong) (use sd in \<open>simp add: same_data_def st'_def\<close>)
    also have "\<dots> = items_in (nodes st) (insert (top C) (set (tree_ptrs (pre1 @ post1))))"
      by (rule items_in_empty_node [of "nodes st" "top C", symmetric]) (rule c(2))
    finally show ?thesis using g(7) s by simp
  qed
  have mem: "memory_ok st' (set (tree_ptrs (pre1 @ post1)))"
    using g(8) s d'(2) sd by (auto simp: memory_ok_def st'_def same_data_def)
  have "group_inv st' table pre1 post1 M"
    unfolding group_inv_def
  proof (intro conjI allI impI)
    show "trees_at (nodes st') (tree st') (pre1 @ post1)" using sh2 p(1) by (simp add: st'_def)
    show "\<forall>t\<in>set pre1. root_ok (ran table) (nodes st') True t" "\<forall>t\<in>set post1. root_ok (ran table) (nodes st') False t"
      using p(4,5) root_ok_same [OF sd] by (simp_all add: st'_def)
    show "root_subject (nodes st' a) = Some s" if "table s = Some a" for s a
      using g(5) [OF that] sd by (simp add: st'_def same_data_def)
    show "ran table \<subseteq> set (tree_ptrs (pre1 @ post1))" using g(6) c(1) unfolding s by (simp add: subset_insert)
  qed (fact d'(1) it mem)+
  then show ?thesis using end_kids p(2,3) unfolding st'_def st2 [symmetric] by blast
qed

end
