(* ===== verification/Camel_ThreadRoots.thy ===== *)
theory Camel_ThreadRoots
  imports Camel_ThreadMerge
begin

text \<open>Two roots of the same subject under a new empty one, and the loops of \<^verbatim>\<open>group_root_set\<close>.\<close>

section \<open>A new root\<close>

lemma root_ok_fresh:
  assumes "root_ok tb h vis t" and "n \<notin> set (tree_ptrs [t])"
  shows "root_ok (insert n tb) h vis t"
proof -
  have nt: "n \<noteq> top t" "n \<notin> set (tree_ptrs (kids t))" using assms(2) by (auto simp: ptrs_Cons)
  have nu: "n \<noteq> top u" "n \<notin> set (tree_ptrs (kids u))" if "u \<in> set (kids t)" for u
    using that nt(2) top_in_ptrs [OF that] kids_in_ptrs [OF that] by auto
  have "\<exists>u\<in>set (kids t). top u \<notin> insert n tb" if "item (h (top t)) = None"
  proof -
    obtain u where "u \<in> set (kids t)" "top u \<notin> tb" using assms(1) \<open>item (h (top t)) = None\<close> unfolding root_ok_def by blast
    then show ?thesis using nu(1) [of u] by auto
  qed
  then show ?thesis using assms(1) nt nu by (auto simp: root_ok_def)
qed

text \<open>The stores between the calls, from the one in which both nodes are out of the list.\<close>

definition phantom ::
    "'i thread_store \<Rightarrow> slot \<Rightarrow> node_ptr \<Rightarrow> node_ptr \<Rightarrow> 'i thread_store \<times> node_ptr" where
  "phantom st clast c container =
     (let (st, scan) = alloc0 st;
          st = upd_node scan (\<lambda>n. n\<lparr>root_subject := root_subject (nodes st c),
                 re := re (nodes st c) \<and> re (nodes st container), nnext := nnext (nodes st c)\<rparr>) st;
          st = set_slot clast (Some scan) st;
          st = container_add_child st scan c
      in (container_add_child st scan container, scan))"

lemma phantom_shape:
  assumes sh: "trees_at (nodes st) (tree st) (pre @ post)" and post: "trees_at (nodes st) (nnext (nodes st (top C))) post"
    and C: "trees_at (nodes st) (child (nodes st (top C))) (kids C)" and K: "trees_at (nodes st) (child (nodes st (top K))) (kids K)"
    and dis: "distinct (tree_ptrs (K # C # pre @ post))" and old: "set (tree_ptrs (K # C # pre @ post)) \<subseteq> {..<next_node st}"
    and ph: "phantom st (end_slot Head (map top pre)) (top C) (top K) = (st', n)"
  shows "n = next_node st" and "next_node st' = Suc n" and "freed st' = freed st"
    and "trees_at (nodes st') (tree st') (pre @ Thread n [K, C] # post)"
    and "item (nodes st' n) = None" and "parent (nodes st' n) = None"
    and "root_subject (nodes st' n) = root_subject (nodes st (top C))"
    and "q \<noteq> n \<Longrightarrow> item (nodes st' q) = item (nodes st q)" and "q \<noteq> n \<Longrightarrow> root_subject (nodes st' q) = root_subject (nodes st q)"
    and "q \<noteq> n \<Longrightarrow> parent (nodes st' q) = (if q = top C \<or> q = top K then Some n else parent (nodes st q))"
proof -
  define c k where "c = top C" and "k = top K"
  define st3 where "st3 = fst (alloc0 st)"
  define st4 where "st4 = upd_node n (\<lambda>n. n\<lparr>root_subject := root_subject (nodes st3 c),
                 re := re (nodes st3 c) \<and> re (nodes st3 k), nnext := nnext (nodes st3 c)\<rparr>) st3"
  define st5 where "st5 = set_slot (end_slot Head (map top pre)) (Some n) st4"
  define st6 where "st6 = container_add_child st5 n c"
  show n: "n = next_node st" using ph by (simp add: phantom_def alloc0_def Let_def)
  have "alloc0 st = (st3, n)" using n by (simp add: alloc0_def st3_def)
  then have st': "st' = container_add_child st6 n k"
    using ph by (simp add: phantom_def Let_def st4_def st5_def st6_def c_def k_def)
  have fresh: "n \<notin> set (tree_ptrs (K # C # pre @ post))" using old n by auto
  then have nck: "n \<noteq> c" "n \<noteq> k" "n \<notin> set (tree_ptrs pre)" "n \<notin> set (tree_ptrs post)" "n \<notin> set (tree_ptrs (kids C))" "n \<notin> set (tree_ptrs (kids K))"
    by (auto simp: ptrs_Cons c_def k_def)
  have ck: "c \<noteq> k" using dis by (auto simp: ptrs_Cons c_def k_def)
  have f4: "nodes st4 q = nodes st q" if "q \<noteq> n" for q
    using that n by (simp add: st4_def st3_def alloc0_def)
  have n4: "child (nodes st4 n) = None" "nnext (nodes st4 n) = nnext (nodes st c)" "parent (nodes st4 n) = None"
      "item (nodes st4 n) = None" "root_subject (nodes st4 n) = root_subject (nodes st c)" "tree st4 = tree st"
      "next_node st4 = Suc n" "freed st4 = freed st"
    using n nck by (simp_all add: st4_def st3_def alloc0_def)
  have seg4: "seg (nodes st4) p ts r = seg (nodes st) p ts r" if "n \<notin> set (tree_ptrs ts)" for p ts r
  proof (rule seg_cong)
    fix q assume "q \<in> set (tree_ptrs ts)"
    then have "q \<noteq> n" using that by auto
    then show "child (nodes st4 q) = child (nodes st q) \<and> nnext (nodes st4 q) = nnext (nodes st q)" using f4 by simp
  qed
  have e: "end_slot Head (map top pre) = Head \<or> (\<exists>u\<in>set pre. end_slot Head (map top pre) = Next (top u))"
    by (cases pre rule: rev_cases) auto
  have sout: "slot_out (end_slot Head (map top pre)) A" if "set (tree_ptrs pre) \<inter> A = {}" for A
    using e
  proof
    assume "\<exists>u\<in>set pre. end_slot Head (map top pre) = Next (top u)"
    then obtain u where "end_slot Head (map top pre) = Next (top u)" "top u \<in> set (tree_ptrs pre)" using top_in_ptrs by blast
    then show ?thesis using that by auto
  qed simp
  have out: "slot_out (end_slot Head (map top pre)) (set (tree_ptrs post))" "slot_out (end_slot Head (map top pre)) {n}"
      "slot_out (end_slot Head (map top pre)) (set (tree_ptrs (kids C)))" "slot_out (end_slot Head (map top pre)) {c}"
      "slot_out (end_slot Head (map top pre)) (set (tree_ptrs (kids K)))" "slot_out (end_slot Head (map top pre)) {k}"
    by (rule sout; use dis nck in \<open>auto simp: ptrs_Cons c_def k_def\<close>)+
  have n5: "nodes st5 q = nodes st4 q" if "q = n \<or> q = c \<or> q = k" for q using that out by (auto simp: st5_def)
  have pp: "distinct (tree_ptrs pre)" "n \<notin> set (tree_ptrs (pre @ post))" using dis nck by (auto simp: ptrs_Cons)
  have "trees_at (nodes st4) (slot_next st4 Head) (pre @ post)"
    using sh seg4 [OF pp(2)] n4(6) by simp
  moreover have "trees_at (nodes st5) (Some n) (Thread n [] # post)"
    using post seg4 [OF nck(4)] n4(1,2) n5 [of n] out(1) by (simp add: st5_def c_def)
  ultimately have "trees_at (nodes st5) (slot_next st5 Head) (pre @ Thread n [] # post)"
    unfolding st5_def using seg_set_end [of st4 Head pre post] pp(1) by simp
  then have sh5: "trees_at (nodes st5) (tree st5) (pre @ Thread n [] # post)" by simp
  have C5: "trees_at (nodes st5) (child (nodes st5 (top C))) (kids C)"
    using C seg4 [OF nck(5)] n5 [of c] f4 [of c] nck(1) out(3) by (simp add: st5_def c_def)
  have K5: "trees_at (nodes st5) (child (nodes st5 k)) (kids K)"
    using K seg4 [OF nck(6)] n5 [of k] f4 [of k] nck(2) out(5) by (simp add: st5_def k_def)
  note f6 = add_child_fields [OF nck(1) st6_def] and f7 = add_child_fields [OF nck(2) st']
  have "distinct (tree_ptrs (C # pre @ Thread n [] # post))" using dis nck by (auto simp: ptrs_Cons c_def)
  from add_child_seg [OF sh5 C5 this] have sh6: "trees_at (nodes st6) (tree st6) (pre @ Thread n [C] # post)"
    using f6(7) by (simp add: st6_def c_def)
  have "seg (nodes st6) p (kids K) r = seg (nodes st5) p (kids K) r" for p r
  proof (rule seg_cong)
    fix q assume "q \<in> set (tree_ptrs (kids K))"
    then have "q \<noteq> c" "q \<noteq> n" using dis nck(6) by (auto simp: ptrs_Cons c_def)
    then show "child (nodes st6 q) = child (nodes st5 q) \<and> nnext (nodes st6 q) = nnext (nodes st5 q)" using f6(2,3) by simp
  qed
  then have K6: "trees_at (nodes st6) (child (nodes st6 (top K))) (kids K)"
    using K5 f6(2) nck(2) by (simp add: k_def)
  have "distinct (tree_ptrs (K # pre @ Thread n [C] # post))" using dis nck by (auto simp: ptrs_Cons c_def k_def)
  from add_child_seg [OF sh6 K6 this] show "trees_at (nodes st') (tree st') (pre @ Thread n [K, C] # post)"
    using f7(7) by (simp add: st' k_def)
  have d5: "parent (nodes st5 q) = parent (nodes st4 q)" "item (nodes st5 q) = item (nodes st4 q)"
      "root_subject (nodes st5 q) = root_subject (nodes st4 q)" "next_node st5 = next_node st4" "freed st5 = freed st4" for q
    by (simp_all add: st5_def)
  show "next_node st' = Suc n" "freed st' = freed st" using f7(8,9) f6(8,9) d5(4,5) n4(7,8) by simp_all
  show "item (nodes st' n) = None" "parent (nodes st' n) = None" "root_subject (nodes st' n) = root_subject (nodes st (top C))"
    using f7(1,4,5) f6(1,4,5) d5 n4 nck by (simp_all add: c_def)
  show "item (nodes st' q) = item (nodes st q)" "root_subject (nodes st' q) = root_subject (nodes st q)"
    "parent (nodes st' q) = (if q = top C \<or> q = top K then Some n else parent (nodes st q))" if "q \<noteq> n"
    using f7(1,4,5) f6(1,4,5) d5 f4 [OF that] by (simp_all add: c_def k_def)
qed

lemma items_in_fresh:
  assumes "item (h' n) = None" and "\<And>q. q \<noteq> n \<Longrightarrow> item (h' q) = item (h q)" and "n \<notin> A"
  shows "items_in h' (insert n A) = items_in h A"
proof -
  have "items_in h' (insert n A) = items_in h' A" using items_in_empty_node [of h' n A] assms(1) by simp
  also have "\<dots> = items_in h A"
  proof (rule items_in_cong)
    fix q assume "q \<in> A"
    then have "q \<noteq> n" using assms(3) by auto
    then show "item (h' q) = item (h q)" by (rule assms(2))
  qed
  finally show ?thesis .
qed

lemma merge_phantom:
  assumes inv: "group_inv st table pre (C # post) M" and k: "table s = Some k" "item (nodes st k) \<noteq> None" "k \<noteq> top C"
    and c: "root_subject (nodes st (top C)) = Some s" "item (nodes st (top C)) \<noteq> None"
  shows "\<exists>st1 st2 cl st' n pre1 post1 P. thread_remove_node st k (end_slot Head (map top pre)) = Some (st1, cl) \<and>
    thread_remove_node st1 (top C) cl = Some (st2, cl) \<and> phantom st2 cl (top C) k = (st', n) \<and>
    root_subject (nodes st' n) = Some s \<and> top P = n \<and>
    group_inv st' (table(s \<mapsto> n)) (pre1 @ [P]) post1 M \<and> length post1 \<le> length post"
proof -
  note g = group_invD [OF inv]
  let ?tb = "ran table"
  have kt: "k \<in> ?tb" using k(1) by (auto simp: ran_def)
  have ct: "top C \<notin> ?tb"
  proof
    assume "top C \<in> ?tb"
    then obtain s' where s': "table s' = Some (top C)" by (auto simp: ran_def)
    then have "s' = s" using g(5) c(1) by fastforce
    then show False using s' k(1,3) by simp
  qed
  have kl: "k \<in> set (tree_ptrs (pre @ C # post))" using g(6) kt by blast
  obtain st1 K pre1 post1 where "taken ?tb st pre C post k st1 K pre1 post1"
    using take_node [OF g(1,2,3,4) kt k(3) kl k(2)] by blast
  then have t: "thread_remove_node st k (end_slot Head (map top pre)) = Some (st1, end_slot Head (map top pre1))"
      "same_data st st1" "trees_at (nodes st1) (tree st1) (pre1 @ C # post1)" "top K = k" "loose ?tb (nodes st1) K"
      "mset (tree_ptrs (pre1 @ post1)) + mset (tree_ptrs [K]) = mset (tree_ptrs (pre @ post))" "length post1 \<le> length post"
      "\<forall>t\<in>set pre1. root_ok ?tb (nodes st1) True t" "\<forall>t\<in>set post1. root_ok ?tb (nodes st1) False t"
    by (simp_all add: taken_def)
  define cl where "cl = end_slot Head (map top pre1)"
  have m: "mset (tree_ptrs (K # C # pre1 @ post1)) = mset (tree_ptrs (pre @ C # post))"
    using t(6) by (simp add: ptrs_Cons ac_simps)
  have dis: "distinct (tree_ptrs (K # C # pre1 @ post1))" using m g(2) mset_eq_imp_distinct_iff by blast
  have sK: "set (tree_ptrs (K # C # pre1 @ post1)) = set (tree_ptrs (pre @ C # post))" by (rule mset_eq_setD [OF m])
  have dis1: "distinct (tree_ptrs (pre1 @ C # post1))" using dis by (auto simp: ptrs_Cons)
  have rC: "root_ok ?tb (nodes st1) False C" using g(4) root_ok_same [OF t(2)] by simp
  have par: "parent (nodes st1 (top C)) = None" using rC by (simp add: root_ok_def)
  define st2 where "st2 = set_slot cl (nnext (nodes st1 (top C))) st1"
  note r1 = take_root(1) [OF t(3) dis1 par, of cl, folded cl_def, folded st2_def]
  note r = take_root(2-4) [OF t(3) dis1 par, folded cl_def, folded st2_def]
  have sout: "slot_out cl A" if "set (tree_ptrs pre1) \<inter> A = {}" for A
  proof (cases "pre1 = []")
    case False
    then have "cl = Next (top (last pre1))" by (simp add: cl_def end_slot_Next last_map)
    moreover have "top (last pre1) \<in> set (tree_ptrs pre1)" using top_in_ptrs last_in_set [OF False] by blast
    ultimately show ?thesis using that by auto
  qed (simp add: cl_def)
  have out: "slot_out cl {top C}" "slot_out cl (set (tree_ptrs post1))" "slot_out cl (set (tree_ptrs (kids K)))" "slot_out cl {k}"
    by (rule sout; use dis t(4) in \<open>auto simp: ptrs_Cons\<close>)+
  have cc: "cl \<noteq> Next (top C)" using out(1) by auto
  have rem2: "thread_remove_node st1 (top C) cl = Some (st2, cl)" using r1 cc by simp
  have post1: "trees_at (nodes st1) (nnext (nodes st1 (top C))) post1" using t(3) by (auto simp: seg_append seg_Cons)
  have nc: "nnext (nodes st2 (top C)) = nnext (nodes st1 (top C))" using cc by (cases cl) (auto simp: st2_def)
  have post2: "trees_at (nodes st2) (nnext (nodes st2 (top C))) post1" unfolding nc using post1 out(2) by (simp add: st2_def)
  have "nodes st2 k = nodes st1 k" using out(4) by (simp add: st2_def)
  then have K2: "trees_at (nodes st2) (child (nodes st2 (top K))) (kids K)"
    using t(4,5) out(3) by (simp add: st2_def loose_def)
  have sd: "same_data st st2" using t(2) r(3) by (simp add: same_data_def)
  obtain st' n where ph: "phantom st2 cl (top C) k = (st', n)" by fastforce
  have nn: "next_node st2 = next_node st" using sd by (simp add: same_data_def)
  have old: "set (tree_ptrs (K # C # pre1 @ post1)) \<subseteq> {..<next_node st2}"
    unfolding sK nn using g(8) by (simp add: memory_ok_def)
  note P = phantom_shape [OF r(1) post2 r(2) K2 dis old, folded cl_def, unfolded t(4), OF ph]
  have nfresh: "n \<notin> set (tree_ptrs (K # C # pre1 @ post1))" using old P(1) by auto
  define T where "T = Thread n [K, C]"
  define tb where "tb = ran (table(s \<mapsto> n))"
  have tb: "tb \<subseteq> insert n (?tb - {k})"
  proof
    fix q assume "q \<in> tb"
    then obtain s' where s': "(table(s \<mapsto> n)) s' = Some q" by (auto simp: tb_def ran_def)
    show "q \<in> insert n (?tb - {k})"
    proof (cases "s' = s")
      case False
      then have q: "table s' = Some q" using s' by simp
      have "q \<noteq> k" using g(5) [OF q] g(5) [OF k(1)] False by auto
      then show ?thesis using q by (auto simp: ran_def)
    qed (use s' in simp)
  qed
  have data: "item (nodes st' q) = item (nodes st q)" "root_subject (nodes st' q) = root_subject (nodes st q)"
      "parent (nodes st' q) = (if q = top C \<or> q = k then Some n else parent (nodes st q))" if "q \<noteq> n" for q
    using P(8-10) [OF that] sd by (simp_all add: same_data_def)
  have ok: "root_ok tb (nodes st') vis t" if "root_ok ?tb (nodes st1) vis t" "t \<in> set (pre1 @ post1)" for vis t
  proof -
    have sub: "set (tree_ptrs [t]) \<subseteq> set (tree_ptrs (pre1 @ post1))"
      using top_in_ptrs [OF that(2)] kids_in_ptrs [OF that(2)] by (auto simp: ptrs_Cons)
    then have nt: "n \<notin> set (tree_ptrs [t])" using nfresh by (auto simp: ptrs_Cons)
    have "root_ok (insert n (?tb - {k})) (nodes st1) vis t"
      using root_ok_fresh [OF root_ok_mono [OF that(1), of "?tb - {k}"] nt] by blast
    then have "root_ok tb (nodes st1) vis t" using root_ok_mono tb by blast
    moreover have "parent (nodes st' q) = parent (nodes st1 q) \<and> item (nodes st' q) = item (nodes st1 q)"
      if "q \<in> set (tree_ptrs [t])" for q
    proof -
      have "q \<noteq> n" using nt that by auto
      moreover have "q \<noteq> top C" "q \<noteq> k" using sub that dis t(4) by (auto simp: ptrs_Cons)
      ultimately show ?thesis using data [of q] t(2) by (simp add: same_data_def)
    qed
    ultimately show ?thesis using root_ok_cong [of t "nodes st'" "nodes st1"] by blast
  qed
  have kin': "kin (nodes st') p ts = kin (nodes st) p ts"
    if "n \<notin> set (tree_ptrs ts)" "top C \<notin> set (tree_ptrs ts)" "k \<notin> set (tree_ptrs ts)" for p ts
  proof (rule kin_cong)
    fix q assume "q \<in> set (tree_ptrs ts)"
    then have "q \<noteq> n" "q \<noteq> top C" "q \<noteq> k" using that by auto
    then show "parent (nodes st' q) = parent (nodes st q)" using data(3) [of q] by simp
  qed
  have loC: "loose ?tb (nodes st2) C"
    using root_loose [of ?tb "nodes st2" False C] rC root_ok_same [OF r(3)] c(2) sd r(2) by (simp add: same_data_def)
  have sep: "n \<noteq> top C" "n \<noteq> k" "n \<notin> set (tree_ptrs (kids C))" "n \<notin> set (tree_ptrs (kids K))" "top C \<noteq> k"
      "top C \<notin> set (tree_ptrs (kids C))" "top C \<notin> set (tree_ptrs (kids K))" "k \<notin> set (tree_ptrs (kids C))" "k \<notin> set (tree_ptrs (kids K))"
    using nfresh dis t(4) by (auto simp: ptrs_Cons)
  have filledT: "filled (nodes st') [K, C]"
    unfolding filled_def
  proof
    fix q assume q: "q \<in> set (tree_ptrs [K, C])"
    then have "q \<noteq> n" using nfresh by (auto simp: ptrs_Cons)
    then have "item (nodes st' q) = item (nodes st q)" by (rule data(1))
    moreover have "item (nodes st q) \<noteq> None"
    proof -
      have "filled (nodes st) (kids C)" "filled (nodes st) (kids K)"
        using loC t(5) filled_same [OF sd] filled_same [OF t(2)] by (simp_all add: loose_def)
      then show ?thesis using q c(2) k(2) t(4) unfolding filled_def by (auto simp: ptrs_Cons)
    qed
    ultimately show "item (nodes st' q) \<noteq> None" by simp
  qed
  have off: "set (tree_ptrs [K, C]) \<inter> tb = {}"
  proof -
    have "set (tree_ptrs (kids C)) \<inter> ?tb = {}" "set (tree_ptrs (kids K)) \<inter> ?tb = {}" using loC t(5) by (simp_all add: loose_def)
    then show ?thesis using tb ct t(4) sep by (auto simp: ptrs_Cons)
  qed
  have okT: "root_ok tb (nodes st') True T"
  proof -
    have kk: "kin (nodes st') (Some k) (kids K)" "kin (nodes st') (Some (top C)) (kids C)"
      using kin' loC t(4,5) sep kin_same [OF sd] kin_same [OF t(2)] by (simp_all add: loose_def)
    have pp: "parent (nodes st' k) = Some n" "parent (nodes st' (top C)) = Some n" using data(3) sep by auto
    have "top C \<notin> tb" "set (tree_ptrs (kids K)) \<inter> tb = {}" "set (tree_ptrs (kids C)) \<inter> tb = {}"
      using off by (auto simp: ptrs_Cons)
    then show ?thesis using kk pp P(6) filledT off t(4) by (simp add: root_ok_def T_def)
  qed
  define L where "L = tree_ptrs ((pre1 @ [T]) @ post1)"
  have L: "mset L = add_mset n (mset (tree_ptrs (K # C # pre1 @ post1)))"
    by (simp add: L_def T_def ptrs_Cons ac_simps)
  have sL: "set L = insert n (set (tree_ptrs (pre @ C # post)))"
    using arg_cong [OF L, of set_mset] sK by (simp only: set_mset_mset set_mset_add_mset_insert)
  have "distinct (n # tree_ptrs (K # C # pre1 @ post1))" using dis nfresh by simp
  moreover have "mset (n # tree_ptrs (K # C # pre1 @ post1)) = mset L" using L by simp
  ultimately have dL: "distinct L" using mset_eq_imp_distinct_iff by blast
  have "group_inv st' (table(s \<mapsto> n)) (pre1 @ [T]) post1 M"
    unfolding group_inv_def tb_def [symmetric] L_def [symmetric]
  proof (intro conjI allI impI)
    show "trees_at (nodes st') (tree st') ((pre1 @ [T]) @ post1)" using P(4) t(4) by (simp add: T_def)
    show "distinct L" by (rule dL)
    show "\<forall>t\<in>set (pre1 @ [T]). root_ok tb (nodes st') True t" using ok t(8) okT by auto
    show "\<forall>t\<in>set post1. root_ok tb (nodes st') False t" using ok t(9) by auto
    show "root_subject (nodes st' a) = Some s'" if "(table(s \<mapsto> n)) s' = Some a" for s' a
    proof (cases "s' = s")
      case True
      then have "a = n" using that by simp
      moreover have "root_subject (nodes st2 (top C)) = Some s" using c(1) sd by (simp add: same_data_def)
      ultimately show ?thesis using P(7) True by simp
    next
      case False
      then have a: "table s' = Some a" using that by simp
      then have "a \<in> set (tree_ptrs (pre @ C # post))" using g(6) by (auto simp: ran_def)
      then have "a \<noteq> n" using nfresh sK by auto
      then show ?thesis using data(2) g(5) [OF a] by simp
    qed
    show "tb \<subseteq> set L" unfolding sL using tb g(6) by auto
    show "items_in (nodes st') (set L) = M"
      unfolding sL by (subst items_in_fresh [of "nodes st'" n "nodes st"]) (use P(5) data(1) nfresh sK g(7) in auto)
    show "memory_ok st' (set L)"
      unfolding sL using g(8) P(1-3) sd by (auto simp: memory_ok_def same_data_def)
  qed
  moreover have "root_subject (nodes st' n) = Some s" using P(7) c(1) sd by (simp add: same_data_def)
  ultimately show ?thesis
    using t(1,7) rem2 ph unfolding cl_def [symmetric] by (metis T_def message_tree.sel(1))
qed

end
