(* ===== verification/Camel_ThreadPhases.thy ===== *)
theory Camel_ThreadPhases
  imports Camel_ThreadRoots
begin

text \<open>The phases of \<^verbatim>\<open>thread_items\<close> after the linking, on a forest: grouping, sorting, removing the empty roots.\<close>

section \<open>Grouping\<close>

lemma merge_step:
  assumes inv: "group_inv st table pre (C # post) M"
  shows "\<exists>st' table' pre' post'. merge_one st table (end_slot Head (map top pre)) (top C) =
      Some (st', table', end_slot Head (map top pre')) \<and> group_inv st' table' pre' post' M \<and> length post' \<le> length post"
proof -
  note g = group_invD [OF inv]
  define c where "c = top C"
  define cl where "cl = end_slot Head (map top pre)"
  have visit: ?thesis if "merge_one st table cl c = Some (st, table, Next c)"
    using that merge_visit [OF inv] unfolding cl_def c_def
    by (intro exI [of _ st] exI [of _ table] exI [of _ "pre @ [C]"] exI [of _ post]) simp
  show ?thesis
  proof (cases "Option.bind (root_subject (nodes st c)) table")
    case None
    then show ?thesis by (intro visit) (simp add: merge_one_def)
  next
    case (Some k)
    then obtain s where s: "root_subject (nodes st c) = Some s" "table s = Some k"
      by (cases "root_subject (nodes st c)") auto
    have kt: "k \<in> ran table" using s(2) by (auto simp: ran_def)
    show ?thesis
    proof (cases "k = c")
      case True
      then show ?thesis using Some by (intro visit) (simp add: merge_one_def)
    next
      case kc: False
      have ct: "top C \<notin> ran table"
      proof
        assume "top C \<in> ran table"
        then obtain s' where s': "table s' = Some (top C)" by (auto simp: ran_def)
        then have "s' = s" using g(5) s(1) by (fastforce simp: c_def)
        then show False using s' s(2) kc by (simp add: c_def)
      qed
      have under: ?thesis
        if a: "merge_one st table cl c = Some (container_add_child (set_slot cl (nnext (nodes st c)) st) k c, table, cl)"
          and b: "item (nodes st c) \<noteq> None"
      proof -
        obtain pre1 post1 where "map top pre1 = map top pre" "length post1 = length post"
            "group_inv (container_add_child (set_slot cl (nnext (nodes st c)) st) k c) table pre1 post1 M"
          using merge_under_container [OF inv kt ct] b unfolding cl_def c_def by blast
        then show ?thesis using a unfolding cl_def c_def by (metis order_refl)
      qed
      have over: ?thesis
        if a: "merge_one st table cl c =
          Option.bind (thread_remove_node st k cl) (\<lambda>(st, clast). Some (container_add_child st c k, table, Next c))"
          and b: "item (nodes st k) \<noteq> None"
      proof -
        obtain st1 pre1 post1 C' where r: "thread_remove_node st k cl = Some (st1, end_slot Head (map top pre1))" "top C' = c"
            "group_inv (container_add_child st1 c k) table (pre1 @ [C']) post1 M" "length post1 \<le> length post"
          using merge_container_under [OF inv kt b ct] unfolding cl_def c_def by blast
        have "end_slot Head (map top (pre1 @ [C'])) = Next c" using r(2) by simp
        moreover have "merge_one st table cl c = Some (container_add_child st1 c k, table, Next c)"
          using a r(1) by simp
        ultimately show ?thesis using r(3,4) unfolding cl_def c_def by metis
      qed
      consider (both) "item (nodes st c) = None" "item (nodes st k) = None"
        | (over1) "item (nodes st c) = None" "item (nodes st k) \<noteq> None"
        | (under1) "item (nodes st c) \<noteq> None" "item (nodes st k) = None"
        | (under2) "item (nodes st c) \<noteq> None" "item (nodes st k) \<noteq> None" "re (nodes st c)" "\<not> re (nodes st k)"
        | (over2) "item (nodes st c) \<noteq> None" "item (nodes st k) \<noteq> None" "\<not> re (nodes st c)" "re (nodes st k)"
        | (new) "item (nodes st c) \<noteq> None" "item (nodes st k) \<noteq> None" "re (nodes st c) = re (nodes st k)"
        by argo
      then show ?thesis
      proof cases
        case both
        then obtain scan st' pre1 post1 where m: "list_end st (Child k) = Some scan"
            "st' = free_node c (set_slot cl (nnext (nodes (set_slot scan (child (nodes st c)) st) c))
              (set_slot scan (child (nodes st c)) st))"
            "map top pre1 = map top pre" "length post1 = length post" "group_inv st' table pre1 post1 M"
          using merge_children [OF inv kt _ ct] unfolding cl_def c_def by blast
        have "merge_one st table cl c = Some (st', table, cl)"
          using Some kc both m(1,2) by (simp add: merge_one_def Let_def)
        then show ?thesis using m(3-5) unfolding cl_def c_def by (metis order_refl)
      next
        case over1
        then show ?thesis using Some kc by (intro over) (auto simp: merge_one_def)
      next
        case under1
        then show ?thesis using Some kc by (intro under) (auto simp: merge_one_def)
      next
        case under2
        then show ?thesis using Some kc by (intro under) (auto simp: merge_one_def)
      next
        case over2
        then show ?thesis using Some kc by (intro over) (auto simp: merge_one_def)
      next
        case new
        then obtain st1 st2 cl1 st' n pre1 post1 P where m: "thread_remove_node st k cl = Some (st1, cl1)"
            "thread_remove_node st1 c cl1 = Some (st2, cl1)" "phantom st2 cl1 c k = (st', n)" "root_subject (nodes st' n) = Some s"
            "top P = n" "group_inv st' (table(s \<mapsto> n)) (pre1 @ [P]) post1 M" "length post1 \<le> length post"
          using merge_phantom [OF inv s(2) _ _ s(1) [unfolded c_def]] kc unfolding cl_def c_def by blast
        have "merge_one st table cl c = Some (st', table(s \<mapsto> n), Next n)"
          using Some kc new m(1-4) by (auto simp: merge_one_def phantom_def Let_def case_prod_beta)
        moreover have "end_slot Head (map top (pre1 @ [P])) = Next n" using m(5) by simp
        ultimately show ?thesis using m(6,7) unfolding cl_def c_def by metis
      qed
    qed
  qed
qed

lemma merge_loop_works:
  "group_inv st table pre post M \<Longrightarrow>
     \<exists>st' table' ts. merge_loop st table (end_slot Head (map top pre)) = Some st' \<and> group_inv st' table' ts [] M"
proof (induction "length post" arbitrary: st table pre post rule: less_induct)
  case less
  note run = merge_loop.simps [of st table "end_slot Head (map top pre)"]
  have sh: "trees_at (nodes st) (tree st) (pre @ post)" using less.prems by (simp add: group_inv_def)
  have ch: "chain (nodes st) (slot_next st (end_slot Head (map top pre))) (map top post)"
    using slot_end_slot [of st Head "map top pre" "map top post"] seg_chain [OF sh] by simp
  show ?case
  proof (cases post)
    case Nil
    then show ?thesis using run ch less.prems by auto
  next
    case (Cons C rest)
    obtain st1 table1 pre1 post1 where s: "merge_one st table (end_slot Head (map top pre)) (top C) =
          Some (st1, table1, end_slot Head (map top pre1))" "group_inv st1 table1 pre1 post1 M" "length post1 \<le> length rest"
      using merge_step less.prems Cons by blast
    have "merge_loop st table (end_slot Head (map top pre)) = merge_loop st1 table1 (end_slot Head (map top pre1))"
      using run ch s(1) Cons by simp
    then show ?thesis using less.hyps [OF _ s(2)] s(3) Cons by simp
  qed
qed

lemma scan_items_total: "chain (nodes st) p xs \<Longrightarrow> \<exists>r. scan_items st p = Some r"
proof (induction xs arbitrary: p)
  case Nil
  then show ?case by (simp add: scan_items.simps)
next
  case (Cons x xs)
  then show ?case by (simp add: scan_items.simps [of st "Some x"])
qed

text \<open>What gathering leaves alone.\<close>

definition same_links :: "'i thread_store \<Rightarrow> 'i thread_store \<Rightarrow> bool" where
  "same_links st st' \<longleftrightarrow> tree st' = tree st \<and> next_node st' = next_node st \<and> freed st' = freed st \<and>
     (\<forall>q. parent (nodes st' q) = parent (nodes st q) \<and> item (nodes st' q) = item (nodes st q) \<and>
       nnext (nodes st' q) = nnext (nodes st q) \<and> child (nodes st' q) = child (nodes st q))"

lemma same_links_seg: "same_links st st' \<Longrightarrow> seg (nodes st') p ts r = seg (nodes st) p ts r"
  by (rule seg_cong) (simp add: same_links_def)

lemma gather_works:
  "trees_at (nodes st) p ts \<Longrightarrow> distinct (tree_ptrs ts) \<Longrightarrow>
     (\<And>s k. table s = Some k \<Longrightarrow> root_subject (nodes st k) = Some s \<and> k \<notin> set (map top ts)) \<Longrightarrow>
     \<exists>st' table'. gather f st table p = Some (st', table') \<and> same_links st st' \<and>
       (\<forall>s k. table' s = Some k \<longrightarrow> root_subject (nodes st' k) = Some s \<and> (k \<in> set (map top ts) \<or> table s = Some k))"
proof (induction ts arbitrary: st p table)
  case Nil
  then show ?case by (simp add: gather.simps same_links_def)
next
  case (Cons t ts)
  define c where "c = top t"
  have p: "p = Some c" "trees_at (nodes st) (child (nodes st c)) (kids t)" "trees_at (nodes st) (nnext (nodes st c)) ts"
    using Cons.prems(1) by (simp_all add: seg_Cons c_def)
  have cts: "c \<notin> set (map top ts)" using Cons.prems(2) top_in_ptrs [of _ ts] by (auto simp: ptrs_Cons c_def)
  have "\<exists>x. get_root_subject f st c = Some x"
    using scan_items_total [OF seg_chain [OF p(2)]] by (auto simp: get_root_subject_def)
  then obtain s r where g: "get_root_subject f st c = Some (s, r)" by fastforce
  define st1 where "st1 = upd_node c (\<lambda>n. n\<lparr>root_subject := s, re := r\<rparr>) st"
  have sl: "same_links st st1" by (simp add: same_links_def st1_def)
  have "\<exists>table1. gather_one f st table c = Some (st1, table1) \<and>
      (table1 = table \<or> (\<exists>s'. s = Some s' \<and> table1 = table(s' \<mapsto> c)))"
    using g by (cases s; cases "table (the s)") (auto simp: gather_one_def st1_def Let_def)
  then obtain table1 where g1: "gather_one f st table c = Some (st1, table1)"
      "table1 = table \<or> (\<exists>s'. s = Some s' \<and> table1 = table(s' \<mapsto> c))" by blast
  have t1: "root_subject (nodes st1 k) = Some s' \<and> k \<notin> set (map top ts)" if "table1 s' = Some k" for s' k
  proof (cases "k = c")
    case True
    have "table s' \<noteq> Some c" using Cons.prems(3) [of s' c] by (auto simp: c_def)
    then have "s = Some s'" using g1(2) that True by (auto split: if_splits)
    then show ?thesis using True cts by (simp add: st1_def)
  next
    case False
    then have "table s' = Some k" using g1(2) that by (auto split: if_splits)
    then show ?thesis using Cons.prems(3) [of s' k] False by (simp add: st1_def)
  qed
  obtain st' table' where st': "gather f st1 table1 (nnext (nodes st c)) = Some (st', table')" "same_links st1 st'"
      "\<forall>s k. table' s = Some k \<longrightarrow> root_subject (nodes st' k) = Some s \<and> (k \<in> set (map top ts) \<or> table1 s = Some k)"
    using Cons.IH [of st1 "nnext (nodes st c)" table1] p(3) same_links_seg [OF sl] Cons.prems(2) t1
    by (auto simp: ptrs_Cons)
  have "gather f st table p = Some (st', table')"
    using st'(1) g1(1) p(1) by (simp add: gather.simps [of f st table] st1_def)
  moreover have "table1 s' = Some k \<longrightarrow> k = c \<or> table s' = Some k" for s' k
    using g1(2) by (auto split: if_splits)
  moreover have "same_links st st'" using sl st'(2) by (simp add: same_links_def)
  ultimately show ?case using st'(3) by (fastforce simp: c_def)
qed

text \<open>A forest with the given items: empty roots have children, below the roots there are no empty nodes, and only children of
  an empty root may have a wrong parent.\<close>

definition top_ok :: "(node_ptr \<Rightarrow> 'i thread_node) \<Rightarrow> message_tree \<Rightarrow> bool" where
  "top_ok h t \<longleftrightarrow> parent (h (top t)) = None \<and>
     (\<forall>u\<in>set (kids t). kin h (Some (top u)) (kids u) \<and> (parent (h (top u)) = Some (top t) \<or> item (h (top t)) = None)) \<and>
     filled h (kids t) \<and> (item (h (top t)) = None \<longrightarrow> kids t \<noteq> [])"

definition forest :: "'i thread_store \<Rightarrow> message_tree list \<Rightarrow> 'i multiset \<Rightarrow> bool" where
  "forest st ts M \<longleftrightarrow> trees_at (nodes st) (tree st) ts \<and> distinct (tree_ptrs ts) \<and> (\<forall>t\<in>set ts. top_ok (nodes st) t) \<and>
     items_in (nodes st) (set (tree_ptrs ts)) = M \<and> memory_ok st (set (tree_ptrs ts))"

lemma top_disjoint:
  "distinct (tree_ptrs ts) \<Longrightarrow> t \<in> set ts \<Longrightarrow> t' \<in> set ts \<Longrightarrow> top t' \<notin> set (tree_ptrs (kids t))"
proof (induction ts)
  case (Cons a ts)
  then show ?case using top_in_ptrs [of t' ts] kids_in_ptrs [of t ts] by (auto simp: ptrs_Cons)
qed simp

lemma settled_root_ok:
  assumes "settled (nodes st) True ts" and "kin (nodes st) None ts" and "distinct (tree_ptrs ts)" and "tb \<subseteq> set (map top ts)"
    and t: "t \<in> set ts"
  shows "root_ok tb (nodes st) False t"
proof -
  have k: "parent (nodes st (top t)) = None" "kin (nodes st) (Some (top t)) (kids t)"
    using assms(2) t kin_items [of "nodes st" None ts] by auto
  have no: "set (tree_ptrs (kids t)) \<inter> tb = {}" using top_disjoint [OF assms(3) t] assms(4) by auto
  have u: "parent (nodes st (top u)) = Some (top t)" "kin (nodes st) (Some (top u)) (kids u)" "top u \<notin> tb"
      "set (tree_ptrs (kids u)) \<inter> tb = {}" if "u \<in> set (kids t)" for u
    using k(2) kin_items [of "nodes st" "Some (top t)" "kids t"] that no top_in_ptrs [OF that] kids_in_ptrs [OF that] by auto
  have s: "filled (nodes st) (kids t)" "item (nodes st (top t)) = None \<longrightarrow> 2 \<le> length (kids t)"
    using assms(1) t by (auto simp: settled_def)
  have "\<exists>u\<in>set (kids t). top u \<notin> tb" if "item (nodes st (top t)) = None"
    using s(2) that u(3) by (cases "kids t") auto
  then show ?thesis using k u s no by (auto simp: root_ok_def)
qed

lemma root_ok_top: "root_ok tb h vis t \<Longrightarrow> top_ok h t"
  by (auto simp: root_ok_def top_ok_def)

lemma group_works:
  assumes sh: "trees_at (nodes st) (tree st) ts" and dis: "distinct (tree_ptrs ts)" and kn: "kin (nodes st) None ts"
    and se: "settled (nodes st) True ts" and M: "items_in (nodes st) (set (tree_ptrs ts)) = M" and mem: "memory_ok st (set (tree_ptrs ts))"
  shows "\<exists>st' ts'. group_root_set f st = Some st' \<and> forest st' ts' M"
proof -
  obtain st1 table where g: "gather f st (\<lambda>s. None) (tree st) = Some (st1, table)" "same_links st st1"
      "\<forall>s k. table s = Some k \<longrightarrow> root_subject (nodes st1 k) = Some s \<and> (k \<in> set (map top ts) \<or> (\<lambda>s. None) s = Some k)"
    using gather_works [OF sh dis, of "\<lambda>s. None" f] by fastforce
  have tb: "ran table \<subseteq> set (map top ts)" using g(3) by (auto simp: ran_def)
  have "group_inv st1 table [] ts M"
    unfolding group_inv_def
  proof (intro conjI allI impI)
    show "trees_at (nodes st1) (tree st1) ([] @ ts)" using sh same_links_seg [OF g(2)] g(2) by (simp add: same_links_def)
    show "distinct (tree_ptrs ([] @ ts))" using dis by simp
    show "\<forall>t\<in>set []. root_ok (ran table) (nodes st1) True t" by simp
    have "root_ok (ran table) (nodes st1) False t = root_ok (ran table) (nodes st) False t" for t
      by (rule root_ok_cong) (use g(2) in \<open>simp add: same_links_def\<close>)
    then show "\<forall>t\<in>set ts. root_ok (ran table) (nodes st1) False t" using settled_root_ok [OF se kn dis tb] by simp
    show "root_subject (nodes st1 k) = Some s" if "table s = Some k" for s k using g(3) that by simp
    show "ran table \<subseteq> set (tree_ptrs ([] @ ts))" using tb top_in_ptrs by fastforce
    have "items_in (nodes st1) (set (tree_ptrs ts)) = items_in (nodes st) (set (tree_ptrs ts))"
      by (rule items_in_cong) (use g(2) in \<open>simp add: same_links_def\<close>)
    then show "items_in (nodes st1) (set (tree_ptrs ([] @ ts))) = M" using M by simp
    show "memory_ok st1 (set (tree_ptrs ([] @ ts)))" using mem g(2) by (simp add: memory_ok_def same_links_def)
  qed
  then obtain st' table' ts' where m: "merge_loop st1 table Head = Some st'" "group_inv st' table' ts' [] M"
    using merge_loop_works [of st1 table "[]" ts M] by auto
  have "forest st' ts' M"
    using m(2) root_ok_top unfolding group_inv_def forest_def by fastforce
  then show ?thesis using m(1) g(1) by (auto simp: group_root_set_def)
qed

end
