(* ===== verification/Camel_ThreadSort.thy ===== *)
theory Camel_ThreadSort
  imports Camel_ThreadPhases
begin

section \<open>Sorting\<close>

text \<open>The same trees with the siblings in another order, at every level.\<close>

inductive reord :: "message_tree list \<Rightarrow> message_tree list \<Rightarrow> bool" where
  Nil: "reord [] []"
| Cons: "reord us us' \<Longrightarrow> reord ts ts' \<Longrightarrow> reord (Thread q us # ts) (Thread q us' # ts')"
| perm: "reord ts ts' \<Longrightarrow> mset ts' = mset ts'' \<Longrightarrow> reord ts ts''"

lemma ptrs_perm: "mset ts = mset ts' \<Longrightarrow> mset (tree_ptrs ts) = mset (tree_ptrs ts')"
proof -
  have p: "mset (tree_ptrs ts) = (\<Sum>t\<in>#mset ts. add_mset (top t) (mset (tree_ptrs (kids t))))" for ts
    by (induction ts) (auto simp: ptrs_Cons)
  assume "mset ts = mset ts'"
  then show ?thesis unfolding p [of ts] p [of ts'] by (rule arg_cong)
qed

lemma reord_ptrs: "reord ts ts' \<Longrightarrow> mset (tree_ptrs ts') = mset (tree_ptrs ts)"
  by (induction rule: reord.induct) (auto dest: ptrs_perm)

lemma kin_perm: "mset ts = mset ts' \<Longrightarrow> kin h par ts = kin h par ts'"
  using kin_items [of h par ts] kin_items [of h par ts'] mset_eq_setD by metis

lemma reord_kin: "reord ts ts' \<Longrightarrow> kin h par ts = kin h par ts'"
proof (induction arbitrary: par rule: reord.induct)
  case (perm ts ts' ts'')
  then show ?case using kin_perm by metis
qed auto

lemma reord_tops: "reord ts ts' \<Longrightarrow> t' \<in> set ts' \<Longrightarrow> \<exists>t\<in>set ts. top t = top t' \<and> reord (kids t) (kids t')"
proof (induction rule: reord.induct)
  case (perm ts ts' ts'')
  then show ?case using mset_eq_setD by metis
qed auto

lemma reord_refl: "reord ts ts"
  by (induction ts rule: tree_ptrs.induct) (auto intro: reord.intros)

lemma reord_Nil: "reord ts ts' \<Longrightarrow> ts = [] \<longleftrightarrow> ts' = []"
  by (induction rule: reord.induct) auto

lemma reord_kids:
  assumes "reord us us'" shows "t' \<in> set us' \<Longrightarrow> \<exists>t\<in>set us. top t = top t' \<and> reord (kids t) (kids t')"
  using reord_tops [OF assms] by blast

lemma filled_reord: "reord ts ts' \<Longrightarrow> filled h ts' = filled h ts"
  using mset_eq_setD [OF reord_ptrs] by (simp add: filled_def)

lemma top_ok_reord:
  assumes ok: "top_ok h t" and t': "top t = top t'" "reord (kids t) (kids t')"
  shows "top_ok h t'"
proof -
  have "kin h (Some (top u')) (kids u') \<and> (parent (h (top u')) = Some (top t) \<or> item (h (top t)) = None)"
    if u': "u' \<in> set (kids t')" for u'
  proof -
    obtain u where u: "u \<in> set (kids t)" "top u = top u'" "reord (kids u) (kids u')"
      using reord_tops [OF t'(2) u'] by blast
    have "kin h (Some (top u)) (kids u)" "parent (h (top u)) = Some (top t) \<or> item (h (top t)) = None"
      using ok u(1) by (auto simp: top_ok_def)
    then show ?thesis using reord_kin [OF u(3), of h "Some (top u)"] unfolding u(2) by simp
  qed
  moreover have "filled h (kids t')" using ok filled_reord [OF t'(2), of h] by (simp add: top_ok_def)
  ultimately show ?thesis using ok t' reord_Nil [OF t'(2)] by (simp add: top_ok_def)
qed

lemma collect_list_chain: "chain (nodes st) p xs \<Longrightarrow> collect_list st p = Some xs"
  by (induction xs arbitrary: p) (auto simp: collect_list.simps)

lemma mset_map_ex: "mset (map f xs) = mset ys \<Longrightarrow> \<exists>zs. mset zs = mset xs \<and> map f zs = ys"
proof (induction ys arbitrary: xs)
  case Nil
  then show ?case by simp
next
  case (Cons y ys)
  then have "y \<in># mset (map f xs)" by simp
  then obtain x where x: "x \<in> set xs" "y = f x" by auto
  then obtain as bs where xs: "xs = as @ x # bs" by (meson split_list)
  then have "mset (map f (as @ bs)) = mset ys" using Cons.prems x(2) by simp
  then obtain zs where "mset zs = mset (as @ bs)" "map f zs = ys" using Cons.IH by blast
  then show ?case using xs x(2) by (intro exI [of _ "x # zs"]) simp
qed

lemma link_list_fields:
  "link_list st ps = (st', h0) \<Longrightarrow> distinct ps \<Longrightarrow>
     chain (nodes st') h0 ps \<and> tree st' = tree st \<and> next_node st' = next_node st \<and> freed st' = freed st \<and>
     (\<forall>q. q \<notin> set ps \<longrightarrow> nodes st' q = nodes st q) \<and>
     (\<forall>q. child (nodes st' q) = child (nodes st q) \<and> parent (nodes st' q) = parent (nodes st q) \<and>
        item (nodes st' q) = item (nodes st q))"
proof (induction ps arbitrary: st' h0)
  case Nil
  then show ?case by simp
next
  case (Cons p ps)
  obtain st1 h1 where 1: "link_list st ps = (st1, h1)" by fastforce
  have st': "st' = upd_node p (\<lambda>n. n\<lparr>nnext := h1\<rparr>) st1" "h0 = Some p" using Cons.prems(1) 1 by auto
  have "chain (nodes st') h1 ps = chain (nodes st1) h1 ps" by (rule chain_cong) (use Cons.prems(2) st' in auto)
  moreover have d: "distinct ps" "p \<notin> set ps" using Cons.prems(2) by auto
  note l = Cons.IH [OF 1 d(1)]
  moreover have "nodes st' p = nodes st1 p\<lparr>nnext := h1\<rparr>" "\<And>q. q \<noteq> p \<Longrightarrow> nodes st' q = nodes st1 q" using st' by simp_all
  moreover have "tree st' = tree st1" "next_node st' = next_node st1" "freed st' = freed st1" using st' by simp_all
  moreover have "child (nodes st' q) = child (nodes st1 q) \<and> parent (nodes st' q) = parent (nodes st1 q) \<and>
      item (nodes st' q) = item (nodes st1 q)" for q
    using st'(1) by simp
  ultimately show ?case using l d st'(2) by simp
qed

definition same_content :: "'i thread_store \<Rightarrow> 'i thread_store \<Rightarrow> bool" where
  "same_content st st' \<longleftrightarrow> next_node st' = next_node st \<and> freed st' = freed st \<and>
     (\<forall>q. parent (nodes st' q) = parent (nodes st q) \<and> item (nodes st' q) = item (nodes st q))"

lemma chain_shape:
  assumes "chain h p (map top ts)" and "\<And>t. t \<in> set ts \<Longrightarrow> trees_at h (child (h (top t))) (kids t)"
  shows "trees_at h p ts"
  using assms by (induction ts arbitrary: p) (auto simp: seg_Cons)

lemma shape_kids: "trees_at h p ts \<Longrightarrow> t \<in> set ts \<Longrightarrow> trees_at h (child (h (top t))) (kids t)"
  by (induction ts arbitrary: p) (auto simp: seg_Cons)

lemma tops_distinct: "distinct (tree_ptrs ts) \<Longrightarrow> distinct (map top ts)"
proof (induction ts)
  case (Cons t ts)
  then show ?case using top_in_ptrs [of _ ts] by (auto simp: ptrs_Cons)
qed simp

definition permutes :: "qsort \<Rightarrow> bool" where
  "permutes qsort \<longleftrightarrow> (\<forall>cmp xs. mset (qsort cmp xs) = mset xs)"

lemma sort_list_works:
  assumes q: "permutes qsort" and sh: "trees_at (nodes st) (slot_next st s) ts" and dis: "distinct (tree_ptrs ts)"
    and out: "slot_out s (set (tree_ptrs ts))" and ok: "\<And>t. t \<in> set ts \<Longrightarrow> item (nodes st (top t)) \<noteq> None \<or> kids t \<noteq> []"
  shows "\<exists>st' ts'. sort_list qsort sent received st s (length ts) = Some st' \<and> mset ts' = mset ts \<and>
    trees_at (nodes st') (slot_next st' s) ts' \<and> slot_frame s (set (map top ts)) st st' \<and> same_content st st'"
proof (cases "length ts < 2")
  case True
  then show ?thesis using sh by (intro exI [of _ st] exI [of _ ts]) (simp add: sort_list_def same_content_def)
next
  case False
  define ps where "ps = qsort (sort_node_cb sent received st) (map top ts)"
  have col: "collect_list st (slot_next st s) = Some (map top ts)" by (rule collect_list_chain [OF seg_chain [OF sh]])
  have "item (nodes st p) \<noteq> None \<or> child (nodes st p) \<noteq> None" if p: "p \<in> set (map top ts)" for p
  proof -
    obtain t where t: "t \<in> set ts" "p = top t" using p by auto
    have "trees_at (nodes st) (child (nodes st p)) (kids t)" using shape_kids [OF sh t(1)] t(2) by simp
    then show ?thesis using ok [OF t(1)] t(2) by (cases "kids t") (auto simp: seg_Cons)
  qed
  moreover obtain st1 h0 where ll: "link_list st ps = (st1, h0)" by fastforce
  ultimately have run: "sort_list qsort sent received st s (length ts) = Some (set_slot s h0 st1)"
    using False col by (auto simp: sort_list_def ps_def)
  have mp: "mset (map top ts) = mset ps" using q by (simp add: permutes_def ps_def)
  then obtain ts' where ts': "mset ts' = mset ts" "map top ts' = ps" using mset_map_ex by blast
  have dps: "distinct ps" using mp tops_distinct [OF dis] mset_eq_imp_distinct_iff by blast
  note l = link_list_fields [OF ll dps]
  have sps: "set ps = set (map top ts)" using mset_eq_setD [OF mp] by simp
  define st' where "st' = set_slot s h0 st1"
  have "set ps \<subseteq> set (tree_ptrs ts)" unfolding sps using top_in_ptrs by auto
  then have outs: "slot_out s (set ps)" by (rule slot_out_mono [OF out])
  have "trees_at (nodes st') h0 ts'"
  proof (rule chain_shape)
    show "chain (nodes st') h0 (map top ts')" using l outs ts'(2) by (simp add: st'_def)
    fix t assume "t \<in> set ts'"
    then have t: "t \<in> set ts" using mset_eq_setD [OF ts'(1)] by simp
    have kt: "set (tree_ptrs (kids t)) \<subseteq> set (tree_ptrs ts)" by (rule kids_in_ptrs [OF t])
    have "top t \<in> set (tree_ptrs ts)" by (rule top_in_ptrs [OF t])
    then have "slot_out s {top t}" using slot_out_mono [OF out] by simp
    then have c: "child (nodes st' (top t)) = child (nodes st (top t))" using l by (simp add: st'_def)
    have "seg (nodes st') (child (nodes st (top t))) (kids t) None = seg (nodes st1) (child (nodes st (top t))) (kids t) None"
      unfolding st'_def by (rule seg_set_slot) (rule slot_out_mono [OF out kt])
    also have "\<dots> = trees_at (nodes st) (child (nodes st (top t))) (kids t)"
    proof (rule seg_cong)
      fix q assume q: "q \<in> set (tree_ptrs (kids t))"
      have "q \<notin> set ps" unfolding sps using top_disjoint [OF dis t] q by auto
      then show "child (nodes st1 q) = child (nodes st q) \<and> nnext (nodes st1 q) = nnext (nodes st q)" using l by simp
    qed
    finally show "trees_at (nodes st') (child (nodes st' (top t))) (kids t)" using shape_kids [OF sh t] c by simp
  qed
  moreover have "slot_frame s (set (map top ts)) st st1"
    by (rule frameI) (use l sps in auto)
  then have "slot_frame s (set (map top ts)) st st'" unfolding st'_def by (rule frame_trans [OF _ frame_set_slot])
  moreover have "same_content st st'" using l by (simp add: same_content_def st'_def)
  ultimately show ?thesis using run ts'(1) unfolding st'_def by (intro exI [of _ "set_slot s h0 st1"] exI [of _ ts']) simp
qed

lemma sort_children_works:
  "permutes qsort \<Longrightarrow> trees_at (nodes st) p ts \<Longrightarrow> distinct (tree_ptrs ts) \<Longrightarrow> (\<And>t. t \<in> set ts \<Longrightarrow> filled (nodes st) (kids t)) \<Longrightarrow>
     \<exists>st' ts'. sort_children qsort sent received st p n = Some (st', n + length ts) \<and> trees_at (nodes st') p ts' \<and>
       list_all2 (\<lambda>t t'. top t = top t' \<and> reord (kids t) (kids t')) ts ts' \<and> tree st' = tree st \<and>
       (\<forall>q. q \<notin> set (tree_ptrs ts) \<longrightarrow> nodes st' q = nodes st q) \<and> same_content st st'"
proof (induction ts arbitrary: st p n rule: tree_ptrs.induct)
  case 1
  then show ?case by (simp add: sort_children.simps same_content_def)
next
  case (2 q us ts)
  have p: "p = Some q" "trees_at (nodes st) (child (nodes st q)) us" "trees_at (nodes st) (nnext (nodes st q)) ts"
    using 2(4) by simp_all
  have dis: "q \<notin> set (tree_ptrs us)" "q \<notin> set (tree_ptrs ts)" "distinct (tree_ptrs us)" "distinct (tree_ptrs ts)"
      "set (tree_ptrs us) \<inter> set (tree_ptrs ts) = {}"
    using 2(5) by auto
  have fl: "filled (nodes st) us" using 2(6) [of "Thread q us"] by simp
  have "\<exists>st2 us2. (if child (nodes st q) \<noteq> None
      then Option.bind (sort_children qsort sent received st (child (nodes st q)) 0)
             (\<lambda>r. sort_list qsort sent received (fst r) (Child q) (snd r)) else Some st) = Some st2 \<and>
      trees_at (nodes st2) (child (nodes st2 q)) us2 \<and> reord us us2 \<and> nnext (nodes st2 q) = nnext (nodes st q) \<and>
      tree st2 = tree st \<and> (\<forall>x. x \<notin> insert q (set (tree_ptrs us)) \<longrightarrow> nodes st2 x = nodes st x) \<and> same_content st st2"
  proof (cases "child (nodes st q)")
    case None
    then have "us = []" using p(2) by (cases us) (auto simp: seg_Cons)
    then show ?thesis using None by (intro exI [of _ st] exI [of _ "[]"]) (simp add: reord.Nil same_content_def)
  next
    case (Some c)
    have flk: "filled (nodes st) (kids u)" if "u \<in> set us" for u
      using fl kids_in_ptrs [OF that] by (auto simp: filled_def)
    obtain st1 us1 where s1: "sort_children qsort sent received st (child (nodes st q)) 0 = Some (st1, 0 + length us)"
        "trees_at (nodes st1) (child (nodes st q)) us1"
        "list_all2 (\<lambda>t t'. top t = top t' \<and> reord (kids t) (kids t')) us us1" "tree st1 = tree st"
        "\<forall>x. x \<notin> set (tree_ptrs us) \<longrightarrow> nodes st1 x = nodes st x" "same_content st st1"
      using 2(1) [OF 2(3) p(2) dis(3) flk] by blast
    have ro1: "reord us us1"
      using s1(3)
    proof (induction rule: list_all2_induct)
      case (Cons x xs y ys)
      then show ?case by (cases x; cases y) (auto intro: reord.Cons)
    qed (rule reord.Nil)
    have m1: "mset (tree_ptrs us1) = mset (tree_ptrs us)" by (rule reord_ptrs [OF ro1])
    have d1: "distinct (tree_ptrs us1)" using m1 dis(3) mset_eq_imp_distinct_iff by blast
    have ss1: "set (tree_ptrs us1) = set (tree_ptrs us)" by (rule mset_eq_setD [OF m1])
    have n1: "nodes st1 q = nodes st q" using s1(5) dis(1) by simp
    have sh1: "trees_at (nodes st1) (slot_next st1 (Child q)) us1" using s1(2) n1 by simp
    have it1: "item (nodes st1 (top u)) \<noteq> None \<or> kids u \<noteq> []" if "u \<in> set us1" for u
      using top_in_ptrs [OF that] ss1 fl s1(6) by (auto simp: filled_def same_content_def)
    have out1: "slot_out (Child q) (set (tree_ptrs us1))" using dis(1) ss1 by simp
    obtain st2 us2 where s2: "sort_list qsort sent received st1 (Child q) (length us1) = Some st2" "mset us2 = mset us1"
        "trees_at (nodes st2) (slot_next st2 (Child q)) us2" "slot_frame (Child q) (set (map top us1)) st1 st2" "same_content st1 st2"
      using sort_list_works [OF 2(3) sh1 d1 out1 it1] by blast
    have len: "length us1 = length us" using s1(3) list_all2_lengthD by fastforce
    have tops: "set (map top us1) \<subseteq> set (tree_ptrs us)" using top_in_ptrs [of _ us1] ss1 by auto
    have "nodes st2 x = nodes st x" if "x \<notin> insert q (set (tree_ptrs us))" for x
    proof -
      have "x \<notin> set (map top us1)" "slot_out (Child q) {x}" using that tops by auto
      then show ?thesis using frame_nodes [OF s2(4)] s1(5) that by simp
    qed
    moreover have "nnext (nodes st2 q) = nnext (nodes st q)"
    proof -
      have "q \<notin> set (map top us1)" using tops dis(1) by auto
      then show ?thesis using frame_fields(1) [OF s2(4)] n1 by simp
    qed
    moreover have "tree st2 = tree st" using s2(4) s1(4) by (simp add: slot_frame_def)
    moreover have "same_content st st2" using s1(6) s2(5) by (simp add: same_content_def)
    moreover have "reord us us2" using ro1 s2(2) by (metis reord.perm)
    ultimately show ?thesis using Some s1(1) s2(1,3) len by (intro exI [of _ st2] exI [of _ us2]) simp
  qed
  then obtain st2 us2 where s2: "(if child (nodes st q) \<noteq> None
      then Option.bind (sort_children qsort sent received st (child (nodes st q)) 0)
             (\<lambda>r. sort_list qsort sent received (fst r) (Child q) (snd r)) else Some st) = Some st2"
      "trees_at (nodes st2) (child (nodes st2 q)) us2" "reord us us2" "nnext (nodes st2 q) = nnext (nodes st q)"
      "tree st2 = tree st" "\<forall>x. x \<notin> insert q (set (tree_ptrs us)) \<longrightarrow> nodes st2 x = nodes st x" "same_content st st2"
    by blast
  have same2: "nodes st2 x = nodes st x" if "x \<in> set (tree_ptrs ts)" for x using s2(6) that dis(2,5) by auto
  have sh2: "trees_at (nodes st2) (nnext (nodes st2 q)) ts"
    using p(3) seg_cong [of ts "nodes st2" "nodes st"] same2 s2(4) by simp
  have fl2: "filled (nodes st2) (kids t)" if "t \<in> set ts" for t
    using 2(6) [of t] that s2(7) by (simp add: filled_def same_content_def)
  obtain st3 ts3 where s3: "sort_children qsort sent received st2 (nnext (nodes st2 q)) (n + 1) = Some (st3, n + 1 + length ts)"
      "trees_at (nodes st3) (nnext (nodes st2 q)) ts3"
      "list_all2 (\<lambda>t t'. top t = top t' \<and> reord (kids t) (kids t')) ts ts3" "tree st3 = tree st2"
      "\<forall>x. x \<notin> set (tree_ptrs ts) \<longrightarrow> nodes st3 x = nodes st2 x" "same_content st2 st3"
    using 2(2) [OF 2(3) sh2 dis(4) fl2] by blast
  have q3: "nodes st3 q = nodes st2 q" using s3(5) dis(2) by simp
  have "set (tree_ptrs us2) = set (tree_ptrs us)" using mset_eq_setD [OF reord_ptrs [OF s2(3)]] .
  then have "nodes st3 x = nodes st2 x" if "x \<in> set (tree_ptrs us2)" for x using s3(5) that dis(5) by auto
  then have "trees_at (nodes st3) (child (nodes st3 q)) us2"
    using s2(2) seg_cong [of us2 "nodes st3" "nodes st2"] q3 by simp
  then have "trees_at (nodes st3) p (Thread q us2 # ts3)" using s3(2) p(1) q3 by simp
  moreover have "sort_children qsort sent received st p n = Some (st3, n + length (Thread q us # ts))"
    using s2(1) s3(1) p(1) by (subst sort_children.simps) simp
  moreover have "same_content st st3" using s2(7) s3(6) by (simp add: same_content_def)
  moreover have "nodes st3 x = nodes st x" if "x \<notin> set (tree_ptrs (Thread q us # ts))" for x
    using that s3(5) s2(6) by simp
  ultimately show ?case
    using s2(3,5) s3(3,4) by (intro exI [of _ st3] exI [of _ "Thread q us2 # ts3"]) simp
qed

lemma sort_works:
  assumes q: "permutes qsort" and fo: "forest st ts M"
  shows "\<exists>st' ts'. sort_thread qsort sent received st Head = Some st' \<and> forest st' ts' M \<and> reord ts ts'"
proof -
  have f: "trees_at (nodes st) (tree st) ts" "distinct (tree_ptrs ts)" "\<And>t. t \<in> set ts \<Longrightarrow> top_ok (nodes st) t"
      "items_in (nodes st) (set (tree_ptrs ts)) = M" "memory_ok st (set (tree_ptrs ts))"
    using fo by (simp_all add: forest_def)
  have fl: "filled (nodes st) (kids t)" if "t \<in> set ts" for t using f(3) [OF that] by (simp add: top_ok_def)
  obtain st1 ts1 where s1: "sort_children qsort sent received st (tree st) 0 = Some (st1, 0 + length ts)"
      "trees_at (nodes st1) (tree st) ts1" "list_all2 (\<lambda>t t'. top t = top t' \<and> reord (kids t) (kids t')) ts ts1"
      "tree st1 = tree st" "same_content st st1"
    using sort_children_works [OF q f(1,2) fl] by blast
  have ro1: "reord ts ts1"
    using s1(3)
  proof (induction rule: list_all2_induct)
    case (Cons x xs y ys)
    then show ?case by (cases x; cases y) (auto intro: reord.Cons)
  qed (rule reord.Nil)
  have d1: "distinct (tree_ptrs ts1)" using reord_ptrs [OF ro1] f(2) mset_eq_imp_distinct_iff by blast
  have ok1: "top_ok (nodes st) t" if "t \<in> set ts1" for t
  proof -
    from reord_tops [OF ro1 that] obtain t0 where t0: "t0 \<in> set ts" "top t0 = top t" "reord (kids t0) (kids t)" by blast
    show ?thesis by (rule top_ok_reord [OF f(3) [OF t0(1)] t0(2,3)])
  qed
  have it1: "item (nodes st1 (top t)) \<noteq> None \<or> kids t \<noteq> []" if "t \<in> set ts1" for t
    using ok1 [OF that] s1(5) by (auto simp: top_ok_def same_content_def)
  have sh1: "trees_at (nodes st1) (slot_next st1 Head) ts1" using s1(2,4) by simp
  have out1: "slot_out Head (set (tree_ptrs ts1))" by simp
  obtain st2 ts2 where s2: "sort_list qsort sent received st1 Head (length ts1) = Some st2" "mset ts2 = mset ts1"
      "trees_at (nodes st2) (slot_next st2 Head) ts2" "same_content st1 st2"
    using sort_list_works [OF q sh1 d1 out1 it1] by blast
  have ro: "reord ts ts2" using ro1 s2(2) by (metis reord.perm)
  have m: "mset (tree_ptrs ts2) = mset (tree_ptrs ts)" by (rule reord_ptrs [OF ro])
  have sc: "same_content st st2" using s1(5) s2(4) by (simp add: same_content_def)
  have ok2: "top_ok (nodes st2) t = top_ok (nodes st) t" for t
  proof -
    have "kin (nodes st2) par us = kin (nodes st) par us" for par us
      by (rule kin_cong) (use sc in \<open>simp add: same_content_def\<close>)
    moreover have "filled (nodes st2) us = filled (nodes st) us" for us using sc by (simp add: filled_def same_content_def)
    ultimately show ?thesis using sc by (simp add: top_ok_def same_content_def)
  qed
  have "items_in (nodes st2) (set (tree_ptrs ts2)) = M"
    unfolding mset_eq_setD [OF m] f(4) [symmetric] by (rule items_in_cong) (use sc in \<open>simp add: same_content_def\<close>)
  moreover have "memory_ok st2 (set (tree_ptrs ts2))"
    unfolding mset_eq_setD [OF m] using f(5) sc by (simp add: memory_ok_def same_content_def)
  moreover have "distinct (tree_ptrs ts2)" using m f(2) mset_eq_imp_distinct_iff by blast
  moreover have "\<forall>t\<in>set ts2. top_ok (nodes st2) t" using ok1 ok2 mset_eq_setD [OF s2(2)] by simp
  ultimately have "forest st2 ts2 M" using s2(3) by (simp add: forest_def)
  moreover have "length ts1 = length ts" using list_all2_lengthD [OF s1(3)] by simp
  ultimately show ?thesis using s1(1) s2(1) ro by (intro exI [of _ st2] exI [of _ ts2]) (simp add: sort_thread_def)
qed

end
