(* ===== verification/Camel_ThreadFinish.thy ===== *)
theory Camel_ThreadFinish
  imports Camel_ThreadSort
begin

text \<open>Removing the empty roots, the last loop of \<^verbatim>\<open>thread_items\<close>.\<close>

section \<open>Picking the oldest\<close>

text \<open>The items change places within \<open>A\<close>; the links are kept as well.\<close>

definition mixed :: "node_ptr set \<Rightarrow> 'i thread_store \<Rightarrow> 'i thread_store \<Rightarrow> bool" where
  "mixed A st st' \<longleftrightarrow>
     (\<exists>\<pi>. inj \<pi> \<and> \<pi> ` A = A \<and> (\<forall>q. q \<notin> A \<longrightarrow> \<pi> q = q) \<and> (\<forall>q. item (nodes st' q) = item (nodes st (\<pi> q))))"

definition shuffled :: "node_ptr set \<Rightarrow> 'i thread_store \<Rightarrow> 'i thread_store \<Rightarrow> bool" where
  "shuffled A st st' \<longleftrightarrow> tree st' = tree st \<and> next_node st' = next_node st \<and> freed st' = freed st \<and>
     (\<forall>q. nnext (nodes st' q) = nnext (nodes st q) \<and> child (nodes st' q) = child (nodes st q) \<and>
       parent (nodes st' q) = parent (nodes st q)) \<and> mixed A st st'"

lemma shuffled_refl [simp]: "shuffled A st st"
  unfolding shuffled_def mixed_def by (auto intro!: exI [of _ "\<lambda>q. q"])

lemma shuffledD:
  "shuffled A st st' \<Longrightarrow>
     \<exists>\<pi>. inj \<pi> \<and> \<pi> ` A = A \<and> (\<forall>q. q \<notin> A \<longrightarrow> \<pi> q = q) \<and> (\<forall>q. item (nodes st' q) = item (nodes st (\<pi> q)))"
  by (simp add: shuffled_def mixed_def)

lemma shuffled_trans:
  assumes "shuffled A st1 st2" and "shuffled A st2 st3"
  shows "shuffled A st1 st3"
proof -
  obtain \<pi> where 1: "inj \<pi>" "\<pi> ` A = A" "\<forall>q. q \<notin> A \<longrightarrow> \<pi> q = q" "\<forall>q. item (nodes st2 q) = item (nodes st1 (\<pi> q))"
    using shuffledD [OF assms(1)] by blast
  obtain \<rho> where 2: "inj \<rho>" "\<rho> ` A = A" "\<forall>q. q \<notin> A \<longrightarrow> \<rho> q = q" "\<forall>q. item (nodes st3 q) = item (nodes st2 (\<rho> q))"
    using shuffledD [OF assms(2)] by blast
  have "inj (\<pi> \<circ> \<rho>)" by (rule inj_compose [OF 1(1) 2(1)])
  moreover have "(\<pi> \<circ> \<rho>) ` A = A" using 1(2) 2(2) by (simp only: image_comp [symmetric])
  moreover have "q \<notin> A \<longrightarrow> (\<pi> \<circ> \<rho>) q = q" for q using 1(3) 2(3) by simp
  moreover have "item (nodes st3 q) = item (nodes st1 ((\<pi> \<circ> \<rho>) q))" for q using 1(4) 2(4) by simp
  ultimately have "mixed A st1 st3" unfolding mixed_def by blast
  then show ?thesis using assms by (simp add: shuffled_def)
qed

lemma swap_shuffled:
  assumes "a \<in> A" and "b \<in> A"
  shows "shuffled A st (swap_nodes a b st)"
proof -
  define \<pi> where "\<pi> = (\<lambda>q. if q = a then b else if q = b then a else q)"
  have "inj \<pi>" "\<pi> ` A = A" using assms by (auto simp: \<pi>_def inj_def)
  moreover have "q \<notin> A \<longrightarrow> \<pi> q = q" for q using assms by (auto simp: \<pi>_def)
  moreover have "item (nodes (swap_nodes a b st) q) = item (nodes st (\<pi> q))" for q
    by (auto simp: \<pi>_def swap_nodes_def Let_def)
  ultimately have "mixed A st (swap_nodes a b st)" unfolding mixed_def by blast
  then show ?thesis by (simp add: shuffled_def swap_nodes_def Let_def)
qed

lemma pick_oldest_works:
  "chain (nodes st) node xs \<Longrightarrow> set xs \<subseteq> A \<Longrightarrow> newtop \<in> A \<Longrightarrow>
     \<exists>st'. pick_oldest sent received newtop st node cur = Some st' \<and> shuffled A st st'"
proof (induction xs arbitrary: st node cur)
  case Nil
  then show ?case by (simp add: pick_oldest.simps)
next
  case (Cons p xs)
  define st1 where "st1 = fst (pick_one sent received newtop st p cur)"
  have "st1 = st \<or> st1 = swap_nodes newtop p st"
    by (simp add: st1_def pick_one_def Let_def split: option.splits)
  then have sh: "shuffled A st st1" using swap_shuffled [of newtop A p st] Cons.prems(2,3) by auto
  have "chain (nodes st1) (nnext (nodes st1 p)) xs = chain (nodes st) (nnext (nodes st1 p)) xs"
    by (rule chain_cong) (use sh in \<open>simp add: shuffled_def\<close>)
  also have "\<dots>" using Cons.prems(1) sh by (simp add: shuffled_def)
  finally obtain st' where st': "pick_oldest sent received newtop st1 (nnext (nodes st1 p))
      (snd (pick_one sent received newtop st p cur)) = Some st'" "shuffled A st1 st'"
    using Cons.IH Cons.prems(2,3) by fastforce
  have "pick_oldest sent received newtop st node cur = Some st'"
    using Cons.prems(1) st'(1) by (subst pick_oldest.simps) (simp add: st1_def)
  then show ?case using shuffled_trans [OF sh st'(2)] by blast
qed

lemma mixed_items:
  assumes sh: "mixed A st st'" and AB: "A \<subseteq> B"
  shows "items_in (nodes st') B = items_in (nodes st) B"
    and "(\<forall>q\<in>B. item (nodes st q) \<noteq> None) \<Longrightarrow> q \<in> B \<Longrightarrow> item (nodes st' q) \<noteq> None"
    and "q \<notin> A \<Longrightarrow> item (nodes st' q) = item (nodes st q)"
proof -
  obtain \<pi> where p: "inj \<pi>" "\<pi> ` A = A" "\<And>q. q \<notin> A \<Longrightarrow> \<pi> q = q" "\<And>q. item (nodes st' q) = item (nodes st (\<pi> q))"
    using sh unfolding mixed_def by blast
  have pB: "\<pi> q \<in> B \<longleftrightarrow> q \<in> B" for q
  proof (cases "q \<in> A")
    case True
    then have "\<pi> q \<in> A" using p(2) by blast
    then show ?thesis using True AB by blast
  qed (simp add: p(3))
  define S where "S = {q \<in> B. item (nodes st q) \<noteq> None}"
  define S' where "S' = {q \<in> B. item (nodes st' q) \<noteq> None}"
  have "S \<subseteq> \<pi> ` S'"
  proof
    fix q assume q: "q \<in> S"
    obtain r where r: "q = \<pi> r"
    proof (cases "q \<in> A")
      case True
      then show ?thesis using p(2) that by blast
    qed (use p(3) that in metis)
    then show "q \<in> \<pi> ` S'" using q pB p(4) by (auto simp: S_def S'_def)
  qed
  moreover have "\<pi> ` S' \<subseteq> S" using pB p(4) by (auto simp: S_def S'_def)
  ultimately have S: "\<pi> ` S' = S" by blast
  have "items_in (nodes st) B = image_mset (\<lambda>q. the (item (nodes st q))) (image_mset \<pi> (mset_set S'))"
    using image_mset_mset_set [of \<pi> S'] p(1) inj_on_subset [OF p(1)] S unfolding items_in_def S_def by simp
  also have "\<dots> = items_in (nodes st') B" by (simp add: items_in_def S'_def p(4) multiset.map_comp comp_def)
  finally show "items_in (nodes st') B = items_in (nodes st) B" by simp
  show "item (nodes st' q) \<noteq> None" if "\<forall>q\<in>B. item (nodes st q) \<noteq> None" "q \<in> B" using that pB p(4) by simp
  show "item (nodes st' q) = item (nodes st q)" if "q \<notin> A" using that p(3,4) by simp
qed

section \<open>One empty root\<close>

lemma fix_parents_works:
  "chain (nodes st) (slot_next st s) xs \<Longrightarrow>
     \<exists>st'. fix_parents st s n = Some st' \<and> tree st' = tree st \<and> next_node st' = next_node st \<and> freed st' = freed st \<and>
       (\<forall>q. nnext (nodes st' q) = nnext (nodes st q) \<and> child (nodes st' q) = child (nodes st q) \<and>
         item (nodes st' q) = item (nodes st q) \<and>
         parent (nodes st' q) = (if q \<in> set xs then Some n else parent (nodes st q)))"
proof (induction xs arbitrary: st s)
  case Nil
  then show ?case by (simp add: fix_parents.simps)
next
  case (Cons p xs)
  define st1 where "st1 = upd_node p (\<lambda>a. a\<lparr>parent := Some n\<rparr>) st"
  have "chain (nodes st1) (nnext (nodes st p)) xs = chain (nodes st) (nnext (nodes st p)) xs"
    by (rule chain_cong) (simp add: st1_def)
  then have "chain (nodes st1) (slot_next st1 (Next p)) xs" using Cons.prems by (simp add: st1_def)
  from Cons.IH [OF this] obtain st' where st': "fix_parents st1 (Next p) n = Some st'" "tree st' = tree st1"
      "next_node st' = next_node st1" "freed st' = freed st1"
      "\<And>q. nnext (nodes st' q) = nnext (nodes st1 q) \<and> child (nodes st' q) = child (nodes st1 q) \<and>
         item (nodes st' q) = item (nodes st1 q) \<and>
         parent (nodes st' q) = (if q \<in> set xs then Some n else parent (nodes st1 q))"
    by blast
  have "fix_parents st s n = Some st'" using Cons.prems st'(1) by (subst fix_parents.simps) (simp add: st1_def)
  then show ?case using st'(2-) by (intro exI [of _ st']) (simp add: st1_def)
qed

text \<open>The roots before \<open>c\<close> are in order.\<close>

definition cleaned :: "'i thread_store \<Rightarrow> message_tree list \<Rightarrow> message_tree list \<Rightarrow> 'i multiset \<Rightarrow> bool" where
  "cleaned st pre post M \<longleftrightarrow> trees_at (nodes st) (tree st) (pre @ post) \<and> distinct (tree_ptrs (pre @ post)) \<and>
     kin (nodes st) None pre \<and> filled (nodes st) pre \<and> (\<forall>t\<in>set post. top_ok (nodes st) t) \<and>
     items_in (nodes st) (set (tree_ptrs (pre @ post))) = M \<and> memory_ok st (set (tree_ptrs (pre @ post)))"

lemma cleanedD:
  assumes "cleaned st pre post M"
  shows "trees_at (nodes st) (tree st) (pre @ post)" "distinct (tree_ptrs (pre @ post))" "kin (nodes st) None pre"
    "filled (nodes st) pre" "\<And>t. t \<in> set post \<Longrightarrow> top_ok (nodes st) t"
    "items_in (nodes st) (set (tree_ptrs (pre @ post))) = M" "memory_ok st (set (tree_ptrs (pre @ post)))"
  using assms by (simp_all add: cleaned_def)

lemma cleaned_visit:
  assumes cl: "cleaned st pre (T # post) M" and i: "item (nodes st (top T)) \<noteq> None"
  shows "cleaned st (pre @ [T]) post M"
proof -
  have ok: "top_ok (nodes st) T" using cleanedD(5) [OF cl] by simp
  have "kin (nodes st) (Some (top T)) (kids T)"
    unfolding kin_items [of _ _ "kids T"] using ok i by (simp add: top_ok_def)
  then have "kin (nodes st) None [T]" using ok by (simp add: kin_Cons top_ok_def)
  moreover have "filled (nodes st) [T]" using ok i by (simp add: top_ok_def filled_def ptrs_Cons)
  then have "filled (nodes st) (pre @ [T])" using cleanedD(4) [OF cl] unfolding filled_def ptrs_append by auto
  ultimately show ?thesis using cl unfolding cleaned_def by simp
qed

lemma top_ok_cong:
  assumes ok: "top_ok h t"
    and "\<And>q. q \<in> set (tree_ptrs [t]) \<Longrightarrow> parent (h' q) = parent (h q)" "\<And>q. q \<in> set (tree_ptrs [t]) \<Longrightarrow> item (h' q) = item (h q)"
  shows "top_ok h' t"
proof -
  have "kin h' (Some (top u)) (kids u) = kin h (Some (top u)) (kids u)" if "u \<in> set (kids t)" for u
    by (rule kin_cong) (use assms(2) kids_in_ptrs [OF that] in \<open>auto simp: ptrs_Cons\<close>)
  moreover have "parent (h' (top u)) = parent (h (top u))" if "u \<in> set (kids t)" for u
    using assms(2) top_in_ptrs [OF that] by (simp add: ptrs_Cons)
  moreover have "filled h' (kids t) = filled h (kids t)" using assms(3) by (simp add: filled_def ptrs_Cons)
  moreover have "parent (h' (top t)) = parent (h (top t))" "item (h' (top t)) = item (h (top t))"
    using assms(2,3) by (simp_all add: ptrs_Cons)
  ultimately show ?thesis using ok by (simp add: top_ok_def)
qed

text \<open>The links when the empty root \<open>T\<close> gave way to its first child \<open>N\<close>, and what became of the parents and items.\<close>

definition replaced ::
    "'i thread_store \<Rightarrow> message_tree list \<Rightarrow> message_tree \<Rightarrow> message_tree \<Rightarrow> message_tree list \<Rightarrow> message_tree list \<Rightarrow> 'i thread_store \<Rightarrow> bool" where
  "replaced st pre T N sibs post st' \<longleftrightarrow>
     trees_at (nodes st') (tree st') ((pre @ [Thread (top N) (kids N @ sibs)]) @ post) \<and>
     (\<forall>q. parent (nodes st' q) =
        (if q \<in> set (map top sibs) then Some (top N) else if q = top N then None else parent (nodes st q))) \<and>
     mixed (insert (top N) (set (map top sibs))) st st' \<and> next_node st' = next_node st \<and> freed st' = top T # freed st"

lemma remove_phantom_replaces:
  assumes sh: "trees_at (nodes st) (tree st) (pre @ T # post)" and dps: "distinct (tree_ptrs (pre @ T # post))"
    and kT: "kids T = N # sibs"
  shows "\<exists>st'. remove_phantom f by_date st (end_slot Head (map top pre)) (top T) = Some (st', Next (top N)) \<and>
    replaced st pre T N sibs post st'"
proof -
  define ch where "ch = top T"
  define nt where "nt = top N"
  define c where "c = end_slot Head (map top pre)"
  define T' where "T' = Thread nt (kids N @ sibs)"
  have pT: "tree_ptrs (T # post) = ch # nt # tree_ptrs (kids N) @ tree_ptrs sibs @ tree_ptrs post"
    by (simp add: ptrs_Cons kT ch_def nt_def)
  have pT': "tree_ptrs (T' # post) = nt # tree_ptrs (kids N) @ tree_ptrs sibs @ tree_ptrs post" by (simp add: T'_def)
  have dis: "distinct (tree_ptrs pre)" "distinct (tree_ptrs (kids N))" "distinct (tree_ptrs sibs)"
      "ch \<notin> set (tree_ptrs pre)" "nt \<notin> set (tree_ptrs pre)" "nt \<noteq> ch" "ch \<notin> set (tree_ptrs (kids N))" "ch \<notin> set (tree_ptrs sibs)"
      "ch \<notin> set (tree_ptrs post)" "nt \<notin> set (tree_ptrs (kids N))" "nt \<notin> set (tree_ptrs sibs)" "nt \<notin> set (tree_ptrs post)"
      "set (tree_ptrs pre) \<inter> set (tree_ptrs (kids N)) = {}" "set (tree_ptrs pre) \<inter> set (tree_ptrs sibs) = {}"
      "set (tree_ptrs (kids N)) \<inter> set (tree_ptrs sibs) = {}" "set (tree_ptrs (kids N)) \<inter> set (tree_ptrs post) = {}"
      "set (tree_ptrs sibs) \<inter> set (tree_ptrs post) = {}" "set (tree_ptrs pre) \<inter> set (tree_ptrs post) = {}"
    using dps unfolding ptrs_append pT by auto
  obtain m where m: "seg (nodes st) (tree st) pre m" "trees_at (nodes st) m (T # post)"
    using sh by (auto simp: seg_append)
  have sT: "m = Some ch" "child (nodes st ch) = Some nt" "trees_at (nodes st) (Some nt) (N # sibs)"
      "trees_at (nodes st) (child (nodes st nt)) (kids N)" "trees_at (nodes st) (nnext (nodes st nt)) sibs"
      "trees_at (nodes st) (nnext (nodes st ch)) post"
    using m(2) by (simp_all add: seg_Cons kT ch_def nt_def)
  have cc: "c = Head \<or> (\<exists>u\<in>set pre. c = Next (top u))" unfolding c_def by (cases pre rule: rev_cases) auto
  have outc: "slot_out c B" if "B \<inter> set (tree_ptrs pre) = {}" for B
    using cc that top_in_ptrs [of _ pre] by auto
  define st1 where "st1 = upd_node nt (\<lambda>n. n\<lparr>parent := None\<rparr>) st"
  define st2 where "st2 = set_slot c (Some nt) st1"
  have seg1: "seg (nodes st1) p us r = seg (nodes st) p us r" for p us r
    by (rule seg_cong) (simp add: st1_def)
  have "trees_at (nodes st1) (slot_next st1 Head) (pre @ T # post)" using sh seg1 by (simp add: st1_def)
  moreover have "trees_at (nodes st2) (Some nt) (N # sibs)"
  proof -
    have "seg (nodes st2) (Some nt) (N # sibs) None = seg (nodes st1) (Some nt) (N # sibs) None"
      unfolding st2_def by (rule seg_set_slot, rule outc) (use dis in \<open>auto simp: ptrs_Cons nt_def\<close>)
    then show ?thesis using sT(3) seg1 by simp
  qed
  ultimately have "trees_at (nodes st2) (tree st2) (pre @ N # sibs)"
    using seg_set_end [of st1 Head pre "T # post" "Some nt" "N # sibs"] dis(1) by (simp add: st2_def c_def)
  then have pre2: "seg (nodes st2) (tree st2) pre (Some nt)" by (auto simp: seg_append seg_Cons nt_def)
  have keep2: "nnext (nodes st2 q) = nnext (nodes st q)" "child (nodes st2 q) = child (nodes st q)"
    if "q \<notin> set (tree_ptrs pre)" for q
    using outc [of "{q}"] that by (auto simp: st2_def st1_def)
  have nt2: "nnext (nodes st2 nt) = nnext (nodes st nt)" using keep2(1) dis(5) by simp
  have seg2: "seg (nodes st2) p us r = seg (nodes st) p us r" if "set (tree_ptrs us) \<inter> set (tree_ptrs pre) = {}" for p us r
    unfolding st2_def seg1 [symmetric] by (rule seg_set_slot) (rule outc [OF that])
  define A where "A = insert nt (set (map top sibs))"
  have "chain (nodes st2) (nnext (nodes st2 nt)) (map top sibs)"
    by (rule seg_chain) (use sT(5) seg2 [of sibs] dis(14) nt2 in auto)
  then have pick: "\<exists>st3. pick_oldest sent received nt st2 (nnext (nodes st2 nt)) cur = Some st3 \<and> shuffled A st2 st3"
    for sent received cur
    by (rule pick_oldest_works) (auto simp: A_def)
  define picked where "picked = (case (by_date, get_date_sent_func f, get_date_received_func f) of
      (False, Some sent, Some received) \<Rightarrow> pick_oldest sent received nt st2 (nnext (nodes st2 nt))
         (case item (nodes st2 nt) of None \<Rightarrow> 0 | Some i \<Rightarrow> pick_time sent received i)
    | _ \<Rightarrow> Some st2)"
  have "\<exists>st3. picked = Some st3 \<and> shuffled A st2 st3"
    unfolding picked_def using pick by (auto split: bool.split option.split)
  then obtain st3 where st3: "picked = Some st3" "shuffled A st2 st3" by blast
  have f3: "tree st3 = tree st2" "next_node st3 = next_node st2" "freed st3 = freed st2"
      "\<And>q. nnext (nodes st3 q) = nnext (nodes st2 q)" "\<And>q. child (nodes st3 q) = child (nodes st2 q)"
      "\<And>q. parent (nodes st3 q) = parent (nodes st2 q)"
    using st3(2) by (simp_all add: shuffled_def)
  have seg3: "seg (nodes st3) p us r = seg (nodes st2) p us r" for p us r by (rule seg_cong) (simp add: f3)
  define e where "e = end_slot (Child nt) (map top (kids N))"
  have shN: "trees_at (nodes st3) (slot_next st3 (Child nt)) (kids N)"
    using sT(4) seg2 [of "kids N"] dis(5,13) keep2(2) [of nt] by (simp add: seg3 f3 inf_commute)
  then have end3: "list_end st3 (Child nt) = Some e" unfolding e_def by (intro list_end_finds seg_chain)
  have ee: "e = Child nt \<or> (\<exists>u\<in>set (kids N). e = Next (top u))"
    unfolding e_def by (cases "kids N" rule: rev_cases) auto
  have oute: "slot_out e B" if "B \<inter> insert nt (set (tree_ptrs (kids N))) = {}" for B
    using ee that top_in_ptrs [of _ "kids N"] by auto
  define st4 where "st4 = set_slot e (nnext (nodes st3 nt)) st3"
  have sib4: "trees_at (nodes st4) (nnext (nodes st3 nt)) sibs"
  proof -
    have "seg (nodes st4) (nnext (nodes st3 nt)) sibs None = seg (nodes st3) (nnext (nodes st3 nt)) sibs None"
      unfolding st4_def by (rule seg_set_slot, rule oute) (use dis in auto)
    then show ?thesis using sT(5) seg2 [of sibs] dis(14) nt2 by (simp add: seg3 f3 inf_commute)
  qed
  then have kids4: "trees_at (nodes st4) (slot_next st4 (Child nt)) (kids N @ sibs)"
    using seg_set_end [of st3 "Child nt" "kids N" "[]" "nnext (nodes st3 nt)" sibs] shN dis(2,10)
    by (simp add: st4_def e_def)
  have "chain (nodes st4) (slot_next st4 e) (map top sibs)"
    using seg_chain [OF sib4] by (simp add: st4_def)
  then obtain st5 where st5: "fix_parents st4 e nt = Some st5" "tree st5 = tree st4" "next_node st5 = next_node st4"
      "freed st5 = freed st4"
    and f5: "\<And>q. nnext (nodes st5 q) = nnext (nodes st4 q)" "\<And>q. child (nodes st5 q) = child (nodes st4 q)"
      "\<And>q. item (nodes st5 q) = item (nodes st4 q)"
      "\<And>q. parent (nodes st5 q) = (if q \<in> set (map top sibs) then Some nt else parent (nodes st4 q))"
    using fix_parents_works [of st4 e "map top sibs" nt] by auto
  define st6 where "st6 = upd_node nt (\<lambda>n. n\<lparr>nnext := nnext (nodes st5 ch)\<rparr>) st5"
  define st' where "st' = free_node ch st6"
  have run: "remove_phantom f by_date st c ch = Some (st', Next nt)"
    unfolding remove_phantom_def sT(2) option.case Let_def st1_def [symmetric] st2_def [symmetric] picked_def [symmetric]
      st3(1) bind.bind_lunit end3 st4_def [symmetric] st5(1) st6_def [symmetric] st'_def [symmetric]
    by simp
  have links: "nnext (nodes st' q) = nnext (nodes st4 q)" if "q \<noteq> nt" for q using that by (simp add: st'_def st6_def f5)
  have childs: "child (nodes st' q) = child (nodes st4 q)" for q by (simp add: st'_def st6_def f5)
  have fixed: "nnext (nodes st' q) = nnext (nodes st2 q)" "child (nodes st' q) = child (nodes st2 q)"
    if "q \<notin> insert nt (set (tree_ptrs (kids N)))" for q
    using oute [of "{q}"] that links [of q] childs [of q] by (simp_all add: st4_def f3)
  have segfix: "seg (nodes st') p us r = seg (nodes st2) p us r"
    if "nt \<notin> set (tree_ptrs us)" "set (tree_ptrs us) \<inter> set (tree_ptrs (kids N)) = {}" for p us r
  proof (rule seg_cong)
    fix q assume "q \<in> set (tree_ptrs us)"
    then have "q \<notin> insert nt (set (tree_ptrs (kids N)))" using that by auto
    then show "child (nodes st' q) = child (nodes st2 q) \<and> nnext (nodes st' q) = nnext (nodes st2 q)" using fixed by simp
  qed
  have "seg (nodes st') (tree st') pre (Some nt)"
  proof -
    have "seg (nodes st') (tree st') pre (Some nt) = seg (nodes st2) (tree st') pre (Some nt)"
      by (rule segfix [OF dis(5,13)])
    moreover have "tree st' = tree st2"
      using ee by (auto simp: st'_def st6_def st5 st4_def f3)
    ultimately show ?thesis using pre2 by simp
  qed
  moreover have "trees_at (nodes st') (child (nodes st' nt)) (kids N @ sibs)"
  proof -
    have "seg (nodes st') (child (nodes st4 nt)) (kids N @ sibs) None = seg (nodes st4) (child (nodes st4 nt)) (kids N @ sibs) None"
    proof (rule seg_cong)
      fix q assume "q \<in> set (tree_ptrs (kids N @ sibs))"
      then have "q \<noteq> nt" using dis(10,11) by auto
      then show "child (nodes st' q) = child (nodes st4 q) \<and> nnext (nodes st' q) = nnext (nodes st4 q)"
        using links childs by simp
    qed
    then show ?thesis using kids4 childs by simp
  qed
  moreover have "trees_at (nodes st') (nnext (nodes st' nt)) post"
  proof -
    have "nnext (nodes st4 ch) = nnext (nodes st ch)"
      using oute [of "{ch}"] dis(4,6,7) keep2(1) [of ch] by (simp add: st4_def f3)
    then have "nnext (nodes st' nt) = nnext (nodes st ch)" by (simp add: st'_def st6_def f5)
    moreover have "seg (nodes st') (nnext (nodes st ch)) post None = seg (nodes st2) (nnext (nodes st ch)) post None"
      by (rule segfix) (use dis(12,16) in auto)
    ultimately show ?thesis using sT(6) seg2 [of post] dis(18) by (simp add: inf_commute)
  qed
  ultimately have shape': "trees_at (nodes st') (tree st') ((pre @ [T']) @ post)" by (auto simp: seg_append T'_def)
  have parents: "parent (nodes st' q) = (if q \<in> set (map top sibs) then Some nt else if q = nt then None else parent (nodes st q))" for q
    by (simp add: st'_def st6_def f5 st4_def f3 st2_def st1_def)
  have i: "item (nodes st2 q) = item (nodes st q)" "item (nodes st' q) = item (nodes st3 q)" for q
    by (simp_all add: st2_def st1_def st'_def st6_def f5 st4_def)
  have "mixed A st st'" using shuffledD [OF st3(2)] unfolding mixed_def i .
  moreover have "freed st' = ch # freed st" "next_node st' = next_node st"
    by (simp_all add: st'_def st6_def st5 st4_def f3 st2_def st1_def)
  ultimately have "replaced st pre T N sibs post st'"
    using shape' parents unfolding replaced_def A_def T'_def nt_def ch_def by blast
  then show ?thesis using run unfolding c_def ch_def nt_def by blast
qed

lemma remove_phantom_works:
  assumes cl: "cleaned st pre (T # post) M" and no: "item (nodes st (top T)) = None"
  shows "\<exists>st' T'. remove_phantom f by_date st (end_slot Head (map top pre)) (top T) = Some (st', Next (top T')) \<and>
    cleaned st' (pre @ [T']) post M"
proof -
  note g = cleanedD [OF cl]
  have ok: "top_ok (nodes st) T" using g(5) by simp
  then obtain N sibs where kT: "kids T = N # sibs" using no by (cases "kids T") (auto simp: top_ok_def)
  define ch where "ch = top T"
  define nt where "nt = top N"
  define T' where "T' = Thread nt (kids N @ sibs)"
  define A where "A = insert nt (set (map top sibs))"
  have pT: "tree_ptrs (T # post) = ch # nt # tree_ptrs (kids N) @ tree_ptrs sibs @ tree_ptrs post"
    by (simp add: ptrs_Cons kT ch_def nt_def)
  have pT': "tree_ptrs (T' # post) = nt # tree_ptrs (kids N) @ tree_ptrs sibs @ tree_ptrs post" by (simp add: T'_def)
  have dis: "distinct (tree_ptrs pre)" "distinct (tree_ptrs (kids N))" "distinct (tree_ptrs sibs)"
      "ch \<notin> set (tree_ptrs pre)" "nt \<notin> set (tree_ptrs pre)" "nt \<noteq> ch" "ch \<notin> set (tree_ptrs (kids N))" "ch \<notin> set (tree_ptrs sibs)"
      "ch \<notin> set (tree_ptrs post)" "nt \<notin> set (tree_ptrs (kids N))" "nt \<notin> set (tree_ptrs sibs)" "nt \<notin> set (tree_ptrs post)"
      "set (tree_ptrs pre) \<inter> set (tree_ptrs (kids N)) = {}" "set (tree_ptrs pre) \<inter> set (tree_ptrs sibs) = {}"
      "set (tree_ptrs (kids N)) \<inter> set (tree_ptrs sibs) = {}" "set (tree_ptrs (kids N)) \<inter> set (tree_ptrs post) = {}"
      "set (tree_ptrs sibs) \<inter> set (tree_ptrs post) = {}" "set (tree_ptrs pre) \<inter> set (tree_ptrs post) = {}"
    using g(2) unfolding ptrs_append pT by auto
  obtain st' where run: "remove_phantom f by_date st (end_slot Head (map top pre)) (top T) = Some (st', Next nt)"
      and r: "replaced st pre T N sibs post st'"
    using remove_phantom_replaces [OF g(1,2) kT] unfolding nt_def by blast
  have shape': "trees_at (nodes st') (tree st') ((pre @ [T']) @ post)"
    and parents: "\<And>q. parent (nodes st' q) = (if q \<in> set (map top sibs) then Some nt else if q = nt then None else parent (nodes st q))"
    and mix: "mixed A st st'" and mem: "freed st' = ch # freed st" "next_node st' = next_node st"
    using r unfolding replaced_def T'_def nt_def ch_def A_def by blast+
  have topsib: "set (map top sibs) \<subseteq> set (tree_ptrs sibs)" using top_in_ptrs [of _ sibs] by auto
  have same_kin: "kin (nodes st') par us = kin (nodes st) par us"
    if u: "nt \<notin> set (tree_ptrs us)" "set (tree_ptrs us) \<inter> set (map top sibs) = {}" for par us
    by (rule kin_cong) (use parents u in auto)
  have "kin (nodes st') None pre" using g(3) same_kin [of pre] dis(5,14) topsib by auto
  moreover have okN: "kin (nodes st) (Some nt) (kids N)" using ok kT by (simp add: top_ok_def nt_def)
  have "kin (nodes st') None [T']"
  proof -
    have "kin (nodes st') (Some nt) (kids N)" using okN same_kin [of "kids N"] dis(10,15) topsib by auto
    moreover have "kin (nodes st') (Some nt) sibs"
      unfolding kin_items [of _ _ sibs]
    proof
      fix u assume u: "u \<in> set sibs"
      have "kin (nodes st) (Some (top u)) (kids u)" using ok u by (simp add: top_ok_def kT)
      moreover have "set (tree_ptrs (kids u)) \<inter> set (map top sibs) = {}" using top_disjoint [OF dis(3) u] by auto
      moreover have "nt \<notin> set (tree_ptrs (kids u))" using kids_in_ptrs [OF u] dis(11) by auto
      ultimately show "parent (nodes st' (top u)) = Some nt \<and> kin (nodes st') (Some (top u)) (kids u)"
        using same_kin parents u by simp
    qed
    moreover have "nt \<notin> set (map top sibs)" using topsib dis(11) by auto
    then have "parent (nodes st' nt) = None" by (simp add: parents)
    ultimately show ?thesis by (simp add: T'_def)
  qed
  ultimately have kin': "kin (nodes st') None (pre @ [T'])" by simp
  define B where "B = set (tree_ptrs (kids T))"
  have Bset: "B = insert nt (set (tree_ptrs (kids N)) \<union> set (tree_ptrs sibs))" by (simp add: B_def kT ptrs_Cons nt_def)
  have AB: "A \<subseteq> B" using topsib by (auto simp: A_def Bset)
  have "filled (nodes st) (kids T)" using ok by (simp add: top_ok_def)
  then have "\<forall>q\<in>B. item (nodes st q) \<noteq> None" unfolding filled_def B_def .
  note filled3 = mixed_items(2) [OF mix AB this]
  have "B \<inter> set (tree_ptrs pre) = {}" using dis by (auto simp: Bset)
  then have "item (nodes st' q) = item (nodes st q)" if "q \<in> set (tree_ptrs pre)" for q
    using mixed_items(3) [OF mix AB, of q] that AB by auto
  then have filled': "filled (nodes st') (pre @ [T'])"
    using g(4) filled3 unfolding filled_def ptrs_append by (auto simp: T'_def Bset)
  have post': "top_ok (nodes st') t" if t: "t \<in> set post" for t
  proof -
    have sub: "set (tree_ptrs [t]) \<subseteq> set (tree_ptrs post)" using t top_in_ptrs kids_in_ptrs by (fastforce simp: ptrs_Cons)
    have out: "q \<notin> A \<and> q \<noteq> nt \<and> q \<notin> set (map top sibs)" if "q \<in> set (tree_ptrs [t])" for q
      using that sub dis(12,17) topsib by (auto simp: A_def)
    have p: "parent (nodes st' q) = parent (nodes st q)" "item (nodes st' q) = item (nodes st q)" if "q \<in> set (tree_ptrs [t])" for q
      using out [OF that] parents [of q] mixed_items(3) [OF mix AB, of q] by simp_all
    show ?thesis by (rule top_ok_cong [OF g(5) p]) (use t in simp_all)
  qed
  have sets: "set (tree_ptrs ((pre @ [T']) @ post)) \<union> {ch} = set (tree_ptrs (pre @ T # post))"
      "ch \<notin> set (tree_ptrs ((pre @ [T']) @ post))"
    using dis unfolding ptrs_append pT append_assoc append_Cons append_Nil pT' by auto
  have "items_in (nodes st') (set (tree_ptrs ((pre @ [T']) @ post))) = items_in (nodes st) (set (tree_ptrs ((pre @ [T']) @ post)))"
    by (rule mixed_items(1) [OF mix]) (use topsib in \<open>auto simp: A_def pT' T'_def\<close>)
  also have "\<dots> = items_in (nodes st) (set (tree_ptrs (pre @ T # post)))"
    unfolding sets(1) [symmetric] using items_in_empty_node [of "nodes st" ch] no by (simp add: ch_def)
  finally have items': "items_in (nodes st') (set (tree_ptrs ((pre @ [T']) @ post))) = M" using g(6) by simp
  have "memory_ok st' (set (tree_ptrs ((pre @ [T']) @ post)))"
    using g(7) sets mem unfolding memory_ok_def by auto
  moreover have "distinct (tree_ptrs ((pre @ [T']) @ post))"
    using g(2) unfolding ptrs_append pT append_assoc append_Cons append_Nil pT' by auto
  ultimately have "cleaned st' (pre @ [T']) post M"
    using shape' kin' filled' post' items' unfolding cleaned_def by blast
  then show ?thesis using run by (intro exI [of _ st'] exI [of _ T']) (simp add: T'_def)
qed

section \<open>All empty roots\<close>

lemma remove_phantoms_loop:
  "cleaned st pre post M \<Longrightarrow>
     \<exists>st' ts'. remove_phantoms f by_date st (end_slot Head (map top pre)) = Some st' \<and> cleaned st' ts' [] M"
proof (induction post arbitrary: st pre)
  case Nil
  have "chain (nodes st) (slot_next st Head) (map top pre @ [])" using seg_chain [OF cleanedD(1) [OF Nil]] by simp
  from slot_end_slot [OF this] have "slot_next st (end_slot Head (map top pre)) = None" by simp
  then show ?case using Nil by (subst remove_phantoms.simps) auto
next
  case (Cons T post)
  have "chain (nodes st) (slot_next st Head) (map top pre @ top T # map top post)"
    using seg_chain [OF cleanedD(1) [OF Cons.prems]] by simp
  from slot_end_slot [OF this] have nx: "slot_next st (end_slot Head (map top pre)) = Some (top T)" by simp
  show ?case
  proof (cases "item (nodes st (top T)) = None")
    case True
    then obtain st1 T' where r: "remove_phantom f by_date st (end_slot Head (map top pre)) (top T) = Some (st1, Next (top T'))"
        "cleaned st1 (pre @ [T']) post M"
      using remove_phantom_works [OF Cons.prems] by blast
    then show ?thesis using Cons.IH [OF r(2)] nx True by (subst remove_phantoms.simps) simp
  next
    case False
    then show ?thesis using Cons.IH [OF cleaned_visit [OF Cons.prems False]] nx
      by (subst remove_phantoms.simps) (simp del: not_None_eq)
  qed
qed

lemma remove_phantoms_works:
  assumes "forest st ts M"
  shows "\<exists>st' ts'. remove_phantoms f by_date st Head = Some st' \<and> cleaned st' ts' [] M"
proof -
  have "cleaned st [] ts M" using assms by (simp add: forest_def cleaned_def filled_def)
  then show ?thesis using remove_phantoms_loop [of st "[]" ts M f by_date] by simp
qed

end
