(* ===== verification/Camel_ThreadProps.thy ===== *)
theory Camel_ThreadProps
  imports Camel_ThreadFinish
begin

text \<open>\<^verbatim>\<open>thread_items\<close> as a whole, and what the root of a subject is.\<close>

section \<open>All phases\<close>

text \<open>What is asked of GLib: each value of a table is visited once, and sorting permutes.\<close>

definition glib_ok :: "'i glib \<Rightarrow> bool" where
  "glib_ok glib \<longleftrightarrow> (\<forall>t. mset (id_foreach glib t) = mset (map snd t)) \<and>
     (\<forall>t. mset (no_id_foreach glib t) = mset (map snd t)) \<and> permutes (qsort_with_data glib)"

text \<open>The trees of the result: links and parents agree, each item is in one node, nothing that was freed is in them.\<close>

definition threaded :: "'i thread_store \<Rightarrow> message_tree list \<Rightarrow> 'i list \<Rightarrow> bool" where
  "threaded st ts items \<longleftrightarrow> trees_at (nodes st) (tree st) ts \<and> kin (nodes st) None ts \<and> distinct (tree_ptrs ts) \<and>
     image_mset (\<lambda>p. item (nodes st p)) (mset (tree_ptrs ts)) = image_mset Some (mset items) \<and>
     distinct (freed st) \<and> set (freed st) \<inter> set (tree_ptrs ts) = {}"

lemma empty_tabled: "tabled empty_store ([], []) []"
  by (simp add: tabled_def empty_store_def linked_def up_def items_in_def acyclic_def)

lemma visit_tables:
  assumes g: "glib_ok glib" and tb: "tabled st (ids, nos) M"
  shows "\<exists>st' ts. fold hashloop (no_id_foreach glib nos) (fold hashloop (id_foreach glib ids) st) = st' \<and>
    trees_at (nodes st') (tree st') ts \<and> kin (nodes st') None ts \<and> distinct (tree_ptrs ts) \<and> set (tree_ptrs ts) = {..<next_node st'} \<and>
    items_in (nodes st') (set (tree_ptrs ts)) = mset M \<and> freed st' = []"
proof -
  define xs where "xs = id_foreach glib ids @ no_id_foreach glib nos"
  have t: "linked st" "tree st = None" "freed st = []" "items_in (nodes st) {..<next_node st} = mset M"
      "mset (map snd ids @ map snd nos) = mset_set {..<next_node st}"
    using tb by (simp_all add: tabled_def)
  have "mset xs = mset_set {..<next_node st}" using g t(5) by (simp add: xs_def glib_ok_def)
  then have m: "mset xs = mset [0..<next_node st]" by (simp only: mset_upt atLeast0LessThan)
  have x: "distinct xs" "set xs = {..<next_node st}"
    by (simp add: mset_eq_imp_distinct_iff [OF m]) (simp add: mset_eq_setD [OF m] atLeast0LessThan)
  have ch: "chain (nodes st) (tree st) []" using t(2) by simp
  obtain st' rs' where r: "fold hashloop xs st = st'" "linked st'" "chain (nodes st') (tree st') rs'" "distinct rs'"
      "set rs' = {r \<in> set xs. parent (nodes st r) = None}" "next_node st' = next_node st" "freed st' = freed st"
      "\<forall>q. item (nodes st' q) = item (nodes st q)" "\<forall>q. parent (nodes st' q) = parent (nodes st q)"
    using hashloops_chain [OF t(1) ch, of xs] x by auto
  have "set rs' = {r. r < next_node st' \<and> parent (nodes st' r) = None}" using r(5,6,9) x(2) by auto
  then obtain ts where ts: "trees_at (nodes st') (tree st') ts" "kin (nodes st') None ts" "distinct (tree_ptrs ts)"
      "set (tree_ptrs ts) = {..<next_node st'}"
    using linked_trees [OF r(2-4)] by blast
  have "items_in (nodes st') (set (tree_ptrs ts)) = mset M"
    unfolding ts(4) r(6) t(4) [symmetric] by (rule items_in_cong) (simp add: r(8))
  then show ?thesis using ts r(1,7) t(3) by (intro exI [of _ st'] exI [of _ ts]) (simp add: xs_def)
qed

lemma prune_forest:
  assumes "trees_at (nodes st) (tree st) ts" "kin (nodes st) None ts" "distinct (tree_ptrs ts)" "set (tree_ptrs ts) = {..<next_node st}"
    and "items_in (nodes st) (set (tree_ptrs ts)) = M" and "freed st = []"
  shows "\<exists>st' ts'. prune_empty st Head = Some st' \<and> trees_at (nodes st') (tree st') ts' \<and> kin (nodes st') None ts' \<and>
    distinct (tree_ptrs ts') \<and> settled (nodes st') True ts' \<and> items_in (nodes st') (set (tree_ptrs ts')) = M \<and>
    memory_ok st' (set (tree_ptrs ts'))"
proof -
  obtain st' ts' where p: "prune_empty st Head = Some st'" "pruned Head None st ts st' ts'"
    using prune_works [of st Head ts None] assms(1-3) by auto
  note d = prunedD [OF p(2)]
  have "items_in (nodes st') (set (tree_ptrs ts')) = items_in (nodes st) (set (tree_ptrs ts'))" by (rule items_in_cong) (simp add: d(6))
  also have "\<dots> = items_in (nodes st) (set (tree_ptrs ts))" using items_in_drop [OF d(4), of "nodes st"] d(7) by simp
  finally have M: "items_in (nodes st') (set (tree_ptrs ts')) = M" using assms(5) by simp
  have "next_node st' = next_node st" using d(5) by (simp add: slot_frame_def)
  moreover obtain F where "freed st' = F @ freed st" "distinct F" "set F \<subseteq> set (tree_ptrs ts) - set (tree_ptrs ts')"
    using p(2) by (auto simp: pruned_def)
  ultimately have "memory_ok st' (set (tree_ptrs ts'))" using assms(4,6) d(4) unfolding memory_ok_def by auto
  then show ?thesis using p(1) d(1-3,8) M by (intro exI [of _ st'] exI [of _ ts']) simp
qed

lemma settled_forest:
  assumes "trees_at (nodes st) (tree st) ts" "kin (nodes st) None ts" "distinct (tree_ptrs ts)" "settled (nodes st) True ts"
    and "items_in (nodes st) (set (tree_ptrs ts)) = M" and "memory_ok st (set (tree_ptrs ts))"
  shows "forest st ts M"
  using assms root_ok_top [OF settled_root_ok [OF assms(4,2,3), of "{}"]] by (simp add: forest_def)

lemma filled_items:
  assumes "filled h ts" and "distinct (tree_ptrs ts)" and "items_in h (set (tree_ptrs ts)) = M"
  shows "image_mset (\<lambda>p. item (h p)) (mset (tree_ptrs ts)) = image_mset Some M"
proof -
  have "{q \<in> set (tree_ptrs ts). item (h q) \<noteq> None} = set (tree_ptrs ts)" using assms(1) by (auto simp: filled_def)
  then have "M = image_mset (\<lambda>q. the (item (h q))) (mset (tree_ptrs ts))"
    using assms(2,3) by (simp add: items_in_def mset_set_set)
  then have "image_mset Some M = image_mset (\<lambda>q. Some (the (item (h q)))) (mset (tree_ptrs ts))"
    by (simp add: multiset.map_comp comp_def)
  also have "\<dots> = image_mset (\<lambda>p. item (h p)) (mset (tree_ptrs ts))"
    by (rule image_mset_cong) (use assms(1) in \<open>auto simp: filled_def\<close>)
  finally show ?thesis by simp
qed

lemma thread_items_works:
  assumes "glib_ok glib" and "distinct items" and "length items < 2 ^ 31"
    and "flags AND FLAG_SORT \<noteq> 0 \<Longrightarrow> get_date_sent_func f \<noteq> None \<and> get_date_received_func f \<noteq> None"
  shows "\<exists>st ts. thread_items glib f flags items = Some st \<and> threaded st ts items"
proof -
  obtain st1 ids nos where 1: "link_items f empty_store ([], []) 0 items = Some (st1, ids, nos)" "tabled st1 (ids, nos) (rev items @ [])"
    using link_items_tabled [OF empty_tabled, of items 0 f] assms(2,3) by auto
  obtain st2 ts2 where 2: "fold hashloop (no_id_foreach glib nos) (fold hashloop (id_foreach glib ids) st1) = st2"
      "trees_at (nodes st2) (tree st2) ts2" "kin (nodes st2) None ts2" "distinct (tree_ptrs ts2)" "set (tree_ptrs ts2) = {..<next_node st2}"
      "items_in (nodes st2) (set (tree_ptrs ts2)) = mset (rev items @ [])" "freed st2 = []"
    using visit_tables [OF assms(1) 1(2)] by blast
  obtain st3 ts3 where 3: "prune_empty st2 Head = Some st3" "trees_at (nodes st3) (tree st3) ts3" "kin (nodes st3) None ts3"
      "distinct (tree_ptrs ts3)" "settled (nodes st3) True ts3" "items_in (nodes st3) (set (tree_ptrs ts3)) = mset (rev items @ [])"
      "memory_ok st3 (set (tree_ptrs ts3))"
    using prune_forest [OF 2(2-7)] by blast
  obtain st4 ts4 where 4: "(if flags AND FLAG_SUBJECT \<noteq> 0 then group_root_set f st3 else Some st3) = Some st4"
      "forest st4 ts4 (mset (rev items @ []))"
    using group_works [OF 3(2,4,3,5,6,7), of f] settled_forest [OF 3(2-7)] by (cases "flags AND FLAG_SUBJECT \<noteq> 0") auto
  obtain st5 ts5 where 5: "(if flags AND FLAG_SORT \<noteq> 0
            then
              (case (get_date_sent_func f, get_date_received_func f) of
                 (Some sent, Some received) \<Rightarrow> sort_thread (qsort_with_data glib) sent received st4 Head
               | _ \<Rightarrow> None)
            else Some st4) = Some st5" "forest st5 ts5 (mset (rev items @ []))"
  proof (cases "flags AND FLAG_SORT \<noteq> 0")
    case True
    then obtain sent received where "get_date_sent_func f = Some sent" "get_date_received_func f = Some received"
      using assms(4) by auto
    then show ?thesis using sort_works [OF _ 4(2), of "qsort_with_data glib" sent received] assms(1) True that
      by (auto simp: glib_ok_def)
  qed (use 4 that in simp)
  obtain st6 ts6 where 6: "remove_phantoms f (flags AND FLAG_SORT \<noteq> 0) st5 Head = Some st6"
      "cleaned st6 ts6 [] (mset (rev items @ []))"
    using remove_phantoms_works [OF 5(2)] by blast
  have "thread_items glib f flags items = Some st6"
    using 1(1) 2(1) 3(1) 4(1) 5(1) 6(1) by (simp add: thread_items_def)
  moreover have "threaded st6 ts6 items"
    using cleanedD [OF 6(2)] filled_items [OF cleanedD(4) [OF 6(2)]] by (simp add: threaded_def memory_ok_def)
  ultimately show ?thesis by blast
qed

text \<open>C4: threading distinct items ends, without a read through a null pointer. Unless sorting was asked for and a date function
  is missing, when the result is \<^verbatim>\<open>NULL\<close>, it gives trees in which parents and children agree and every item has exactly one
  node: no message is lost or shown twice, no empty node is left, nothing in the trees is freed, and nothing is freed twice. The
  order in which the hash tables are visited and the sorting function are arbitrary.\<close>

theorem threading_keeps_every_message:
  assumes "glib_ok glib" and "distinct items" and "length items < 2 ^ 31"
  shows "if flags AND FLAG_SORT \<noteq> 0 \<and> (get_date_sent_func f = None \<or> get_date_received_func f = None)
    then camel_folder_thread_new_items glib items flags f = Some None
    else \<exists>st ts. camel_folder_thread_new_items glib items flags f = Some (Some st) \<and> threaded st ts items"
  using thread_items_works [OF assms, of flags f] by (auto simp: camel_folder_thread_new_items_def)

fun insert_by :: "('a \<Rightarrow> 'a \<Rightarrow> int) \<Rightarrow> 'a \<Rightarrow> 'a list \<Rightarrow> 'a list" where
  "insert_by cmp x [] = [x]"
| "insert_by cmp x (y # ys) = (if cmp x y \<le> 0 then x # y # ys else y # insert_by cmp x ys)"

lemma mset_insert_by [simp]: "mset (insert_by cmp x ys) = add_mset x (mset ys)"
  by (induction ys) auto

definition list_glib :: "'i glib" where
  "list_glib = \<lparr>id_foreach = map snd, no_id_foreach = map snd, qsort_with_data = (\<lambda>cmp xs. foldr (insert_by cmp) xs [])\<rparr>"

lemma list_glib_ok: "glib_ok list_glib"
proof -
  have "mset (foldr (insert_by cmp) xs []) = mset xs" for cmp :: "nat \<Rightarrow> nat \<Rightarrow> int" and xs
    by (induction xs) auto
  then show ?thesis by (simp add: glib_ok_def list_glib_def permutes_def)
qed

text \<open>Three messages: the second and third name the first, and one that is not there, in their references.\<close>

definition three_messages :: "64 word ItemFunctions" where
  "three_messages = \<lparr>get_subject_func = (\<lambda>i. Some [72, 105]), get_message_id_func = (\<lambda>i. i),
     get_references_func = (\<lambda>i. if i = 1 then [] else [1, 9]), get_date_sent_func = Some uint,
     get_date_received_func = Some uint\<rparr>"

theorem threading_keeps_every_message_witness:
  "\<exists>st ts. camel_folder_thread_new_items list_glib [1, 2, 3] 3 three_messages = Some (Some st) \<and> threaded st ts [1, 2, 3]"
  using threading_keeps_every_message [OF list_glib_ok, of "[1, 2, 3]" 3 three_messages]
  by (simp add: three_messages_def)

section \<open>Root subjects\<close>

definition no_space :: "cstring \<Rightarrow> bool" where
  "no_space s \<longleftrightarrow> dropWhile isspace s = s"

lemma no_space_dropWhile [simp]: "no_space (dropWhile isspace s)"
  by (simp add: no_space_def dropWhile_idem)

lemma skip_ids_fixed: "no_space s \<Longrightarrow> no_space (skip_ids s) \<and> skip_ids (skip_ids s) = skip_ids s"
proof (induction s rule: skip_ids.induct)
  case (1 s)
  show ?case
  proof (cases s)
    case (Cons b t)
    show ?thesis
    proof (cases "dropWhile (\<lambda>x. x \<noteq> 93 \<and> \<not> isspace x) t")
      case (Cons x s')
      show ?thesis
      proof (cases "b = 91 \<and> x = 93")
        case True
        then have "skip_ids s = skip_ids (dropWhile isspace (skip_dash (dropWhile isspace s')))"
          using \<open>s = b # t\<close> Cons by (subst skip_ids.simps) simp
        then show ?thesis using 1(1) [OF \<open>s = b # t\<close> _ Cons] True by simp
      next
        case False
        then have "skip_ids s = s" using \<open>s = b # t\<close> Cons by (subst skip_ids.simps) auto
        then show ?thesis using 1(2) by simp
      qed
    next
      case Nil
      then have "skip_ids s = s" using \<open>s = b # t\<close> by (subst skip_ids.simps) (simp del: dropWhile_eq_Nil_conv)
      then show ?thesis using 1(2) by simp
    qed
  next
    case Nil
    then show ?thesis using 1(2) by (simp add: skip_ids.simps)
  qed
qed

definition bare :: "cstring \<Rightarrow> bool" where
  "bare s \<longleftrightarrow> no_space s \<and> skip_list_ids s = s"

lemma skip_list_ids_bare: "bare (skip_list_ids s)"
  using skip_ids_fixed [of "dropWhile isspace s"] by (simp add: bare_def skip_list_ids_def no_space_def)

text \<open>One round of \<^verbatim>\<open>strip_re\<close>: what follows a prefix, when there is one.\<close>

definition reply_rest :: "cstring \<Rightarrow> cstring option" where
  "reply_rest s =
     (case dropWhile isspace s of
        a # b # p \<Rightarrow>
          if (a = 114 \<or> a = 82) \<and> (b = 101 \<or> b = 69)
          then
            (case dropWhile (\<lambda>x. isdigit x \<or> ispunct x \<and> x \<noteq> 58) p of
               c # q \<Rightarrow> if c = 58 then Some q else None
             | [] \<Rightarrow> None)
          else None
      | _ \<Rightarrow> None)"

lemma strip_re_round:
  "strip_re s r = (case reply_rest s of None \<Rightarrow> (dropWhile isspace s, r) | Some q \<Rightarrow> strip_re (skip_list_ids q) True)"
  by (subst strip_re.simps) (simp add: reply_rest_def Let_def del: dropWhile_eq_Nil_conv split: list.split)

lemma reply_rest_shorter: "reply_rest s = Some q \<Longrightarrow> length (skip_list_ids q) < length s"
  using strip_re_shorter [of s] by (auto simp: reply_rest_def split: list.splits if_splits)

lemma strip_re_flag: "strip_re s r = (fst (strip_re s False), r \<or> snd (strip_re s False))"
proof (induction s arbitrary: r rule: length_induct)
  case (1 s)
  show ?case
  proof (cases "reply_rest s")
    case (Some q)
    then have "strip_re (skip_list_ids q) True = (fst (strip_re (skip_list_ids q) False), True \<or> snd (strip_re (skip_list_ids q) False))"
      using 1 reply_rest_shorter [OF Some] by blast
    then show ?thesis using Some by (simp add: strip_re_round [of s])
  qed (simp add: strip_re_round [of s])
qed

lemma strip_re_normal: "bare s \<Longrightarrow> bare (fst (strip_re s r)) \<and> reply_rest (fst (strip_re s r)) = None"
proof (induction s arbitrary: r rule: length_induct)
  case (1 s)
  show ?case
  proof (cases "reply_rest s")
    case None
    then show ?thesis using 1(2) by (simp add: strip_re_round [of s] bare_def no_space_def)
  next
    case (Some q)
    then show ?thesis using 1(1) reply_rest_shorter [OF Some] skip_list_ids_bare by (simp add: strip_re_round [of s])
  qed
qed

text \<open>C13: the root of a subject is its own root, and not a reply: prefixes are stripped to the end.\<close>

theorem root_subject_normal:
  "root_of_subject (fst (root_of_subject s)) = (fst (root_of_subject s), False)"
proof -
  have "root_of_subject (fst (root_of_subject (Some t))) = (fst (root_of_subject (Some t)), False)" for t
    using strip_re_normal [OF skip_list_ids_bare, of t False] strip_re_round [of "fst (strip_re (skip_list_ids t) False)" False]
    by (cases "fst (strip_re (skip_list_ids t) False) = []") (auto simp: root_of_subject_def split_beta bare_def no_space_def)
  then show ?thesis by (cases s) (simp_all add: root_of_subject_def)
qed

text \<open>C12: a reply, \<^verbatim>\<open>Re:\<close> in any case with digits and punctuation before the colon, has the root of the subject that it
  replies to, and is flagged: with \<^verbatim>\<open>CAMEL_FOLDER_THREAD_FLAG_SUBJECT\<close> it is grouped with the message.\<close>

theorem reply_has_root_of_message:
  assumes "a = 114 \<or> a = 82" and "b = 101 \<or> b = 69" and "\<forall>x\<in>set p. isdigit x \<or> ispunct x \<and> x \<noteq> 58"
  shows "root_of_subject (Some (a # b # p @ 58 # s)) = (fst (root_of_subject (Some s)), True)"
proof -
  define t where "t = a # b # p @ 58 # s"
  have "\<not> isspace a" using assms(1) by (auto simp: isspace_def)
  then have d: "dropWhile isspace t = t" by (simp add: t_def)
  have "skip_list_ids t = t" using assms(1) unfolding skip_list_ids_def d by (subst skip_ids.simps) (auto simp: t_def)
  moreover have "dropWhile (\<lambda>x. isdigit x \<or> ispunct x \<and> x \<noteq> 58) (p @ 58 # s) = 58 # s"
    using assms(3) by (subst dropWhile_append2) (auto simp: isdigit_def)
  then have "reply_rest t = Some s" using assms(1,2) unfolding reply_rest_def d by (simp add: t_def)
  then have "strip_re t False = strip_re (skip_list_ids s) True" by (simp add: strip_re_round [of t])
  ultimately show ?thesis
    using strip_re_flag [of "skip_list_ids s" True] unfolding t_def [symmetric]
    by (simp add: root_of_subject_def split_beta)
qed

theorem reply_has_root_of_message_witness:
  "root_of_subject (Some [82, 69, 91, 50, 93, 58, 32, 72, 105]) = (fst (root_of_subject (Some [32, 72, 105])), True)"
  using reply_has_root_of_message [of 82 69 "[91, 50, 93]" "[32, 72, 105]"] by (simp add: isdigit_def ispunct_def)

section \<open>Picking the oldest moves replies\<close>

text \<open>The items of a list of siblings with those of their children.\<close>

fun item_trees :: "nat \<Rightarrow> 'i thread_store \<Rightarrow> node_ptr option \<Rightarrow> ('i option \<times> 'i option list) list" where
  "item_trees 0 st p = []"
| "item_trees (Suc n) st p =
     (case p of
        None \<Rightarrow> []
      | Some q \<Rightarrow>
          (item (nodes st q), map (\<lambda>c. item (nodes st c)) (the (collect_list st (child (nodes st q))))) #
            item_trees n st (nnext (nodes st q)))"

text \<open>Messages 1 and 2 name an absent message 9, message 3 is a reply to 2. The dates are 1, 2 and 3.\<close>

definition reply_to_second :: "int ItemFunctions" where
  "reply_to_second = \<lparr>get_subject_func = (\<lambda>i. None), get_message_id_func = word_of_int,
     get_references_func = (\<lambda>i. if i = 3 then [2, 9] else [9]), get_date_sent_func = Some (\<lambda>i. i),
     get_date_received_func = Some (\<lambda>i. i)\<rparr>"

text \<open>without sorting, the oldest of the siblings below an empty root is exchanged with the first of them, and the replies of
  the first are not: here message 3, a reply to message 2, is shown as a reply to message 1.\<close>

lemma reply_moves_to_oldest:
  "\<exists>st. camel_folder_thread_new_items list_glib [1, 2, 3] 0 reply_to_second = Some (Some st) \<and>
     item_trees 9 st (tree st) = [(Some 1, [Some 3, Some 2])]"
proof -
  have "map_option (map_option (\<lambda>st. item_trees 9 st (tree st)))
      (camel_folder_thread_new_items list_glib [1, 2, 3] 0 reply_to_second) = Some (Some [(Some 1, [Some 3, Some 2])])"
    by code_simp
  then show ?thesis by auto
qed


end
