(* ===== verification/Cal_IntervalTree.thy ===== *)
theory Cal_IntervalTree
  imports EDS_Prelude
begin

text \<open>
  \<^verbatim>\<open>src/src/calendar/libedata-cal/e-cal-backend-intervaltree.c\<close>: the interval tree in which the file
  backend of the calendar keeps the time spans of its components, a red-black tree with parent
  pointers whose nodes carry the smallest start and the largest end of their subtree.

  This theory is the code on its store: a node is a record, a pointer a number, the store a function
  from pointers to nodes, and \<^verbatim>\<open>g_new\<close> takes the next number. The two sentinels that
  \<^verbatim>\<open>e_intervaltree_init\<close> allocates are the first two numbers. A \<^verbatim>\<open>time_t\<close> is only compared, never
  computed with, so it is an \<open>int\<close>. Loops are partial functions: \<open>None\<close> is a loop that does not end.
  The recursive mutex makes each operation one step; a component's uid is taken to be there, as the
  code's assertions demand.
\<close>

section \<open>Nodes and the store\<close>

text \<open>What the tree asks of an \<^verbatim>\<open>ECalComponent\<close>: uid and recurrence id. \<open>comp_object\<close> tells objects
  with equal ids apart.\<close>

record ECalComponent =
  comp_uid :: cstring
  comp_rid :: "cstring option"
  comp_object :: nat

type_synonym ptr = nat

record EIntervalNode =
  istart :: int
  iend :: int
  imax :: int
  imin :: int
  ired :: bool
  icomp :: ECalComponent
  ileft :: ptr
  iright :: ptr
  iparent :: ptr

type_synonym store = "ptr \<Rightarrow> EIntervalNode"

definition NIL :: ptr where "NIL = 0"
definition ROOT :: ptr where "ROOT = 1"

lemma NIL_ROOT [simp]: "NIL \<noteq> ROOT" "ROOT \<noteq> NIL"
  by (simp_all add: NIL_def ROOT_def)

definition TIME_T_MIN :: int where "TIME_T_MIN = 0"
definition TIME_T_MAX :: int where "TIME_T_MAX = 0x7fffffff"

record EIntervalTree =
  nodes :: store
  id_node_hash :: "cstring \<Rightarrow> ptr option"
  next_node :: ptr

text \<open>The assignments \<^verbatim>\<open>p->field = v\<close>.\<close>

definition set_left :: "store \<Rightarrow> ptr \<Rightarrow> ptr \<Rightarrow> store" where
  "set_left h p v = h(p := (h p)\<lparr>ileft := v\<rparr>)"
definition set_right :: "store \<Rightarrow> ptr \<Rightarrow> ptr \<Rightarrow> store" where
  "set_right h p v = h(p := (h p)\<lparr>iright := v\<rparr>)"
definition set_parent :: "store \<Rightarrow> ptr \<Rightarrow> ptr \<Rightarrow> store" where
  "set_parent h p v = h(p := (h p)\<lparr>iparent := v\<rparr>)"
definition set_red :: "store \<Rightarrow> ptr \<Rightarrow> bool \<Rightarrow> store" where
  "set_red h p v = h(p := (h p)\<lparr>ired := v\<rparr>)"
definition set_max :: "store \<Rightarrow> ptr \<Rightarrow> int \<Rightarrow> store" where
  "set_max h p v = h(p := (h p)\<lparr>imax := v\<rparr>)"
definition set_min :: "store \<Rightarrow> ptr \<Rightarrow> int \<Rightarrow> store" where
  "set_min h p v = h(p := (h p)\<lparr>imin := v\<rparr>)"

section \<open>Comparison and rotation\<close>

abbreviation (input) DIRECTION_GO_LEFT :: nat where "DIRECTION_GO_LEFT \<equiv> 0"
abbreviation (input) DIRECTION_GO_RIGHT :: nat where "DIRECTION_GO_RIGHT \<equiv> 1"

definition get_direction :: "EIntervalNode \<Rightarrow> int \<Rightarrow> int \<Rightarrow> nat" where
  "get_direction x z_start z_end =
     (if istart x = z_start then of_bool (iend x > z_end)
      else if istart x > z_start then DIRECTION_GO_LEFT
      else DIRECTION_GO_RIGHT)"

definition component_key :: "cstring \<Rightarrow> cstring option \<Rightarrow> cstring" where
  "component_key uid rid = (case rid of Some r \<Rightarrow> uid @ [0x5f] @ r | None \<Rightarrow> uid)"

definition compare_intervals :: "int \<Rightarrow> int \<Rightarrow> int \<Rightarrow> int \<Rightarrow> int" where
  "compare_intervals x_start x_end y_start y_end =
     (if x_end < y_start then -1 else if y_end < x_start then 1 else 0)"

text \<open>\<^verbatim>\<open>if (x == q->left) q->left = v; else q->right = v\<close>, at four places of the code.\<close>

definition replace_child :: "store \<Rightarrow> ptr \<Rightarrow> ptr \<Rightarrow> ptr \<Rightarrow> store" where
  "replace_child h q x v = (if x = ileft (h q) then set_left h q v else set_right h q v)"

text \<open>A rotation changes the links, then the minima and maxima of the two nodes.\<close>

definition left_links :: "store \<Rightarrow> ptr \<Rightarrow> ptr \<Rightarrow> store" where
  "left_links h x y =
     (let h = set_right h x (ileft (h y));
          h = (if ileft (h y) \<noteq> NIL then set_parent h (ileft (h y)) x else h);
          h = set_parent h y (iparent (h x));
          h = replace_child h (iparent (h x)) x y;
          h = set_left h y x
      in set_parent h x y)"

definition left_rotate :: "store \<Rightarrow> ptr \<Rightarrow> store" where
  "left_rotate h x =
     (let y = iright (h x);
          h = left_links h x y;
          h = set_max h x (max (imax (h (ileft (h x)))) (max (iend (h x)) (imax (h (iright (h x))))));
          h = set_max h y (max (imax (h x)) (max (iend (h y)) (imax (h (iright (h y))))));
          h = set_min h x (min (imin (h (ileft (h x)))) (istart (h x)))
      in set_min h y (min (imin (h x)) (istart (h y))))"

definition right_links :: "store \<Rightarrow> ptr \<Rightarrow> ptr \<Rightarrow> store" where
  "right_links h y x =
     (let h = set_left h y (iright (h x));
          h = (if NIL \<noteq> iright (h x) then set_parent h (iright (h x)) y else h);
          h = set_parent h x (iparent (h y));
          h = replace_child h (iparent (h y)) y x;
          h = set_right h x y
      in set_parent h y x)"

definition right_rotate :: "store \<Rightarrow> ptr \<Rightarrow> store" where
  "right_rotate h y =
     (let x = ileft (h y);
          h = right_links h y x;
          h = set_max h y (max (imax (h (ileft (h y)))) (max (imax (h (iright (h y)))) (iend (h y))));
          h = set_max h x (max (imax (h (ileft (h x)))) (max (imax (h y)) (iend (h x))));
          h = set_min h y (min (imin (h (ileft (h y)))) (istart (h y)))
      in set_min h x (min (imin (h (ileft (h x)))) (istart (h x))))"

partial_function (option) fixup_min_max_fields :: "store \<Rightarrow> ptr \<Rightarrow> store option" where
  "fixup_min_max_fields h node =
     (if node \<noteq> ROOT then
        (let h = set_max h node
               (max (iend (h node)) (max (imax (h (ileft (h node)))) (imax (h (iright (h node))))));
             h = set_min h node (min (istart (h node)) (imin (h (ileft (h node)))))
         in fixup_min_max_fields h (iparent (h node)))
      else Some h)"

section \<open>Insertion\<close>

text \<open>The descent of \<^verbatim>\<open>binary_tree_insert\<close>: the node under which \<^verbatim>\<open>z\<close> is to go.\<close>

partial_function (option) insert_descend :: "store \<Rightarrow> ptr \<Rightarrow> ptr \<Rightarrow> ptr \<Rightarrow> ptr option" where
  "insert_descend h z x y =
     (if x \<noteq> NIL then
        insert_descend h z
          (if get_direction (h x) (istart (h z)) (iend (h z)) = DIRECTION_GO_LEFT
           then ileft (h x) else iright (h x)) x
      else Some y)"

definition binary_tree_insert :: "store \<Rightarrow> ptr \<Rightarrow> store option" where
  "binary_tree_insert h z =
     (let h = set_right h z NIL;
          h = set_left h z NIL
      in case insert_descend h z (ileft (h ROOT)) ROOT of
           None \<Rightarrow> None
         | Some y \<Rightarrow>
             (let h = set_parent h z y;
                  h = (if y = ROOT \<or> get_direction (h y) (istart (h z)) (iend (h z)) = DIRECTION_GO_LEFT
                       then set_left h y z else set_right h y z);
                  h = set_min h y (min (imin (h (ileft (h y)))) (istart (h y)));
                  h = set_max h y (max (imax (h (ileft (h y)))) (max (iend (h y)) (imax (h (iright (h y))))))
              in Some h))"

text \<open>The recolouring loop of \<^verbatim>\<open>e_intervaltree_insert\<close>: its body, and the loop.\<close>

definition insert_fixup_body :: "store \<Rightarrow> ptr \<Rightarrow> store \<times> ptr" where
  "insert_fixup_body h x =
     (if iparent (h x) = ileft (h (iparent (h (iparent (h x))))) then
        (let y = iright (h (iparent (h (iparent (h x))))) in
         if ired (h y) then
           (let h = set_red h (iparent (h x)) False;
                h = set_red h y False;
                h = set_red h (iparent (h (iparent (h x)))) True
            in (h, iparent (h (iparent (h x)))))
         else
           (let (h, x) = (if x = iright (h (iparent (h x)))
                          then (left_rotate h (iparent (h x)), iparent (h x)) else (h, x));
                h = set_red h (iparent (h x)) False;
                h = set_red h (iparent (h (iparent (h x)))) True
            in (right_rotate h (iparent (h (iparent (h x)))), x)))
      else
        (let y = ileft (h (iparent (h (iparent (h x))))) in
         if ired (h y) then
           (let h = set_red h (iparent (h x)) False;
                h = set_red h y False;
                h = set_red h (iparent (h (iparent (h x)))) True
            in (h, iparent (h (iparent (h x)))))
         else
           (let (h, x) = (if x = ileft (h (iparent (h x)))
                          then (right_rotate h (iparent (h x)), iparent (h x)) else (h, x));
                h = set_red h (iparent (h x)) False;
                h = set_red h (iparent (h (iparent (h x)))) True
            in (left_rotate h (iparent (h (iparent (h x)))), x))))"

partial_function (option) insert_fixup :: "store \<Rightarrow> ptr \<Rightarrow> store option" where
  "insert_fixup h x =
     (if ired (h (iparent (h x)))
      then insert_fixup (fst (insert_fixup_body h x)) (snd (insert_fixup_body h x))
      else Some h)"

section \<open>Removal\<close>

text \<open>The two loops of \<^verbatim>\<open>intervaltree_node_next\<close>.\<close>

partial_function (option) subtree_minimum :: "store \<Rightarrow> ptr \<Rightarrow> ptr option" where
  "subtree_minimum h y = (if ileft (h y) \<noteq> NIL then subtree_minimum h (ileft (h y)) else Some y)"

partial_function (option) climb_right :: "store \<Rightarrow> ptr \<Rightarrow> ptr \<Rightarrow> ptr option" where
  "climb_right h x y = (if x = iright (h y) then climb_right h y (iparent (h y)) else Some y)"

definition intervaltree_node_next :: "store \<Rightarrow> ptr \<Rightarrow> ptr option" where
  "intervaltree_node_next h x =
     (if NIL \<noteq> iright (h x) then subtree_minimum h (iright (h x))
      else map_option (\<lambda>y. if y = ROOT then NIL else y) (climb_right h x (iparent (h x))))"

text \<open>The loop of \<^verbatim>\<open>intervaltree_fixup_deletion\<close>; \<^verbatim>\<open>root\<close> is the root before it, and assigning it
  to \<^verbatim>\<open>x\<close> ends the loop. In each direction a red sibling \<^verbatim>\<open>w\<close> is rotated up first; the second part
  is for a black sibling.\<close>

definition deletion_black_left :: "ptr \<Rightarrow> store \<Rightarrow> ptr \<Rightarrow> ptr \<Rightarrow> store \<times> ptr" where
  "deletion_black_left root h x w =
     (if \<not> ired (h (iright (h w))) \<and> \<not> ired (h (ileft (h w))) then
        (set_red h w True, iparent (h x))
      else
        (let (h, w) = (if \<not> ired (h (iright (h w))) then
               (let h = set_red h (ileft (h w)) False;
                    h = set_red h w True;
                    h = right_rotate h w
                in (h, iright (h (iparent (h x)))))
               else (h, w));
             h = set_red h w (ired (h (iparent (h x))));
             h = set_red h (iparent (h x)) False;
             h = set_red h (iright (h w)) False
         in (left_rotate h (iparent (h x)), root)))"

definition deletion_black_right :: "ptr \<Rightarrow> store \<Rightarrow> ptr \<Rightarrow> ptr \<Rightarrow> store \<times> ptr" where
  "deletion_black_right root h x w =
     (if \<not> ired (h (iright (h w))) \<and> \<not> ired (h (ileft (h w))) then
        (set_red h w True, iparent (h x))
      else
        (let (h, w) = (if \<not> ired (h (ileft (h w))) then
               (let h = set_red h (iright (h w)) False;
                    h = set_red h w True;
                    h = left_rotate h w
                in (h, ileft (h (iparent (h x)))))
               else (h, w));
             h = set_red h w (ired (h (iparent (h x))));
             h = set_red h (iparent (h x)) False;
             h = set_red h (ileft (h w)) False
         in (right_rotate h (iparent (h x)), root)))"

definition fixup_deletion_body :: "ptr \<Rightarrow> store \<Rightarrow> ptr \<Rightarrow> store \<times> ptr" where
  "fixup_deletion_body root h x =
     (if x = ileft (h (iparent (h x))) then
        (let w = iright (h (iparent (h x))) in
         if ired (h w) then
           (let h = set_red h w False;
                h = set_red h (iparent (h x)) True;
                h = left_rotate h (iparent (h x))
            in deletion_black_left root h x (iright (h (iparent (h x)))))
         else deletion_black_left root h x w)
      else
        (let w = ileft (h (iparent (h x))) in
         if ired (h w) then
           (let h = set_red h w False;
                h = set_red h (iparent (h x)) True;
                h = right_rotate h (iparent (h x))
            in deletion_black_right root h x (ileft (h (iparent (h x)))))
         else deletion_black_right root h x w))"

partial_function (option) fixup_deletion_loop :: "ptr \<Rightarrow> store \<Rightarrow> ptr \<Rightarrow> store option" where
  "fixup_deletion_loop root h x =
     (if \<not> ired (h x) \<and> root \<noteq> x
      then fixup_deletion_loop root (fst (fixup_deletion_body root h x)) (snd (fixup_deletion_body root h x))
      else Some (set_red h x False))"

definition intervaltree_fixup_deletion :: "store \<Rightarrow> ptr \<Rightarrow> store option" where
  "intervaltree_fixup_deletion h x = fixup_deletion_loop (ileft (h ROOT)) h x"

definition intervaltree_search_component :: "EIntervalTree \<Rightarrow> cstring \<Rightarrow> cstring option \<Rightarrow> ptr option" where
  "intervaltree_search_component tree uid rid = id_node_hash tree (component_key uid rid)"

text \<open>\<^verbatim>\<open>e_intervaltree_remove\<close> on the store: splice out \<^verbatim>\<open>y\<close>, which is \<^verbatim>\<open>z\<close> or its successor, and put
  it in the place of \<^verbatim>\<open>z\<close>.\<close>

definition splice_out :: "store \<Rightarrow> ptr \<Rightarrow> ptr \<Rightarrow> store" where
  "splice_out h x y =
     (let h = set_parent h x (iparent (h y))
      in if ROOT = iparent (h x) then set_left h ROOT x
         else replace_child h (iparent (h y)) y x)"

definition replace_node :: "store \<Rightarrow> ptr \<Rightarrow> ptr \<Rightarrow> store" where
  "replace_node h y z =
     (let h = set_max h y TIME_T_MIN;
          h = set_min h y TIME_T_MAX;
          h = set_left h y (ileft (h z));
          h = set_right h y (iright (h z));
          h = set_parent h y (iparent (h z));
          h = set_parent h (iright (h z)) y;
          h = set_parent h (ileft (h z)) y
      in replace_child h (iparent (h z)) z y)"

definition remove_node :: "store \<Rightarrow> ptr \<Rightarrow> store option" where
  "remove_node h z =
     (case (if ileft (h z) = NIL \<or> iright (h z) = NIL then Some z else intervaltree_node_next h z) of
        None \<Rightarrow> None
      | Some y \<Rightarrow>
          (let x = (if ileft (h y) = NIL then iright (h y) else ileft (h y));
               h = splice_out h x y
           in if y \<noteq> z then
                (case fixup_min_max_fields (replace_node h y z) (iparent (replace_node h y z x)) of
                   None \<Rightarrow> None
                 | Some h \<Rightarrow>
                     if \<not> ired (h y)
                     then intervaltree_fixup_deletion (set_red h y (ired (h z))) x
                     else Some (set_red h y (ired (h z))))
              else
                (case fixup_min_max_fields h (iparent (h x)) of
                   None \<Rightarrow> None
                 | Some h \<Rightarrow> if \<not> ired (h y) then intervaltree_fixup_deletion h x else Some h)))"

definition e_intervaltree_remove ::
    "EIntervalTree \<Rightarrow> cstring \<Rightarrow> cstring option \<Rightarrow> (EIntervalTree \<times> bool) option" where
  "e_intervaltree_remove tree uid rid =
     (case intervaltree_search_component tree uid rid of
        None \<Rightarrow> Some (tree, False)
      | Some z \<Rightarrow>
          if z = NIL then Some (tree, False)
          else
            (case remove_node (nodes tree) z of
               None \<Rightarrow> None
             | Some h \<Rightarrow>
                 Some (tree\<lparr>nodes := h, id_node_hash := (id_node_hash tree)(component_key uid rid := None)\<rparr>,
                       True)))"

definition e_intervaltree_insert ::
    "EIntervalTree \<Rightarrow> int \<Rightarrow> int \<Rightarrow> ECalComponent \<Rightarrow> (EIntervalTree \<times> bool) option" where
  "e_intervaltree_insert tree start endt component =
     (case e_intervaltree_remove tree (comp_uid component) (comp_rid component) of
        None \<Rightarrow> None
      | Some (tree, removed) \<Rightarrow>
          (let x = next_node tree;
               h = (nodes tree)(x := \<lparr>istart = start, iend = endt, imax = endt, imin = start, ired = False,
                      icomp = component, ileft = NIL, iright = NIL, iparent = NIL\<rparr>)
           in case binary_tree_insert h x of
                None \<Rightarrow> None
              | Some h \<Rightarrow>
                  (case fixup_min_max_fields (set_red h x True) (iparent (h x)) of
                     None \<Rightarrow> None
                   | Some h \<Rightarrow>
                       (case insert_fixup h x of
                          None \<Rightarrow> None
                        | Some h \<Rightarrow>
                            Some (tree\<lparr>nodes := set_red h (ileft (h ROOT)) False,
                                    id_node_hash := (id_node_hash tree)
                                      (component_key (comp_uid component) (comp_rid component) := Some x),
                                    next_node := x + 1\<rparr>, True)))))"

section \<open>Creation, search and destruction\<close>

definition e_intervaltree_new :: EIntervalTree where
  "e_intervaltree_new =
     (let component = \<lparr>comp_uid = [], comp_rid = None, comp_object = 0\<rparr>;
          nil = \<lparr>istart = TIME_T_MIN, iend = TIME_T_MIN, imax = TIME_T_MIN, imin = TIME_T_MAX, ired = False,
                 icomp = component, ileft = NIL, iright = NIL, iparent = NIL\<rparr>;
          root = \<lparr>istart = TIME_T_MAX, iend = 0, imax = TIME_T_MAX, imin = TIME_T_MIN, ired = False,
                 icomp = component, ileft = NIL, iright = NIL, iparent = NIL\<rparr>
      in \<lparr>nodes = (\<lambda>p. nil)(ROOT := root), id_node_hash = (\<lambda>key. None), next_node = 2\<rparr>)"

text \<open>The list \<^verbatim>\<open>pos\<close> walks along grows at its end: a queue. The result lists the components found.\<close>

partial_function (option) search_loop ::
    "store \<Rightarrow> int \<Rightarrow> int \<Rightarrow> ptr list \<Rightarrow> ECalComponent list \<Rightarrow> ECalComponent list option" where
  "search_loop h start endt pos found =
     (case pos of
        [] \<Rightarrow> Some found
      | node # rest \<Rightarrow>
          if node \<noteq> NIL then
            (let found = (if compare_intervals (istart (h node)) (iend (h node)) start endt = 0
                          then found @ [icomp (h node)] else found);
                 l = ileft (h node);
                 r = iright (h node);
                 rest = (if compare_intervals (imin (h l)) (imax (h l)) start endt = 0
                         then rest @ [l] else rest);
                 rest = (if compare_intervals (imin (h r)) (imax (h r)) start endt = 0
                         then rest @ [r] else rest)
             in search_loop h start endt rest found)
          else search_loop h start endt rest found)"

definition e_intervaltree_search :: "EIntervalTree \<Rightarrow> int \<Rightarrow> int \<Rightarrow> ECalComponent list option" where
  "e_intervaltree_search tree start endt =
     search_loop (nodes tree) start endt [ileft (nodes tree ROOT)] []"

text \<open>\<^verbatim>\<open>e_intervaltree_destroy\<close>: the nodes it frees, in order.\<close>

partial_function (option) destroy_loop :: "store \<Rightarrow> ptr list \<Rightarrow> ptr list \<Rightarrow> ptr list option" where
  "destroy_loop h pos freed =
     (case pos of
        [] \<Rightarrow> Some freed
      | node # rest \<Rightarrow>
          if node \<noteq> NIL then destroy_loop h (rest @ [ileft (h node), iright (h node)]) (freed @ [node])
          else destroy_loop h rest freed)"

definition e_intervaltree_destroy :: "EIntervalTree \<Rightarrow> ptr list option" where
  "e_intervaltree_destroy tree = destroy_loop (nodes tree) [ileft (nodes tree ROOT)] []"

declare fixup_min_max_fields.simps [code] insert_descend.simps [code] insert_fixup.simps [code]
declare subtree_minimum.simps [code] climb_right.simps [code] fixup_deletion_loop.simps [code]
declare search_loop.simps [code] destroy_loop.simps [code]

end
