(* ===== verification/Cal_IntervalAbs.thy ===== *)
theory Cal_IntervalAbs
  imports Cal_IntervalTree "HOL-Library.Tree"
begin

text \<open>
  The interval tree as a functional tree, and the loops of the code on a position in it. A position is
  a path from the node to the root, nearest parent first, together with the subtree at the node: the
  parent pointers of the code. Each function here is what one loop of the code does to the whole tree;
  the theory \<open>Cal_IntervalRefine\<close> proves that, and here it is shown that they keep the red-black
  invariant, the order, the entries, and the minimum and maximum in every node.
\<close>

section \<open>Trees and positions\<close>

record inode =
  n_ptr :: ptr
  n_start :: int
  n_end :: int
  n_comp :: ECalComponent
  n_max :: int
  n_min :: int
  n_red :: bool

type_synonym itree = "inode tree"

text \<open>The hole is the left (\<open>FL\<close>) or the right (\<open>FR\<close>) child of the node.\<close>

datatype frame = FL inode itree | FR itree inode

fun fnode :: "frame \<Rightarrow> inode" where
  "fnode (FL n r) = n" | "fnode (FR l n) = n"

fun plug :: "frame list \<Rightarrow> itree \<Rightarrow> itree" where
  "plug [] t = t"
| "plug (FL n r # ps) t = plug ps (Node t n r)"
| "plug (FR l n # ps) t = plug ps (Node l n t)"

fun is_red :: "itree \<Rightarrow> bool" where
  "is_red Leaf = False" | "is_red (Node l n r) = n_red n"

abbreviation rd :: "inode \<Rightarrow> inode" where "rd n \<equiv> n\<lparr>n_red := True\<rparr>"
abbreviation bk :: "inode \<Rightarrow> inode" where "bk n \<equiv> n\<lparr>n_red := False\<rparr>"

fun blacken :: "itree \<Rightarrow> itree" where
  "blacken Leaf = Leaf" | "blacken (Node l n r) = Node l (bk n) r"

fun mx :: "itree \<Rightarrow> int" where
  "mx Leaf = TIME_T_MIN" | "mx (Node l n r) = n_max n"

fun mn :: "itree \<Rightarrow> int" where
  "mn Leaf = TIME_T_MAX" | "mn (Node l n r) = n_min n"

text \<open>The node with minimum and maximum computed from its children.\<close>

definition upd :: "inode \<Rightarrow> itree \<Rightarrow> itree \<Rightarrow> inode" where
  "upd n l r = n\<lparr>n_max := max (mx l) (max (n_end n) (mx r)), n_min := min (mn l) (n_start n)\<rparr>"

fun lrot :: "itree \<Rightarrow> itree" where
  "lrot (Node a x (Node b y c)) =
     (let x' = upd x a b; l = Node a x' b in Node l (upd y l c) c)"
| "lrot t = t"

fun rrot :: "itree \<Rightarrow> itree" where
  "rrot (Node (Node a x b) y c) =
     (let y' = upd y b c; r = Node b y' c in Node a (upd x a r) r)"
| "rrot t = t"

fun fix_path :: "frame list \<Rightarrow> itree \<Rightarrow> frame list" where
  "fix_path [] t = []"
| "fix_path (FL n r # ps) t = (let n' = upd n t r in FL n' r # fix_path ps (Node t n' r))"
| "fix_path (FR l n # ps) t = (let n' = upd n l t in FR l n' # fix_path ps (Node l n' t))"

text \<open>\<open>insert_fixup\<close>, followed by painting the root black.\<close>

fun ins_fix :: "frame list \<Rightarrow> itree \<Rightarrow> itree" where
  "ins_fix (f # g # ps) t =
     (if n_red (fnode f) then
        (case (f, g) of
           (FL p c, FL q u) \<Rightarrow>
             (if is_red u then ins_fix ps (Node (Node t (bk p) c) (rd q) (blacken u))
              else blacken (plug ps (rrot (Node (Node t (bk p) c) (rd q) u))))
         | (FR c p, FL q u) \<Rightarrow>
             (if is_red u then ins_fix ps (Node (Node c (bk p) t) (rd q) (blacken u))
              else blacken (plug ps (rrot (Node (blacken (lrot (Node c p t))) (rd q) u))))
         | (FR c p, FR u q) \<Rightarrow>
             (if is_red u then ins_fix ps (Node (blacken u) (rd q) (Node c (bk p) t))
              else blacken (plug ps (lrot (Node u (rd q) (Node c (bk p) t)))))
         | (FL p c, FR u q) \<Rightarrow>
             (if is_red u then ins_fix ps (Node (blacken u) (rd q) (Node t (bk p) c))
              else blacken (plug ps (lrot (Node u (rd q) (blacken (rrot (Node t p c))))))))
      else blacken (plug (f # g # ps) t))"
| "ins_fix ps t = blacken (plug ps t)"

text \<open>The sibling's cases of \<open>fixup_deletion_loop\<close> with a black sibling: whether the loop ends, and the
  subtree at the parent.\<close>

definition del_left :: "itree \<Rightarrow> inode \<Rightarrow> itree \<Rightarrow> bool \<times> itree" where
  "del_left t n w = (case w of
       Leaf \<Rightarrow> (True, Node t n w)
     | Node wl m wr \<Rightarrow>
         if \<not> is_red wr \<and> \<not> is_red wl then (False, Node t n (Node wl (rd m) wr))
         else
           (case (if \<not> is_red wr then rrot (Node (blacken wl) (rd m) wr) else w) of
              Leaf \<Rightarrow> (True, Node t n w)
            | Node wl m wr \<Rightarrow> (True, lrot (Node t (bk n) (Node wl (m\<lparr>n_red := n_red n\<rparr>) (blacken wr))))))"

definition del_right :: "itree \<Rightarrow> inode \<Rightarrow> itree \<Rightarrow> bool \<times> itree" where
  "del_right w n t = (case w of
       Leaf \<Rightarrow> (True, Node w n t)
     | Node wl m wr \<Rightarrow>
         if \<not> is_red wr \<and> \<not> is_red wl then (False, Node (Node wl (rd m) wr) n t)
         else
           (case (if \<not> is_red wl then lrot (Node wl (rd m) (blacken wr)) else w) of
              Leaf \<Rightarrow> (True, Node w n t)
            | Node wl m wr \<Rightarrow> (True, rrot (Node (Node (blacken wl) (m\<lparr>n_red := n_red n\<rparr>) wr) (bk n) t))))"

text \<open>A red sibling is rotated up first; its parent, now red, ends the loop if the case above does not.\<close>

fun del_red_left :: "itree \<Rightarrow> inode \<Rightarrow> itree \<Rightarrow> itree" where
  "del_red_left t n (Node wl m wr) =
     (case lrot (Node t (rd n) (Node wl (bk m) wr)) of
        Node (Node t n wl) m wr \<Rightarrow>
          (let (done, s) = del_left t n wl in Node (if done then s else blacken s) m wr)
      | s \<Rightarrow> s)"
| "del_red_left t n Leaf = Node t n Leaf"

fun del_red_right :: "itree \<Rightarrow> inode \<Rightarrow> itree \<Rightarrow> itree" where
  "del_red_right (Node wl m wr) n t =
     (case rrot (Node (Node wl (bk m) wr) (rd n) t) of
        Node wl m (Node wr n t) \<Rightarrow>
          (let (done, s) = del_right wr n t in Node wl m (if done then s else blacken s))
      | s \<Rightarrow> s)"
| "del_red_right Leaf n t = Node Leaf n t"

fun del_fix :: "frame list \<Rightarrow> itree \<Rightarrow> itree" where
  "del_fix [] t = blacken t"
| "del_fix (FL n w # ps) t =
     (if is_red t then plug (FL n w # ps) (blacken t)
      else if is_red w then plug ps (del_red_left t n w)
      else (let (done, s) = del_left t n w in if done then plug ps s else del_fix ps s))"
| "del_fix (FR w n # ps) t =
     (if is_red t then plug (FR w n # ps) (blacken t)
      else if is_red w then plug ps (del_red_right w n t)
      else (let (done, s) = del_right w n t in if done then plug ps s else del_fix ps s))"

text \<open>Removing the node at a position: with at most one child it is spliced out; otherwise its
  successor, reached from the right child along left children, takes its place and its colour.\<close>

fun min_path :: "frame list \<Rightarrow> itree \<Rightarrow> frame list \<times> inode \<times> itree" where
  "min_path ps (Node Leaf n r) = (ps, n, r)"
| "min_path ps (Node l n r) = min_path (FL n r # ps) l"
| "min_path ps Leaf = (ps, undefined, Leaf)"

definition splice :: "frame list \<Rightarrow> bool \<Rightarrow> itree \<Rightarrow> itree" where
  "splice ps red t = (if red then plug (fix_path ps t) t else del_fix (fix_path ps t) t)"

definition remove_at :: "frame list \<Rightarrow> itree \<Rightarrow> inode \<Rightarrow> itree \<Rightarrow> itree" where
  "remove_at ps l z r =
     (if l = Leaf then splice ps (n_red z) r
      else if r = Leaf then splice ps (n_red z) l
      else
        (let (qs, y, x) = min_path [] r
         in splice (qs @ FR l (y\<lparr>n_red := n_red z\<rparr>) # ps) (n_red y) x))"

section \<open>Entries\<close>

text \<open>What does not change: pointer, interval and component of the nodes, in order.\<close>

type_synonym entry = "ptr \<times> int \<times> int \<times> ECalComponent"

definition entry :: "inode \<Rightarrow> entry" where
  "entry n = (n_ptr n, n_start n, n_end n, n_comp n)"

definition entries :: "itree \<Rightarrow> entry list" where
  "entries t = map entry (inorder t)"

fun before :: "frame list \<Rightarrow> entry list" where
  "before [] = []"
| "before (FL n r # ps) = before ps"
| "before (FR l n # ps) = before ps @ entries l @ [entry n]"

fun after :: "frame list \<Rightarrow> entry list" where
  "after [] = []"
| "after (FL n r # ps) = entry n # entries r @ after ps"
| "after (FR l n # ps) = after ps"

lemma entries_simps [simp]:
  "entries Leaf = []" "entries (Node l n r) = entries l @ entry n # entries r"
  by (simp_all add: entries_def)

lemma entry_update [simp]:
  "entry (n\<lparr>n_red := b\<rparr>) = entry n" "entry (n\<lparr>n_max := i\<rparr>) = entry n" "entry (n\<lparr>n_min := i\<rparr>) = entry n"
  "entry (upd n l r) = entry n"
  by (simp_all add: entry_def upd_def)

lemma upd_simps [simp]:
  "n_red (upd n l r) = n_red n" "n_ptr (upd n l r) = n_ptr n" "n_start (upd n l r) = n_start n"
  "n_end (upd n l r) = n_end n" "n_comp (upd n l r) = n_comp n"
  "n_max (upd n l r) = max (mx l) (max (n_end n) (mx r))" "n_min (upd n l r) = min (mn l) (n_start n)"
  by (simp_all add: upd_def)

lemma entries_plug: "entries (plug ps t) = before ps @ entries t @ after ps"
  by (induction ps t rule: plug.induct) auto

lemma entries_blacken [simp]: "entries (blacken t) = entries t"
  by (cases t) auto

lemma entries_rot [simp]: "entries (lrot t) = entries t" "entries (rrot t) = entries t"
  by (cases t rule: lrot.cases; simp add: Let_def) (cases t rule: rrot.cases; simp add: Let_def)

lemma entries_ins_fix: "entries (ins_fix ps t) = entries (plug ps t)"
  by (induction ps t rule: ins_fix.induct)
    (auto simp: entries_plug Let_def split: frame.splits)

lemma before_fix_path [simp]: "before (fix_path ps t) = before ps" "after (fix_path ps t) = after ps"
  by (induction ps t rule: fix_path.induct) (auto simp: Let_def)

lemma before_append [simp]:
  "before (qs @ ps) = before ps @ before qs" "after (qs @ ps) = after qs @ after ps"
  by (induction qs rule: before.induct) auto

lemma plug_append: "plug (qs @ ps) t = plug ps (plug qs t)"
  by (induction qs t rule: plug.induct) auto

lemma entries_del_left: "del_left t n w = (b, s) \<Longrightarrow> entries s = entries t @ entry n # entries w"
  by (cases w) (auto simp: del_left_def Let_def split: tree.splits if_splits elim!: is_red.elims)

lemma entries_del_right: "del_right w n t = (b, s) \<Longrightarrow> entries s = entries w @ entry n # entries t"
  by (cases w) (auto simp: del_right_def Let_def split: tree.splits if_splits elim!: is_red.elims)

lemma entries_del_red:
  "entries (del_red_left t n w) = entries (Node t n w)"
  "entries (del_red_right w n t) = entries (Node w n t)"
  by (cases w; auto simp: Let_def entries_del_left split: prod.splits)
    (cases w; auto simp: Let_def entries_del_right split: prod.splits)

lemma entries_del_fix: "entries (del_fix ps t) = entries (plug ps t)"
proof (induction ps arbitrary: t)
  case (Cons f ps)
  show ?case
  proof (cases f)
    case (FL n w)
    obtain b s where s: "del_left t n w = (b, s)" by fastforce
    then show ?thesis
      using Cons.IH entries_del_left [OF s] by (simp add: FL entries_plug entries_del_red)
  next
    case (FR w n)
    obtain b s where s: "del_right w n t = (b, s)" by fastforce
    then show ?thesis
      using Cons.IH entries_del_right [OF s] by (simp add: FR entries_plug entries_del_red)
  qed
qed simp

lemma entries_splice: "entries (splice ps red t) = before ps @ entries t @ after ps"
  by (simp add: splice_def entries_del_fix entries_plug)

text \<open>The path to the leftmost node consists of left children.\<close>

lemma min_path_plug:
  "t \<noteq> Leaf \<Longrightarrow> min_path ps t = (qs, y, x) \<Longrightarrow> plug qs (Node Leaf y x) = plug ps t \<and> before qs = before ps"
  by (induction ps t rule: min_path.induct) auto

lemma entries_remove_at: "entries (remove_at ps l z r) = before ps @ entries l @ entries r @ after ps"
proof (cases "l = Leaf \<or> r = Leaf")
  case True
  then show ?thesis by (auto simp: remove_at_def entries_splice)
next
  case False
  obtain qs y x where m: "min_path [] r = (qs, y, x)" using prod_cases3 by blast
  have "plug qs (Node Leaf y x) = r" "before qs = []"
    using min_path_plug [OF _ m] False by auto
  then have "entries r = entry y # entries x @ after qs"
    by (metis append_Cons append_Nil entries_plug entries_simps)
  then show ?thesis
    using False m \<open>before qs = []\<close> by (simp add: remove_at_def entries_splice)
qed

section \<open>The red-black invariant\<close>

fun bh :: "itree \<Rightarrow> nat" where
  "bh Leaf = 0" | "bh (Node l n r) = (if n_red n then bh l else Suc (bh l))"

fun rb :: "itree \<Rightarrow> bool" where
  "rb Leaf = True"
| "rb (Node l n r) \<longleftrightarrow>
     rb l \<and> rb r \<and> bh l = bh r \<and> (n_red n \<longrightarrow> \<not> is_red l \<and> \<not> is_red r)"

definition rbt :: "itree \<Rightarrow> bool" where "rbt t \<longleftrightarrow> rb t \<and> \<not> is_red t"

text \<open>A path whose hole wants a tree of black height \<open>k\<close>.\<close>

definition black_parent :: "frame list \<Rightarrow> bool" where
  "black_parent ps \<longleftrightarrow> ps \<noteq> [] \<and> \<not> n_red (fnode (hd ps))"

fun rb_path :: "frame list \<Rightarrow> nat \<Rightarrow> bool" where
  "rb_path [] k = True"
| "rb_path (FL n r # ps) k \<longleftrightarrow> rb r \<and> bh r = k \<and> (n_red n \<longrightarrow> \<not> is_red r \<and> black_parent ps) \<and>
     rb_path ps (if n_red n then k else Suc k)"
| "rb_path (FR l n # ps) k \<longleftrightarrow> rb l \<and> bh l = k \<and> (n_red n \<longrightarrow> \<not> is_red l \<and> black_parent ps) \<and>
     rb_path ps (if n_red n then k else Suc k)"

lemma black_parent_simps [simp]:
  "\<not> black_parent []" "black_parent (f # ps) \<longleftrightarrow> \<not> n_red (fnode f)"
  by (auto simp: black_parent_def)

lemma rbt_plug: "rbt (plug ps t) \<longleftrightarrow> rb_path ps (bh t) \<and> rb t \<and> (is_red t \<longrightarrow> black_parent ps)"
  by (induction ps t rule: plug.induct) (auto simp: rbt_def)

lemma rb_blacken [simp]: "rb t \<Longrightarrow> rb (blacken t)" "\<not> is_red (blacken t)"
  by (cases t; simp)+

lemma bh_blacken: "bh (blacken t) = (if is_red t then Suc (bh t) else bh t)"
  by (cases t) auto

lemma blacken_black: "\<not> is_red t \<Longrightarrow> blacken t = t"
  by (cases t) auto

lemma rbt_blacken_plug:
  "rb_path ps (bh t) \<Longrightarrow> rb t \<Longrightarrow> (is_red t \<Longrightarrow> ps = [] \<or> black_parent ps) \<Longrightarrow> rbt (blacken (plug ps t))"
proof (cases "ps = []")
  case True
  then show "rb t \<Longrightarrow> ?thesis" by (simp add: rbt_def)
next
  case False
  assume "rb_path ps (bh t)" "rb t" "is_red t \<Longrightarrow> ps = [] \<or> black_parent ps"
  then have "rbt (plug ps t)" using False by (auto simp: rbt_plug)
  then show ?thesis by (simp add: rbt_def)
qed

lemma rbt_ins_fix: "rb_path ps (bh t) \<Longrightarrow> rb t \<Longrightarrow> is_red t \<Longrightarrow> rbt (ins_fix ps t)"
proof (induction ps t rule: ins_fix.induct)
  case (1 f g ps t)
  then show ?case
    by (cases t; cases f; cases g)
      (auto simp: bh_blacken Let_def intro!: rbt_blacken_plug split: if_splits)
next
  fix f t assume "rb_path [f] (bh t)" and "rb t" and "is_red t"
  then show "rbt (ins_fix [f] t)" by (cases f) (auto simp: rbt_def)
qed (simp add: rbt_def)

text \<open>Deletion: the subtree at the hole is one short.\<close>

lemma rb_del_left:
  assumes "rb t" and "\<not> is_red t" and "rb w" and "\<not> is_red w" and "bh w = Suc (bh t)"
    and "del_left t n w = (done, s)"
  shows "is_red s = n_red n \<and> rb (if done then s else blacken s) \<and>
    bh s + (if done then 0 else 1) = (if n_red n then Suc (bh t) else Suc (Suc (bh t)))"
  using assms
  by (cases w; cases "left w"; cases "right w")
    (auto simp: del_left_def Let_def split: tree.splits if_splits)

lemma rb_del_right:
  assumes "rb t" and "\<not> is_red t" and "rb w" and "\<not> is_red w" and "bh w = Suc (bh t)"
    and "del_right w n t = (done, s)"
  shows "is_red s = n_red n \<and> rb (if done then s else blacken s) \<and>
    bh s + (if done then 0 else 1) = (if n_red n then Suc (bh t) else Suc (Suc (bh t)))"
  using assms
  by (cases w; cases "left w"; cases "right w")
    (auto simp: del_right_def Let_def split: tree.splits if_splits)

lemma rb_del_red_left:
  assumes "rb t" and "\<not> is_red t" and "rb w" and "is_red w" and "bh w = Suc (bh t)"
  shows "rb (del_red_left t n w) \<and> \<not> is_red (del_red_left t n w) \<and> bh (del_red_left t n w) = Suc (Suc (bh t))"
proof -
  obtain wl m wr where w: "w = Node wl m wr" using assms(4) by (cases w) auto
  obtain b s where s: "del_left t (upd (rd n) t wl) wl = (b, s)" by fastforce
  have "rb wl" "\<not> is_red wl" "bh wl = Suc (bh t)" "rb wr" "\<not> is_red wr" "bh wr = Suc (bh t)"
    using assms(3-5) by (auto simp: w)
  then show ?thesis
    using rb_del_left [OF assms(1,2) _ _ _ s] by (auto simp: w s Let_def bh_blacken)
qed

lemma rb_del_red_right:
  assumes "rb t" and "\<not> is_red t" and "rb w" and "is_red w" and "bh w = Suc (bh t)"
  shows "rb (del_red_right w n t) \<and> \<not> is_red (del_red_right w n t) \<and> bh (del_red_right w n t) = Suc (Suc (bh t))"
proof -
  obtain wl m wr where w: "w = Node wl m wr" using assms(4) by (cases w) auto
  obtain b s where s: "del_right wr (upd (rd n) wr t) t = (b, s)" by fastforce
  have "rb wl" "\<not> is_red wl" "bh wl = Suc (bh t)" "rb wr" "\<not> is_red wr" "bh wr = Suc (bh t)"
    using assms(3-5) by (auto simp: w)
  then show ?thesis
    using rb_del_right [OF assms(1,2) _ _ _ s] by (auto simp: w s Let_def bh_blacken)
qed

lemma rbt_del_fix: "rb_path ps (Suc (bh t)) \<Longrightarrow> rb (blacken t) \<Longrightarrow> rbt (del_fix ps t)"
proof (induction ps arbitrary: t)
  case Nil
  then show ?case by (simp add: rbt_def)
next
  case (Cons f ps)
  show ?case
  proof (cases "is_red t")
    case True
    have "rbt (plug (f # ps) (blacken t))" using True Cons.prems by (simp add: rbt_plug bh_blacken)
    then show ?thesis using True by (cases f) auto
  next
    case False
    have t: "rb t" using Cons.prems(2) False by (simp add: blacken_black)
    show ?thesis
    proof (cases f)
      case (FL n w)
      obtain b s where s: "del_left t n w = (b, s)" by fastforce
      show ?thesis
        using Cons.prems(1) Cons.IH [of s] False rb_del_left [OF t False _ _ _ s]
          rb_del_red_left [OF t False, of w n]
        by (cases "n_red n") (auto simp: FL s rbt_plug)
    next
      case (FR w n)
      obtain b s where s: "del_right w n t = (b, s)" by fastforce
      show ?thesis
        using Cons.prems(1) Cons.IH [of s] False rb_del_right [OF t False _ _ _ s]
          rb_del_red_right [OF t False, of w n]
        by (cases "n_red n") (auto simp: FR s rbt_plug)
    qed
  qed
qed

text \<open>Recomputing minima and maxima changes no colour.\<close>

lemma rb_path_fix_path [simp]: "rb_path (fix_path ps t) k = rb_path ps k"
    "black_parent (fix_path ps t) = black_parent ps"
proof (induction ps t arbitrary: k rule: fix_path.induct)
  case 1 { case 1 show ?case by simp next case 2 show ?case by simp }
next
  case (2 n r ps t) { case 1 then show ?case using 2 by (simp add: Let_def) next case 2 then show ?case by (simp add: Let_def) }
next
  case (3 l n ps t) { case 1 then show ?case using 3 by (simp add: Let_def) next case 2 then show ?case by (simp add: Let_def) }
qed

lemma rbt_splice:
  assumes "rb_path ps (if red then bh t else Suc (bh t))" and "rb t"
    and "red \<Longrightarrow> black_parent ps"
  shows "rbt (splice ps red t)"
  using assms by (auto simp: splice_def rbt_plug intro: rbt_del_fix)

lemma min_path_rb:
  assumes "min_path ps t = (qs, y, x)" and "t \<noteq> Leaf" and "rb t" and "rb_path ps (bh t)"
    and "is_red t \<Longrightarrow> black_parent ps"
  shows "rb x \<and> rb_path qs (if n_red y then bh x else Suc (bh x)) \<and> (n_red y \<longrightarrow> \<not> is_red x \<and> black_parent qs)"
  using assms
  by (induction ps t rule: min_path.induct) (auto split: if_splits)

lemma min_path_append: "min_path ps t = (qs, y, x) \<Longrightarrow> min_path (ps @ ps') t = (qs @ ps', y, x)"
  by (induction ps t rule: min_path.induct) auto

lemma rb_path_recolour:
  "n_red n = n_red m \<Longrightarrow> rb_path (qs @ FR l n # ps) k = rb_path (qs @ FR l m # ps) k"
  "n_red n = n_red m \<Longrightarrow> black_parent (qs @ FR l n # ps) = black_parent (qs @ FR l m # ps)"
proof (induction qs arbitrary: k)
  case (Cons f qs) { case 1 with Cons show ?case by (cases f) simp_all next case 2 then show ?case by simp }
qed simp_all

lemma rbt_remove_at:
  assumes "rbt (plug ps (Node l z r))"
  shows "rbt (remove_at ps l z r)"
proof -
  have p: "rb_path ps (if n_red z then bh l else Suc (bh l))" "rb l" "rb r" "bh l = bh r"
    "n_red z \<longrightarrow> \<not> is_red l \<and> \<not> is_red r \<and> black_parent ps"
    using assms by (auto simp: rbt_plug)
  show ?thesis
  proof (cases "l = Leaf \<or> r = Leaf")
    case True
    then show ?thesis using p by (auto simp: remove_at_def intro!: rbt_splice)
  next
    case False
    obtain qs y x where m: "min_path [] r = (qs, y, x)" using prod_cases3 by blast
    from min_path_append [OF this, of "FR l z # ps"]
    have m': "min_path (FR l z # ps) r = (qs @ FR l z # ps, y, x)" by simp
    let ?qs = "qs @ FR l (y\<lparr>n_red := n_red z\<rparr>) # ps"
    have "rb x \<and> rb_path ?qs (if n_red y then bh x else Suc (bh x)) \<and> (n_red y \<longrightarrow> black_parent ?qs)"
      using min_path_rb [OF m'] False p
        rb_path_recolour [of z "y\<lparr>n_red := n_red z\<rparr>" qs l ps] by (auto split: if_splits)
    then have "rbt (splice ?qs (n_red y) x)" by (intro rbt_splice) auto
    then show ?thesis using False m by (simp add: remove_at_def)
  qed
qed

section \<open>Order, minimum and maximum\<close>

definition e_start :: "entry \<Rightarrow> int" where "e_start = (\<lambda>(p, s, e, c). s)"
definition e_end :: "entry \<Rightarrow> int" where "e_end = (\<lambda>(p, s, e, c). e)"

lemma e_simps [simp]: "e_start (entry n) = n_start n" "e_end (entry n) = n_end n"
  by (simp_all add: e_start_def e_end_def entry_def)

definition by_start :: "entry list \<Rightarrow> bool" where "by_start es \<longleftrightarrow> sorted (map e_start es)"

lemma by_start_simps [simp]:
  "by_start []" "by_start (e # es) \<longleftrightarrow> (\<forall>e'\<in>set es. e_start e \<le> e_start e') \<and> by_start es"
  "by_start (es @ es') \<longleftrightarrow> by_start es \<and> by_start es' \<and> (\<forall>e\<in>set es. \<forall>e'\<in>set es'. e_start e \<le> e_start e')"
  by (auto simp: by_start_def sorted_append)

text \<open>The extremes of a list of entries; the start values of the sentinel bound them.\<close>

definition ends_max :: "entry list \<Rightarrow> int" where
  "ends_max es = foldr (\<lambda>e m. max (e_end e) m) es TIME_T_MIN"

definition starts_min :: "entry list \<Rightarrow> int" where
  "starts_min es = foldr (\<lambda>e m. min (e_start e) m) es TIME_T_MAX"

lemma extremes_simps [simp]:
  "ends_max [] = TIME_T_MIN" "ends_max (e # es) = max (e_end e) (ends_max es)"
  "starts_min [] = TIME_T_MAX" "starts_min (e # es) = min (e_start e) (starts_min es)"
  by (simp_all add: ends_max_def starts_min_def)

lemma ends_max_bound: "TIME_T_MIN \<le> ends_max es" "e \<in> set es \<Longrightarrow> e_end e \<le> ends_max es"
  by (induction es) auto

lemma starts_min_bound: "starts_min es \<le> TIME_T_MAX" "e \<in> set es \<Longrightarrow> starts_min es \<le> e_start e"
  by (induction es) auto

lemma ends_max_append [simp]: "ends_max (es @ es') = max (ends_max es) (ends_max es')"
  by (induction es) (auto simp: ends_max_bound max_def)

lemma starts_min_append [simp]: "starts_min (es @ es') = min (starts_min es) (starts_min es')"
  by (induction es) (auto simp: starts_min_bound min.absorb2 min.assoc)

lemma starts_min_upper:
  "(\<And>e. e \<in> set es \<Longrightarrow> i \<le> e_start e) \<Longrightarrow> min i (starts_min es) = min i TIME_T_MAX"
proof (induction es)
  case (Cons e es)
  have "i \<le> e_start e" using Cons.prems by simp
  then have "min i (min (e_start e) (starts_min es)) = min i (starts_min es)" by linarith
  with Cons.IH Cons.prems show ?case by simp
qed simp

text \<open>Every node carries the extremes computed from its children.\<close>

fun aug :: "itree \<Rightarrow> bool" where
  "aug Leaf = True"
| "aug (Node l n r) \<longleftrightarrow> aug l \<and> aug r \<and> n_max n = max (mx l) (max (n_end n) (mx r)) \<and>
     n_min n = min (mn l) (n_start n)"

lemma aug_extremes:
  "aug t \<Longrightarrow> by_start (entries t) \<Longrightarrow> mx t = ends_max (entries t) \<and> mn t = starts_min (entries t)"
proof (induction t)
  case (Node l n r)
  have "min (n_start n) (starts_min (entries r)) = min (n_start n) TIME_T_MAX"
    using Node.prems(2) by (intro starts_min_upper) auto
  moreover have "starts_min (entries l) \<le> TIME_T_MAX" by (rule starts_min_bound)
  ultimately show ?case using Node by (auto simp: min_def)
qed simp

lemma aug_blacken [simp]: "aug t \<Longrightarrow> aug (blacken t)" "mx (blacken t) = mx t" "mn (blacken t) = mn t"
  by (cases t; simp)+

lemma aug_rot: "aug a \<Longrightarrow> aug b \<Longrightarrow> aug c \<Longrightarrow> aug (lrot (Node a x (Node b y c)))"
  "aug a \<Longrightarrow> aug b \<Longrightarrow> aug c \<Longrightarrow> aug (rrot (Node (Node a x b) y c))"
  by (simp_all add: Let_def)

text \<open>A subtree can be replaced by another one with the same entries.\<close>

fun aug_siblings :: "frame list \<Rightarrow> bool" where
  "aug_siblings [] = True"
| "aug_siblings (FL n r # ps) \<longleftrightarrow> aug r \<and> aug_siblings ps"
| "aug_siblings (FR l n # ps) \<longleftrightarrow> aug l \<and> aug_siblings ps"

lemma aug_plugD: "aug (plug ps t) \<Longrightarrow> aug t \<and> aug_siblings ps"
  by (induction ps t rule: plug.induct) auto

lemma aug_plug_extremes:
  "aug (plug ps t) \<Longrightarrow> aug t' \<Longrightarrow> mx t' = mx t \<Longrightarrow> mn t' = mn t \<Longrightarrow> aug (plug ps t')"
proof (induction ps arbitrary: t t')
  case (Cons f ps)
  show ?case
  proof (cases f)
    case (FL n r)
    have "aug (Node t n r)" using Cons.prems(1) aug_plugD by (fastforce simp: FL)
    then show ?thesis using Cons.prems by (auto simp: FL intro!: Cons.IH [of "Node t n r"])
  next
    case (FR l n)
    have "aug (Node l n t)" using Cons.prems(1) aug_plugD by (fastforce simp: FR)
    then show ?thesis using Cons.prems by (auto simp: FR intro!: Cons.IH [of "Node l n t"])
  qed
qed simp

lemma aug_plug_replace:
  assumes "aug (plug ps t)" and "by_start (entries (plug ps t))" and "aug t'" and "entries t' = entries t"
  shows "aug (plug ps t')"
proof -
  have "by_start (entries t)" using assms(2) by (simp add: entries_plug)
  moreover have "aug t" using assms(1) aug_plugD by blast
  ultimately have "mx t' = mx t" "mn t' = mn t"
    using aug_extremes [of t] aug_extremes [of t'] assms(3,4) by auto
  then show ?thesis using aug_plug_extremes assms(1,3) by blast
qed

lemma aug_fix_path: "aug t \<Longrightarrow> aug_siblings ps \<Longrightarrow> aug (plug (fix_path ps t) t)"
  by (induction ps t rule: fix_path.induct) (auto simp: Let_def)

lemma aug_ins_fix:
  "aug (plug ps t) \<Longrightarrow> by_start (entries (plug ps t)) \<Longrightarrow> aug (ins_fix ps t)"
proof (induction ps t rule: ins_fix.induct)
  case (1 f g ps t)
  define s where "s = plug [f, g] t"
  have plug: "plug (f # g # ps) t = plug ps s" by (cases f; cases g) (simp_all add: s_def)
  have aug: "aug (plug ps s)" and ord: "by_start (entries (plug ps s))" using 1(5,6) plug by simp_all
  then have s: "aug s" using aug_plugD by blast
  have rep: "aug (plug ps t')" and ord': "by_start (entries (plug ps t'))"
    if "aug t'" "entries t' = entries s" for t'
    using aug_plug_replace [OF aug ord that] ord that(2) by (simp_all add: entries_plug)
  have black: ?case if "\<not> n_red (fnode f)" using that aug plug by simp
  show ?case
  proof (cases "n_red (fnode f)")
    case True
    show ?thesis
    proof (cases f; cases g)
      fix p c q u assume [simp]: "f = FL p c" "g = FL q u"
      show ?thesis
        using True s 1(1-4) rep ord' by (cases t) (auto simp: s_def Let_def)
    next
      fix p c q u assume [simp]: "f = FR c p" "g = FL q u"
      show ?thesis
        using True s 1(1-4) rep ord' by (cases t) (auto simp: s_def Let_def)
    next
      fix p c q u assume [simp]: "f = FL p c" "g = FR u q"
      show ?thesis
        using True s 1(1-4) rep ord' by (cases t) (auto simp: s_def Let_def)
    next
      fix p c q u assume [simp]: "f = FR c p" "g = FR u q"
      show ?thesis
        using True s 1(1-4) rep ord' by (cases t) (auto simp: s_def Let_def)
    qed
  qed (rule black)
qed simp_all

lemma aug_del_left:
  assumes "del_left t n w = (b, s)" and aug: "aug (Node t n w)"
  shows "aug s"
proof (cases w)
  case (Node wl m wr)
  have a: "aug t" "aug wl" "aug wr" using aug Node by auto
  consider (up) "is_red wr" | (same) "\<not> is_red wr" "\<not> is_red wl"
    | (inner) a k c where "\<not> is_red wr" "n_red k" "wl = Node a k c"
    by (cases wl) auto
  then show ?thesis
  proof cases
    case up
    then have "s = lrot (Node t (bk n) (Node wl (m\<lparr>n_red := n_red n\<rparr>) (blacken wr)))"
      using assms(1) Node by (auto simp: del_left_def)
    then show ?thesis using a aug_rot by simp
  next
    case same
    then have "s = Node t n (Node wl (rd m) wr)" using assms(1) Node by (simp add: del_left_def)
    then show ?thesis using aug Node by simp
  next
    case inner
    have "aug a" "aug c" using inner a by auto
    then show ?thesis using assms(1) inner a(1) a(3) by (auto simp: Node del_left_def Let_def)
  qed
qed (use assms in \<open>auto simp: del_left_def\<close>)

lemma aug_del_right:
  assumes "del_right w n t = (b, s)" and aug: "aug (Node w n t)"
  shows "aug s"
proof (cases w)
  case (Node wl m wr)
  have a: "aug t" "aug wl" "aug wr" using aug Node by auto
  consider (up) "is_red wl" | (same) "\<not> is_red wl" "\<not> is_red wr"
    | (inner) a k c where "\<not> is_red wl" "n_red k" "wr = Node a k c"
    by (cases wr) auto
  then show ?thesis
  proof cases
    case up
    then have "s = rrot (Node (Node (blacken wl) (m\<lparr>n_red := n_red n\<rparr>) wr) (bk n) t)"
      using assms(1) Node by (auto simp: del_right_def)
    then show ?thesis using a aug_rot by simp
  next
    case same
    then have "s = Node (Node wl (rd m) wr) n t" using assms(1) Node by (simp add: del_right_def)
    then show ?thesis using aug Node by simp
  next
    case inner
    have "aug a" "aug c" using inner a by auto
    then show ?thesis using assms(1) inner a(1) a(2) by (auto simp: Node del_right_def Let_def)
  qed
qed (use assms in \<open>auto simp: del_right_def\<close>)

text \<open>In the red case the sibling's case is applied below the rotated node, which keeps its values
  because the subtree keeps its entries.\<close>

lemma aug_same_entries:
  assumes "aug s" and "aug t" and "entries s = entries t" and "by_start (entries t)"
  shows "mx s = mx t" and "mn s = mn t"
  using assms aug_extremes [of s] aug_extremes [of t] by auto

lemma aug_del_red:
  "aug (Node t n w) \<Longrightarrow> by_start (entries (Node t n w)) \<Longrightarrow> aug (del_red_left t n w)"
  "aug (Node w n t) \<Longrightarrow> by_start (entries (Node w n t)) \<Longrightarrow> aug (del_red_right w n t)"
proof -
  assume "aug (Node t n w)" and ord: "by_start (entries (Node t n w))"
  then show "aug (del_red_left t n w)"
  proof (cases w)
    case (Node wl m wr)
    let ?n = "upd (rd n) t wl"
    obtain b s where s: "del_left t ?n wl = (b, s)" by fastforce
    have 1: "aug (Node t ?n wl)" using \<open>aug (Node t n w)\<close> Node by simp
    have 2: "by_start (entries (Node t ?n wl))" using ord Node by simp
    have 3: "aug s" using aug_del_left [OF s 1] .
    have "mx s = mx (Node t ?n wl)" "mn s = mn (Node t ?n wl)"
      using aug_same_entries [OF 3 1 _ 2] entries_del_left [OF s] by simp_all
    then show ?thesis using 1 3 \<open>aug (Node t n w)\<close> Node s by (simp add: Let_def)
  qed simp
next
  assume "aug (Node w n t)" and ord: "by_start (entries (Node w n t))"
  then show "aug (del_red_right w n t)"
  proof (cases w)
    case (Node wl m wr)
    let ?n = "upd (rd n) wr t"
    obtain b s where s: "del_right wr ?n t = (b, s)" by fastforce
    have 1: "aug (Node wr ?n t)" using \<open>aug (Node w n t)\<close> Node by simp
    have 2: "by_start (entries (Node wr ?n t))" using ord Node by simp
    have 3: "aug s" using aug_del_right [OF s 1] .
    have "mx s = mx (Node wr ?n t)" "mn s = mn (Node wr ?n t)"
      using aug_same_entries [OF 3 1 _ 2] entries_del_right [OF s] by simp_all
    then show ?thesis using 1 3 \<open>aug (Node w n t)\<close> Node s by (simp add: Let_def)
  qed simp
qed

lemma aug_del_fix:
  "aug (plug ps t) \<Longrightarrow> by_start (entries (plug ps t)) \<Longrightarrow> aug (del_fix ps t)"
proof (induction ps arbitrary: t)
  case (Cons f ps)
  define u where "u = plug [f] t"
  have plug: "plug (f # ps) t = plug ps u" by (cases f) (simp_all add: u_def)
  have aug: "aug (plug ps u)" and ord: "by_start (entries (plug ps u))" using Cons.prems plug by simp_all
  then have u: "aug u" "by_start (entries u)" using aug_plugD by (auto simp: entries_plug)
  have rep: "aug (plug ps t')" and ord': "by_start (entries (plug ps t'))"
    if "aug t'" "entries t' = entries u" for t'
    using aug_plug_replace [OF aug ord that] ord that(2) by (simp_all add: entries_plug)
  show ?case
  proof (cases f)
    case (FL n w)
    obtain b s where s: "del_left t n w = (b, s)" by fastforce
    have "aug s" "entries s = entries u"
      using aug_del_left [OF s] entries_del_left [OF s] u by (simp_all add: u_def FL)
    then show ?thesis
      using u rep ord' Cons.IH aug_del_red(1) [of t n w] entries_del_red(1) [of t n w]
      by (auto simp: FL s u_def)
  next
    case (FR w n)
    obtain b s where s: "del_right w n t = (b, s)" by fastforce
    have "aug s" "entries s = entries u"
      using aug_del_right [OF s] entries_del_right [OF s] u by (simp_all add: u_def FR)
    then show ?thesis
      using u rep ord' Cons.IH aug_del_red(2) [of w n t] entries_del_red(2) [of w n t]
      by (auto simp: FR s u_def)
  qed
qed simp

lemma aug_splice:
  assumes "aug t" and "aug_siblings ps" and "by_start (before ps @ entries t @ after ps)"
  shows "aug (splice ps red t)"
  using aug_fix_path [OF assms(1,2)] assms(3) by (simp add: splice_def aug_del_fix entries_plug)

lemma aug_siblings_append [simp]: "aug_siblings (qs @ ps) \<longleftrightarrow> aug_siblings qs \<and> aug_siblings ps"
  by (induction qs rule: aug_siblings.induct) auto

lemma min_path_aug:
  "min_path ps t = (qs, y, x) \<Longrightarrow> aug t \<Longrightarrow> aug_siblings ps \<Longrightarrow> aug x \<and> aug_siblings qs"
  by (induction ps t rule: min_path.induct) auto

lemma aug_remove_at:
  assumes "aug (plug ps (Node l z r))" and ord: "by_start (entries (plug ps (Node l z r)))"
  shows "aug (remove_at ps l z r)"
proof (cases "l = Leaf \<or> r = Leaf")
  case True
  then show ?thesis
    using aug_plugD [OF assms(1)] ord by (auto simp: remove_at_def entries_plug intro!: aug_splice)
next
  case False
  obtain qs y x where m: "min_path [] r = (qs, y, x)" using prod_cases3 by blast
  let ?qs = "qs @ FR l (y\<lparr>n_red := n_red z\<rparr>) # ps"
  have x: "aug x" "aug_siblings ?qs"
    using min_path_aug [OF m] aug_plugD [OF assms(1)] by auto
  have "before ?qs @ entries x @ after ?qs = before ps @ entries l @ entries r @ after ps"
    using entries_remove_at [of ps l z r] False m by (simp add: remove_at_def entries_splice)
  moreover have "by_start (before ps @ entries l @ entries r @ after ps)"
    using ord by (auto simp: entries_plug)
  ultimately have "by_start (before ?qs @ entries x @ after ?qs)" by (simp only:)
  then show ?thesis using False m aug_splice [OF x] by (simp add: remove_at_def)
qed

section \<open>Insertion at a leaf\<close>

fun descend :: "frame list \<Rightarrow> itree \<Rightarrow> int \<Rightarrow> int \<Rightarrow> frame list" where
  "descend ps Leaf s e = ps"
| "descend ps (Node l n r) s e =
     (if n_start n = s \<and> n_end n \<le> e \<or> n_start n > s then descend (FL n r # ps) l s e
      else descend (FR l n # ps) r s e)"

definition insert_tree :: "inode \<Rightarrow> itree \<Rightarrow> itree" where
  "insert_tree z t =
     (let ps = descend [] t (n_start z) (n_end z)
      in ins_fix (fix_path ps (Node Leaf z Leaf)) (Node Leaf z Leaf))"

lemma descend_plug: "plug (descend ps t s e) Leaf = plug ps t"
  by (induction ps t s e rule: descend.induct) auto

lemma descend_rb:
  "rb t \<Longrightarrow> rb_path ps (bh t) \<Longrightarrow> (is_red t \<Longrightarrow> black_parent ps) \<Longrightarrow> rb_path (descend ps t s e) 0"
  by (induction ps t s e rule: descend.induct) (auto split: if_splits)

lemma descend_siblings: "aug t \<Longrightarrow> aug_siblings ps \<Longrightarrow> aug_siblings (descend ps t s e)"
  by (induction ps t s e rule: descend.induct) auto

lemma descend_order:
  "by_start (entries (plug ps t)) \<Longrightarrow> \<forall>x\<in>set (before ps). e_start x \<le> s \<Longrightarrow>
   \<forall>x\<in>set (after ps). s \<le> e_start x \<Longrightarrow>
   (\<forall>x\<in>set (before (descend ps t s e)). e_start x \<le> s) \<and> (\<forall>x\<in>set (after (descend ps t s e)). s \<le> e_start x)"
proof (induction ps t s e rule: descend.induct)
  case (2 ps l n r s e)
  have ord: "\<forall>x\<in>set (entries l). e_start x \<le> n_start n" "\<forall>x\<in>set (entries r). n_start n \<le> e_start x"
    using 2(3) by (auto simp: entries_plug)
  show ?case
  proof (cases "n_start n = s \<and> n_end n \<le> e \<or> n_start n > s")
    case True
    then have "s \<le> n_start n" by auto
    then have aft: "\<forall>x\<in>set (after (FL n r # ps)). s \<le> e_start x" using ord(2) 2(5) by auto
    have plg: "by_start (entries (plug (FL n r # ps) l))" using 2(3) by (simp only: plug.simps)
    have bef: "\<forall>x\<in>set (before (FL n r # ps)). e_start x \<le> s" using 2(4) by (simp only: before.simps)
    show ?thesis using 2(1) [OF True plg bef aft] by (simp only: descend.simps if_P [OF True])
  next
    case False
    then have "n_start n \<le> s" by auto
    then have bef: "\<forall>x\<in>set (before (FR l n # ps)). e_start x \<le> s" using ord(1) 2(4) by auto
    have plg: "by_start (entries (plug (FR l n # ps) r))" using 2(3) by (simp only: plug.simps)
    have aft: "\<forall>x\<in>set (after (FR l n # ps)). s \<le> e_start x" using 2(5) by (simp only: after.simps)
    show ?thesis using 2(2) [OF False plg bef aft] by (simp only: descend.simps if_not_P [OF False])
  qed
qed simp

lemma entries_insert_tree:
  "\<exists>as bs. entries t = as @ bs \<and> entries (insert_tree z t) = as @ entry z # bs \<and>
     (by_start (entries t) \<longrightarrow> by_start (entries (insert_tree z t)))"
proof -
  let ?ps = "descend [] t (n_start z) (n_end z)"
  have 1: "entries t = before ?ps @ after ?ps"
    using descend_plug [of "[]" t "n_start z" "n_end z"] entries_plug [of ?ps Leaf] by simp
  have 2: "entries (insert_tree z t) = before ?ps @ entry z # after ?ps"
    by (simp add: insert_tree_def Let_def entries_ins_fix entries_plug)
  have "by_start (entries (insert_tree z t))" if "by_start (entries t)"
    using descend_order [of "[]" t "n_start z" "n_end z"] that 1 2 by auto
  with 1 2 show ?thesis by blast
qed

lemma rbt_insert_tree: "rbt t \<Longrightarrow> n_red z \<Longrightarrow> rbt (insert_tree z t)"
proof -
  assume "rbt t" "n_red z"
  then have "rb_path (descend [] t (n_start z) (n_end z)) 0" by (intro descend_rb) (auto simp: rbt_def)
  then show ?thesis using \<open>n_red z\<close> by (auto simp: insert_tree_def Let_def intro!: rbt_ins_fix)
qed

lemma aug_insert_tree:
  assumes "aug t" and "by_start (entries t)" and "aug (Node Leaf z Leaf)"
  shows "aug (insert_tree z t)"
proof -
  let ?ps = "descend [] t (n_start z) (n_end z)" and ?z = "Node Leaf z Leaf"
  have "by_start (entries (insert_tree z t))" using entries_insert_tree [of t z] assms(2) by blast
  moreover have "aug (plug (fix_path ?ps ?z) ?z)"
    using assms(1,3) by (intro aug_fix_path descend_siblings) auto
  ultimately show ?thesis
    by (auto simp: insert_tree_def Let_def entries_ins_fix intro!: aug_ins_fix)
qed

section \<open>Height\<close>

lemma rb_height: "rb t \<Longrightarrow> height t \<le> 2 * bh t + (if is_red t then 1 else 0)"
  by (induction t) (auto split: if_splits)

lemma rb_size: "rb t \<Longrightarrow> 2 ^ bh t \<le> size1 t"
  by (induction t) auto

lemma rbt_height:
  assumes "rbt t"
  shows "2 ^ (height t div 2) \<le> size t + 1"
proof -
  have "height t div 2 \<le> bh t" using rb_height [of t] assms by (simp add: rbt_def)
  then have "(2::nat) ^ (height t div 2) \<le> 2 ^ bh t" by (simp add: power_increasing)
  also have "\<dots> \<le> size1 t" using assms rb_size by (simp add: rbt_def)
  finally show ?thesis by (simp add: size1_size)
qed

end
