(* ===== verification/Cal_IntervalRefine.thy ===== *)
theory Cal_IntervalRefine
  imports Cal_IntervalAbs
begin

text \<open>
  The pointer code of \<open>Cal_IntervalTree\<close> implements the functions of \<open>Cal_IntervalAbs\<close>:
  \<open>zrep h ps t\<close> says that the store holds the tree whose position is \<open>ps\<close>, \<open>t\<close>, with all links and
  parent pointers in place. One lemma per routine of the code follows.
\<close>

section \<open>Reading after writing\<close>

lemmas store_defs = set_left_def set_right_def set_parent_def set_red_def set_max_def set_min_def

lemma read_set [simp]:
  "ileft (set_left h p v a) = (if a = p then v else ileft (h a))"
  "ileft (set_right h p v a) = ileft (h a)" "ileft (set_parent h p v a) = ileft (h a)"
  "ileft (set_red h p b a) = ileft (h a)" "ileft (set_max h p i a) = ileft (h a)"
  "ileft (set_min h p i a) = ileft (h a)"
  "iright (set_right h p v a) = (if a = p then v else iright (h a))"
  "iright (set_left h p v a) = iright (h a)" "iright (set_parent h p v a) = iright (h a)"
  "iright (set_red h p b a) = iright (h a)" "iright (set_max h p i a) = iright (h a)"
  "iright (set_min h p i a) = iright (h a)"
  "iparent (set_parent h p v a) = (if a = p then v else iparent (h a))"
  "iparent (set_left h p v a) = iparent (h a)" "iparent (set_right h p v a) = iparent (h a)"
  "iparent (set_red h p b a) = iparent (h a)" "iparent (set_max h p i a) = iparent (h a)"
  "iparent (set_min h p i a) = iparent (h a)"
  "ired (set_red h p b a) = (if a = p then b else ired (h a))"
  "ired (set_left h p v a) = ired (h a)" "ired (set_right h p v a) = ired (h a)"
  "ired (set_parent h p v a) = ired (h a)" "ired (set_max h p i a) = ired (h a)"
  "ired (set_min h p i a) = ired (h a)"
  "imax (set_max h p i a) = (if a = p then i else imax (h a))"
  "imax (set_left h p v a) = imax (h a)" "imax (set_right h p v a) = imax (h a)"
  "imax (set_parent h p v a) = imax (h a)" "imax (set_red h p b a) = imax (h a)"
  "imax (set_min h p i a) = imax (h a)"
  "imin (set_min h p i a) = (if a = p then i else imin (h a))"
  "imin (set_left h p v a) = imin (h a)" "imin (set_right h p v a) = imin (h a)"
  "imin (set_parent h p v a) = imin (h a)" "imin (set_red h p b a) = imin (h a)"
  "imin (set_max h p i a) = imin (h a)"
  by (simp_all add: store_defs)

lemma read_set_data [simp]:
  "istart (set_left h p v a) = istart (h a)" "istart (set_right h p v a) = istart (h a)"
  "istart (set_parent h p v a) = istart (h a)" "istart (set_red h p b a) = istart (h a)"
  "istart (set_max h p i a) = istart (h a)" "istart (set_min h p i a) = istart (h a)"
  "iend (set_left h p v a) = iend (h a)" "iend (set_right h p v a) = iend (h a)"
  "iend (set_parent h p v a) = iend (h a)" "iend (set_red h p b a) = iend (h a)"
  "iend (set_max h p i a) = iend (h a)" "iend (set_min h p i a) = iend (h a)"
  "icomp (set_left h p v a) = icomp (h a)" "icomp (set_right h p v a) = icomp (h a)"
  "icomp (set_parent h p v a) = icomp (h a)" "icomp (set_red h p b a) = icomp (h a)"
  "icomp (set_max h p i a) = icomp (h a)" "icomp (set_min h p i a) = icomp (h a)"
  by (simp_all add: store_defs)

lemma set_other:
  "a \<noteq> p \<Longrightarrow> set_left h p v a = h a" "a \<noteq> p \<Longrightarrow> set_right h p v a = h a"
  "a \<noteq> p \<Longrightarrow> set_parent h p v a = h a" "a \<noteq> p \<Longrightarrow> set_red h p b a = h a"
  "a \<noteq> p \<Longrightarrow> set_max h p i a = h a" "a \<noteq> p \<Longrightarrow> set_min h p i a = h a"
  by (simp_all add: store_defs)

section \<open>The representation\<close>

fun tptr :: "itree \<Rightarrow> ptr" where
  "tptr Leaf = NIL" | "tptr (Node l n r) = n_ptr n"

fun pptr :: "frame list \<Rightarrow> ptr" where
  "pptr [] = ROOT" | "pptr (f # ps) = n_ptr (fnode f)"

fun ptrs :: "itree \<Rightarrow> ptr list" where
  "ptrs Leaf = []" | "ptrs (Node l n r) = n_ptr n # ptrs l @ ptrs r"

fun path_ptrs :: "frame list \<Rightarrow> ptr list" where
  "path_ptrs [] = []"
| "path_ptrs (FL n r # ps) = n_ptr n # ptrs r @ path_ptrs ps"
| "path_ptrs (FR l n # ps) = n_ptr n # ptrs l @ path_ptrs ps"

definition holds :: "store \<Rightarrow> inode \<Rightarrow> bool" where
  "holds h n \<longleftrightarrow> istart (h (n_ptr n)) = n_start n \<and> iend (h (n_ptr n)) = n_end n \<and>
     icomp (h (n_ptr n)) = n_comp n \<and> imax (h (n_ptr n)) = n_max n \<and> imin (h (n_ptr n)) = n_min n \<and>
     ired (h (n_ptr n)) = n_red n"

fun rep :: "store \<Rightarrow> ptr \<Rightarrow> itree \<Rightarrow> bool" where
  "rep h q Leaf = True"
| "rep h q (Node l n r) \<longleftrightarrow> holds h n \<and> ileft (h (n_ptr n)) = tptr l \<and> iright (h (n_ptr n)) = tptr r \<and>
     iparent (h (n_ptr n)) = q \<and> rep h (n_ptr n) l \<and> rep h (n_ptr n) r"

fun prep :: "store \<Rightarrow> frame list \<Rightarrow> ptr \<Rightarrow> bool" where
  "prep h [] c \<longleftrightarrow> ileft (h ROOT) = c"
| "prep h (FL n r # ps) c \<longleftrightarrow> holds h n \<and> ileft (h (n_ptr n)) = c \<and> iright (h (n_ptr n)) = tptr r \<and>
     iparent (h (n_ptr n)) = pptr ps \<and> rep h (n_ptr n) r \<and> prep h ps (n_ptr n)"
| "prep h (FR l n # ps) c \<longleftrightarrow> holds h n \<and> ileft (h (n_ptr n)) = tptr l \<and> iright (h (n_ptr n)) = c \<and>
     iparent (h (n_ptr n)) = pptr ps \<and> rep h (n_ptr n) l \<and> prep h ps (n_ptr n)"

definition sentinels :: "store \<Rightarrow> bool" where
  "sentinels h \<longleftrightarrow> imax (h NIL) = TIME_T_MIN \<and> imin (h NIL) = TIME_T_MAX \<and> \<not> ired (h NIL) \<and>
     ileft (h NIL) = NIL \<and> iright (h NIL) = NIL \<and> \<not> ired (h ROOT) \<and> iright (h ROOT) = NIL"

definition apart :: "ptr list \<Rightarrow> bool" where
  "apart as \<longleftrightarrow> distinct as \<and> NIL \<notin> set as \<and> ROOT \<notin> set as"

definition zrep :: "store \<Rightarrow> frame list \<Rightarrow> itree \<Rightarrow> bool" where
  "zrep h ps t \<longleftrightarrow> prep h ps (tptr t) \<and> rep h (pptr ps) t \<and> sentinels h \<and> apart (path_ptrs ps @ ptrs t)"

lemma zrep_FL: "zrep h (FL n r # ps) t = zrep h ps (Node t n r)"
  by (auto simp: zrep_def apart_def)

lemma zrep_FR: "zrep h (FR l n # ps) t = zrep h ps (Node l n t)"
  by (auto simp: zrep_def apart_def)

lemma zrep_plug: "zrep h ps t = zrep h [] (plug ps t)"
  by (induction ps t rule: plug.induct) (simp_all add: zrep_FL zrep_FR)

lemma tptr_neq [simp]: "p \<notin> set (ptrs t) \<Longrightarrow> p \<noteq> NIL \<Longrightarrow> tptr t \<noteq> p"
  by (cases t) auto

lemma tptr_NIL: "NIL \<notin> set (ptrs t) \<Longrightarrow> tptr t = NIL \<longleftrightarrow> t = Leaf"
  by (cases t) auto

lemma tptr_mem [simp]: "tptr t \<in> set (ptrs t) \<longleftrightarrow> t \<noteq> Leaf"
  by (cases t) auto

lemma pptr_neq [simp]: "p \<notin> set (path_ptrs ps) \<Longrightarrow> p \<noteq> ROOT \<Longrightarrow> pptr ps \<noteq> p"
  by (cases ps rule: path_ptrs.cases) auto

lemma tptr_in: "tptr t = NIL \<or> tptr t \<in> set (ptrs t)"
  by (cases t) auto

lemma pptr_in: "pptr ps = ROOT \<or> pptr ps \<in> set (path_ptrs ps)"
  by (cases ps rule: path_ptrs.cases) auto

text \<open>Writing elsewhere.\<close>

lemma holds_set [simp]:
  "holds (set_left h p v) n = holds h n" "holds (set_right h p v) n = holds h n"
  "holds (set_parent h p v) n = holds h n"
  "p \<noteq> n_ptr n \<Longrightarrow> holds (set_red h p b) n = holds h n"
  "p \<noteq> n_ptr n \<Longrightarrow> holds (set_max h p i) n = holds h n"
  "p \<noteq> n_ptr n \<Longrightarrow> holds (set_min h p i) n = holds h n"
  by (auto simp: holds_def)

lemma rep_set [simp]:
  "p \<notin> set (ptrs t) \<Longrightarrow> rep (set_left h p v) q t = rep h q t"
  "p \<notin> set (ptrs t) \<Longrightarrow> rep (set_right h p v) q t = rep h q t"
  "p \<notin> set (ptrs t) \<Longrightarrow> rep (set_parent h p v) q t = rep h q t"
  "p \<notin> set (ptrs t) \<Longrightarrow> rep (set_red h p b) q t = rep h q t"
  "p \<notin> set (ptrs t) \<Longrightarrow> rep (set_max h p i) q t = rep h q t"
  "p \<notin> set (ptrs t) \<Longrightarrow> rep (set_min h p i) q t = rep h q t"
  by (induction t arbitrary: q; auto)+

lemma prep_set [simp]:
  "p \<notin> set (path_ptrs ps) \<Longrightarrow> p \<noteq> ROOT \<Longrightarrow> prep (set_left h p v) ps c = prep h ps c"
  "p \<notin> set (path_ptrs ps) \<Longrightarrow> prep (set_right h p v) ps c = prep h ps c"
  "p \<notin> set (path_ptrs ps) \<Longrightarrow> prep (set_parent h p v) ps c = prep h ps c"
  "p \<notin> set (path_ptrs ps) \<Longrightarrow> prep (set_red h p b) ps c = prep h ps c"
  "p \<notin> set (path_ptrs ps) \<Longrightarrow> prep (set_max h p i) ps c = prep h ps c"
  "p \<notin> set (path_ptrs ps) \<Longrightarrow> prep (set_min h p i) ps c = prep h ps c"
  by (induction h ps c rule: prep.induct; auto)+

lemma sentinels_set [simp]:
  "p \<noteq> NIL \<Longrightarrow> sentinels (set_left h p v) = sentinels h"
  "p \<noteq> NIL \<Longrightarrow> p \<noteq> ROOT \<Longrightarrow> sentinels (set_right h p v) = sentinels h"
  "sentinels (set_parent h p v) = sentinels h"
  "p \<noteq> NIL \<Longrightarrow> p \<noteq> ROOT \<Longrightarrow> sentinels (set_red h p b) = sentinels h"
  "p \<noteq> NIL \<Longrightarrow> sentinels (set_max h p i) = sentinels h"
  "p \<noteq> NIL \<Longrightarrow> sentinels (set_min h p i) = sentinels h"
  by (auto simp: sentinels_def)

lemma rep_values:
  "rep h q t \<Longrightarrow> sentinels h \<Longrightarrow> imax (h (tptr t)) = mx t"
  "rep h q t \<Longrightarrow> sentinels h \<Longrightarrow> imin (h (tptr t)) = mn t"
  "rep h q t \<Longrightarrow> sentinels h \<Longrightarrow> ired (h (tptr t)) = is_red t"
  by (cases t; simp add: sentinels_def holds_def)+

lemma rep_set_parent: "rep h q t \<Longrightarrow> distinct (ptrs t) \<Longrightarrow> rep (set_parent h (tptr t) q') q' t"
  by (cases t) auto

lemma rep_relink:
  assumes "rep h q t" and "distinct (ptrs t)" and "NIL \<notin> set (ptrs t)"
  shows "rep (if tptr t \<noteq> NIL then set_parent h (tptr t) q' else h) q' t"
  using assms rep_set_parent [OF assms(1,2)] by (cases t) auto

section \<open>Rotations\<close>

lemma zrep_set_value:
  "zrep h ps (Node l n r) \<Longrightarrow> zrep (set_max h (n_ptr n) i) ps (Node l (n\<lparr>n_max := i\<rparr>) r)"
  "zrep h ps (Node l n r) \<Longrightarrow> zrep (set_min h (n_ptr n) i) ps (Node l (n\<lparr>n_min := i\<rparr>) r)"
  "zrep h ps (Node l n r) \<Longrightarrow> zrep (set_red h (n_ptr n) b) ps (Node l (n\<lparr>n_red := b\<rparr>) r)"
  by (auto simp: zrep_def apart_def holds_def)

lemma zrep_read:
  "zrep h ps (Node l n r) \<Longrightarrow>
    ileft (h (n_ptr n)) = tptr l \<and> iright (h (n_ptr n)) = tptr r \<and> iparent (h (n_ptr n)) = pptr ps \<and>
    istart (h (n_ptr n)) = n_start n \<and> iend (h (n_ptr n)) = n_end n \<and> icomp (h (n_ptr n)) = n_comp n \<and>
    imax (h (n_ptr n)) = n_max n \<and> imin (h (n_ptr n)) = n_min n \<and> ired (h (n_ptr n)) = n_red n"
  by (simp add: zrep_def holds_def)

lemma zrep_values:
  "zrep h ps t \<Longrightarrow> imax (h (tptr t)) = mx t \<and> imin (h (tptr t)) = mn t \<and> ired (h (tptr t)) = is_red t"
  by (auto simp: zrep_def rep_values)

text \<open>Redirecting the link from the parent.\<close>

lemma prep_replace_child:
  "prep h ps x \<Longrightarrow> apart (path_ptrs ps) \<Longrightarrow> x \<notin> set (path_ptrs ps) \<Longrightarrow> x \<noteq> NIL \<Longrightarrow>
    prep (replace_child h (pptr ps) x v) ps v"
  by (cases ps rule: path_ptrs.cases) (auto simp: replace_child_def apart_def)

lemma replace_child_other [simp]:
  "q \<notin> set (ptrs t) \<Longrightarrow> rep (replace_child h q x v) p t = rep h p t"
  "holds (replace_child h q x v) n = holds h n"
  "iparent (replace_child h q x v a) = iparent (h a)"
  "a \<noteq> q \<Longrightarrow> ileft (replace_child h q x v a) = ileft (h a)"
  "a \<noteq> q \<Longrightarrow> iright (replace_child h q x v a) = iright (h a)"
  by (simp_all add: replace_child_def)

lemma sentinels_replace_child:
  "prep h ps x \<Longrightarrow> NIL \<notin> set (path_ptrs ps) \<Longrightarrow> ROOT \<notin> set (path_ptrs ps) \<Longrightarrow>
    sentinels (replace_child h (pptr ps) x v) = sentinels h"
  by (cases ps rule: path_ptrs.cases) (auto simp: replace_child_def)

text \<open>What \<open>zrep\<close> says about the pointers of a node and its children.\<close>

lemma apart_node:
  assumes "apart (path_ptrs ps @ ptrs (Node l n r))"
  shows "n_ptr n \<noteq> NIL" "n_ptr n \<noteq> ROOT" "n_ptr n \<notin> set (path_ptrs ps)" "n_ptr n \<notin> set (ptrs l)"
    "n_ptr n \<notin> set (ptrs r)" "distinct (ptrs l)" "distinct (ptrs r)"
    "NIL \<notin> set (ptrs l)" "NIL \<notin> set (ptrs r)"
    "apart (path_ptrs ps)" "NIL \<notin> set (path_ptrs ps)" "ROOT \<notin> set (path_ptrs ps)"
  using assms by (auto simp: apart_def)

lemma apart_ptrs:
  assumes "apart (path_ptrs ps @ ptrs (Node l n r))"
  shows "pptr ps \<noteq> NIL" "pptr ps \<noteq> n_ptr n" "n_ptr n \<noteq> pptr ps" "pptr ps \<notin> set (ptrs l)" "pptr ps \<notin> set (ptrs r)"
    "tptr l \<noteq> n_ptr n" "n_ptr n \<noteq> tptr l" "tptr r \<noteq> n_ptr n" "n_ptr n \<noteq> tptr r"
    "tptr l \<notin> set (path_ptrs ps)" "tptr r \<notin> set (path_ptrs ps)"
    "tptr l \<notin> set (ptrs r)" "tptr r \<notin> set (ptrs l)"
    "tptr l \<noteq> pptr ps" "pptr ps \<noteq> tptr l" "tptr r \<noteq> pptr ps" "pptr ps \<noteq> tptr r"
proof -
  have s: "NIL \<notin> set (path_ptrs ps @ ptrs (Node l n r))" "ROOT \<notin> set (path_ptrs ps @ ptrs (Node l n r))"
    "distinct (path_ptrs ps @ ptrs (Node l n r))"
    using assms by (simp_all add: apart_def)
  have p: "pptr ps = ROOT \<or> pptr ps \<in> set (path_ptrs ps)" by (rule pptr_in)
  have l: "tptr l = NIL \<or> tptr l \<in> set (ptrs l)" and r: "tptr r = NIL \<or> tptr r \<in> set (ptrs r)"
    by (rule tptr_in)+
  show 1: "pptr ps \<noteq> NIL" "pptr ps \<noteq> n_ptr n" "pptr ps \<notin> set (ptrs l)" "pptr ps \<notin> set (ptrs r)"
    using s p by force+
  then show "n_ptr n \<noteq> pptr ps" by simp
  show "tptr l \<noteq> n_ptr n" "tptr l \<notin> set (path_ptrs ps)" "tptr l \<notin> set (ptrs r)"
    using s l by force+
  show "tptr r \<noteq> n_ptr n" "tptr r \<notin> set (path_ptrs ps)" "tptr r \<notin> set (ptrs l)"
    using s r by force+
  then show "n_ptr n \<noteq> tptr l" "n_ptr n \<noteq> tptr r" using \<open>tptr l \<noteq> n_ptr n\<close> by auto
  show "tptr l \<noteq> pptr ps" "tptr r \<noteq> pptr ps" using 1 l r by auto
  then show "pptr ps \<noteq> tptr l" "pptr ps \<noteq> tptr r" by auto
qed

lemma zrep_left_links:
  assumes "zrep h ps (Node a x (Node b y c))"
  shows "zrep (left_links h (n_ptr x) (n_ptr y)) ps (Node (Node a x b) y c)"
proof -
  have sep: "apart (path_ptrs ps @ ptrs (Node a x (Node b y c)))" using assms by (simp add: zrep_def)
  then have sep': "apart (path_ptrs (FR a x # ps) @ ptrs (Node b y c))" by (auto simp: apart_def)
  note s = apart_node [OF sep] apart_node [OF sep'] apart_ptrs [OF sep] apart_ptrs [OF sep']
  have r: "prep h ps (n_ptr x)" "sentinels h" "holds h x" "holds h y" "rep h (n_ptr x) a" "rep h (n_ptr y) b"
    "rep h (n_ptr y) c" "ileft (h (n_ptr x)) = tptr a" "ileft (h (n_ptr y)) = tptr b"
    "iright (h (n_ptr y)) = tptr c" "iparent (h (n_ptr x)) = pptr ps"
    using assms by (auto simp: zrep_def)
  define h1 where "h1 = set_right h (n_ptr x) (tptr b)"
  define h2 where "h2 = (if tptr b \<noteq> NIL then set_parent h1 (tptr b) (n_ptr x) else h1)"
  define h3 where "h3 = set_parent h2 (n_ptr y) (pptr ps)"
  define h4 where "h4 = replace_child h3 (pptr ps) (n_ptr x) (n_ptr y)"
  have h4: "left_links h (n_ptr x) (n_ptr y) = set_parent (set_left h4 (n_ptr y) (n_ptr x)) (n_ptr x) (n_ptr y)"
    using s r by (simp add: left_links_def Let_def h1_def h2_def h3_def h4_def)
  have "prep h3 ps (n_ptr x)" using r s by (simp add: h3_def h2_def h1_def)
  then have p: "prep h4 ps (n_ptr y)" "sentinels h4"
    unfolding h4_def using r s by (auto intro!: prep_replace_child simp: sentinels_replace_child h3_def h2_def h1_def)
  have "rep h2 (n_ptr x) b"
    unfolding h2_def using r s by (intro rep_relink [of h1 "n_ptr y"]) (simp_all add: h1_def)
  then have b: "rep h4 (n_ptr x) b" using s by (simp add: h4_def h3_def)
  have ac: "rep h4 (n_ptr x) a" "rep h4 (n_ptr y) c" "holds h4 x" "holds h4 y"
    using r s by (simp_all add: h4_def h3_def h2_def h1_def)
  have f: "ileft (h4 (n_ptr x)) = tptr a" "iright (h4 (n_ptr x)) = tptr b" "iright (h4 (n_ptr y)) = tptr c"
    "iparent (h4 (n_ptr y)) = pptr ps"
    using r s by (simp_all add: h4_def h3_def h2_def h1_def)
  have "apart (path_ptrs ps @ ptrs (Node (Node a x b) y c))" using sep by (auto simp: apart_def)
  then show ?thesis using p b ac f s by (simp add: zrep_def h4)
qed

lemma zrep_right_links:
  assumes "zrep h ps (Node (Node a x b) y c)"
  shows "zrep (right_links h (n_ptr y) (n_ptr x)) ps (Node a x (Node b y c))"
proof -
  have sep: "apart (path_ptrs ps @ ptrs (Node (Node a x b) y c))" using assms by (simp add: zrep_def)
  then have sep': "apart (path_ptrs (FL y c # ps) @ ptrs (Node a x b))" by (auto simp: apart_def)
  note s = apart_node [OF sep] apart_node [OF sep'] apart_ptrs [OF sep] apart_ptrs [OF sep']
  have r: "prep h ps (n_ptr y)" "sentinels h" "holds h x" "holds h y" "rep h (n_ptr x) a" "rep h (n_ptr x) b"
    "rep h (n_ptr y) c" "ileft (h (n_ptr x)) = tptr a" "iright (h (n_ptr x)) = tptr b"
    "iright (h (n_ptr y)) = tptr c" "iparent (h (n_ptr y)) = pptr ps"
    using assms by (auto simp: zrep_def)
  define h1 where "h1 = set_left h (n_ptr y) (tptr b)"
  define h2 where "h2 = (if tptr b \<noteq> NIL then set_parent h1 (tptr b) (n_ptr y) else h1)"
  define h3 where "h3 = set_parent h2 (n_ptr x) (pptr ps)"
  define h4 where "h4 = replace_child h3 (pptr ps) (n_ptr y) (n_ptr x)"
  have h4: "right_links h (n_ptr y) (n_ptr x) = set_parent (set_right h4 (n_ptr x) (n_ptr y)) (n_ptr y) (n_ptr x)"
    using s r by (simp add: right_links_def Let_def h1_def h2_def h3_def h4_def)
  have "prep h3 ps (n_ptr y)" using r s by (simp add: h3_def h2_def h1_def)
  then have p: "prep h4 ps (n_ptr x)" "sentinels h4"
    unfolding h4_def using r s by (auto intro!: prep_replace_child simp: sentinels_replace_child h3_def h2_def h1_def)
  have "rep h2 (n_ptr y) b"
    unfolding h2_def using r s by (intro rep_relink [of h1 "n_ptr x"]) (simp_all add: h1_def)
  then have b: "rep h4 (n_ptr y) b" using s by (simp add: h4_def h3_def)
  have ac: "rep h4 (n_ptr x) a" "rep h4 (n_ptr y) c" "holds h4 x" "holds h4 y"
    using r s by (simp_all add: h4_def h3_def h2_def h1_def)
  have f: "ileft (h4 (n_ptr x)) = tptr a" "ileft (h4 (n_ptr y)) = tptr b" "iright (h4 (n_ptr y)) = tptr c"
    "iparent (h4 (n_ptr x)) = pptr ps"
    using r s by (simp_all add: h4_def h3_def h2_def h1_def)
  have "apart (path_ptrs ps @ ptrs (Node a x (Node b y c)))" using sep by (auto simp: apart_def)
  then show ?thesis using p b ac f s by (simp add: zrep_def h4)
qed

lemma zrep_children:
  assumes "zrep h ps (Node l n r)"
  shows "imax (h (tptr l)) = mx l" "imin (h (tptr l)) = mn l" "ired (h (tptr l)) = is_red l"
    "imax (h (tptr r)) = mx r" "imin (h (tptr r)) = mn r" "ired (h (tptr r)) = is_red r"
  using zrep_values [of h "FL n r # ps" l] zrep_values [of h "FR l n # ps" r] assms
  by (simp_all add: zrep_FL zrep_FR)

lemma zrep_set_left:
  "zrep h ps (Node (Node a x b) y c) \<Longrightarrow> zrep (set_max h (n_ptr x) i) ps (Node (Node a (x\<lparr>n_max := i\<rparr>) b) y c)"
  "zrep h ps (Node (Node a x b) y c) \<Longrightarrow> zrep (set_min h (n_ptr x) i) ps (Node (Node a (x\<lparr>n_min := i\<rparr>) b) y c)"
  "zrep h ps (Node (Node a x b) y c) \<Longrightarrow> zrep (set_red h (n_ptr x) r) ps (Node (Node a (x\<lparr>n_red := r\<rparr>) b) y c)"
  using zrep_set_value [of h "FL y c # ps" a x b] by (simp_all add: zrep_FL)

lemma zrep_set_right:
  "zrep h ps (Node a x (Node b y c)) \<Longrightarrow> zrep (set_max h (n_ptr y) i) ps (Node a x (Node b (y\<lparr>n_max := i\<rparr>) c))"
  "zrep h ps (Node a x (Node b y c)) \<Longrightarrow> zrep (set_min h (n_ptr y) i) ps (Node a x (Node b (y\<lparr>n_min := i\<rparr>) c))"
  "zrep h ps (Node a x (Node b y c)) \<Longrightarrow> zrep (set_red h (n_ptr y) r) ps (Node a x (Node b (y\<lparr>n_red := r\<rparr>) c))"
  using zrep_set_value [of h "FR a x # ps" b y c] by (simp_all add: zrep_FR)

lemma zrep_left_rotate:
  assumes "zrep h ps (Node a x (Node b y c))"
  shows "zrep (left_rotate h (n_ptr x)) ps (lrot (Node a x (Node b y c)))"
proof -
  have y: "iright (h (n_ptr x)) = n_ptr y" using assms by (simp add: zrep_def)
  have ne: "n_ptr x \<noteq> n_ptr y" "tptr a \<noteq> n_ptr x" "tptr b \<noteq> n_ptr x" "tptr c \<noteq> n_ptr x"
    "tptr a \<noteq> n_ptr y" "tptr b \<noteq> n_ptr y" "tptr c \<noteq> n_ptr y"
    using assms by (auto simp: zrep_def apart_def)
  define g where "g = left_links h (n_ptr x) (n_ptr y)"
  have g: "zrep g ps (Node (Node a x b) y c)" using zrep_left_links [OF assms] by (simp add: g_def)
  then have gx: "zrep g (FL y c # ps) (Node a x b)" by (simp add: zrep_FL)
  let ?xm = "max (mx a) (max (n_end x) (mx b))" and ?xn = "min (mn a) (n_start x)"
  let ?ym = "max ?xm (max (n_end y) (mx c))"
  have "left_rotate h (n_ptr x) =
      set_min (set_min (set_max (set_max g (n_ptr x) ?xm) (n_ptr y) ?ym) (n_ptr x) ?xn)
        (n_ptr y) (min ?xn (n_start y))"
    using zrep_read [OF g] zrep_read [OF gx] zrep_children [OF g] zrep_children [OF gx] ne
    by (simp add: left_rotate_def y Let_def g_def [symmetric])
  with zrep_set_left(1) [OF g, THEN zrep_set_value(1), simplified, THEN zrep_set_left(2), simplified,
      THEN zrep_set_value(2), simplified, of ?xm ?ym ?xn "min ?xn (n_start y)"]
  show ?thesis by (simp add: Let_def upd_def)
qed

lemma zrep_right_rotate:
  assumes "zrep h ps (Node (Node a x b) y c)"
  shows "zrep (right_rotate h (n_ptr y)) ps (rrot (Node (Node a x b) y c))"
proof -
  have x: "ileft (h (n_ptr y)) = n_ptr x" using assms by (simp add: zrep_def)
  have ne: "n_ptr x \<noteq> n_ptr y" "tptr a \<noteq> n_ptr x" "tptr b \<noteq> n_ptr x" "tptr c \<noteq> n_ptr x"
    "tptr a \<noteq> n_ptr y" "tptr b \<noteq> n_ptr y" "tptr c \<noteq> n_ptr y"
    using assms by (auto simp: zrep_def apart_def)
  define g where "g = right_links h (n_ptr y) (n_ptr x)"
  have g: "zrep g ps (Node a x (Node b y c))" using zrep_right_links [OF assms] by (simp add: g_def)
  then have gy: "zrep g (FR a x # ps) (Node b y c)" by (simp add: zrep_FR)
  let ?ym = "max (mx b) (max (mx c) (n_end y))" and ?yn = "min (mn b) (n_start y)"
  let ?xm = "max (mx a) (max ?ym (n_end x))"
  have comm: "max (n_end y) (mx c) = max (mx c) (n_end y)" "max (n_end x) ?ym = max ?ym (n_end x)"
    by (rule max.commute)+
  have "right_rotate h (n_ptr y) =
      set_min (set_min (set_max (set_max g (n_ptr y) ?ym) (n_ptr x) ?xm) (n_ptr y) ?yn)
        (n_ptr x) (min (mn a) (n_start x))"
    unfolding right_rotate_def x Let_def g_def [symmetric]
    using zrep_read [OF g] zrep_read [OF gy] zrep_children [OF g] zrep_children [OF gy] ne
    by (simp only: read_set read_set_data if_True if_False tptr.simps mx.simps mn.simps simp_thms refl
        pptr.simps fnode.simps)
  with zrep_set_right(1) [OF g, THEN zrep_set_value(1), simplified, THEN zrep_set_right(2), simplified,
      THEN zrep_set_value(2), simplified, of ?ym ?xm ?yn "min (mn a) (n_start x)"]
  show ?thesis by (simp add: Let_def upd_def comm)
qed

section \<open>The loop of the insertion\<close>

lemma zrep_tptr: "zrep h ps t \<Longrightarrow> t \<noteq> Leaf \<Longrightarrow> iparent (h (tptr t)) = pptr ps"
  by (cases t) (auto simp: zrep_def)

lemma zrep_blacken: "zrep h ps t \<Longrightarrow> t \<noteq> Leaf \<Longrightarrow> zrep (set_red h (tptr t) False) ps (blacken t)"
  using zrep_set_value(3) [of h ps _ _ _ False] by (cases t) auto

lemma zrep_blacken_left:
  "zrep h ps (Node l n r) \<Longrightarrow> l \<noteq> Leaf \<Longrightarrow> zrep (set_red h (tptr l) False) ps (Node (blacken l) n r)"
  using zrep_blacken [of h "FL n r # ps" l] by (simp add: zrep_FL)

lemma zrep_blacken_right:
  "zrep h ps (Node l n r) \<Longrightarrow> r \<noteq> Leaf \<Longrightarrow> zrep (set_red h (tptr r) False) ps (Node l n (blacken r))"
  using zrep_blacken [of h "FR l n # ps" r] by (simp add: zrep_FR)

lemma zrep_siblings: "zrep h ps (Node l n r) \<Longrightarrow> l \<noteq> Leaf \<Longrightarrow> tptr l \<noteq> tptr r"
  by (cases l; cases r) (auto simp: zrep_def apart_def)

lemma zrep_siblings': "zrep h ps (Node l n r) \<Longrightarrow> r \<noteq> Leaf \<Longrightarrow> tptr r \<noteq> tptr l"
  by (cases l; cases r) (auto simp: zrep_def apart_def)

lemma zrep_nodes:
  assumes "zrep h ps (Node l n r)"
  shows "n_ptr n \<noteq> tptr l" "n_ptr n \<noteq> tptr r" "tptr l \<noteq> n_ptr n" "tptr r \<noteq> n_ptr n" "n_ptr n \<noteq> NIL"
    "n_ptr n \<noteq> pptr ps"
  using assms apart_ptrs [of ps l n r] apart_node [of ps l n r] by (simp_all add: zrep_def)

text \<open>A step of the loop: either the uncle is red, and the loop goes on at the grandparent, or the
  rotations are done and the loop ends.\<close>

lemma insert_step_LL:
  assumes z: "zrep h ps (Node (Node t p c) q u)" and t: "t \<noteq> Leaf"
  defines "s \<equiv> insert_fixup_body h (tptr t)"
  shows "is_red u \<Longrightarrow> zrep (fst s) ps (Node (Node t (bk p) c) (rd q) (blacken u)) \<and> snd s = n_ptr q"
    and "\<not> is_red u \<Longrightarrow> zrep (fst s) ps (rrot (Node (Node t (bk p) c) (rd q) u)) \<and>
      \<not> ired (fst s (iparent (fst s (snd s))))"
proof -
  have zp: "zrep h (FL q u # ps) (Node t p c)" and zt: "zrep h (FL p c # FL q u # ps) t"
    using z by (simp_all add: zrep_FL)
  have r: "iparent (h (tptr t)) = n_ptr p" "iparent (h (n_ptr p)) = n_ptr q" "ileft (h (n_ptr q)) = n_ptr p"
      "iright (h (n_ptr q)) = tptr u" "ired (h (tptr u)) = is_red u" "iright (h (n_ptr p)) = tptr c"
    using zrep_tptr [OF zt t] zrep_read [OF zp] zrep_read [OF z] zrep_children [OF z] by simp_all
  have ne: "tptr t \<noteq> tptr c" using zrep_siblings [OF zp t] .
  show "zrep (fst s) ps (Node (Node t (bk p) c) (rd q) (blacken u)) \<and> snd s = n_ptr q" if "is_red u"
  proof -
    have "u \<noteq> Leaf" using that by auto
    from zrep_set_value(3) [OF zrep_blacken_right [OF zrep_set_left(3) [OF z, of False] this], of True]
    show ?thesis using that by (simp add: s_def insert_fixup_body_def Let_def r)
  qed
  show "zrep (fst s) ps (rrot (Node (Node t (bk p) c) (rd q) u)) \<and> \<not> ired (fst s (iparent (fst s (snd s))))"
    if "\<not> is_red u"
  proof -
    have 1: "zrep (set_red (set_red h (n_ptr p) False) (n_ptr q) True) ps (Node (Node t (bk p) c) (rd q) u)"
      by (intro zrep_set_value(3) zrep_set_left(3) z)
    have s: "s = (right_rotate (set_red (set_red h (n_ptr p) False) (n_ptr q) True) (n_ptr q), tptr t)"
      using that ne by (simp add: s_def insert_fixup_body_def Let_def r)
    from zrep_right_rotate [OF 1] have 2: "zrep (fst s) ps (rrot (Node (Node t (bk p) c) (rd q) u))"
      by (simp add: s)
    then obtain y r where "zrep (fst s) ps (Node t y r)" "\<not> n_red y" by (simp add: Let_def)
    with zrep_tptr [of "fst s" "FL y r # ps" t] t zrep_read [of "fst s" ps t y r] 2
    show ?thesis by (simp add: zrep_FL s)
  qed
qed

lemma insert_step_RR:
  assumes z: "zrep h ps (Node u q (Node c p t))" and t: "t \<noteq> Leaf"
  defines "s \<equiv> insert_fixup_body h (tptr t)"
  shows "is_red u \<Longrightarrow> zrep (fst s) ps (Node (blacken u) (rd q) (Node c (bk p) t)) \<and> snd s = n_ptr q"
    and "\<not> is_red u \<Longrightarrow> zrep (fst s) ps (lrot (Node u (rd q) (Node c (bk p) t))) \<and>
      \<not> ired (fst s (iparent (fst s (snd s))))"
proof -
  have zp: "zrep h (FR u q # ps) (Node c p t)" and zt: "zrep h (FR c p # FR u q # ps) t"
    using z by (simp_all add: zrep_FR)
  have r: "iparent (h (tptr t)) = n_ptr p" "iparent (h (n_ptr p)) = n_ptr q" "iright (h (n_ptr q)) = n_ptr p"
      "ileft (h (n_ptr q)) = tptr u" "ired (h (tptr u)) = is_red u" "ileft (h (n_ptr p)) = tptr c"
    using zrep_tptr [OF zt t] zrep_read [OF zp] zrep_read [OF z] zrep_children [OF z] by simp_all
  have ne: "tptr t \<noteq> tptr c" "n_ptr p \<noteq> tptr u"
    using zrep_siblings' [OF zp t] zrep_siblings' [OF z] by simp_all
  show "zrep (fst s) ps (Node (blacken u) (rd q) (Node c (bk p) t)) \<and> snd s = n_ptr q" if "is_red u"
  proof -
    have "u \<noteq> Leaf" using that by auto
    from zrep_set_value(3) [OF zrep_blacken_left [OF zrep_set_right(3) [OF z, of False] this], of True]
    show ?thesis using that ne by (simp add: s_def insert_fixup_body_def Let_def r)
  qed
  show "zrep (fst s) ps (lrot (Node u (rd q) (Node c (bk p) t))) \<and> \<not> ired (fst s (iparent (fst s (snd s))))"
    if "\<not> is_red u"
  proof -
    have 1: "zrep (set_red (set_red h (n_ptr p) False) (n_ptr q) True) ps (Node u (rd q) (Node c (bk p) t))"
      by (intro zrep_set_value(3) zrep_set_right(3) z)
    have s: "s = (left_rotate (set_red (set_red h (n_ptr p) False) (n_ptr q) True) (n_ptr q), tptr t)"
      using that ne by (simp add: s_def insert_fixup_body_def Let_def r)
    from zrep_left_rotate [OF 1] have 2: "zrep (fst s) ps (lrot (Node u (rd q) (Node c (bk p) t)))"
      by (simp add: s)
    then obtain l y where "zrep (fst s) ps (Node l y t)" "\<not> n_red y" by (simp add: Let_def)
    with zrep_tptr [of "fst s" "FR l y # ps" t] t zrep_read [of "fst s" ps l y t] 2
    show ?thesis by (simp add: zrep_FR s)
  qed
qed

lemma insert_step_LR:
  assumes z: "zrep h ps (Node (Node c p t) q u)" and t: "t \<noteq> Leaf"
  defines "s \<equiv> insert_fixup_body h (tptr t)"
  shows "is_red u \<Longrightarrow> zrep (fst s) ps (Node (Node c (bk p) t) (rd q) (blacken u)) \<and> snd s = n_ptr q"
    and "\<not> is_red u \<Longrightarrow> zrep (fst s) ps (rrot (Node (blacken (lrot (Node c p t))) (rd q) u)) \<and>
      \<not> ired (fst s (iparent (fst s (snd s))))"
proof -
  obtain a n b where tn: "t = Node a n b" using t by (cases t) auto
  have zp: "zrep h (FL q u # ps) (Node c p t)" and zt: "zrep h (FR c p # FL q u # ps) t"
    using z by (simp_all add: zrep_FL zrep_FR)
  have r: "iparent (h (tptr t)) = n_ptr p" "iparent (h (n_ptr p)) = n_ptr q" "ileft (h (n_ptr q)) = n_ptr p"
      "iright (h (n_ptr q)) = tptr u" "ired (h (tptr u)) = is_red u" "iright (h (n_ptr p)) = tptr t"
    using zrep_tptr [OF zt t] zrep_read [OF zp] zrep_read [OF z] zrep_children [OF z] by simp_all
  show "zrep (fst s) ps (Node (Node c (bk p) t) (rd q) (blacken u)) \<and> snd s = n_ptr q" if "is_red u"
  proof -
    have "u \<noteq> Leaf" using that by auto
    from zrep_set_value(3) [OF zrep_blacken_right [OF zrep_set_left(3) [OF z, of False] this], of True]
    show ?thesis using that by (simp add: s_def insert_fixup_body_def Let_def r)
  qed
  show "zrep (fst s) ps (rrot (Node (blacken (lrot (Node c p t))) (rd q) u)) \<and>
      \<not> ired (fst s (iparent (fst s (snd s))))" if "\<not> is_red u"
  proof -
    define g where "g = left_rotate h (n_ptr p)"
    define g' where "g' = set_red (set_red g (n_ptr n) False) (n_ptr q) True"
    have 1: "zrep g (FL q u # ps) (Node (Node c (upd p c a) a) (upd n (Node c (upd p c a) a) b) b)"
      using zrep_left_rotate [OF zp [unfolded tn]] by (simp add: g_def Let_def)
    then have ng: "iparent (g (n_ptr p)) = n_ptr n" "iparent (g (n_ptr n)) = n_ptr q"
      using zrep_read [OF 1] zrep_read [of g "FL (upd n (Node c (upd p c a) a) b) b # FL q u # ps" c "upd p c a" a]
      by (simp_all add: zrep_FL)
    have 2: "zrep g' ps (Node (Node (Node c (upd p c a) a) (bk (upd n (Node c (upd p c a) a) b)) b) (rd q) u)"
      using zrep_set_value(3) [OF zrep_set_left(3) [OF 1 [unfolded zrep_FL], of False], of True]
      by (simp add: g'_def)
    have s: "s = (right_rotate g' (n_ptr q), n_ptr p)"
      using that ng by (simp add: s_def insert_fixup_body_def Let_def r g_def g'_def)
    from zrep_right_rotate [OF 2] have 3: "zrep (fst s) ps (rrot (Node (blacken (lrot (Node c p t))) (rd q) u))"
      by (simp add: s tn Let_def)
    then obtain y r where "zrep (fst s) ps (Node (Node c (upd p c a) a) y r)" "\<not> n_red y"
      by (simp add: tn Let_def)
    with zrep_tptr [of "fst s" "FL y r # ps" "Node c (upd p c a) a"]
      zrep_read [of "fst s" ps "Node c (upd p c a) a" y r] 3
    show ?thesis by (simp add: zrep_FL s)
  qed
qed

lemma insert_step_RL:
  assumes z: "zrep h ps (Node u q (Node t p c))" and t: "t \<noteq> Leaf"
  defines "s \<equiv> insert_fixup_body h (tptr t)"
  shows "is_red u \<Longrightarrow> zrep (fst s) ps (Node (blacken u) (rd q) (Node t (bk p) c)) \<and> snd s = n_ptr q"
    and "\<not> is_red u \<Longrightarrow> zrep (fst s) ps (lrot (Node u (rd q) (blacken (rrot (Node t p c))))) \<and>
      \<not> ired (fst s (iparent (fst s (snd s))))"
proof -
  obtain a n b where tn: "t = Node a n b" using t by (cases t) auto
  have zp: "zrep h (FR u q # ps) (Node t p c)" and zt: "zrep h (FL p c # FR u q # ps) t"
    using z by (simp_all add: zrep_FL zrep_FR)
  have r: "iparent (h (tptr t)) = n_ptr p" "iparent (h (n_ptr p)) = n_ptr q" "iright (h (n_ptr q)) = n_ptr p"
      "ileft (h (n_ptr q)) = tptr u" "ired (h (tptr u)) = is_red u" "ileft (h (n_ptr p)) = tptr t"
    using zrep_tptr [OF zt t] zrep_read [OF zp] zrep_read [OF z] zrep_children [OF z] by simp_all
  have ne: "n_ptr p \<noteq> tptr u" using zrep_siblings' [OF z] by simp
  show "zrep (fst s) ps (Node (blacken u) (rd q) (Node t (bk p) c)) \<and> snd s = n_ptr q" if "is_red u"
  proof -
    have "u \<noteq> Leaf" using that by auto
    from zrep_set_value(3) [OF zrep_blacken_left [OF zrep_set_right(3) [OF z, of False] this], of True]
    show ?thesis using that ne by (simp add: s_def insert_fixup_body_def Let_def r)
  qed
  show "zrep (fst s) ps (lrot (Node u (rd q) (blacken (rrot (Node t p c))))) \<and>
      \<not> ired (fst s (iparent (fst s (snd s))))" if "\<not> is_red u"
  proof -
    define g where "g = right_rotate h (n_ptr p)"
    define g' where "g' = set_red (set_red g (n_ptr n) False) (n_ptr q) True"
    have 1: "zrep g (FR u q # ps) (Node a (upd n a (Node b (upd p b c) c)) (Node b (upd p b c) c))"
      using zrep_right_rotate [OF zp [unfolded tn]] by (simp add: g_def Let_def)
    then have ng: "iparent (g (n_ptr p)) = n_ptr n" "iparent (g (n_ptr n)) = n_ptr q"
      using zrep_read [OF 1] zrep_read [of g "FR a (upd n a (Node b (upd p b c) c)) # FR u q # ps" b "upd p b c" c]
      by (simp_all add: zrep_FR)
    have 2: "zrep g' ps (Node u (rd q) (Node a (bk (upd n a (Node b (upd p b c) c))) (Node b (upd p b c) c)))"
      using zrep_set_value(3) [OF zrep_set_right(3) [OF 1 [unfolded zrep_FR], of False], of True]
      by (simp add: g'_def)
    have s: "s = (left_rotate g' (n_ptr q), n_ptr p)"
      using that ng ne by (simp add: s_def insert_fixup_body_def Let_def r g_def g'_def)
    from zrep_left_rotate [OF 2] have 3: "zrep (fst s) ps (lrot (Node u (rd q) (blacken (rrot (Node t p c)))))"
      by (simp add: s tn Let_def)
    then obtain l y where "zrep (fst s) ps (Node l y (Node b (upd p b c) c))" "\<not> n_red y"
      by (simp add: tn Let_def)
    with zrep_tptr [of "fst s" "FR l y # ps" "Node b (upd p b c) c"]
      zrep_read [of "fst s" ps l y "Node b (upd p b c) c"] 3
    show ?thesis by (simp add: zrep_FR s)
  qed
qed

lemma zrep_blacken_root:
  assumes "zrep h [] t" and "t \<noteq> Leaf"
  shows "zrep (set_red h (ileft (h ROOT)) False) [] (blacken t)"
proof -
  have "ileft (h ROOT) = tptr t" using assms(1) by (simp add: zrep_def)
  then show ?thesis using zrep_blacken [OF assms] by simp
qed

lemma plug_Leaf [simp]: "plug ps t = Leaf \<longleftrightarrow> ps = [] \<and> t = Leaf"
  by (induction ps t rule: plug.induct) auto

lemma rot_Leaf [simp]: "lrot t = Leaf \<longleftrightarrow> t = Leaf" "rrot t = Leaf \<longleftrightarrow> t = Leaf"
  by (cases t rule: lrot.cases; simp add: Let_def) (cases t rule: rrot.cases; simp add: Let_def)

text \<open>The loop has ended.\<close>

lemma insert_fixup_ends:
  assumes "zrep h ps t" and "t \<noteq> Leaf" and "\<not> ired (h (iparent (h x)))"
  shows "\<exists>h'. insert_fixup h x = Some h' \<and> zrep (set_red h' (ileft (h' ROOT)) False) [] (blacken (plug ps t))"
proof -
  have "insert_fixup h x = Some h" using assms(3) by (subst insert_fixup.simps) simp
  moreover have "zrep h [] (plug ps t)" using assms(1) zrep_plug by blast
  ultimately show ?thesis using assms(2) zrep_blacken_root [of h "plug ps t"] by auto
qed

lemma insert_fixup_step:
  assumes prems: "zrep h (f # g # ps) t" "rb_path (f # g # ps) (bh t)" "rb t" "is_red t" and red: "n_red (fnode f)"
    and IH: "\<And>h t. zrep h ps t \<Longrightarrow> rb_path ps (bh t) \<Longrightarrow> rb t \<Longrightarrow> is_red t \<Longrightarrow>
      \<exists>h'. insert_fixup h (tptr t) = Some h' \<and> zrep (set_red h' (ileft (h' ROOT)) False) [] (ins_fix ps t)"
  shows "\<exists>h'. insert_fixup h (tptr t) = Some h' \<and>
    zrep (set_red h' (ileft (h' ROOT)) False) [] (ins_fix (f # g # ps) t)"
proof -
  have t: "t \<noteq> Leaf" using prems(4) by auto
  have par: "iparent (h (tptr t)) = n_ptr (fnode f)" using zrep_tptr [OF prems(1) t] by simp
  have redf: "ired (h (n_ptr (fnode f))) = n_red (fnode f)"
    using prems(1) by (cases f) (auto simp: zrep_def holds_def)
  let ?s = "insert_fixup_body h (tptr t)"
  have step: "insert_fixup h (tptr t) = insert_fixup (fst ?s) (snd ?s)"
    using red par redf by (subst insert_fixup.simps) simp
  have ends: ?thesis if "zrep (fst ?s) ps T \<and> \<not> ired (fst ?s (iparent (fst ?s (snd ?s))))" "T \<noteq> Leaf"
    "ins_fix (f # g # ps) t = blacken (plug ps T)" for T
    using insert_fixup_ends [of "fst ?s" ps T] that step by simp
  have goes_on: ?thesis if "zrep (fst ?s) ps T \<and> snd ?s = tptr T" "rb_path ps (bh T)" "rb T" "is_red T"
    "ins_fix (f # g # ps) t = ins_fix ps T" for T
    using IH [of "fst ?s" T] that step by simp
  show ?thesis
  proof (cases f; cases g)
      fix p c q u assume fg: "f = FL p c" "g = FL q u"
      have z: "zrep h ps (Node (Node t p c) q u)" using prems(1) by (simp add: fg zrep_FL zrep_FR)
      show ?thesis
      proof (cases "is_red u")
        case True
        then show ?thesis
          using insert_step_LL(1) [OF z t] prems red
          by (intro goes_on [of "Node (Node t (bk p) c) (rd q) (blacken u)"]) (auto simp: fg bh_blacken)
      next
        case False
        then show ?thesis using insert_step_LL(2) [OF z t] red
          by (intro ends) (auto simp: fg Let_def)
      qed
    next
      fix p c q u assume fg: "f = FR c p" "g = FL q u"
      have z: "zrep h ps (Node (Node c p t) q u)" using prems(1) by (simp add: fg zrep_FL zrep_FR)
      show ?thesis
      proof (cases "is_red u")
        case True
        then show ?thesis
          using insert_step_LR(1) [OF z t] prems red
          by (intro goes_on [of "Node (Node c (bk p) t) (rd q) (blacken u)"]) (auto simp: fg bh_blacken)
      next
        case False
        then show ?thesis using insert_step_LR(2) [OF z t] red
          by (intro ends) (auto simp: fg Let_def)
      qed
    next
      fix p c q u assume fg: "f = FL p c" "g = FR u q"
      have z: "zrep h ps (Node u q (Node t p c))" using prems(1) by (simp add: fg zrep_FL zrep_FR)
      show ?thesis
      proof (cases "is_red u")
        case True
        then show ?thesis
          using insert_step_RL(1) [OF z t] prems red
          by (intro goes_on [of "Node (blacken u) (rd q) (Node t (bk p) c)"]) (auto simp: fg bh_blacken)
      next
        case False
        then show ?thesis using insert_step_RL(2) [OF z t] red
          by (intro ends) (auto simp: fg Let_def)
      qed
    next
      fix p c q u assume fg: "f = FR c p" "g = FR u q"
      have z: "zrep h ps (Node u q (Node c p t))" using prems(1) by (simp add: fg zrep_FL zrep_FR)
      show ?thesis
      proof (cases "is_red u")
        case True
        then show ?thesis
          using insert_step_RR(1) [OF z t] prems red
          by (intro goes_on [of "Node (blacken u) (rd q) (Node c (bk p) t)"]) (auto simp: fg bh_blacken)
      next
        case False
        then show ?thesis using insert_step_RR(2) [OF z t] red
          by (intro ends) (auto simp: fg Let_def)
      qed
  qed
qed

lemma insert_fixup_refines:
  "zrep h ps t \<Longrightarrow> rb_path ps (bh t) \<Longrightarrow> rb t \<Longrightarrow> is_red t \<Longrightarrow>
    \<exists>h'. insert_fixup h (tptr t) = Some h' \<and> zrep (set_red h' (ileft (h' ROOT)) False) [] (ins_fix ps t)"
proof (induction "length ps" arbitrary: h ps t rule: less_induct)
  case less
  have t: "t \<noteq> Leaf" using less.prems(4) by auto
  have par: "iparent (h (tptr t)) = pptr ps" using zrep_tptr [OF less.prems(1) t] .
  show ?case
  proof (cases "ps = [] \<or> \<not> n_red (fnode (hd ps))")
    case True
    then have "\<not> ired (h (pptr ps))"
      using less.prems(1) by (cases ps rule: path_ptrs.cases) (auto simp: zrep_def holds_def sentinels_def)
    moreover have "ins_fix ps t = blacken (plug ps t)"
      using True by (cases "(ps, t)" rule: ins_fix.cases) auto
    ultimately show ?thesis using insert_fixup_ends [OF less.prems(1) t, of "tptr t"] par by simp
  next
    case False
    then obtain f g qs where ps: "ps = f # g # qs"
      using less.prems(2) by (cases ps rule: path_ptrs.cases; cases "tl ps") auto
    show ?thesis unfolding ps
      by (rule insert_fixup_step) (use less False ps in auto)
  qed
qed

section \<open>Minima and maxima along the path\<close>

lemma fixup_min_max_refines:
  "zrep h ps t \<Longrightarrow> \<exists>h'. fixup_min_max_fields h (pptr ps) = Some h' \<and> zrep h' (fix_path ps t) t \<and>
    (\<forall>a. iparent (h' a) = iparent (h a) \<and> ired (h' a) = ired (h a))"
proof (induction ps arbitrary: h t)
  case Nil
  then show ?case by (simp add: fixup_min_max_fields.simps)
next
  case (Cons f ps)
  have step: ?case
    if z: "zrep h ps (Node l n r)" and f: "fnode f = n"
      and up: "\<And>h'. zrep h' (fix_path ps (Node l (upd n l r) r)) (Node l (upd n l r) r) \<Longrightarrow> zrep h' (fix_path (f # ps) t) t"
    for l n r
  proof -
    let ?h1 = "set_max h (n_ptr n) (max (mx l) (max (n_end n) (mx r)))"
    let ?h2 = "set_min ?h1 (n_ptr n) (min (mn l) (n_start n))"
    have z2: "zrep ?h2 ps (Node l (upd n l r) r)"
      using zrep_set_value(2) [OF zrep_set_value(1) [OF z]] by (simp add: upd_def)
    have eqs: "max (n_end n) (max (mx l) (mx r)) = max (mx l) (max (n_end n) (mx r))"
        "min (n_start n) (mn l) = min (mn l) (n_start n)"
      by (rule max.left_commute, rule min.commute)
    have "fixup_min_max_fields h (pptr (f # ps)) = fixup_min_max_fields ?h2 (pptr ps)"
      using zrep_nodes [OF z] z
      by (subst fixup_min_max_fields.simps)
        (simp add: f zrep_read [OF z] zrep_children [OF z] Let_def eqs zrep_def apart_def)
    with Cons.IH [OF z2] up show ?thesis by auto
  qed
  show ?case
  proof (cases f)
    case (FL n r)
    show ?thesis by (rule step [of t n r]) (use Cons.prems in \<open>simp_all add: FL zrep_FL Let_def\<close>)
  next
    case (FR l n)
    show ?thesis by (rule step [of l n t]) (use Cons.prems in \<open>simp_all add: FR zrep_FR Let_def\<close>)
  qed
qed

section \<open>Insertion into the search tree\<close>

definition go_left :: "inode \<Rightarrow> int \<Rightarrow> int \<Rightarrow> bool" where
  "go_left n s e \<longleftrightarrow> n_start n = s \<and> n_end n \<le> e \<or> n_start n > s"

lemma get_direction_left: "get_direction x s e = 0 \<longleftrightarrow> istart x = s \<and> iend x \<le> e \<or> istart x > s"
  by (auto simp: get_direction_def)

lemma insert_descend_refines:
  "zrep h ps t \<Longrightarrow> insert_descend h z (tptr t) (pptr ps) =
    Some (pptr (descend ps t (istart (h z)) (iend (h z))))"
proof (induction t arbitrary: ps)
  case Leaf
  then show ?case by (simp add: insert_descend.simps)
next
  case (Node l n r)
  have "zrep h (FL n r # ps) l" "zrep h (FR l n # ps) r" using Node.prems by (simp_all add: zrep_FL zrep_FR)
  then show ?case
    using Node.IH [of "FL n r # ps"] Node.IH(2) [of "FR l n # ps"] zrep_nodes [OF Node.prems]
    by (subst insert_descend.simps)
      (simp add: zrep_read [OF Node.prems] get_direction_left)
qed

text \<open>The last step of the descent leads into the hole.\<close>

fun hole_side :: "frame list \<Rightarrow> int \<Rightarrow> int \<Rightarrow> bool" where
  "hole_side [] s e = True"
| "hole_side (FL n r # ps) s e = go_left n s e"
| "hole_side (FR l n # ps) s e = (\<not> go_left n s e)"

lemma descend_side: "hole_side ps s e \<Longrightarrow> hole_side (descend ps t s e) s e"
  by (induction ps t s e rule: descend.induct) (auto simp: go_left_def)

lemma zrep_fresh:
  assumes "z \<notin> set (path_ptrs ps @ ptrs t)" and "z \<noteq> NIL" and "z \<noteq> ROOT"
  shows "zrep (set_left h z v) ps t = zrep h ps t" "zrep (set_right h z v) ps t = zrep h ps t"
    "zrep (set_parent h z v) ps t = zrep h ps t"
  using assms by (simp_all add: zrep_def)

lemma upd_min_max:
  "upd n l r = n\<lparr>n_min := min (mn l) (n_start n), n_max := max (mx l) (max (n_end n) (mx r))\<rparr>"
  by (simp add: upd_def)

lemma upd_upd [simp]: "upd (upd n l r) l' r' = upd n l' r'"
  by (simp add: upd_def)

lemma zrep_link_leaf:
  assumes z: "zrep h ps Leaf" and fresh: "z \<notin> set (path_ptrs ps)" "z \<noteq> NIL" "z \<noteq> ROOT"
    and n: "holds h n" "n_ptr n = z" "ileft (h z) = NIL" "iright (h z) = NIL"
    and side: "hole_side ps (n_start n) (n_end n)"
  defines "h1 \<equiv> set_parent h z (pptr ps)"
  defines "h2 \<equiv> (if pptr ps = ROOT \<or> get_direction (h1 (pptr ps)) (istart (h1 z)) (iend (h1 z)) = DIRECTION_GO_LEFT
    then set_left h1 (pptr ps) z else set_right h1 (pptr ps) z)"
  shows "zrep h2 ps (Node Leaf n Leaf)"
proof -
  have se: "istart (h z) = n_start n" "iend (h z) = n_end n" using n by (auto simp: holds_def)
  have ap: "apart (path_ptrs ps @ ptrs (Node Leaf n Leaf))"
    using z fresh n by (auto simp: zrep_def apart_def)
  note s = apart_ptrs [OF ap, unfolded n] apart_node [OF ap, unfolded n]
  have p1: "prep h1 ps NIL" using z fresh by (simp add: zrep_def h1_def)
  have h2: "prep h2 ps z" "sentinels h2"
    using p1 z s side by (cases ps rule: path_ptrs.cases;
      simp add: h2_def h1_def zrep_def apart_def holds_def get_direction_left go_left_def se)+
  have "iparent (h2 z) = pptr ps" "ileft (h2 z) = NIL" "iright (h2 z) = NIL" "holds h2 n"
    using s n by (simp_all add: h2_def h1_def)
  then show ?thesis using h2 ap n by (simp add: zrep_def)
qed

lemma ptrs_plug: "set (ptrs (plug ps t)) = set (path_ptrs ps) \<union> set (ptrs t)"
  by (induction ps t rule: plug.induct) auto

lemma binary_tree_insert_refines:
  assumes z: "zrep h [] t" and fresh: "z \<notin> set (ptrs t)" "z \<noteq> NIL" "z \<noteq> ROOT"
    and n: "holds h n" "n_ptr n = z"
  defines "ps \<equiv> descend [] t (n_start n) (n_end n)"
  shows "\<exists>h' qs. binary_tree_insert h z = Some h' \<and> zrep h' qs (Node Leaf n Leaf) \<and>
    fix_path qs (Node Leaf n Leaf) = fix_path ps (Node Leaf n Leaf) \<and> pptr qs = pptr ps"
proof -
  let ?Z = "Node Leaf n Leaf"
  define h0 where "h0 = set_left (set_right h z NIL) z NIL"
  have z0: "zrep h0 [] t" using z fresh by (simp add: h0_def zrep_fresh)
  have n0: "holds h0 n" "ileft (h0 z) = NIL" "iright (h0 z) = NIL" using n by (simp_all add: h0_def)
  have se: "istart (h0 z) = n_start n" "iend (h0 z) = n_end n" using n0 n by (auto simp: holds_def)
  have root: "ileft (h0 ROOT) = tptr t" using z0 by (simp add: zrep_def)
  have desc: "insert_descend h0 z (tptr t) ROOT = Some (pptr ps)"
    using insert_descend_refines [OF z0, of z] by (simp add: ps_def se)
  have zl: "zrep h0 ps Leaf"
    using z0 zrep_plug [of h0 ps Leaf] descend_plug [of "[]" t "n_start n" "n_end n"] by (simp add: ps_def)
  have "set (path_ptrs ps) = set (ptrs t)"
    using descend_plug [of "[]" t "n_start n" "n_end n"] ptrs_plug [of ps Leaf] by (simp add: ps_def)
  then have zf: "z \<notin> set (path_ptrs ps)" using fresh by simp
  define h1 where "h1 = set_parent h0 z (pptr ps)"
  define h2 where "h2 = (if pptr ps = ROOT \<or> get_direction (h1 (pptr ps)) (istart (h1 z)) (iend (h1 z)) =
      DIRECTION_GO_LEFT then set_left h1 (pptr ps) z else set_right h1 (pptr ps) z)"
  have z2: "zrep h2 ps ?Z"
    unfolding h2_def h1_def using zl zf fresh n0 n
    by (intro zrep_link_leaf) (auto simp: ps_def descend_side)
  define y where "y = pptr ps"
  define h3 where "h3 = set_min h2 y (min (imin (h2 (ileft (h2 y)))) (istart (h2 y)))"
  define h4 where "h4 = set_max h3 y (max (imax (h3 (ileft (h3 y)))) (max (iend (h3 y)) (imax (h3 (iright (h3 y))))))"
  have "binary_tree_insert h z = Some h4"
    unfolding binary_tree_insert_def Let_def h0_def [symmetric] root desc option.case
    by (simp only: h4_def h3_def h2_def h1_def y_def)
  moreover have "\<exists>qs. zrep h4 qs ?Z \<and> fix_path qs ?Z = fix_path ps ?Z \<and> pptr qs = pptr ps"
  proof (cases ps)
    case Nil
    have "zrep h4 [] ?Z" using z2 fresh n by (auto simp: Nil y_def h4_def h3_def zrep_def holds_def)
    then show ?thesis using Nil by blast
  next
    case (Cons f qs)
    show ?thesis
    proof (cases f)
      case (FL m r)
      have z2': "zrep h2 qs (Node ?Z m r)" using z2 by (simp add: Cons FL zrep_FL)
      have "h4 = set_max (set_min h2 (n_ptr m) (min (n_min n) (n_start m))) (n_ptr m)
          (max (n_max n) (max (n_end m) (mx r)))"
        using zrep_nodes [OF z2'] zrep_read [OF z2'] zrep_children [OF z2']
        by (simp add: h4_def h3_def y_def Cons FL)
      then have "zrep h4 qs (Node ?Z (upd m ?Z r) r)"
        using zrep_set_value(1) [OF zrep_set_value(2) [OF z2']] by (simp add: upd_min_max)
      then have "zrep h4 (FL (upd m ?Z r) r # qs) ?Z" by (simp add: zrep_FL)
      then show ?thesis by (intro exI conjI, assumption) (simp_all add: Cons FL)
    next
      case (FR l m)
      have z2': "zrep h2 qs (Node l m ?Z)" using z2 by (simp add: Cons FR zrep_FR)
      have "h4 = set_max (set_min h2 (n_ptr m) (min (mn l) (n_start m))) (n_ptr m)
          (max (mx l) (max (n_end m) (n_max n)))"
        using zrep_nodes [OF z2'] zrep_read [OF z2'] zrep_children [OF z2']
        by (simp add: h4_def h3_def y_def Cons FR)
      then have "zrep h4 qs (Node l (upd m l ?Z) ?Z)"
        using zrep_set_value(1) [OF zrep_set_value(2) [OF z2']] by (simp add: upd_min_max)
      then have "zrep h4 (FR l (upd m l ?Z) # qs) ?Z" by (simp add: zrep_FR)
      then show ?thesis by (intro exI conjI, assumption) (simp_all add: Cons FR)
    qed
  qed
  ultimately show ?thesis by auto
qed

lemma fix_path_cong: "mx t = mx t' \<Longrightarrow> mn t = mn t' \<Longrightarrow> fix_path ps t = fix_path ps t'"
proof (induction ps arbitrary: t t')
  case (Cons f ps)
  then show ?case by (cases f) (auto simp: Let_def upd_def intro!: Cons.IH)
qed simp

lemma rep_frame: "(\<And>a. a \<in> set (ptrs t) \<Longrightarrow> h' a = h a) \<Longrightarrow> rep h' q t = rep h q t"
  by (induction t arbitrary: q) (auto simp: holds_def)

lemma zrep_fun_upd:
  "z \<notin> set (ptrs t) \<Longrightarrow> z \<noteq> NIL \<Longrightarrow> z \<noteq> ROOT \<Longrightarrow> zrep (h(z := v)) [] t = zrep h [] t"
proof -
  assume z: "z \<notin> set (ptrs t)" "z \<noteq> NIL" "z \<noteq> ROOT"
  have "rep (h(z := v)) ROOT t = rep h ROOT t" using z by (intro rep_frame) auto
  then show ?thesis using z by (auto simp: zrep_def sentinels_def)
qed

text \<open>All of the insertion on the store.\<close>

lemma insert_store_refines:
  assumes z: "zrep h [] t" and fresh: "z \<notin> set (ptrs t)" "z \<noteq> NIL" "z \<noteq> ROOT" and "rbt t"
    and n: "holds h n" "n_ptr n = z" and aug: "n_max n = n_end n" "n_min n = n_start n"
  shows "\<exists>h1 h2 h3. binary_tree_insert h z = Some h1 \<and>
    fixup_min_max_fields (set_red h1 z True) (iparent (h1 z)) = Some h2 \<and> insert_fixup h2 z = Some h3 \<and>
    zrep (set_red h3 (ileft (h3 ROOT)) False) [] (insert_tree (rd n) t)"
proof -
  let ?Z = "Node Leaf n Leaf" and ?R = "Node Leaf (rd n) Leaf"
  let ?ps = "descend [] t (n_start n) (n_end n)"
  obtain h1 qs where 1: "binary_tree_insert h z = Some h1" "zrep h1 qs ?Z"
      "fix_path qs ?Z = fix_path ?ps ?Z" "pptr qs = pptr ?ps"
    using binary_tree_insert_refines [OF z fresh n] by blast
  have par: "iparent (h1 z) = pptr qs" using zrep_tptr [OF 1(2)] n by simp
  have "zrep (set_red h1 z True) qs ?R" using zrep_set_value(3) [OF 1(2), of True] n by simp
  from fixup_min_max_refines [OF this] obtain h2 where
    2: "fixup_min_max_fields (set_red h1 z True) (pptr qs) = Some h2" "zrep h2 (fix_path qs ?R) ?R" by blast
  have "fix_path qs ?R = fix_path ?ps ?R"
    using 1(3) fix_path_cong [of ?R ?Z] by simp
  with 2 have 3: "zrep h2 (fix_path ?ps ?R) ?R" by simp
  have "rb_path ?ps 0" using assms(5) by (intro descend_rb) (auto simp: rbt_def)
  then obtain h3 where "insert_fixup h2 z = Some h3"
      "zrep (set_red h3 (ileft (h3 ROOT)) False) [] (ins_fix (fix_path ?ps ?R) ?R)"
    using insert_fixup_refines [OF 3] n by auto
  then show ?thesis using 1(1) 2(1) par by (simp add: insert_tree_def)
qed

end
