(* ===== verification/Cal_IntervalRemove.thy ===== *)
theory Cal_IntervalRemove
  imports Cal_IntervalRefine
begin

text \<open>
  The removal of a node on the store: the loop of \<^verbatim>\<open>intervaltree_fixup_deletion\<close> and the splicing of
  \<^verbatim>\<open>e_intervaltree_remove\<close> implement \<open>del_fix\<close> and \<open>remove_at\<close>. The sentinel's parent pointer, which
  the code sets and follows, is part of the correspondence.
\<close>

section \<open>The loop of the deletion\<close>

text \<open>The code reaches the parent of \<open>x\<close> through its parent pointer, also when \<open>x\<close> is the sentinel; the
  rotations leave that pointer alone.\<close>

lemma links_NIL:
  "x \<noteq> NIL \<Longrightarrow> y \<noteq> NIL \<Longrightarrow> iparent (left_links h x y NIL) = iparent (h NIL)"
  "x \<noteq> NIL \<Longrightarrow> y \<noteq> NIL \<Longrightarrow> iparent (right_links h y x NIL) = iparent (h NIL)"
  by (simp_all add: left_links_def right_links_def Let_def)

lemma left_rotate_NIL:
  assumes "zrep h ps (Node a x (Node b y c))"
  shows "iparent (left_rotate h (n_ptr x) NIL) = iparent (h NIL)"
proof -
  have "iright (h (n_ptr x)) = n_ptr y" "n_ptr x \<noteq> NIL" "n_ptr y \<noteq> NIL"
    using assms by (auto simp: zrep_def apart_def)
  then show ?thesis unfolding left_rotate_def Let_def read_set by (simp add: links_NIL)
qed

lemma right_rotate_NIL:
  assumes "zrep h ps (Node (Node a x b) y c)"
  shows "iparent (right_rotate h (n_ptr y) NIL) = iparent (h NIL)"
proof -
  have "ileft (h (n_ptr y)) = n_ptr x" "n_ptr x \<noteq> NIL" "n_ptr y \<noteq> NIL"
    using assms by (auto simp: zrep_def apart_def)
  then show ?thesis unfolding right_rotate_def Let_def read_set by (simp add: links_NIL)
qed

lemma zrep_parent:
  assumes "zrep h' ps t" and "iparent (h (tptr t)) = pptr ps" and "iparent (h' NIL) = iparent (h NIL)"
  shows "iparent (h' (tptr t)) = pptr ps"
  using assms by (cases t) (auto simp: zrep_def)

definition finish_left :: "store \<Rightarrow> ptr \<Rightarrow> ptr \<Rightarrow> store" where
  "finish_left h n w = left_rotate (set_red (set_red (set_red h w (ired (h n))) n False) (iright (h w)) False) n"

definition finish_right :: "store \<Rightarrow> ptr \<Rightarrow> ptr \<Rightarrow> store" where
  "finish_right h n w = right_rotate (set_red (set_red (set_red h w (ired (h n))) n False) (ileft (h w)) False) n"

lemma zrep_finish_left:
  assumes z: "zrep h ps (Node t n (Node wl m wr))" and wr: "wr \<noteq> Leaf"
  shows "zrep (finish_left h (n_ptr n) (n_ptr m)) ps
      (lrot (Node t (bk n) (Node wl (m\<lparr>n_red := n_red n\<rparr>) (blacken wr))))"
    and "iparent (finish_left h (n_ptr n) (n_ptr m) NIL) = iparent (h NIL)"
    and "\<not> ired (finish_left h (n_ptr n) (n_ptr m) (n_ptr n))"
proof -
  define g where "g = set_red (set_red (set_red h (n_ptr m) (n_red n)) (n_ptr n) False) (tptr wr) False"
  have "zrep (set_red h (n_ptr m) (n_red n)) ps (Node t n (Node wl (m\<lparr>n_red := n_red n\<rparr>) wr))"
    by (rule zrep_set_right(3) [OF z])
  then have "zrep (set_red (set_red h (n_ptr m) (n_red n)) (n_ptr n) False) ps
      (Node t (bk n) (Node wl (m\<lparr>n_red := n_red n\<rparr>) wr))"
    by (rule zrep_set_value(3))
  with zrep_blacken [of _ "FR wl (m\<lparr>n_red := n_red n\<rparr>) # FR t (bk n) # ps" wr, OF _ wr]
  have g: "zrep g ps (Node t (bk n) (Node wl (m\<lparr>n_red := n_red n\<rparr>) (blacken wr)))"
    by (simp add: zrep_FR g_def)
  have f: "finish_left h (n_ptr n) (n_ptr m) = left_rotate g (n_ptr n)"
    using zrep_read [OF z] zrep_read [of h "FR t n # ps" wl m wr] z by (simp add: finish_left_def g_def zrep_FR)
  show 1: "zrep (finish_left h (n_ptr n) (n_ptr m)) ps
      (lrot (Node t (bk n) (Node wl (m\<lparr>n_red := n_red n\<rparr>) (blacken wr))))"
    using zrep_left_rotate [OF g] by (simp add: f)
  show "iparent (finish_left h (n_ptr n) (n_ptr m) NIL) = iparent (h NIL)"
    using left_rotate_NIL [OF g] by (simp add: f g_def)
  obtain y where "zrep (finish_left h (n_ptr n) (n_ptr m)) (FL y (blacken wr) # ps) (Node t (upd (bk n) t wl) wl)"
    using 1 by (simp add: Let_def zrep_FL)
  from zrep_read [OF this] show "\<not> ired (finish_left h (n_ptr n) (n_ptr m) (n_ptr n))" by simp
qed

lemma deletion_black_left_refines:
  fixes root :: ptr
  assumes z: "zrep h ps (Node t n (Node wl m wr))" and par: "iparent (h (tptr t)) = n_ptr n"
    and s: "del_left t n (Node wl m wr) = (done, s)"
  defines "r \<equiv> deletion_black_left root h (tptr t) (n_ptr m)"
  shows "zrep (fst r) ps s \<and> snd r = (if done then root else n_ptr n) \<and> iparent (fst r NIL) = iparent (h NIL) \<and>
    (done \<longrightarrow> \<not> ired (fst r (n_ptr n))) \<and> (\<not> done \<longrightarrow> ileft (fst r ROOT) = ileft (h ROOT))"
proof -
  have zm: "zrep h (FR t n # ps) (Node wl m wr)" using z by (simp add: zrep_FR)
  have rd: "ileft (h (n_ptr m)) = tptr wl" "iright (h (n_ptr m)) = tptr wr" "ired (h (tptr wl)) = is_red wl"
    "ired (h (tptr wr)) = is_red wr" "ired (h (n_ptr n)) = n_red n"
    using zrep_read [OF zm] zrep_children [OF zm] zrep_read [OF z] by simp_all
  consider (case2) "\<not> is_red wr" "\<not> is_red wl" | (case4) "is_red wr" | (case3) "\<not> is_red wr" "is_red wl" by blast
  then show ?thesis
  proof cases
    case case2
    then show ?thesis using s par zrep_set_right(3) [OF z, of True]
      by (auto simp: r_def deletion_black_left_def del_left_def rd)
  next
    case case4
    then have wr: "wr \<noteq> Leaf" by auto
    have "r = (finish_left h (n_ptr n) (n_ptr m), root)"
      using case4 by (simp add: r_def deletion_black_left_def rd par Let_def finish_left_def)
    moreover have "done" "s = lrot (Node t (bk n) (Node wl (m\<lparr>n_red := n_red n\<rparr>) (blacken wr)))"
      using s case4 by (auto simp: del_left_def)
    ultimately show ?thesis using zrep_finish_left [OF z wr] by simp
  next
    case case3
    then obtain a k b where wl: "wl = Node a k b" by (cases wl) auto
    define g where "g = set_red (set_red h (tptr wl) False) (n_ptr m) True"
    define g' where "g' = right_rotate g (n_ptr m)"
    have zg: "zrep g (FR t n # ps) (Node (Node a (bk k) b) (rd m) wr)"
      using zrep_set_value(3) [OF zrep_set_left(3) [OF zm [unfolded wl], of False], of True] by (simp add: g_def wl)
    define m' where "m' = upd (rd m) b wr"
    define k' where "k' = upd (bk k) a (Node b m' wr)"
    have zg': "zrep g' ps (Node t n (Node a k' (Node b m' wr)))"
      using zrep_right_rotate [OF zg] by (simp add: g'_def Let_def zrep_FR k'_def m'_def)
    have nil: "iparent (g' NIL) = iparent (h NIL)" using right_rotate_NIL [OF zg] by (simp add: g'_def g_def)
    have par': "iparent (g' (tptr t)) = n_ptr n"
      using zrep_parent [of g' "FL n (Node a k' (Node b m' wr)) # ps" t h] par zg' nil by (simp add: zrep_FL)
    have "iright (g' (n_ptr n)) = n_ptr k'" "ired (g' (n_ptr n)) = n_red n" using zrep_read [OF zg'] by simp_all
    then have "r = (finish_left g' (n_ptr n) (n_ptr k'), root)"
      using case3 par par'
      by (simp add: r_def deletion_black_left_def rd Let_def finish_left_def g_def [symmetric] g'_def [symmetric])
    moreover have "done" "s = lrot (Node t (bk n) (Node a (k'\<lparr>n_red := n_red n\<rparr>) (blacken (Node b m' wr))))"
      using s case3 by (auto simp: del_left_def wl k'_def m'_def Let_def)
    ultimately show ?thesis using zrep_finish_left [OF zg'] nil by simp
  qed
qed

lemma zrep_finish_right:
  assumes z: "zrep h ps (Node (Node wl m wr) n t)" and wl: "wl \<noteq> Leaf"
  shows "zrep (finish_right h (n_ptr n) (n_ptr m)) ps
      (rrot (Node (Node (blacken wl) (m\<lparr>n_red := n_red n\<rparr>) wr) (bk n) t))"
    and "iparent (finish_right h (n_ptr n) (n_ptr m) NIL) = iparent (h NIL)"
    and "\<not> ired (finish_right h (n_ptr n) (n_ptr m) (n_ptr n))"
proof -
  define g where "g = set_red (set_red (set_red h (n_ptr m) (n_red n)) (n_ptr n) False) (tptr wl) False"
  have "zrep (set_red h (n_ptr m) (n_red n)) ps (Node (Node wl (m\<lparr>n_red := n_red n\<rparr>) wr) n t)"
    by (rule zrep_set_left(3) [OF z])
  then have "zrep (set_red (set_red h (n_ptr m) (n_red n)) (n_ptr n) False) ps
      (Node (Node wl (m\<lparr>n_red := n_red n\<rparr>) wr) (bk n) t)"
    by (rule zrep_set_value(3))
  with zrep_blacken [of _ "FL (m\<lparr>n_red := n_red n\<rparr>) wr # FL (bk n) t # ps" wl, OF _ wl]
  have g: "zrep g ps (Node (Node (blacken wl) (m\<lparr>n_red := n_red n\<rparr>) wr) (bk n) t)"
    by (simp add: zrep_FL g_def)
  have f: "finish_right h (n_ptr n) (n_ptr m) = right_rotate g (n_ptr n)"
    using zrep_read [OF z] zrep_read [of h "FL n t # ps" wl m wr] z by (simp add: finish_right_def g_def zrep_FL)
  show 1: "zrep (finish_right h (n_ptr n) (n_ptr m)) ps
      (rrot (Node (Node (blacken wl) (m\<lparr>n_red := n_red n\<rparr>) wr) (bk n) t))"
    using zrep_right_rotate [OF g] by (simp add: f)
  show "iparent (finish_right h (n_ptr n) (n_ptr m) NIL) = iparent (h NIL)"
    using right_rotate_NIL [OF g] by (simp add: f g_def)
  obtain y where "zrep (finish_right h (n_ptr n) (n_ptr m)) (FR (blacken wl) y # ps) (Node wr (upd (bk n) wr t) t)"
    using 1 by (simp add: Let_def zrep_FR)
  from zrep_read [OF this] show "\<not> ired (finish_right h (n_ptr n) (n_ptr m) (n_ptr n))" by simp
qed

lemma deletion_black_right_refines:
  fixes root :: ptr
  assumes z: "zrep h ps (Node (Node wl m wr) n t)" and par: "iparent (h (tptr t)) = n_ptr n"
    and s: "del_right (Node wl m wr) n t = (done, s)"
  defines "r \<equiv> deletion_black_right root h (tptr t) (n_ptr m)"
  shows "zrep (fst r) ps s \<and> snd r = (if done then root else n_ptr n) \<and> iparent (fst r NIL) = iparent (h NIL) \<and>
    (done \<longrightarrow> \<not> ired (fst r (n_ptr n))) \<and> (\<not> done \<longrightarrow> ileft (fst r ROOT) = ileft (h ROOT))"
proof -
  have zm: "zrep h (FL n t # ps) (Node wl m wr)" using z by (simp add: zrep_FL)
  have rd: "ileft (h (n_ptr m)) = tptr wl" "iright (h (n_ptr m)) = tptr wr" "ired (h (tptr wl)) = is_red wl"
    "ired (h (tptr wr)) = is_red wr" "ired (h (n_ptr n)) = n_red n"
    using zrep_read [OF zm] zrep_children [OF zm] zrep_read [OF z] by simp_all
  consider (case2) "\<not> is_red wr" "\<not> is_red wl" | (case4) "is_red wl" | (case3) "\<not> is_red wl" "is_red wr" by blast
  then show ?thesis
  proof cases
    case case2
    then show ?thesis using s par zrep_set_left(3) [OF z, of True]
      by (auto simp: r_def deletion_black_right_def del_right_def rd)
  next
    case case4
    then have wl: "wl \<noteq> Leaf" by auto
    have "r = (finish_right h (n_ptr n) (n_ptr m), root)"
      using case4 by (simp add: r_def deletion_black_right_def rd par Let_def finish_right_def)
    moreover have "done" "s = rrot (Node (Node (blacken wl) (m\<lparr>n_red := n_red n\<rparr>) wr) (bk n) t)"
      using s case4 by (auto simp: del_right_def)
    ultimately show ?thesis using zrep_finish_right [OF z wl] by simp
  next
    case case3
    then obtain b k a where wr: "wr = Node b k a" by (cases wr) auto
    define g where "g = set_red (set_red h (tptr wr) False) (n_ptr m) True"
    define g' where "g' = left_rotate g (n_ptr m)"
    have zg: "zrep g (FL n t # ps) (Node wl (rd m) (Node b (bk k) a))"
      using zrep_set_value(3) [OF zrep_set_right(3) [OF zm [unfolded wr], of False], of True] by (simp add: g_def wr)
    define m' where "m' = upd (rd m) wl b"
    define k' where "k' = upd (bk k) (Node wl m' b) a"
    have zg': "zrep g' ps (Node (Node (Node wl m' b) k' a) n t)"
      using zrep_left_rotate [OF zg] by (simp add: g'_def Let_def zrep_FL k'_def m'_def)
    have nil: "iparent (g' NIL) = iparent (h NIL)" using left_rotate_NIL [OF zg] by (simp add: g'_def g_def)
    have par': "iparent (g' (tptr t)) = n_ptr n"
      using zrep_parent [of g' "FR (Node (Node wl m' b) k' a) n # ps" t h] par zg' nil by (simp add: zrep_FR)
    have "ileft (g' (n_ptr n)) = n_ptr k'" "ired (g' (n_ptr n)) = n_red n" using zrep_read [OF zg'] by simp_all
    then have "r = (finish_right g' (n_ptr n) (n_ptr k'), root)"
      using case3 par par'
      by (simp add: r_def deletion_black_right_def rd Let_def finish_right_def g_def [symmetric] g'_def [symmetric])
    moreover have "done" "s = rrot (Node (Node (blacken (Node wl m' b)) (k'\<lparr>n_red := n_red n\<rparr>) a) (bk n) t)"
      using s case3 by (auto simp: del_right_def wr k'_def m'_def Let_def)
    ultimately show ?thesis using zrep_finish_right [OF zg'] nil by simp
  qed
qed

text \<open>A red sibling: the loop ends after this round, because the parent is red then.\<close>

lemma deletion_red_left_refines:
  fixes root :: ptr
  assumes z: "zrep h ps (Node t n w)" and par: "iparent (h (tptr t)) = n_ptr n" and t: "tptr t \<noteq> tptr w"
    and w: "w = Node wl m wr" "n_red m" and wl: "wl \<noteq> Leaf"
  defines "r \<equiv> fixup_deletion_body root h (tptr t)"
  shows "\<exists>done T. zrep (fst r) ps T \<and>
    (done \<longrightarrow> snd r = root \<and> \<not> ired (fst r (n_ptr n)) \<and> T = del_red_left t n w) \<and>
    (\<not> done \<longrightarrow> snd r = n_ptr n \<and> ired (fst r (n_ptr n)) \<and>
       zrep (set_red (fst r) (n_ptr n) False) ps (del_red_left t n w))"
proof -
  obtain a k b where wl': "wl = Node a k b" using wl by (cases wl) auto
  define g where "g = set_red (set_red h (n_ptr m) False) (n_ptr n) True"
  have zg: "zrep g ps (Node t (rd n) (Node wl (bk m) wr))"
    using zrep_set_value(3) [OF zrep_set_right(3) [OF z [unfolded w], of False], of True] by (simp add: g_def)
  define g' where "g' = left_rotate g (n_ptr n)"
  define n' where "n' = upd (rd n) t wl"
  define m' where "m' = upd (bk m) (Node t n' wl) wr"
  have zg': "zrep g' (FL m' wr # ps) (Node t n' wl)"
    using zrep_left_rotate [OF zg] by (simp add: g'_def Let_def zrep_FL n'_def m'_def)
  have nil: "iparent (g' NIL) = iparent (h NIL)" using left_rotate_NIL [OF zg] by (simp add: g'_def g_def)
  have par': "iparent (g' (tptr t)) = n_ptr n"
    using zrep_parent [of g' "FL n' wl # FL m' wr # ps" t h] par zg' nil by (simp add: zrep_FL n'_def)
  have rd: "ileft (h (n_ptr n)) = tptr t" "iright (h (n_ptr n)) = n_ptr m" "ired (h (n_ptr m))"
    using zrep_read [OF z] zrep_children [OF z] w by simp_all
  have rd': "iright (g' (n_ptr n)) = n_ptr k" using zrep_read [OF zg'] by (simp add: n'_def wl')
  have r: "r = deletion_black_left root g' (tptr t) (n_ptr k)"
    by (simp add: r_def fixup_deletion_body_def par rd Let_def g_def [symmetric] g'_def [symmetric] par' rd')
  obtain d s where s: "del_left t n' (Node a k b) = (d, s)" by fastforce
  have par2: "iparent (g' (tptr t)) = n_ptr n'" using par' by (simp add: n'_def)
  note bl = deletion_black_left_refines [OF zg' [unfolded wl'] par2 s, of root]
  have eq: "del_red_left t n w = Node (if d then s else blacken s) m' wr"
    using s by (simp add: w wl' Let_def n'_def m'_def)
  have zs: "zrep (fst r) ps (Node s m' wr)" using bl by (simp add: r zrep_FL)
  show ?thesis
  proof (cases d)
    case True
    then show ?thesis using bl zs eq by (intro exI [of _ True] exI [of _ "Node s m' wr"]) (simp add: r n'_def)
  next
    case False
    then obtain e where e: "s = Node t n' e"
      using s by (auto simp: del_left_def split: if_splits tree.splits)
    have "zrep (set_red (fst r) (n_ptr n) False) ps (Node (blacken s) m' wr)"
      using zrep_set_left(3) [OF zs [unfolded e], of False] by (simp add: e n'_def)
    moreover have "ired (fst r (n_ptr n))"
      using zrep_read [of "fst r" "FL m' wr # ps" t n' e] zs by (simp add: zrep_FL e n'_def)
    ultimately show ?thesis
      using bl False zs eq by (intro exI [of _ False] exI [of _ "Node s m' wr"]) (simp add: r n'_def)
  qed
qed

lemma deletion_red_right_refines:
  fixes root :: ptr
  assumes z: "zrep h ps (Node w n t)" and par: "iparent (h (tptr t)) = n_ptr n" and t: "tptr t \<noteq> tptr w"
    and w: "w = Node wl m wr" "n_red m" and wr: "wr \<noteq> Leaf"
  defines "r \<equiv> fixup_deletion_body root h (tptr t)"
  shows "\<exists>done T. zrep (fst r) ps T \<and>
    (done \<longrightarrow> snd r = root \<and> \<not> ired (fst r (n_ptr n)) \<and> T = del_red_right w n t) \<and>
    (\<not> done \<longrightarrow> snd r = n_ptr n \<and> ired (fst r (n_ptr n)) \<and>
       zrep (set_red (fst r) (n_ptr n) False) ps (del_red_right w n t))"
proof -
  obtain b k a where wr': "wr = Node b k a" using wr by (cases wr) auto
  define g where "g = set_red (set_red h (n_ptr m) False) (n_ptr n) True"
  have zg: "zrep g ps (Node (Node wl (bk m) wr) (rd n) t)"
    using zrep_set_value(3) [OF zrep_set_left(3) [OF z [unfolded w], of False], of True] by (simp add: g_def)
  define g' where "g' = right_rotate g (n_ptr n)"
  define n' where "n' = upd (rd n) wr t"
  define m' where "m' = upd (bk m) wl (Node wr n' t)"
  have zg': "zrep g' (FR wl m' # ps) (Node wr n' t)"
    using zrep_right_rotate [OF zg] by (simp add: g'_def Let_def zrep_FR n'_def m'_def)
  have nil: "iparent (g' NIL) = iparent (h NIL)" using right_rotate_NIL [OF zg] by (simp add: g'_def g_def)
  have par': "iparent (g' (tptr t)) = n_ptr n"
    using zrep_parent [of g' "FR wr n' # FR wl m' # ps" t h] par zg' nil by (simp add: zrep_FR n'_def)
  have rd: "iright (h (n_ptr n)) = tptr t" "ileft (h (n_ptr n)) = n_ptr m" "ired (h (n_ptr m))"
    using zrep_read [OF z] zrep_children [OF z] w by simp_all
  have ne: "tptr t \<noteq> n_ptr m" using t w by simp
  have rd': "ileft (g' (n_ptr n)) = n_ptr k" using zrep_read [OF zg'] by (simp add: n'_def wr')
  have r: "r = deletion_black_right root g' (tptr t) (n_ptr k)"
    using ne by (simp add: r_def fixup_deletion_body_def par rd Let_def g_def [symmetric] g'_def [symmetric] par' rd')
  obtain d s where s: "del_right (Node b k a) n' t = (d, s)" by fastforce
  have par2: "iparent (g' (tptr t)) = n_ptr n'" using par' by (simp add: n'_def)
  note bl = deletion_black_right_refines [OF zg' [unfolded wr'] par2 s, of root]
  have eq: "del_red_right w n t = Node wl m' (if d then s else blacken s)"
    using s by (simp add: w wr' Let_def n'_def m'_def)
  have zs: "zrep (fst r) ps (Node wl m' s)" using bl by (simp add: r zrep_FR)
  show ?thesis
  proof (cases d)
    case True
    then show ?thesis using bl zs eq by (intro exI [of _ True] exI [of _ "Node wl m' s"]) (simp add: r n'_def)
  next
    case False
    then obtain e where e: "s = Node e n' t"
      using s by (auto simp: del_right_def split: if_splits tree.splits)
    have "zrep (set_red (fst r) (n_ptr n) False) ps (Node wl m' (blacken s))"
      using zrep_set_right(3) [OF zs [unfolded e], of False] by (simp add: e n'_def)
    moreover have "ired (fst r (n_ptr n))"
      using zrep_read [of "fst r" "FR wl m' # ps" e n' t] zs by (simp add: zrep_FR e n'_def)
    ultimately show ?thesis
      using bl False zs eq by (intro exI [of _ False] exI [of _ "Node wl m' s"]) (simp add: r n'_def)
  qed
qed

text \<open>The loop ends where \<open>x\<close> is red or the root; painting the old root changes nothing, because it is
  black.\<close>

fun outer :: "frame list \<Rightarrow> inode" where
  "outer [f] = fnode f" | "outer (f # g # ps) = outer (g # ps)"

lemma zrep_outer:
  assumes "zrep h ps t" and "ps \<noteq> []"
  shows "ileft (h ROOT) = n_ptr (outer ps) \<and> ired (h (n_ptr (outer ps))) = n_red (outer ps) \<and>
    n_ptr (outer ps) \<in> set (path_ptrs ps)"
  using assms
proof (induction ps arbitrary: t)
  case (Cons f ps)
  have "\<exists>t'. zrep h ps t'" using Cons.prems(1) by (cases f) (auto simp: zrep_FL zrep_FR)
  then show ?case
    using Cons by (cases f; cases ps) (auto simp: zrep_def holds_def)
qed simp

lemma rb_path_outer: "rb_path ps k \<Longrightarrow> ps \<noteq> [] \<Longrightarrow> \<not> n_red (outer ps)"
proof (induction ps arbitrary: k)
  case (Cons f ps)
  then show ?case by (cases f; cases ps) (auto split: if_splits)
qed simp

lemma set_red_same: "ired (h p) = b \<Longrightarrow> set_red h p b = h"
  by (auto simp: set_red_def fun_eq_iff)

lemma zrep_paint: "zrep h ps t \<Longrightarrow> zrep (set_red h (tptr t) False) ps (blacken t)"
proof (cases "t = Leaf")
  case True
  then show "zrep h ps t \<Longrightarrow> ?thesis" by (simp add: zrep_def sentinels_def set_red_same)
qed (rule zrep_blacken)

lemma deletion_loop_stop:
  "ired (h x) \<or> root = x \<Longrightarrow> fixup_deletion_loop root h x = Some (set_red h x False)"
  by (subst fixup_deletion_loop.simps) auto

lemma deletion_loop_refines:
  assumes "zrep h ps t" and "iparent (h (tptr t)) = pptr ps" and "rb_path ps (Suc (bh t))" and "rb (blacken t)"
  shows "\<exists>h'. fixup_deletion_loop (ileft (h ROOT)) h (tptr t) = Some h' \<and> zrep h' [] (del_fix ps t)"
  using assms
proof (induction ps arbitrary: h t)
  case Nil
  have "ileft (h ROOT) = tptr t" using Nil.prems(1) by (simp add: zrep_def)
  then show ?case using zrep_paint [OF Nil.prems(1)] by (simp add: deletion_loop_stop)
next
  case (Cons f ps)
  let ?root = "ileft (h ROOT)"
  show ?case
  proof (cases "is_red t")
    case True
    have "fixup_deletion_loop ?root h (tptr t) = Some (set_red h (tptr t) False)"
      using True zrep_values [OF Cons.prems(1)] by (intro deletion_loop_stop) simp
    moreover have "zrep (set_red h (tptr t) False) [] (plug (f # ps) (blacken t))"
      using zrep_paint [OF Cons.prems(1)] zrep_plug by blast
    ultimately show ?thesis using True by (cases f) auto
  next
    case False
    have out: "?root = n_ptr (outer (f # ps))" "n_ptr (outer (f # ps)) \<in> set (path_ptrs (f # ps))"
      using zrep_outer [OF Cons.prems(1)] by simp_all
    then have "?root \<noteq> tptr t"
      using Cons.prems(1) tptr_in [of t] by (auto simp: zrep_def apart_def)
    let ?r = "fixup_deletion_body ?root h (tptr t)"
    have step: "fixup_deletion_loop ?root h (tptr t) = fixup_deletion_loop ?root (fst ?r) (snd ?r)"
      using False \<open>?root \<noteq> tptr t\<close> zrep_values [OF Cons.prems(1)]
      by (subst fixup_deletion_loop.simps) simp
    have ends: ?thesis
      if "zrep (fst ?r) ps T" "snd ?r = ?root" "\<not> ired (fst ?r (n_ptr (fnode f)))" "del_fix (f # ps) t = plug ps T" for T
    proof -
      have "\<not> ired (fst ?r ?root)"
      proof (cases "ps = []")
        case True
        then show ?thesis using that(3) out by simp
      next
        case False
        have "\<not> n_red (outer ps)"
          using Cons.prems(3) False by (cases f) (auto dest: rb_path_outer split: if_splits)
        moreover have "outer (f # ps) = outer ps" using False by (cases ps) auto
        ultimately show ?thesis using zrep_outer [OF that(1) False] out by simp
      qed
      then have "fixup_deletion_loop ?root (fst ?r) (snd ?r) = Some (fst ?r)"
        using that(2) by (simp add: deletion_loop_stop set_red_same)
      then show ?thesis using that zrep_plug step by simp
    qed
    have red_ends: ?thesis
      if "ired (fst ?r (n_ptr (fnode f)))" "snd ?r = n_ptr (fnode f)"
        "zrep (set_red (fst ?r) (n_ptr (fnode f)) False) ps T" "del_fix (f # ps) t = plug ps T" for T
      using that zrep_plug step by (simp add: deletion_loop_stop)
    have t: "rb t" using Cons.prems(4) False by (simp add: blacken_black)
    show ?thesis
    proof (cases f)
      case (FL n w)
      have z: "zrep h ps (Node t n w)" and par: "iparent (h (tptr t)) = n_ptr n"
        using Cons.prems(1,2) by (simp_all add: FL zrep_FL)
      have rbw: "rb w" "bh w = Suc (bh t)" "n_red n \<longrightarrow> \<not> is_red w" using Cons.prems(3) by (auto simp: FL)
      then obtain wl m wr where w: "w = Node wl m wr" by (cases w) auto
      have ne: "tptr t \<noteq> tptr w" using zrep_siblings' [OF z] w by auto
      show ?thesis
      proof (cases "n_red m")
        case True
        then have "wl \<noteq> Leaf" using rbw w by auto
        from deletion_red_left_refines [OF z par ne w True this, of ?root]
        show ?thesis using ends red_ends False True w by (auto simp: FL)
      next
        case blk: False
        obtain d s where s: "del_left t n (Node wl m wr) = (d, s)" by fastforce
        have rd: "ileft (h (n_ptr n)) = tptr t" "iright (h (n_ptr n)) = n_ptr m" "\<not> ired (h (n_ptr m))"
          using zrep_read [OF z] zrep_children [OF z] w blk by simp_all
        have r: "?r = deletion_black_left ?root h (tptr t) (n_ptr m)"
          using rd ne w by (simp add: fixup_deletion_body_def par)
        note bl = deletion_black_left_refines [OF z [unfolded w] par s, of ?root, folded r]
        show ?thesis
        proof (cases d)
          case True
          then show ?thesis using bl s w blk False by (intro ends [of s]) (auto simp: FL)
        next
          case nd: False
          then have top: "tptr s = n_ptr n" "s \<noteq> Leaf" using s by (auto simp: del_left_def split: if_splits tree.splits)
          have rbs: "rb_path ps (Suc (bh s))" "rb (blacken s)"
            using rb_del_left [OF t False rbw(1) _ rbw(2), of n d s] s w blk nd Cons.prems(3)
            by (auto simp: FL split: if_splits)
          have "zrep (fst ?r) ps s" using bl by blast
          from Cons.IH [OF this zrep_tptr [OF this top(2)] rbs]
          show ?thesis using bl nd top step s w blk False by (auto simp: FL)
        qed
      qed
    next
      case (FR w n)
      have z: "zrep h ps (Node w n t)" and par: "iparent (h (tptr t)) = n_ptr n"
        using Cons.prems(1,2) by (simp_all add: FR zrep_FR)
      have rbw: "rb w" "bh w = Suc (bh t)" "n_red n \<longrightarrow> \<not> is_red w" using Cons.prems(3) by (auto simp: FR)
      then obtain wl m wr where w: "w = Node wl m wr" by (cases w) auto
      have ne: "tptr t \<noteq> tptr w" using zrep_siblings [OF z] w by auto
      show ?thesis
      proof (cases "n_red m")
        case True
        then have "wr \<noteq> Leaf" using rbw w by auto
        from deletion_red_right_refines [OF z par ne w True this, of ?root]
        show ?thesis using ends red_ends False True w by (auto simp: FR)
      next
        case blk: False
        obtain d s where s: "del_right (Node wl m wr) n t = (d, s)" by fastforce
        have rd: "iright (h (n_ptr n)) = tptr t" "ileft (h (n_ptr n)) = n_ptr m" "\<not> ired (h (n_ptr m))"
          using zrep_read [OF z] zrep_children [OF z] w blk by simp_all
        have r: "?r = deletion_black_right ?root h (tptr t) (n_ptr m)"
          using rd ne w by (simp add: fixup_deletion_body_def par)
        note bl = deletion_black_right_refines [OF z [unfolded w] par s, of ?root, folded r]
        show ?thesis
        proof (cases d)
          case True
          then show ?thesis using bl s w blk False by (intro ends [of s]) (auto simp: FR)
        next
          case nd: False
          then have top: "tptr s = n_ptr n" "s \<noteq> Leaf" using s by (auto simp: del_right_def split: if_splits tree.splits)
          have rbs: "rb_path ps (Suc (bh s))" "rb (blacken s)"
            using rb_del_right [OF t False rbw(1) _ rbw(2), of n d s] s w blk nd Cons.prems(3)
            by (auto simp: FR split: if_splits)
          have "zrep (fst ?r) ps s" using bl by blast
          from Cons.IH [OF this zrep_tptr [OF this top(2)] rbs]
          show ?thesis using bl nd top step s w blk False by (auto simp: FR)
        qed
      qed
    qed
  qed
qed

section \<open>Splicing out a node\<close>

lemma splice_out_refines:
  assumes z: "zrep h ps (Node l n r)" and c: "l = Leaf \<and> c = r \<or> r = Leaf \<and> c = l"
  shows "zrep (splice_out h (tptr c) (n_ptr n)) ps c \<and> iparent (splice_out h (tptr c) (n_ptr n) (tptr c)) = pptr ps \<and>
    (\<forall>a. ired (splice_out h (tptr c) (n_ptr n) a) = ired (h a)) \<and>
    (holds (splice_out h (tptr c) (n_ptr n)) m = holds h m)"
proof -
  have sep: "apart (path_ptrs ps @ ptrs (Node l n r))" and p: "prep h ps (n_ptr n)"
    and r: "iparent (h (n_ptr n)) = pptr ps" "sentinels h"
    using z by (simp_all add: zrep_def)
  note s = apart_node [OF sep] apart_ptrs [OF sep]
  have cne: "tptr c \<noteq> n_ptr n" "tptr c \<notin> set (path_ptrs ps)" "pptr ps \<noteq> tptr c" "pptr ps \<notin> set (ptrs c)"
    "n_ptr n \<notin> set (ptrs c)" "distinct (ptrs c)"
    using c s by auto
  have rc: "rep h (n_ptr n) c" using c z by (auto simp: zrep_def)
  define h1 where "h1 = set_parent h (tptr c) (pptr ps)"
  have h1: "splice_out h (tptr c) (n_ptr n) = replace_child h1 (pptr ps) (n_ptr n) (tptr c)"
  proof (cases ps)
    case Nil
    then have "n_ptr n = ileft (h ROOT)" using p by simp
    then show ?thesis using Nil cne r by (simp add: splice_out_def Let_def h1_def replace_child_def)
  next
    case (Cons f qs)
    then have "pptr ps \<noteq> ROOT" using sep pptr_in [of ps] by (cases f) (auto simp: apart_def)
    then show ?thesis using cne r by (simp add: splice_out_def Let_def h1_def)
  qed
  have p1: "prep h1 ps (n_ptr n)" using p cne by (simp add: h1_def)
  have "prep (splice_out h (tptr c) (n_ptr n)) ps (tptr c)"
    unfolding h1 using p1 s by (intro prep_replace_child) auto
  moreover have "rep (splice_out h (tptr c) (n_ptr n)) (pptr ps) c"
    using rep_set_parent [OF rc cne(6)] cne by (simp add: h1 h1_def)
  moreover have "sentinels (splice_out h (tptr c) (n_ptr n))"
    using sentinels_replace_child [OF p1] s r by (simp add: h1 h1_def)
  moreover have "apart (path_ptrs ps @ ptrs c)" using sep c by (auto simp: apart_def)
  moreover have "ired (replace_child h1 (pptr ps) (n_ptr n) (tptr c) a) = ired (h a)" for a
    by (simp add: replace_child_def h1_def)
  ultimately show ?thesis by (simp add: zrep_def h1) (simp add: h1_def)
qed

lemma subtree_minimum_refines:
  "zrep h ps t \<Longrightarrow> t \<noteq> Leaf \<Longrightarrow> min_path ps t = (qs, y, x) \<Longrightarrow>
    subtree_minimum h (tptr t) = Some (n_ptr y) \<and> zrep h qs (Node Leaf y x)"
proof (induction ps t rule: min_path.induct)
  case (1 ps n r)
  then show ?case using zrep_read [OF 1(1)] by (subst subtree_minimum.simps) simp
next
  case (2 ps a m b n r)
  have "zrep h (FL n r # ps) (Node a m b)" using 2(2) by (simp add: zrep_FL)
  with 2(1,4) have "subtree_minimum h (tptr (Node a m b)) = Some (n_ptr y) \<and> zrep h qs (Node Leaf y x)"
    by simp
  then show ?case using zrep_read [OF 2(2)] zrep_nodes [OF \<open>zrep h (FL n r # ps) _\<close>]
    by (subst subtree_minimum.simps) simp
qed simp

text \<open>The successor \<open>y\<close>, spliced out before, takes the place of \<open>z\<close>.\<close>

lemma replace_node_refines:
  assumes z: "zrep h ps (Node l n r)" and l: "l \<noteq> Leaf"
    and y: "holds h m" "n_ptr m \<notin> set (path_ptrs ps @ ptrs (Node l n r))" "n_ptr m \<noteq> NIL" "n_ptr m \<noteq> ROOT"
  defines "g \<equiv> replace_node h (n_ptr m) (n_ptr n)"
  shows "zrep g ps (Node l (m\<lparr>n_max := TIME_T_MIN, n_min := TIME_T_MAX\<rparr>) r)"
    and "iparent (g (tptr r)) = n_ptr m"
    and "a \<noteq> tptr r \<Longrightarrow> a \<noteq> tptr l \<Longrightarrow> a \<noteq> n_ptr m \<Longrightarrow> iparent (g a) = iparent (h a)"
    and "ired (g a) = ired (h a)"
proof -
  let ?m = "m\<lparr>n_max := TIME_T_MIN, n_min := TIME_T_MAX\<rparr>"
  have sep: "apart (path_ptrs ps @ ptrs (Node l n r))" and p: "prep h ps (n_ptr n)" and sen: "sentinels h"
    and rl: "rep h (n_ptr n) l" and rr: "rep h (n_ptr n) r"
    using z by (simp_all add: zrep_def)
  have sep': "apart (path_ptrs ps @ ptrs (Node l m r))" using sep y by (auto simp: apart_def)
  note s = apart_node [OF sep] apart_ptrs [OF sep] apart_node [OF sep'] apart_ptrs [OF sep']
  have mn: "n_ptr m \<noteq> n_ptr n" "n_ptr n \<noteq> n_ptr m" using y by auto
  have lr: "tptr l \<noteq> tptr r" by (rule zrep_siblings [OF z l])
  note rd = zrep_read [OF z]
  define h1 where "h1 = set_parent (set_right (set_left (set_min (set_max h (n_ptr m) TIME_T_MIN) (n_ptr m) TIME_T_MAX)
      (n_ptr m) (tptr l)) (n_ptr m) (tptr r)) (n_ptr m) (pptr ps)"
  define h2 where "h2 = set_parent (set_parent h1 (tptr r) (n_ptr m)) (tptr l) (n_ptr m)"
  have g: "g = replace_child h2 (pptr ps) (n_ptr n) (n_ptr m)"
    using rd mn s by (simp add: g_def replace_node_def Let_def h2_def h1_def)
  have p2: "prep h2 ps (n_ptr n)" using p s by (simp add: h2_def h1_def)
  have "prep g ps (n_ptr m)" unfolding g using p2 s by (intro prep_replace_child) auto
  moreover have "rep h1 (n_ptr n) l" "rep h1 (n_ptr n) r" using rl rr s by (simp_all add: h1_def)
  then have "rep (set_parent h1 (tptr r) (n_ptr m)) (n_ptr m) r" "rep (set_parent h1 (tptr r) (n_ptr m)) (n_ptr n) l"
    using s rep_set_parent by simp_all
  then have "rep h2 (n_ptr m) r" "rep h2 (n_ptr m) l" using s rep_set_parent by (simp_all add: h2_def)
  then have "rep g (n_ptr m) l" "rep g (n_ptr m) r" using s by (simp_all add: g)
  moreover have "sentinels g" using sentinels_replace_child [OF p2] s sen by (simp add: g h2_def h1_def)
  moreover have "holds g ?m" using y(1) by (simp add: g h2_def h1_def holds_def replace_child_def)
  moreover have "ileft (g (n_ptr m)) = tptr l" "iright (g (n_ptr m)) = tptr r" "iparent (g (n_ptr m)) = pptr ps"
    using s by (simp_all add: g h2_def h1_def)
  ultimately show "zrep g ps (Node l ?m r)" using sep' by (simp add: zrep_def)
  show "iparent (g (tptr r)) = n_ptr m" using lr by (simp add: g h2_def)
  show "iparent (g a) = iparent (h a)" if "a \<noteq> tptr r" "a \<noteq> tptr l" "a \<noteq> n_ptr m"
    using that by (simp add: g h2_def h1_def)
  show "ired (g a) = ired (h a)" by (simp add: g h2_def h1_def replace_child_def)
qed

text \<open>Rebalancing after the removal of a node of colour \<open>red\<close>.\<close>

lemma rebalance_refines:
  assumes "zrep h ps t" and "iparent (h (tptr t)) = pptr ps"
    and "\<not> red \<Longrightarrow> rb_path ps (Suc (bh t)) \<and> rb t"
  shows "\<exists>h'. (if \<not> red then intervaltree_fixup_deletion h (tptr t) else Some h) = Some h' \<and>
    zrep h' [] (if red then plug ps t else del_fix ps t)"
  using deletion_loop_refines [OF assms(1,2)] assms zrep_plug
  by (auto simp: intervaltree_fixup_deletion_def)

lemma fix_path_append: "fix_path (qs @ ps) t = fix_path qs t @ fix_path ps (plug (fix_path qs t) t)"
  by (induction qs t rule: fix_path.induct) (auto simp: Let_def)

lemma zrep_append: "zrep h (qs @ ps) t = zrep h ps (plug qs t)"
  using zrep_plug [of h "qs @ ps" t] zrep_plug [of h ps "plug qs t"] by (simp add: plug_append)

text \<open>A node with at most one child.\<close>

lemma remove_node_one:
  assumes z: "zrep h ps (Node l z r)" and c: "l = Leaf \<and> c = r \<or> r = Leaf \<and> c = l"
    and rbt: "rbt (plug ps (Node l z r))"
  shows "\<exists>h'. remove_node h (n_ptr z) = Some h' \<and> zrep h' [] (splice ps (n_red z) c)"
proof -
  note rd = zrep_read [OF z]
  have leaf: "tptr l = NIL \<longleftrightarrow> l = Leaf" "tptr r = NIL \<longleftrightarrow> r = Leaf"
    using z tptr_NIL [of l] tptr_NIL [of r] by (auto simp: zrep_def apart_def)
  define g where "g = splice_out h (tptr c) (n_ptr z)"
  have x: "(if ileft (h (n_ptr z)) = NIL then iright (h (n_ptr z)) else ileft (h (n_ptr z))) = tptr c"
    using rd c leaf by auto
  have g: "zrep g ps c" "iparent (g (tptr c)) = pptr ps" "ired (g (n_ptr z)) = n_red z"
    using splice_out_refines [OF z c, of z] rd by (simp_all add: g_def)
  obtain h2 where h2: "fixup_min_max_fields g (pptr ps) = Some h2" "zrep h2 (fix_path ps c) c"
      "\<And>a. iparent (h2 a) = iparent (g a) \<and> ired (h2 a) = ired (g a)"
    using fixup_min_max_refines [OF g(1)] by blast
  have pp: "pptr (fix_path ps c) = pptr ps"
    by (cases "(ps, c)" rule: fix_path.cases) (simp_all add: Let_def)
  have "rb_path ps (Suc (bh c)) \<and> rb c" if "\<not> n_red z"
    using rbt c that by (auto simp: rbt_plug)
  with rebalance_refines [OF h2(2), of "n_red z"] obtain h' where
    h': "(if \<not> n_red z then intervaltree_fixup_deletion h2 (tptr c) else Some h2) = Some h'"
      "zrep h' [] (splice ps (n_red z) c)"
    using h2(3) g(2) pp by (auto simp: splice_def)
  have "ileft (h (n_ptr z)) = NIL \<or> iright (h (n_ptr z)) = NIL" using rd c by auto
  then have "remove_node h (n_ptr z) = Some h'"
    using h'(1) h2(1) h2(3) g x by (simp add: remove_node_def g_def [symmetric] Let_def)
  with h'(2) show ?thesis by blast
qed

lemma path_ptrs_append [simp]: "path_ptrs (qs @ ps) = path_ptrs qs @ path_ptrs ps"
  by (induction qs rule: path_ptrs.induct) auto

lemma pptr_fix_path [simp]: "pptr (fix_path ps t) = pptr ps"
  by (cases "(ps, t)" rule: fix_path.cases) (simp_all add: Let_def)

lemma pptr_append: "pptr (qs @ FR l n # ps) = (if qs = [] then n_ptr n else pptr qs)"
  by (cases qs) auto

text \<open>Recolouring a node of the path after its values have been recomputed.\<close>

lemma zrep_recolour:
  assumes "zrep h (fix_path (qs @ FR l (n\<lparr>n_max := i, n_min := j\<rparr>) # ps) x) x"
  shows "zrep (set_red h (n_ptr n) b) (fix_path (qs @ FR l (n\<lparr>n_red := b\<rparr>) # ps) x) x"
proof -
  define R where "R = plug (fix_path qs x) x"
  let ?m = "upd (n\<lparr>n_max := i, n_min := j\<rparr>) l R" and ?k = "upd (n\<lparr>n_red := b\<rparr>) l R"
  have recol: "?m\<lparr>n_red := b\<rparr> = ?k" and ptr: "n_ptr ?m = n_ptr n"
    by (rule inode.equality) (simp_all add: upd_def)
  have "zrep h (fix_path ps (Node l ?m R)) (Node l ?m R)"
    using assms by (simp add: fix_path_append zrep_append R_def [symmetric] Let_def zrep_FR)
  from zrep_set_value(3) [OF this, of b]
  have "zrep (set_red h (n_ptr n) b) (fix_path ps (Node l ?m R)) (Node l ?k R)"
    by (simp only: recol ptr)
  moreover have "fix_path ps (Node l ?m R) = fix_path ps (Node l ?k R)"
    by (rule fix_path_cong) simp_all
  ultimately show ?thesis
    by (simp add: fix_path_append zrep_append R_def [symmetric] Let_def zrep_FR)
qed

text \<open>A node with two children.\<close>

lemma remove_node_two:
  assumes z: "zrep h ps (Node l z r)" and lr: "l \<noteq> Leaf" "r \<noteq> Leaf"
    and m: "min_path [] r = (qs, y, x)" and rbt: "rbt (plug ps (Node l z r))"
  shows "\<exists>h'. remove_node h (n_ptr z) = Some h' \<and>
    zrep h' [] (splice (qs @ FR l (y\<lparr>n_red := n_red z\<rparr>) # ps) (n_red y) x)"
proof -
  note rd = zrep_read [OF z]
  let ?Y = "n_ptr y" and ?Z = "n_ptr z" and ?y = "y\<lparr>n_max := TIME_T_MIN, n_min := TIME_T_MAX\<rparr>"
  have ne: "tptr l \<noteq> NIL" "tptr r \<noteq> NIL"
    using z tptr_NIL [of l] tptr_NIL [of r] lr by (auto simp: zrep_def apart_def)
  have zr: "zrep h (FR l z # ps) r" using z by (simp add: zrep_FR)
  have m': "min_path (FR l z # ps) r = (qs @ FR l z # ps, y, x)" using min_path_append [OF m] by simp
  have next': "intervaltree_node_next h ?Z = Some ?Y" and zy: "zrep h (qs @ FR l z # ps) (Node Leaf y x)"
    using subtree_minimum_refines [OF zr lr(2) m'] rd ne by (auto simp: intervaltree_node_next_def)
  have fresh: "?Y \<notin> set (path_ptrs (qs @ FR l z # ps) @ ptrs x)" "?Y \<noteq> NIL" "?Y \<noteq> ROOT" "?Y \<noteq> ?Z"
    and hy: "holds h y" "ileft (h ?Y) = NIL" "iright (h ?Y) = tptr x"
    using zy by (auto simp: zrep_def apart_def)
  have sx: "(if ileft (h ?Y) = NIL then iright (h ?Y) else ileft (h ?Y)) = tptr x" using hy by simp
  define g where "g = splice_out h (tptr x) ?Y"
  have g: "zrep g (qs @ FR l z # ps) x" "iparent (g (tptr x)) = pptr (qs @ FR l z # ps)"
      "\<And>a. ired (g a) = ired (h a)" "holds g y"
    using splice_out_refines [OF zy, of x y] hy(1) by (simp_all add: g_def)
  let ?R = "plug qs x"
  have gR: "zrep g ps (Node l z ?R)" using g(1) by (simp add: zrep_append zrep_FR)
  have yR: "?Y \<notin> set (path_ptrs ps @ ptrs (Node l z ?R))" using fresh by (auto simp: ptrs_plug)
  define k where "k = replace_node g ?Y ?Z"
  note kr = replace_node_refines [OF gR lr(1) g(4) yR fresh(2,3), folded k_def]
  have k: "zrep k (qs @ FR l ?y # ps) x" using kr(1) by (simp add: zrep_append zrep_FR)
  have kp: "iparent (k (tptr x)) = pptr (qs @ FR l ?y # ps)"
  proof (cases "x = Leaf \<and> qs \<noteq> []")
    case True
    then have "?R \<noteq> Leaf" by simp
    then have "NIL \<noteq> tptr ?R" using tptr_NIL [of ?R] gR by (auto simp: zrep_def apart_def)
    then show ?thesis using True kr(3) [of NIL] ne(1) fresh(2) g(2) by (simp add: pptr_append)
  next
    case False
    then show ?thesis using zrep_tptr [OF k] kr(2) by (cases "x = Leaf") (simp_all add: pptr_append)
  qed
  obtain h2 where h2: "fixup_min_max_fields k (pptr (qs @ FR l ?y # ps)) = Some h2"
      "zrep h2 (fix_path (qs @ FR l ?y # ps) x) x" "\<And>a. iparent (h2 a) = iparent (k a) \<and> ired (h2 a) = ired (k a)"
    using fixup_min_max_refines [OF k] by blast
  have reds: "ired (h2 ?Y) = n_red y" "ired (h2 ?Z) = n_red z"
    using h2(3) kr(4) g(3) rd hy(1) by (simp_all add: holds_def)
  let ?ps = "qs @ FR l (y\<lparr>n_red := n_red z\<rparr>) # ps"
  define h3 where "h3 = set_red h2 ?Y (n_red z)"
  have h3: "zrep h3 (fix_path ?ps x) x" using zrep_recolour [OF h2(2)] by (simp add: h3_def)
  have h3p: "iparent (h3 (tptr x)) = pptr (fix_path ?ps x)"
    using h2(3) kp by (simp add: h3_def pptr_append)
  have inv: "rb_path ps (if n_red z then bh l else Suc (bh l))" "rb l" "rb r" "bh l = bh r"
      "n_red z \<Longrightarrow> \<not> is_red l \<and> \<not> is_red r \<and> black_parent ps"
    using rbt by (auto simp: rbt_plug)
  have zp: "rb_path (FR l z # ps) (bh r)" using inv(1,2,4,5) by (cases "n_red z") simp_all
  have "is_red r \<Longrightarrow> black_parent (FR l z # ps)" using inv(5) by auto
  from min_path_rb [OF m' lr(2) inv(3) zp this]
  have "rb_path (qs @ FR l z # ps) (Suc (bh x)) \<and> rb x" if "\<not> n_red y" using that by simp
  then have "rb_path ?ps (Suc (bh x)) \<and> rb x" if "\<not> n_red y"
    using that rb_path_recolour(1) [of z "y\<lparr>n_red := n_red z\<rparr>" qs l ps] by simp
  then have "\<exists>h'. (if \<not> n_red y then intervaltree_fixup_deletion h3 (tptr x) else Some h3) = Some h' \<and>
      zrep h' [] (splice ?ps (n_red y) x)"
    unfolding splice_def using rb_path_fix_path(1) [of ?ps x] by (intro rebalance_refines [OF h3 h3p]) simp
  then obtain h' where
    h': "(if \<not> n_red y then intervaltree_fixup_deletion h3 (tptr x) else Some h3) = Some h'"
      "zrep h' [] (splice ?ps (n_red y) x)"
    by blast
  have "remove_node h ?Z = Some h'"
    using h'(1) h2(1) reds kp next' rd ne fresh(4) sx
    by (cases "n_red y") (simp_all add: remove_node_def Let_def g_def [symmetric] k_def [symmetric] h3_def)
  with h'(2) show ?thesis by blast
qed

lemma remove_node_refines:
  assumes "zrep h ps (Node l z r)" and "rbt (plug ps (Node l z r))"
  shows "\<exists>h'. remove_node h (n_ptr z) = Some h' \<and> zrep h' [] (remove_at ps l z r)"
proof (cases "l = Leaf \<or> r = Leaf")
  case True
  then show ?thesis using remove_node_one [OF assms(1) _ assms(2)] by (auto simp: remove_at_def)
next
  case False
  obtain qs y x where "min_path [] r = (qs, y, x)" using prod_cases3 by blast
  with remove_node_two [OF assms(1) _ _ this assms(2)] False show ?thesis by (simp add: remove_at_def)
qed

end
