(* ===== verification/Cal_IntervalCover.thy ===== *)
theory Cal_IntervalCover
  imports Cal_IntervalAbs
begin

text \<open>
  What the search of the interval tree needs of the minima and maxima: the values in a node bound the
  intervals of its subtree. Unlike the exact values (\<open>aug\<close>), which the code only keeps when every
  end is at least \<^verbatim>\<open>_TIME_MIN\<close> and every start at most \<^verbatim>\<open>_TIME_MAX\<close>, the bounds hold for all times.
\<close>

section \<open>Bounds\<close>

definition within :: "entry list \<Rightarrow> int \<Rightarrow> int \<Rightarrow> bool" where
  "within es lo hi \<longleftrightarrow> (\<forall>e\<in>set es. e_end e \<le> hi \<and> lo \<le> e_start e)"

lemma within_simps [simp]:
  "within [] lo hi" "within (e # es) lo hi \<longleftrightarrow> e_end e \<le> hi \<and> lo \<le> e_start e \<and> within es lo hi"
  "within (es @ es') lo hi \<longleftrightarrow> within es lo hi \<and> within es' lo hi"
  by (auto simp: within_def)

lemma within_mono: "within es lo hi \<Longrightarrow> lo' \<le> lo \<Longrightarrow> hi \<le> hi' \<Longrightarrow> within es lo' hi'"
  by (fastforce simp: within_def)

fun covers :: "itree \<Rightarrow> bool" where
  "covers Leaf = True"
| "covers (Node l n r) \<longleftrightarrow> covers l \<and> covers r \<and> within (entries (Node l n r)) (n_min n) (n_max n)"

lemma covers_within: "covers t \<Longrightarrow> within (entries t) (mn t) (mx t)"
  by (cases t) auto

lemma covers_node:
  assumes "covers l" and "covers r" and ord: "by_start (entries (Node l n r))"
    and "n_max n = max (mx l) (max (n_end n) (mx r))" and "n_min n = min (mn l) (n_start n)"
  shows "covers (Node l n r)"
proof -
  have "within (entries l) (n_min n) (n_max n)"
    using covers_within [OF assms(1)] by (rule within_mono) (simp_all add: assms(4,5))
  moreover have "within (entries r) (n_min n) (n_max n)"
  proof -
    have "within (entries r) (mn r) (mx r)" by (rule covers_within) fact
    then have "\<forall>e\<in>set (entries r). e_end e \<le> n_max n"
      using assms(4) by (fastforce simp: within_def)
    moreover have "\<forall>e\<in>set (entries r). n_min n \<le> e_start e"
      using ord assms(5) by fastforce
    ultimately show ?thesis by (simp add: within_def)
  qed
  ultimately show ?thesis using assms(1,2,4,5) by simp
qed

lemma covers_upd:
  "covers l \<Longrightarrow> covers r \<Longrightarrow> by_start (entries (Node l n r)) \<Longrightarrow> covers (Node l (upd n l r) r)"
  by (rule covers_node) (simp_all only: entries_simps entry_update upd_simps)

text \<open>Neither colours nor the order of the same entries matter to a node's bounds.\<close>

lemma covers_recolour [simp]:
  "covers (Node l (n\<lparr>n_red := b\<rparr>) r) = covers (Node l n r)" "covers (blacken t) = covers t"
proof -
  show "covers (Node l (n\<lparr>n_red := b\<rparr>) r) = covers (Node l n r)" by simp
  show "covers (blacken t) = covers t" by (cases t) simp_all
qed

lemma covers_same:
  "covers (Node l n r) \<Longrightarrow> covers l' \<Longrightarrow> covers r' \<Longrightarrow> entry n' = entry n \<Longrightarrow> n_min n' = n_min n \<Longrightarrow>
   n_max n' = n_max n \<Longrightarrow> set (entries l') \<subseteq> set (entries l) \<Longrightarrow> set (entries r') \<subseteq> set (entries r) \<Longrightarrow>
   covers (Node l' n' r')"
  by (auto simp: within_def entry_def subset_iff)

lemma covers_plugD: "covers (plug ps t) \<Longrightarrow> covers t"
  by (induction ps t rule: plug.induct) auto

lemma covers_plug_replace:
  "covers (plug ps t) \<Longrightarrow> covers t' \<Longrightarrow> set (entries t') \<subseteq> set (entries t) \<Longrightarrow> covers (plug ps t')"
proof (induction ps arbitrary: t t')
  case (Cons f ps)
  show ?case
  proof (cases f)
    case (FL n r)
    have "covers (Node t n r)" using covers_plugD [of ps "Node t n r"] Cons.prems(1) by (simp only: FL plug.simps)
    moreover from this have "covers r" by simp
    ultimately have "covers (Node t' n r)"
      using covers_same [of t n r t' r n] Cons.prems(2,3) by simp
    moreover have "set (entries (Node t' n r)) \<subseteq> set (entries (Node t n r))" using Cons.prems(3) by auto
    ultimately show ?thesis
      using Cons.IH [of "Node t n r" "Node t' n r"] Cons.prems(1) by (simp only: FL plug.simps)
  next
    case (FR l n)
    have "covers (Node l n t)" using covers_plugD [of ps "Node l n t"] Cons.prems(1) by (simp only: FR plug.simps)
    moreover from this have "covers l" by simp
    ultimately have "covers (Node l n t')"
      using covers_same [of l n t l t' n] Cons.prems(2,3) by simp
    moreover have "set (entries (Node l n t')) \<subseteq> set (entries (Node l n t))" using Cons.prems(3) by auto
    ultimately show ?thesis
      using Cons.IH [of "Node l n t" "Node l n t'"] Cons.prems(1) by (simp only: FR plug.simps)
  qed
qed simp

section \<open>Rotations and recomputation\<close>

lemma covers_lrot:
  assumes "covers a" and "covers b" and "covers c" and ord: "by_start (entries (Node a x (Node b y c)))"
  shows "covers (lrot (Node a x (Node b y c)))"
proof -
  have 1: "covers (Node a (upd x a b) b)" using assms by (intro covers_upd) auto
  have "covers (Node (Node a (upd x a b) b) (upd y (Node a (upd x a b) b) c) c)"
    using 1 assms(3) ord by (intro covers_upd) auto
  then show ?thesis by (simp only: lrot.simps Let_def)
qed

lemma covers_rrot:
  assumes "covers a" and "covers b" and "covers c" and ord: "by_start (entries (Node (Node a x b) y c))"
  shows "covers (rrot (Node (Node a x b) y c))"
proof -
  have 1: "covers (Node b (upd y b c) c)" using assms by (intro covers_upd) auto
  have "covers (Node a (upd x a (Node b (upd y b c) c)) (Node b (upd y b c) c))"
    using 1 assms(1) ord by (intro covers_upd) auto
  then show ?thesis by (simp only: rrot.simps Let_def)
qed

text \<open>Rotating a covered tree, and rotating where only the subtrees are covered.\<close>

lemma covers_lrot_any: "covers t \<Longrightarrow> by_start (entries t) \<Longrightarrow> covers (lrot t)"
  by (cases t rule: lrot.cases) (auto intro!: covers_lrot simp del: lrot.simps(1))

lemma covers_rrot_any: "covers t \<Longrightarrow> by_start (entries t) \<Longrightarrow> covers (rrot t)"
  by (cases t rule: rrot.cases) (auto intro!: covers_rrot simp del: rrot.simps(1))

lemma covers_rot_children:
  "covers l \<Longrightarrow> covers r \<Longrightarrow> r \<noteq> Leaf \<Longrightarrow> by_start (entries (Node l n r)) \<Longrightarrow> covers (lrot (Node l n r))"
  "covers l \<Longrightarrow> covers r \<Longrightarrow> l \<noteq> Leaf \<Longrightarrow> by_start (entries (Node l n r)) \<Longrightarrow> covers (rrot (Node l n r))"
proof -
  assume "covers l" "covers r" "r \<noteq> Leaf" and ord: "by_start (entries (Node l n r))"
  then show "covers (lrot (Node l n r))" by (cases r) (auto intro!: covers_lrot simp del: lrot.simps(1))
next
  assume "covers l" "covers r" "l \<noteq> Leaf" and ord: "by_start (entries (Node l n r))"
  then show "covers (rrot (Node l n r))" by (cases l) (auto intro!: covers_rrot simp del: rrot.simps(1))
qed

lemma rot_not_Leaf [simp]: "lrot t = Leaf \<longleftrightarrow> t = Leaf" "rrot t = Leaf \<longleftrightarrow> t = Leaf" "blacken t = Leaf \<longleftrightarrow> t = Leaf"
proof -
  show "lrot t = Leaf \<longleftrightarrow> t = Leaf" by (cases t rule: lrot.cases) (simp_all add: Let_def)
  show "rrot t = Leaf \<longleftrightarrow> t = Leaf" by (cases t rule: rrot.cases) (simp_all add: Let_def)
  show "blacken t = Leaf \<longleftrightarrow> t = Leaf" by (cases t) simp_all
qed

fun cover_siblings :: "frame list \<Rightarrow> bool" where
  "cover_siblings [] = True"
| "cover_siblings (FL n r # ps) \<longleftrightarrow> covers r \<and> cover_siblings ps"
| "cover_siblings (FR l n # ps) \<longleftrightarrow> covers l \<and> cover_siblings ps"

lemma covers_siblingsD: "covers (plug ps t) \<Longrightarrow> cover_siblings ps"
  using covers_plugD by (induction ps t rule: plug.induct) fastforce+

lemma cover_siblings_append [simp]:
  "cover_siblings (qs @ ps) \<longleftrightarrow> cover_siblings qs \<and> cover_siblings ps"
  by (induction qs rule: cover_siblings.induct) auto

lemma covers_fix_path:
  "covers t \<Longrightarrow> cover_siblings ps \<Longrightarrow> by_start (entries (plug ps t)) \<Longrightarrow> covers (plug (fix_path ps t) t)"
proof (induction ps t rule: fix_path.induct)
  case (2 n r ps t)
  have "by_start (entries (Node t n r))" using 2(4) by (simp add: entries_plug)
  then have "covers (Node t (upd n t r) r)" using 2 by (intro covers_upd) auto
  moreover have "entries (plug ps (Node t (upd n t r) r)) = entries (plug (FL n r # ps) t)"
    by (simp add: entries_plug)
  ultimately show ?case using 2(1) [OF refl] 2(3,4) by (simp del: covers.simps add: Let_def)
next
  case (3 l n ps t)
  have "by_start (entries (Node l n t))" using 3(4) by (simp add: entries_plug)
  then have "covers (Node l (upd n l t) t)" using 3 by (intro covers_upd) auto
  moreover have "entries (plug ps (Node l (upd n l t) t)) = entries (plug (FR l n # ps) t)"
    by (simp add: entries_plug)
  ultimately show ?case using 3(1) [OF refl] 3(3,4) by (simp del: covers.simps add: Let_def)
qed simp

section \<open>Insertion and removal\<close>

lemma covers_ins_fix:
  "covers (plug ps t) \<Longrightarrow> by_start (entries (plug ps t)) \<Longrightarrow> covers (ins_fix ps t)"
proof (induction ps t rule: ins_fix.induct)
  case (1 f g ps t)
  define s where "s = plug [f, g] t"
  have plug: "plug (f # g # ps) t = plug ps s" by (cases f; cases g) (simp_all add: s_def)
  have cov: "covers (plug ps s)" and ord: "by_start (entries (plug ps s))" using 1(5,6) plug by simp_all
  then have s: "covers s" and os: "by_start (entries s)" using covers_plugD by (auto simp: entries_plug)
  have rep: "covers (plug ps t')" and ord': "by_start (entries (plug ps t'))"
    if "covers t'" "entries t' = entries s" for t'
    using covers_plug_replace [OF cov] that ord by (simp_all add: entries_plug)
  show ?case
  proof (cases "n_red (fnode f)")
    case False
    then show ?thesis using cov plug by simp
  next
    case True
    show ?thesis
    proof (cases f; cases g)
      fix p c q u assume f: "f = FL p c" and g: "g = FL q u"
      have s': "s = Node (Node t p c) q u" by (simp add: s_def f g)
      have *: "covers (Node (Node t (bk p) c) (rd q) (blacken u))" "entries (Node (Node t (bk p) c) (rd q) (blacken u)) = entries s"
        using s by (simp_all add: s')
      have **: "covers (rrot (Node (Node t (bk p) c) (rd q) u))" "entries (rrot (Node (Node t (bk p) c) (rd q) u)) = entries s"
        using s os by (auto simp: s' simp del: rrot.simps(1) lrot.simps(1) rrot.simps(1)
            intro!: covers_rot_children covers_lrot_any covers_rrot_any)
      show ?thesis
        using True 1(1) [OF True refl f g _ rep [OF *] ord' [OF *]] rep [OF **]
        by (simp add: f g del: rrot.simps(1))
    next
      fix p c q u assume f: "f = FR c p" and g: "g = FL q u"
      have s': "s = Node (Node c p t) q u" by (simp add: s_def f g)
      have *: "covers (Node (Node c (bk p) t) (rd q) (blacken u))" "entries (Node (Node c (bk p) t) (rd q) (blacken u)) = entries s"
        using s by (simp_all add: s')
      have **: "covers (rrot (Node (blacken (lrot (Node c p t))) (rd q) u))" "entries (rrot (Node (blacken (lrot (Node c p t))) (rd q) u)) = entries s"
        using s os by (auto simp: s' simp del: rrot.simps(1) lrot.simps(1) rrot.simps(1)
            intro!: covers_rot_children covers_lrot_any covers_rrot_any)
      show ?thesis
        using True 1(3) [OF True refl f g _ rep [OF *] ord' [OF *]] rep [OF **]
        by (simp add: f g del: rrot.simps(1))
    next
      fix p c q u assume f: "f = FL p c" and g: "g = FR u q"
      have s': "s = Node u q (Node t p c)" by (simp add: s_def f g)
      have *: "covers (Node (blacken u) (rd q) (Node t (bk p) c))" "entries (Node (blacken u) (rd q) (Node t (bk p) c)) = entries s"
        using s by (simp_all add: s')
      have **: "covers (lrot (Node u (rd q) (blacken (rrot (Node t p c)))))" "entries (lrot (Node u (rd q) (blacken (rrot (Node t p c))))) = entries s"
        using s os by (auto simp: s' simp del: lrot.simps(1) lrot.simps(1) rrot.simps(1)
            intro!: covers_rot_children covers_lrot_any covers_rrot_any)
      show ?thesis
        using True 1(2) [OF True refl f g _ rep [OF *] ord' [OF *]] rep [OF **]
        by (simp add: f g del: lrot.simps(1))
    next
      fix p c q u assume f: "f = FR c p" and g: "g = FR u q"
      have s': "s = Node u q (Node c p t)" by (simp add: s_def f g)
      have *: "covers (Node (blacken u) (rd q) (Node c (bk p) t))" "entries (Node (blacken u) (rd q) (Node c (bk p) t)) = entries s"
        using s by (simp_all add: s')
      have **: "covers (lrot (Node u (rd q) (Node c (bk p) t)))" "entries (lrot (Node u (rd q) (Node c (bk p) t))) = entries s"
        using s os by (auto simp: s' simp del: lrot.simps(1) lrot.simps(1) rrot.simps(1)
            intro!: covers_rot_children covers_lrot_any covers_rrot_any)
      show ?thesis
        using True 1(4) [OF True refl f g _ rep [OF *] ord' [OF *]] rep [OF **]
        by (simp add: f g del: lrot.simps(1))
    qed
  qed
qed simp_all

lemma covers_del_left:
  assumes "del_left t n w = (b, s)" and cov: "covers (Node t n w)" and ord: "by_start (entries (Node t n w))"
  shows "covers s"
proof (cases w)
  case (Node wl m wr)
  have a: "covers t" "covers wl" "covers wr" using cov Node by auto
  have ow: "by_start (entries (Node (blacken wl) (rd m) wr))" using ord Node by simp
  consider (up) "is_red wr" | (same) "\<not> is_red wr" "\<not> is_red wl"
    | (inner) "\<not> is_red wr" "is_red wl" by blast
  then show ?thesis
  proof cases
    case up
    then have "s = lrot (Node t (bk n) (Node wl (m\<lparr>n_red := n_red n\<rparr>) (blacken wr)))"
      using assms(1) Node by (auto simp: del_left_def)
    then show ?thesis using cov ord Node by (simp only:) (intro covers_rot_children; simp)
  next
    case same
    then have "s = Node t n (Node wl (rd m) wr)" using assms(1) Node by (simp add: del_left_def)
    then show ?thesis using cov Node by simp
  next
    case inner
    define v where "v = rrot (Node (blacken wl) (rd m) wr)"
    have v: "covers v" "entries v = entries w"
      using cov ow Node by (auto simp: v_def intro!: covers_rrot_any simp del: rrot.simps(1))
    have "v \<noteq> Leaf" by (simp add: v_def)
    then obtain a k c where vn: "v = Node a k c" using tree.exhaust by blast
    have "s = lrot (Node t (bk n) (Node a (k\<lparr>n_red := n_red n\<rparr>) (blacken c)))"
      using assms(1) Node inner vn by (simp add: del_left_def v_def)
    moreover have "entries a @ entry k # entries c = entries w" using v(2) vn by simp
    then have "by_start (entries (Node t (bk n) (Node a (k\<lparr>n_red := n_red n\<rparr>) (blacken c))))"
      using ord by simp
    ultimately show ?thesis using a(1) v(1) vn by (simp only:) (intro covers_rot_children; simp)
  qed
qed (use assms in \<open>auto simp: del_left_def\<close>)

lemma covers_del_right:
  assumes "del_right w n t = (b, s)" and cov: "covers (Node w n t)" and ord: "by_start (entries (Node w n t))"
  shows "covers s"
proof (cases w)
  case (Node wl m wr)
  have a: "covers t" "covers wl" "covers wr" using cov Node by auto
  have ow: "by_start (entries (Node wl (rd m) (blacken wr)))" using ord Node by simp
  consider (up) "is_red wl" | (same) "\<not> is_red wl" "\<not> is_red wr"
    | (inner) "\<not> is_red wl" "is_red wr" by blast
  then show ?thesis
  proof cases
    case up
    then have "s = rrot (Node (Node (blacken wl) (m\<lparr>n_red := n_red n\<rparr>) wr) (bk n) t)"
      using assms(1) Node by (auto simp: del_right_def)
    then show ?thesis using cov ord Node by (simp only:) (intro covers_rot_children; simp)
  next
    case same
    then have "s = Node (Node wl (rd m) wr) n t" using assms(1) Node by (simp add: del_right_def)
    then show ?thesis using cov Node by simp
  next
    case inner
    define v where "v = lrot (Node wl (rd m) (blacken wr))"
    have v: "covers v" "entries v = entries w"
      using cov ow Node by (auto simp: v_def intro!: covers_lrot_any simp del: lrot.simps(1))
    have "v \<noteq> Leaf" by (simp add: v_def)
    then obtain a k c where vn: "v = Node a k c" using tree.exhaust by blast
    have "s = rrot (Node (Node (blacken a) (k\<lparr>n_red := n_red n\<rparr>) c) (bk n) t)"
      using assms(1) Node inner vn by (simp add: del_right_def v_def)
    moreover have "entries a @ entry k # entries c = entries w" using v(2) vn by simp
    then have "by_start (entries (Node (Node (blacken a) (k\<lparr>n_red := n_red n\<rparr>) c) (bk n) t))"
      using ord by simp
    ultimately show ?thesis using a(1) v(1) vn by (simp only:) (intro covers_rot_children; simp)
  qed
qed (use assms in \<open>auto simp: del_right_def\<close>)

lemma covers_del_red:
  "covers (Node t n w) \<Longrightarrow> by_start (entries (Node t n w)) \<Longrightarrow> covers (del_red_left t n w)"
  "covers (Node w n t) \<Longrightarrow> by_start (entries (Node w n t)) \<Longrightarrow> covers (del_red_right w n t)"
proof -
  fix t n w assume cov: "covers (Node t n w)" and ord: "by_start (entries (Node t n w))"
  show "covers (del_red_left t n w)"
  proof (cases w)
    case (Node wl m wr)
    let ?n = "upd (rd n) t wl" and ?m = "upd (bk m) (Node t (upd (rd n) t wl) wl) wr"
    obtain b s where s: "del_left t ?n wl = (b, s)" by fastforce
    have 1: "covers (Node t ?n wl)" using cov ord Node by (intro covers_upd) auto
    have 2: "by_start (entries (Node t ?n wl))" using ord Node by simp
    have 3: "covers s" "entries s = entries (Node t ?n wl)"
      using covers_del_left [OF s 1 2] entries_del_left [OF s] by simp_all
    have "covers (Node (Node t ?n wl) ?m wr)"
      using cov ord Node 1 by (intro covers_upd) auto
    then have "covers (plug [FL ?m wr] (Node t ?n wl))" by (simp only: plug.simps)
    from covers_plug_replace [OF this] 3
    have "covers (plug [FL ?m wr] s)" "covers (plug [FL ?m wr] (blacken s))"
      by (simp_all del: covers.simps plug.simps)
    then show ?thesis using Node s by (simp add: Let_def del: covers.simps)
  qed (use cov in simp)
next
  fix t n w assume cov: "covers (Node w n t)" and ord: "by_start (entries (Node w n t))"
  show "covers (del_red_right w n t)"
  proof (cases w)
    case (Node wl m wr)
    let ?n = "upd (rd n) wr t" and ?m = "upd (bk m) wl (Node wr (upd (rd n) wr t) t)"
    obtain b s where s: "del_right wr ?n t = (b, s)" by fastforce
    have 1: "covers (Node wr ?n t)" using cov ord Node by (intro covers_upd) auto
    have 2: "by_start (entries (Node wr ?n t))" using ord Node by simp
    have 3: "covers s" "entries s = entries (Node wr ?n t)"
      using covers_del_right [OF s 1 2] entries_del_right [OF s] by simp_all
    have "covers (Node wl ?m (Node wr ?n t))"
      using cov ord Node 1 by (intro covers_upd) auto
    then have "covers (plug [FR wl ?m] (Node wr ?n t))" by (simp only: plug.simps)
    from covers_plug_replace [OF this] 3
    have "covers (plug [FR wl ?m] s)" "covers (plug [FR wl ?m] (blacken s))"
      by (simp_all del: covers.simps plug.simps)
    then show ?thesis using Node s by (simp add: Let_def del: covers.simps)
  qed (use cov in simp)
qed

lemma covers_del_fix:
  "covers (plug ps t) \<Longrightarrow> by_start (entries (plug ps t)) \<Longrightarrow> covers (del_fix ps t)"
proof (induction ps arbitrary: t)
  case (Cons f ps)
  define u where "u = plug [f] t"
  have plug: "plug (f # ps) t = plug ps u" by (cases f) (simp_all add: u_def)
  have cov: "covers (plug ps u)" and ord: "by_start (entries (plug ps u))" using Cons.prems plug by simp_all
  then have u: "covers u" "by_start (entries u)" using covers_plugD by (auto simp: entries_plug)
  have rep: "covers (plug ps t')" and ord': "by_start (entries (plug ps t'))"
    if "covers t'" "entries t' = entries u" for t'
    using covers_plug_replace [OF cov] that ord by (simp_all add: entries_plug)
  have black: "covers (plug (f # ps) (blacken t))"
    using covers_plug_replace [OF Cons.prems(1)] covers_plugD [OF Cons.prems(1)] by simp
  show ?case
  proof (cases f)
    case (FL n w)
    obtain b s where s: "del_left t n w = (b, s)" by fastforce
    have u': "u = Node t n w" by (simp add: u_def FL)
    have "covers s" "entries s = entries u"
      using covers_del_left [OF s] entries_del_left [OF s] u by (simp_all add: u' del: covers.simps by_start_simps)
    moreover have "covers (del_red_left t n w)" "entries (del_red_left t n w) = entries u"
      using covers_del_red(1) [of t n w] entries_del_red(1) [of t n w] u by (simp_all add: u' del: covers.simps by_start_simps)
    ultimately show ?thesis
      using rep ord' Cons.IH black by (simp add: FL s del: plug.simps covers.simps)
  next
    case (FR w n)
    obtain b s where s: "del_right w n t = (b, s)" by fastforce
    have u': "u = Node w n t" by (simp add: u_def FR)
    have "covers s" "entries s = entries u"
      using covers_del_right [OF s] entries_del_right [OF s] u by (simp_all add: u' del: covers.simps by_start_simps)
    moreover have "covers (del_red_right w n t)" "entries (del_red_right w n t) = entries u"
      using covers_del_red(2) [of w n t] entries_del_red(2) [of w n t] u by (simp_all add: u' del: covers.simps by_start_simps)
    ultimately show ?thesis
      using rep ord' Cons.IH black by (simp add: FR s del: plug.simps covers.simps)
  qed
qed simp

lemma covers_splice:
  assumes "covers t" and "cover_siblings ps" and "by_start (before ps @ entries t @ after ps)"
  shows "covers (splice ps red t)"
  using covers_fix_path [OF assms(1,2)] assms(3) by (simp add: splice_def covers_del_fix entries_plug)

lemma min_path_covers:
  "min_path ps t = (qs, y, x) \<Longrightarrow> covers t \<Longrightarrow> cover_siblings ps \<Longrightarrow> covers x \<and> cover_siblings qs"
  by (induction ps t rule: min_path.induct) auto

lemma covers_remove_at:
  assumes "covers (plug ps (Node l z r))" and ord: "by_start (entries (plug ps (Node l z r)))"
  shows "covers (remove_at ps l z r)"
proof -
  have p: "covers l" "covers r" "cover_siblings ps"
    using covers_plugD [OF assms(1)] covers_siblingsD [OF assms(1)] by simp_all
  have b: "by_start (before ps @ entries l @ entries r @ after ps)" using ord by (auto simp: entries_plug)
  show ?thesis
  proof (cases "l = Leaf \<or> r = Leaf")
    case True
    then show ?thesis
      using covers_splice [OF p(1,3)] covers_splice [OF p(2,3)] b by (auto simp: remove_at_def)
  next
    case False
    obtain qs y x where m: "min_path [] r = (qs, y, x)" using prod_cases3 by blast
    let ?qs = "qs @ FR l (y\<lparr>n_red := n_red z\<rparr>) # ps"
    have x: "covers x" "cover_siblings ?qs" using min_path_covers [OF m] p by auto
    have "before ?qs @ entries x @ after ?qs = before ps @ entries l @ entries r @ after ps"
      using entries_remove_at [of ps l z r] False m by (simp add: remove_at_def entries_splice)
    then have "by_start (before ?qs @ entries x @ after ?qs)" using b by (simp only:)
    then show ?thesis using False m covers_splice [OF x] by (simp add: remove_at_def)
  qed
qed

lemma descend_cover_siblings: "covers t \<Longrightarrow> cover_siblings ps \<Longrightarrow> cover_siblings (descend ps t s e)"
  by (induction ps t s e rule: descend.induct) auto

lemma covers_insert_tree:
  assumes "covers t" and "by_start (entries t)" and "covers (Node Leaf z Leaf)"
  shows "covers (insert_tree z t)"
proof -
  let ?ps = "descend [] t (n_start z) (n_end z)" and ?z = "Node Leaf z Leaf"
  have "by_start (entries (insert_tree z t))" using entries_insert_tree [of t z] assms(2) by blast
  then have ord: "by_start (before ?ps @ entry z # after ?ps)"
    by (simp add: insert_tree_def Let_def entries_ins_fix entries_plug)
  have "covers (plug (fix_path ?ps ?z) ?z)"
    using assms(1,3) ord by (intro covers_fix_path descend_cover_siblings) (simp_all add: entries_plug)
  then show ?thesis
    using ord by (simp add: insert_tree_def Let_def covers_ins_fix entries_plug)
qed

end
