(* ===== verification/Cal_IntervalProps.thy ===== *)
theory Cal_IntervalProps
  imports Cal_IntervalRemove Cal_IntervalCover "HOL-Library.Multiset"
begin

text \<open>
  The interval tree as its callers see it: a map from component keys to intervals. The invariant ties
  the store and the hash table to one red-black tree; insertion and removal keep it and update the
  map; the search returns the components whose interval meets; destruction frees every node once.
\<close>

section \<open>The map\<close>

type_synonym span = "int \<times> int \<times> ECalComponent"

definition comp_key :: "ECalComponent \<Rightarrow> cstring" where
  "comp_key c = component_key (comp_uid c) (comp_rid c)"

definition spans :: "EIntervalTree \<Rightarrow> cstring \<Rightarrow> span option" where
  "spans tree k = map_option (\<lambda>p. (istart (nodes tree p), iend (nodes tree p), icomp (nodes tree p)))
     (id_node_hash tree k)"

definition e_comp :: "entry \<Rightarrow> ECalComponent" where "e_comp = (\<lambda>(p, s, e, c). c)"
definition e_key :: "entry \<Rightarrow> cstring" where "e_key x = comp_key (e_comp x)"

lemma e_comp_simps [simp]: "e_comp (p, s, e, c) = c" "e_comp (entry n) = n_comp n"
  by (simp_all add: e_comp_def entry_def)

lemma fst_entry [simp]: "fst (entry n) = n_ptr n"
  by (simp add: entry_def)

text \<open>The invariant, with the tree it holds of.\<close>

definition tree_rep :: "EIntervalTree \<Rightarrow> itree \<Rightarrow> bool" where
  "tree_rep I t \<longleftrightarrow> zrep (nodes I) [] t \<and> rbt t \<and> covers t \<and> by_start (entries t) \<and>
     (\<forall>p\<in>set (ptrs t). p < next_node I) \<and> 2 \<le> next_node I \<and>
     distinct (map e_key (entries t)) \<and>
     id_node_hash I = map_of (map (\<lambda>x. (e_key x, fst x)) (entries t))"

lemma set_ptrs: "set (ptrs t) = fst ` set (entries t)"
  by (induction t) auto

lemma distinct_entries: "distinct (ptrs t) \<longleftrightarrow> distinct (map fst (entries t))"
proof -
  have "length (ptrs t) = length (entries t)" by (induction t) auto
  moreover have "set (ptrs t) = set (map fst (entries t))" by (simp add: set_ptrs)
  ultimately show ?thesis by (metis card_distinct distinct_card length_map)
qed

lemma rep_entries:
  "rep h q t \<Longrightarrow> (p, s, e, c) \<in> set (entries t) \<Longrightarrow> istart (h p) = s \<and> iend (h p) = e \<and> icomp (h p) = c"
  by (induction t arbitrary: q) (auto simp: holds_def entry_def)

abbreviation (input) index :: "(entry \<Rightarrow> 'v) \<Rightarrow> entry list \<Rightarrow> cstring \<Rightarrow> 'v option" where
  "index f es \<equiv> map_of (map (\<lambda>x. (e_key x, f x)) es)"

lemma index_split:
  assumes "e_key x \<notin> e_key ` set (as @ bs)"
  shows "index f (as @ x # bs) = (index f (as @ bs))(e_key x \<mapsto> f x)"
    and "index f (as @ bs) = (index f (as @ x # bs))(e_key x := None)"
proof -
  show 1: "index f (as @ x # bs) = (index f (as @ bs))(e_key x \<mapsto> f x)"
    using assms by (induction as) (auto simp: fun_upd_twist)
  have "index f (as @ bs) (e_key x) = None" using assms by (subst map_of_eq_None_iff) (auto simp: image_image)
  then show "index f (as @ bs) = (index f (as @ x # bs))(e_key x := None)"
    by (simp only: 1) (auto simp: fun_eq_iff)
qed

lemma tree_rep_spans:
  assumes "tree_rep I t"
  shows "spans I = map_of (map (\<lambda>x. (e_key x, snd x)) (entries t))"
proof
  fix k
  have rep: "rep (nodes I) ROOT t" using assms by (simp add: tree_rep_def zrep_def)
  have hash: "id_node_hash I k = map_of (map (\<lambda>x. (e_key x, fst x)) (entries t)) k"
    using assms by (simp add: tree_rep_def)
  have "map_of (map (\<lambda>x. (e_key x, snd x)) es) k =
      map_option (\<lambda>p. (istart (nodes I p), iend (nodes I p), icomp (nodes I p)))
        (map_of (map (\<lambda>x. (e_key x, fst x)) es) k)"
    if "set es \<subseteq> set (entries t)" for es
    using that by (induction es) (use rep_entries [OF rep] in force)+
  from this [of "entries t"] show "spans I k = map_of (map (\<lambda>x. (e_key x, snd x)) (entries t)) k"
    by (simp add: spans_def hash)
qed

lemma tree_rep_new: "tree_rep e_intervaltree_new Leaf"
  by (simp add: tree_rep_def e_intervaltree_new_def Let_def zrep_def sentinels_def apart_def rbt_def)

lemma spans_new: "spans e_intervaltree_new = Map.empty"
  by (simp add: fun_eq_iff spans_def e_intervaltree_new_def Let_def)

section \<open>Removal\<close>

lemma ptrs_position: "p \<in> set (ptrs t) \<Longrightarrow> \<exists>ps l n r. t = plug ps (Node l n r) \<and> n_ptr n = p"
proof (induction t)
  case (Node l n r)
  have sub: "\<exists>ps a m b. Node l n r = plug ps (Node a m b) \<and> n_ptr m = p"
    if "t = plug qs (Node a m b)" "n_ptr m = p" "plug [f] t = Node l n r" for t f qs a m b
  proof -
    have "Node l n r = plug (qs @ [f]) (Node a m b)" using that by (simp add: plug_append)
    then show ?thesis using that(2) by blast
  qed
  from Node.prems consider "p = n_ptr n" | "p \<in> set (ptrs l)" | "p \<in> set (ptrs r)" by auto
  then show ?case
  proof cases
    case 1
    then show ?thesis by (intro exI [of _ "[]"]) simp
  next
    case 2
    with Node.IH(1) obtain qs a m b where l: "l = plug qs (Node a m b)" "n_ptr m = p" by blast
    show ?thesis using sub [OF l, of "FL n r"] by simp
  next
    case 3
    with Node.IH(2) obtain qs a m b where r: "r = plug qs (Node a m b)" "n_ptr m = p" by blast
    show ?thesis using sub [OF r, of "FR l n"] by simp
  qed
qed simp

lemma remove_refines:
  assumes I: "tree_rep I t" and k: "k = component_key uid rid"
  shows "\<exists>I' t'. e_intervaltree_remove I uid rid = Some (I', k \<in> dom (spans I)) \<and> tree_rep I' t' \<and>
    spans I' = (spans I)(k := None) \<and> k \<notin> dom (id_node_hash I') \<and> next_node I' = next_node I \<and> (aug t \<longrightarrow> aug t')"
proof (cases "id_node_hash I k")
  case None
  then have "e_intervaltree_remove I uid rid = Some (I, k \<in> dom (spans I))" "spans I k = None"
    by (auto simp: e_intervaltree_remove_def intervaltree_search_component_def k spans_def)
  then show ?thesis using I None by (auto simp: fun_upd_idem)
next
  case (Some z)
  have J: "zrep (nodes I) [] t" "rbt t" "covers t" "by_start (entries t)" "distinct (map e_key (entries t))"
      "\<forall>p\<in>set (ptrs t). p < next_node I" "2 \<le> next_node I"
      "id_node_hash I = map_of (map (\<lambda>x. (e_key x, fst x)) (entries t))"
    using I by (simp_all add: tree_rep_def)
  from Some J(8) have "(k, z) \<in> (\<lambda>x. (e_key x, fst x)) ` set (entries t)"
    using map_of_SomeD [of _ k z] by fastforce
  then have "z \<in> set (ptrs t)" by (force simp: set_ptrs)
  then obtain ps l n r where t: "t = plug ps (Node l n r)" and z: "n_ptr n = z" using ptrs_position by blast
  let ?t = "remove_at ps l n r" and ?as = "before ps @ entries l" and ?bs = "entries r @ after ps"
  have es: "entries t = ?as @ entry n # ?bs" "entries ?t = ?as @ ?bs"
    by (simp_all add: t entries_plug entries_remove_at)
  obtain x where x: "x \<in> set (entries t)" "e_key x = k" "fst x = z"
    using \<open>(k, z) \<in> (\<lambda>x. (e_key x, fst x)) ` set (entries t)\<close> by auto
  have inj: "inj_on fst (set (entries t))"
    using distinct_entries [of t] J(1) by (simp add: zrep_def apart_def distinct_map)
  have mem: "entry n \<in> set (entries t)" by (simp add: es(1))
  have "fst (entry n) = fst x" using x(3) z by simp
  then have "entry n = x" by (rule inj_onD [OF inj _ mem x(1)])
  then have kn: "e_key (entry n) = k" using x(2) by simp
  have fresh: "e_key (entry n) \<notin> e_key ` set (?as @ ?bs)"
    using J(5) by (simp only: es(1)) auto
  have zr: "zrep (nodes I) ps (Node l n r)" using J(1) zrep_plug [of "nodes I" ps "Node l n r"] t by simp
  obtain h where h: "remove_node (nodes I) z = Some h" "zrep h [] ?t"
    using remove_node_refines [OF zr] J(2) z by (auto simp: t)
  let ?I = "I\<lparr>nodes := h, id_node_hash := (id_node_hash I)(k := None)\<rparr>"
  have rm: "e_intervaltree_remove I uid rid = Some (?I, True)"
    using Some h(1) J(1) \<open>z \<in> set (ptrs t)\<close>
    by (auto simp: e_intervaltree_remove_def intervaltree_search_component_def k zrep_def apart_def)
  have rep: "tree_rep ?I ?t"
    unfolding tree_rep_def
  proof (intro conjI)
    show "zrep (nodes ?I) [] ?t" using h(2) by simp
    show "rbt ?t" using J(2) t by (simp add: rbt_remove_at)
    show "covers ?t" using J(3,4) t by (simp add: covers_remove_at)
    show "by_start (entries ?t)" using J(4) by (simp add: es)
    show "\<forall>p\<in>set (ptrs ?t). p < next_node ?I" using J(6) by (auto simp: set_ptrs es)
    show "2 \<le> next_node ?I" using J(7) by simp
    show "distinct (map e_key (entries ?t))" using J(5) by (simp add: es)
    show "id_node_hash ?I = map_of (map (\<lambda>x. (e_key x, fst x)) (entries ?t))"
      using index_split(2) [OF fresh, of fst] J(8) kn by (simp only: es) simp
  qed
  have "spans ?I = (spans I)(k := None)"
    using index_split(2) [OF fresh, of snd] kn
    by (simp only: tree_rep_spans [OF rep] tree_rep_spans [OF I] es)
  moreover have "aug t \<longrightarrow> aug ?t" using aug_remove_at J(4) t by blast
  moreover have "k \<in> dom (spans I)" using Some by (simp add: spans_def dom_def)
  ultimately show ?thesis using rm rep by (intro exI [of _ ?I] exI [of _ ?t]) simp
qed

section \<open>Insertion\<close>

definition in_range :: "int \<Rightarrow> int \<Rightarrow> bool" where
  "in_range s e \<longleftrightarrow> TIME_T_MIN \<le> e \<and> s \<le> TIME_T_MAX"

lemma insert_refines:
  assumes "tree_rep I t"
  shows "\<exists>I' t'. e_intervaltree_insert I s e c = Some (I', True) \<and> tree_rep I' t' \<and>
    spans I' = (spans I)(comp_key c \<mapsto> (s, e, c)) \<and> (aug t \<and> in_range s e \<longrightarrow> aug t')"
proof -
  obtain I1 t1 where 1: "e_intervaltree_remove I (comp_uid c) (comp_rid c) = Some (I1, comp_key c \<in> dom (spans I))"
      "tree_rep I1 t1" "spans I1 = (spans I)(comp_key c := None)" "comp_key c \<notin> dom (id_node_hash I1)"
      "aug t \<longrightarrow> aug t1"
    using remove_refines [OF assms refl] unfolding comp_key_def by blast
  have J: "zrep (nodes I1) [] t1" "rbt t1" "covers t1" "by_start (entries t1)" "distinct (map e_key (entries t1))"
      "\<forall>p\<in>set (ptrs t1). p < next_node I1" "2 \<le> next_node I1" "id_node_hash I1 = index fst (entries t1)"
    using 1(2) by (simp_all add: tree_rep_def)
  let ?x = "next_node I1"
  define n where "n = \<lparr>n_ptr = ?x, n_start = s, n_end = e, n_comp = c, n_max = e, n_min = s, n_red = False\<rparr>"
  define v where "v = \<lparr>istart = s, iend = e, imax = e, imin = s, ired = False, icomp = c, ileft = NIL, iright = NIL,
      iparent = NIL\<rparr>"
  let ?t = "insert_tree (rd n) t1"
  have fresh: "?x \<notin> set (ptrs t1)" "?x \<noteq> NIL" "?x \<noteq> ROOT" using J(6,7) by (auto simp: NIL_def ROOT_def)
  have en: "entry (rd n) = (?x, s, e, c)" by (simp add: entry_def n_def)
  have "zrep ((nodes I1)(?x := v)) [] t1" using zrep_fun_upd [OF fresh] J(1) by simp
  moreover have "holds ((nodes I1)(?x := v)) n" by (simp add: holds_def n_def v_def)
  ultimately obtain h1 h2 h3 where h: "binary_tree_insert ((nodes I1)(?x := v)) ?x = Some h1"
      "fixup_min_max_fields (set_red h1 ?x True) (iparent (h1 ?x)) = Some h2" "insert_fixup h2 ?x = Some h3"
      "zrep (set_red h3 (ileft (h3 ROOT)) False) [] ?t"
    using insert_store_refines [OF _ fresh J(2), of "(nodes I1)(?x := v)" n] by (auto simp: n_def)
  obtain as bs where es: "entries t1 = as @ bs" "entries ?t = as @ (?x, s, e, c) # bs"
      "by_start (entries t1) \<longrightarrow> by_start (entries ?t)"
    using entries_insert_tree [of t1 "rd n"] unfolding en by blast
  have "e_key ` set (entries t1) = dom (id_node_hash I1)" by (force simp: J(8) dom_map_of_conv_image_fst)
  then have key: "e_key (?x, s, e, c) \<notin> e_key ` set (as @ bs)" using 1(4) es(1) by (simp add: e_key_def)
  let ?I = "I1\<lparr>nodes := set_red h3 (ileft (h3 ROOT)) False,
    id_node_hash := (id_node_hash I1)(comp_key c := Some ?x), next_node := ?x + 1\<rparr>"
  have ins: "e_intervaltree_insert I s e c = Some (?I, True)"
    using 1(1) h(1-3) by (simp add: e_intervaltree_insert_def Let_def v_def comp_key_def)
  have rep: "tree_rep ?I ?t"
    unfolding tree_rep_def
  proof (intro conjI)
    show "zrep (nodes ?I) [] ?t" using h(4) by simp
    show "rbt ?t" using J(2) by (rule rbt_insert_tree) (simp add: n_def)
    show "covers ?t"
      using J(3,4) by (intro covers_insert_tree) (simp_all add: n_def entry_def e_start_def e_end_def)
    show "by_start (entries ?t)" using J(4) es(3) by blast
    show "\<forall>p\<in>set (ptrs ?t). p < next_node ?I" using J(6) by (fastforce simp: set_ptrs es less_Suc_eq)
    show "2 \<le> next_node ?I" using J(7) by simp
    show "distinct (map e_key (entries ?t))" using J(5) key by (simp add: es) blast
    show "id_node_hash ?I = index fst (entries ?t)"
      using index_split(1) [OF key, of fst] J(8) by (simp only: es) (simp add: e_key_def)
  qed
  have "spans ?I = (spans I)(comp_key c \<mapsto> (s, e, c))"
    using index_split(1) [OF key, of snd] 1(3)
    by (simp only: tree_rep_spans [OF rep] tree_rep_spans [OF 1(2)] es) (simp add: e_key_def)
  moreover have "aug ?t" if "aug t" "in_range s e"
    using aug_insert_tree [OF _ J(4), of "rd n"] 1(5) that
    by (simp add: n_def in_range_def max_def min_def)
  ultimately show ?thesis using ins rep by (intro exI [of _ ?I] exI [of _ ?t]) simp
qed

section \<open>Walking the tree\<close>

text \<open>Search and destruction share a scheme: take a node from the front of a list, put some of its children
  at the end. What a subtree is to contribute to the result is \<open>contrib\<close>.\<close>

abbreviation (input) weight :: "itree list \<Rightarrow> nat" where "weight F \<equiv> \<Sum>t\<leftarrow>F. 2 * size t + 1"

locale worklist =
  fixes loop :: "ptr list \<Rightarrow> 'b list \<Rightarrow> 'b list option"
    and emit :: "ptr \<Rightarrow> 'b list"
    and children :: "ptr \<Rightarrow> ptr list"
    and ok :: "itree \<Rightarrow> bool"
    and contrib :: "itree \<Rightarrow> 'b multiset"
  assumes loop_Nil: "loop [] acc = Some acc"
    and loop_NIL: "loop (NIL # pos) acc = loop pos acc"
    and loop_node: "p \<noteq> NIL \<Longrightarrow> loop (p # pos) acc = loop (pos @ children p) (acc @ emit p)"
    and contrib_Leaf: "contrib Leaf = {#}"
    and ok_node: "ok (Node l n r) \<Longrightarrow> n_ptr n \<noteq> NIL \<and>
      (\<exists>G. children (n_ptr n) = map tptr G \<and> list_all ok G \<and> weight G \<le> weight [l, r] \<and>
        contrib (Node l n r) = mset (emit (n_ptr n)) + (\<Sum>t\<leftarrow>G. contrib t))"
begin

lemma loop_forest:
  "list_all ok F \<Longrightarrow> \<exists>xs. loop (map tptr F) acc = Some (acc @ xs) \<and> mset xs = (\<Sum>t\<leftarrow>F. contrib t)"
proof (induction "weight F" arbitrary: F acc rule: less_induct)
  case less
  show ?case
  proof (cases F)
    case Nil
    then show ?thesis by (simp add: loop_Nil)
  next
    case F: (Cons t F')
    show ?thesis
    proof (cases t)
      case Leaf
      have "\<exists>xs. loop (map tptr F') acc = Some (acc @ xs) \<and> mset xs = (\<Sum>t\<leftarrow>F'. contrib t)"
        using less.prems F Leaf by (intro less.hyps) simp_all
      then show ?thesis by (simp add: F Leaf loop_NIL contrib_Leaf)
    next
      case (Node l n r)
      obtain G where G: "n_ptr n \<noteq> NIL" "children (n_ptr n) = map tptr G" "list_all ok G" "weight G \<le> weight [l, r]"
          "contrib t = mset (emit (n_ptr n)) + (\<Sum>t\<leftarrow>G. contrib t)"
        using ok_node [of l n r] less.prems F Node by auto
      have "\<exists>xs. loop (map tptr (F' @ G)) (acc @ emit (n_ptr n)) = Some ((acc @ emit (n_ptr n)) @ xs) \<and>
          mset xs = (\<Sum>t\<leftarrow>F' @ G. contrib t)"
        using less.prems G(3,4) by (intro less.hyps) (simp_all add: F Node)
      then obtain xs where "loop (map tptr F' @ map tptr G) (acc @ emit (n_ptr n)) = Some (acc @ emit (n_ptr n) @ xs)"
          "mset xs = (\<Sum>t\<leftarrow>F' @ G. contrib t)"
        by auto
      then show ?thesis
        using G(1,2,5) by (intro exI [of _ "emit (n_ptr n) @ xs"]) (simp add: F Node loop_node)
    qed
  qed
qed

end

text \<open>The search.\<close>

definition meets :: "int \<Rightarrow> int \<Rightarrow> entry \<Rightarrow> bool" where
  "meets s e x \<longleftrightarrow> e_start x \<le> e \<and> s \<le> e_end x"

definition hits :: "int \<Rightarrow> int \<Rightarrow> itree \<Rightarrow> ECalComponent multiset" where
  "hits s e t = mset (map e_comp (filter (meets s e) (entries t)))"

lemma hits_simps:
  "hits s e Leaf = {#}"
  "hits s e (Node l n r) = mset (if meets s e (entry n) then [n_comp n] else []) + (hits s e l + hits s e r)"
  by (simp_all add: hits_def)

lemma compare_meets: "compare_intervals a b s e = 0 \<longleftrightarrow> a \<le> e \<and> s \<le> b"
  by (auto simp: compare_intervals_def)

lemma within_no_hits: "within (entries t) lo hi \<Longrightarrow> \<not> (lo \<le> e \<and> s \<le> hi) \<Longrightarrow> hits s e t = {#}"
  by (fastforce simp: hits_def within_def meets_def filter_empty_conv)

definition stored :: "store \<Rightarrow> itree \<Rightarrow> bool" where
  "stored h t \<longleftrightarrow> sentinels h \<and> NIL \<notin> set (ptrs t) \<and> (\<exists>q. rep h q t)"

definition search_children :: "store \<Rightarrow> int \<Rightarrow> int \<Rightarrow> ptr \<Rightarrow> ptr list" where
  "search_children h s e p =
     filter (\<lambda>c. compare_intervals (imin (h c)) (imax (h c)) s e = 0) [ileft (h p), iright (h p)]"

lemma search_children_tree:
  fixes s e :: int
  assumes "stored h (Node l n r)" and "covers (Node l n r)"
  defines "P \<equiv> \<lambda>t. mn t \<le> e \<and> s \<le> mx t"
  shows "search_children h s e (n_ptr n) = map tptr (filter P [l, r])"
    and "(\<Sum>t\<leftarrow>filter P [l, r]. hits s e t) = hits s e l + hits s e r"
proof -
  have "sentinels h" "rep h (n_ptr n) l" "rep h (n_ptr n) r" "ileft (h (n_ptr n)) = tptr l" "iright (h (n_ptr n)) = tptr r"
    using assms(1) by (auto simp: stored_def)
  then show "search_children h s e (n_ptr n) = map tptr (filter P [l, r])"
    by (simp add: search_children_def compare_meets rep_values P_def)
  have "hits s e t = {#}" if "\<not> P t" "covers t" for t
    using within_no_hits [OF covers_within] that by (simp add: P_def)
  then show "(\<Sum>t\<leftarrow>filter P [l, r]. hits s e t) = hits s e l + hits s e r" using assms(2) by simp
qed

interpretation search: worklist "search_loop h s e"
    "\<lambda>p. if compare_intervals (istart (h p)) (iend (h p)) s e = 0 then [icomp (h p)] else []"
    "search_children h s e" "\<lambda>t. stored h t \<and> covers t" "hits s e" for h s e
proof
  show "search_loop h s e [] acc = Some acc" for acc by (subst search_loop.simps) simp
  show "search_loop h s e (NIL # pos) acc = search_loop h s e pos acc" for pos acc
    by (subst search_loop.simps) simp
  show "search_loop h s e (p # pos) acc = search_loop h s e (pos @ search_children h s e p)
      (acc @ (if compare_intervals (istart (h p)) (iend (h p)) s e = 0 then [icomp (h p)] else []))"
    if "p \<noteq> NIL" for p pos acc
    using that by (subst search_loop.simps) (simp add: Let_def search_children_def)
  show "hits s e Leaf = {#}" by (simp add: hits_def)
  fix l n r assume ok: "stored h (Node l n r) \<and> covers (Node l n r)"
  let ?G = "filter (\<lambda>t. mn t \<le> e \<and> s \<le> mx t) [l, r]"
  have "list_all (\<lambda>t. stored h t \<and> covers t) [l, r]" using ok by (auto simp: stored_def)
  then have "list_all (\<lambda>t. stored h t \<and> covers t) ?G" by (auto simp: list_all_iff)
  moreover have "hits s e (Node l n r) =
      mset (if compare_intervals (istart (h (n_ptr n))) (iend (h (n_ptr n))) s e = 0 then [icomp (h (n_ptr n))] else []) +
      (\<Sum>t\<leftarrow>?G. hits s e t)"
  proof -
    have "(\<Sum>t\<leftarrow>?G. hits s e t) = hits s e l + hits s e r" using ok by (intro search_children_tree(2)) auto
    moreover have "istart (h (n_ptr n)) = n_start n" "iend (h (n_ptr n)) = n_end n" "icomp (h (n_ptr n)) = n_comp n"
      using ok by (auto simp: stored_def holds_def)
    ultimately show ?thesis by (simp only: hits_simps compare_meets meets_def e_simps)
  qed
  moreover have "weight ?G \<le> weight [l, r]" by simp
  moreover have "n_ptr n \<noteq> NIL" using ok by (auto simp: stored_def)
  ultimately show "n_ptr n \<noteq> NIL \<and> (\<exists>G. search_children h s e (n_ptr n) = map tptr G \<and>
      list_all (\<lambda>t. stored h t \<and> covers t) G \<and> weight G \<le> weight [l, r] \<and>
      hits s e (Node l n r) = mset (if compare_intervals (istart (h (n_ptr n))) (iend (h (n_ptr n))) s e = 0
        then [icomp (h (n_ptr n))] else []) + (\<Sum>t\<leftarrow>G. hits s e t))"
    using search_children_tree(1) ok by blast
qed

text \<open>The destruction.\<close>

interpretation destroy: worklist "destroy_loop h" "\<lambda>p. [p]" "\<lambda>p. [ileft (h p), iright (h p)]" "stored h"
    "\<lambda>t. mset (ptrs t)" for h
proof
  show "destroy_loop h [] acc = Some acc" for acc by (subst destroy_loop.simps) simp
  show "destroy_loop h (NIL # pos) acc = destroy_loop h pos acc" for pos acc
    by (subst destroy_loop.simps) simp
  show "destroy_loop h (p # pos) acc = destroy_loop h (pos @ [ileft (h p), iright (h p)]) (acc @ [p])"
    if "p \<noteq> NIL" for p pos acc
    using that by (subst destroy_loop.simps) simp
  show "mset (ptrs Leaf) = {#}" by simp
  fix l n r assume "stored h (Node l n r)"
  then show "n_ptr n \<noteq> NIL \<and> (\<exists>G. [ileft (h (n_ptr n)), iright (h (n_ptr n))] = map tptr G \<and>
      list_all (stored h) G \<and> weight G \<le> weight [l, r] \<and>
      mset (ptrs (Node l n r)) = mset [n_ptr n] + (\<Sum>t\<leftarrow>G. mset (ptrs t)))"
    by (intro conjI exI [of _ "[l, r]"]) (auto simp: stored_def)
qed

section \<open>Histories\<close>

text \<open>A state that is changed by fallible steps, and an abstract state that its representation follows.\<close>

fun history :: "('o \<Rightarrow> 's \<Rightarrow> 's option) \<Rightarrow> 'o list \<Rightarrow> 's \<Rightarrow> 's option" where
  "history step [] s = Some s"
| "history step (x # xs) s = Option.bind (step x s) (history step xs)"

locale data_refinement =
  fixes step :: "'o \<Rightarrow> 's \<Rightarrow> 's option" and effect :: "'o \<Rightarrow> 'a \<Rightarrow> 'a"
    and rep :: "'s \<Rightarrow> 'a \<Rightarrow> bool" and allowed :: "'o \<Rightarrow> bool"
  assumes step_refines: "rep s a \<Longrightarrow> allowed x \<Longrightarrow> \<exists>s'. step x s = Some s' \<and> rep s' (effect x a)"
begin

lemma history_refines:
  "rep s a \<Longrightarrow> list_all allowed xs \<Longrightarrow> \<exists>s'. history step xs s = Some s' \<and> rep s' (fold effect xs a)"
proof (induction xs arbitrary: s a)
  case (Cons x xs)
  then obtain s' where "step x s = Some s'" "rep s' (effect x a)" using step_refines by fastforce
  then show ?case using Cons.IH [of s' "effect x a"] Cons.prems(2) by simp
qed simp

end

datatype tree_op =
  Insert int int ECalComponent
| Remove cstring "cstring option"

fun tree_step :: "tree_op \<Rightarrow> EIntervalTree \<Rightarrow> EIntervalTree option" where
  "tree_step (Insert s e c) I = map_option fst (e_intervaltree_insert I s e c)"
| "tree_step (Remove uid rid) I = map_option fst (e_intervaltree_remove I uid rid)"

fun span_effect :: "tree_op \<Rightarrow> (cstring \<Rightarrow> span option) \<Rightarrow> cstring \<Rightarrow> span option" where
  "span_effect (Insert s e c) m = m(comp_key c \<mapsto> (s, e, c))"
| "span_effect (Remove uid rid) m = m(component_key uid rid := None)"

fun op_in_range :: "tree_op \<Rightarrow> bool" where
  "op_in_range (Insert s e c) = in_range s e" | "op_in_range (Remove uid rid) = True"

lemma tree_step_refines:
  assumes "tree_rep I t"
  shows "\<exists>I' t'. tree_step x I = Some I' \<and> tree_rep I' t' \<and> spans I' = span_effect x (spans I) \<and>
    (aug t \<and> op_in_range x \<longrightarrow> aug t')"
proof (cases x)
  case (Insert s e c)
  then show ?thesis using insert_refines [OF assms, of s e c] by (simp del: fun_upd_apply) fastforce
next
  case (Remove uid rid)
  then show ?thesis using remove_refines [OF assms refl, of uid rid] by (simp del: fun_upd_apply) fastforce
qed

interpretation tree_map: data_refinement tree_step span_effect
    "\<lambda>I m. (\<exists>t. tree_rep I t) \<and> spans I = m" "\<lambda>x. True"
  by unfold_locales (metis tree_step_refines)

interpretation exact_map: data_refinement tree_step span_effect
    "\<lambda>I m. (\<exists>t. tree_rep I t \<and> aug t) \<and> spans I = m" op_in_range
  by unfold_locales (metis tree_step_refines)

lemma history_rep:
  obtains I t where "history tree_step ops e_intervaltree_new = Some I" "tree_rep I t"
    "spans I = fold span_effect ops Map.empty"
  using tree_map.history_refines [of e_intervaltree_new Map.empty ops] tree_rep_new spans_new
  by (auto simp: list_all_iff)

lemma tree_rep_stored: "tree_rep I t \<Longrightarrow> stored (nodes I) t \<and> ileft (nodes I ROOT) = tptr t"
  by (auto simp: tree_rep_def zrep_def apart_def stored_def)

lemma tree_rep_search:
  assumes "tree_rep I t"
  shows "\<exists>cs. e_intervaltree_search I s e = Some cs \<and> mset cs = hits s e t"
  using search.loop_forest [of "nodes I" "[t]" s e "[]"] tree_rep_stored [OF assms] assms
  by (auto simp: e_intervaltree_search_def tree_rep_def)

lemma distinct_hits:
  "distinct (map e_key es) \<Longrightarrow> distinct (map e_comp (filter P es))"
proof -
  assume "distinct (map e_key es)"
  then have "distinct (map comp_key (map e_comp es))" by (simp add: e_key_def [abs_def] comp_def)
  then have "distinct (map e_comp es)" by (simp only: distinct_map)
  then show ?thesis by (rule distinct_map_filter)
qed

lemma hits_spans:
  assumes "tree_rep I t"
  shows "set_mset (hits s e t) = {c. \<exists>k a b. spans I k = Some (a, b, c) \<and> a \<le> e \<and> s \<le> b}"
proof -
  have "spans I k = Some (a, b, c) \<longleftrightarrow> (k, a, b, c) \<in> (\<lambda>x. (e_key x, snd x)) ` set (entries t)" for k a b c
    using assms map_of_eq_Some_iff [of "map (\<lambda>x. (e_key x, snd x)) (entries t)" k "(a, b, c)"]
    by (simp add: tree_rep_spans [OF assms] tree_rep_def comp_def)
  then have *: "(\<exists>k. spans I k = Some (a, b, c)) \<longleftrightarrow> (\<exists>p. (p, a, b, c) \<in> set (entries t))" for a b c
    by (simp add: image_iff) (metis snd_conv surj_pair)
  have "{c. \<exists>k a b. spans I k = Some (a, b, c) \<and> a \<le> e \<and> s \<le> b} =
      {c. \<exists>a b. (\<exists>k. spans I k = Some (a, b, c)) \<and> a \<le> e \<and> s \<le> b}" by blast
  also have "\<dots> = e_comp ` {x \<in> set (entries t). meets s e x}"
    unfolding * by (force simp: meets_def e_start_def e_end_def e_comp_def)
  finally show ?thesis by (simp add: hits_def)
qed

lemma spans_card:
  assumes "tree_rep I t"
  shows "card (dom (spans I)) = size t" and "ran (id_node_hash I) = set (ptrs t)"
proof -
  have d: "distinct (map e_key (entries t))" using assms by (simp add: tree_rep_def)
  have "dom (spans I) = set (map e_key (entries t))"
    by (force simp: tree_rep_spans [OF assms] dom_map_of_conv_image_fst)
  then have "card (dom (spans I)) = length (map e_key (entries t))" using distinct_card [OF d] by metis
  moreover have "length (entries t) = size t" by (simp add: entries_def)
  ultimately show "card (dom (spans I)) = size t" by simp
  have "ran (id_node_hash I) = snd ` set (map (\<lambda>x. (e_key x, fst x)) (entries t))"
    using assms d by (simp add: tree_rep_def ran_distinct comp_def)
  then show "ran (id_node_hash I) = set (ptrs t)" by (simp add: set_ptrs image_image)
qed

lemma rep_depth:
  "rep h q t \<Longrightarrow> p \<in> set (ptrs t) \<Longrightarrow> \<exists>d\<le>height t. 0 < d \<and> ((\<lambda>p. iparent (h p)) ^^ d) p = q"
proof (induction t arbitrary: q)
  case (Node l n r)
  have up: "\<exists>d\<le>height (Node l n r). 0 < d \<and> ((\<lambda>p. iparent (h p)) ^^ d) p = q"
    if "d \<le> max (height l) (height r)" "((\<lambda>p. iparent (h p)) ^^ d) p = n_ptr n" for d
    using that Node.prems(1) by (intro exI [of _ "Suc d"]) simp
  from Node.prems(2) consider "p = n_ptr n" | "p \<in> set (ptrs l)" | "p \<in> set (ptrs r)" by auto
  then show ?case
  proof cases
    case 1
    then show ?thesis using Node.prems(1) by (intro exI [of _ 1]) simp
  next
    case 2
    then obtain d where "d \<le> height l" "((\<lambda>p. iparent (h p)) ^^ d) p = n_ptr n" using Node by auto
    then show ?thesis by (intro up) auto
  next
    case 3
    then obtain d where "d \<le> height r" "((\<lambda>p. iparent (h p)) ^^ d) p = n_ptr n" using Node by auto
    then show ?thesis by (intro up) auto
  qed
qed simp

section \<open>The tree as it is linked\<close>

text \<open>\<open>walk h q p ps\<close>: the links below node \<open>p\<close>, whose parent is \<open>q\<close>, lead to the nodes \<open>ps\<close>, from left to
  right, each with its parent link to the node it is reached from.\<close>

inductive walk :: "store \<Rightarrow> ptr \<Rightarrow> ptr \<Rightarrow> ptr list \<Rightarrow> bool" for h where
  walk_nil: "walk h q NIL []"
| walk_node: "p \<noteq> NIL \<Longrightarrow> iparent (h p) = q \<Longrightarrow> walk h p (ileft (h p)) ls \<Longrightarrow> walk h p (iright (h p)) rs \<Longrightarrow>
    walk h q p (ls @ p # rs)"

definition node_key :: "store \<Rightarrow> ptr \<Rightarrow> cstring" where "node_key h p = comp_key (icomp (h p))"

definition node_span :: "store \<Rightarrow> ptr \<Rightarrow> span" where "node_span h p = (istart (h p), iend (h p), icomp (h p))"

lemma rep_walk: "rep h q t \<Longrightarrow> NIL \<notin> set (ptrs t) \<Longrightarrow> walk h q (tptr t) (map fst (entries t))"
  by (induction t arbitrary: q) (auto intro: walk_nil walk_node)

lemma rep_entry:
  assumes "rep h q t" and "x \<in> set (entries t)"
  shows "istart (h (fst x)) = e_start x" "node_key h (fst x) = e_key x" "node_span h (fst x) = snd x"
  using rep_entries [OF assms(1), of "fst x" "fst (snd x)" "fst (snd (snd x))" "snd (snd (snd x))"] assms(2)
  by (auto simp: node_key_def node_span_def e_key_def e_comp_def e_start_def split_def)

lemma tree_rep_walk:
  assumes "tree_rep I t"
  shows "\<exists>ps. walk (nodes I) ROOT (ileft (nodes I ROOT)) ps \<and> distinct ps \<and>
    distinct (map (node_key (nodes I)) ps) \<and> sorted (map (\<lambda>p. istart (nodes I p)) ps) \<and>
    map_of (map (\<lambda>p. (node_key (nodes I) p, node_span (nodes I) p)) ps) = spans I \<and>
    id_node_hash I = map_of (map (\<lambda>p. (node_key (nodes I) p, p)) ps)"
proof -
  have rep: "rep (nodes I) ROOT t" "NIL \<notin> set (ptrs t)" "distinct (ptrs t)" "ileft (nodes I ROOT) = tptr t"
    using assms by (simp_all add: tree_rep_def zrep_def apart_def)
  have es: "by_start (entries t)" "distinct (map e_key (entries t))"
      "id_node_hash I = map_of (map (\<lambda>x. (e_key x, fst x)) (entries t))"
    using assms by (simp_all add: tree_rep_def)
  note * = rep_entry [OF rep(1)]
  let ?ps = "map fst (entries t)"
  have "map (\<lambda>p. istart (nodes I p)) ?ps = map e_start (entries t)"
    "map (node_key (nodes I)) ?ps = map e_key (entries t)"
    "map (\<lambda>p. (node_key (nodes I) p, p)) ?ps = map (\<lambda>x. (e_key x, fst x)) (entries t)"
    "map (\<lambda>p. (node_key (nodes I) p, node_span (nodes I) p)) ?ps = map (\<lambda>x. (e_key x, snd x)) (entries t)"
    by (simp_all add: *)
  then show ?thesis
    using rep_walk [OF rep(1,2)] rep(3,4) es distinct_entries [of t] tree_rep_spans [OF assms]
    by (intro exI [of _ ?ps]) (simp only: by_start_def simp_thms)
qed

section \<open>Properties\<close>

text \<open>C3: Whatever components are inserted and removed, in whatever order and with whatever times, every
  operation returns (no loop of the red-black tree runs for ever). Following the links from the root passes
  a finite list of distinct nodes, whose parent links are right and whose starts do not decrease from left to
  right; these nodes are exactly the map from component keys to intervals that the operations describe, and
  the hash table has exactly them, each under the key of its component.\<close>

theorem intervaltree_refines_map:
  "\<exists>I ps. history tree_step ops e_intervaltree_new = Some I \<and>
    walk (nodes I) ROOT (ileft (nodes I ROOT)) ps \<and> distinct ps \<and> distinct (map (node_key (nodes I)) ps) \<and>
    sorted (map (\<lambda>p. istart (nodes I p)) ps) \<and>
    map_of (map (\<lambda>p. (node_key (nodes I) p, node_span (nodes I) p)) ps) = fold span_effect ops Map.empty \<and>
    id_node_hash I = map_of (map (\<lambda>p. (node_key (nodes I) p, p)) ps)"
proof -
  obtain I t where I: "history tree_step ops e_intervaltree_new = Some I" "tree_rep I t"
      "spans I = fold span_effect ops Map.empty" by (rule history_rep)
  show ?thesis
    using tree_rep_walk [OF I(2), unfolded I(3)] I(1) by blast
qed

text \<open>C2: After any history the search returns, once each, exactly the components whose interval meets
  the given one: pruning by the minima and maxima in the nodes loses nothing, also for times outside
  \<^verbatim>\<open>_TIME_MIN\<close> to \<^verbatim>\<open>_TIME_MAX\<close>.\<close>

theorem intervaltree_search_exact:
  "\<exists>I cs. history tree_step ops e_intervaltree_new = Some I \<and> e_intervaltree_search I s e = Some cs \<and>
    distinct cs \<and>
    set cs = {c. \<exists>k a b. fold span_effect ops Map.empty k = Some (a, b, c) \<and> a \<le> e \<and> s \<le> b}"
proof -
  obtain I t where I: "history tree_step ops e_intervaltree_new = Some I" "tree_rep I t"
      "spans I = fold span_effect ops Map.empty" by (rule history_rep)
  obtain cs where cs: "e_intervaltree_search I s e = Some cs" "mset cs = hits s e t"
    using tree_rep_search [OF I(2)] by blast
  have "distinct (map e_comp (filter (meets s e) (entries t)))"
    using I(2) by (intro distinct_hits) (simp add: tree_rep_def)
  then have "distinct cs" using cs(2) mset_eq_imp_distinct_iff [of cs] by (simp only: hits_def)
  moreover have "set cs = set_mset (hits s e t)" using cs(2) by (metis set_mset_mset)
  ultimately show ?thesis using I cs(1) by (simp only: hits_spans [OF I(2)]) metis
qed

text \<open>C18: After any history, from every node that the hash table knows the parent pointers lead to the
  root sentinel, in a number of steps at most twice the logarithm of the number of components.\<close>

theorem intervaltree_balanced:
  assumes "history tree_step ops e_intervaltree_new = Some I" and "id_node_hash I k = Some p"
  shows "\<exists>d>0. ((\<lambda>p. iparent (nodes I p)) ^^ d) p = ROOT \<and> 2 ^ (d div 2) \<le> card (dom (spans I)) + 1"
proof -
  obtain t where t: "tree_rep I t" using assms(1) history_rep [of ops] by (metis option.inject)
  then have "rep (nodes I) ROOT t" and "rbt t" by (auto simp: tree_rep_def zrep_def)
  moreover have "p \<in> set (ptrs t)" using assms(2) spans_card(2) [OF t] by (auto simp: ran_def)
  ultimately obtain d where d: "d \<le> height t" "0 < d" "((\<lambda>p. iparent (nodes I p)) ^^ d) p = ROOT"
    using rep_depth by blast
  have "(2::nat) ^ (d div 2) \<le> 2 ^ (height t div 2)" using d(1) by (simp add: div_le_mono)
  also have "\<dots> \<le> card (dom (spans I)) + 1" using rbt_height \<open>rbt t\<close> spans_card(1) [OF t] by simp
  finally show ?thesis using d(2,3) by blast
qed

text \<open>C19: Destruction frees every node of the tree exactly once, after any history.\<close>

theorem intervaltree_destroy_frees_once:
  "\<exists>I freed. history tree_step ops e_intervaltree_new = Some I \<and> e_intervaltree_destroy I = Some freed \<and>
    distinct freed \<and> set freed = ran (id_node_hash I) \<and> length freed = card (dom (spans I))"
proof -
  obtain I t where I: "history tree_step ops e_intervaltree_new = Some I" "tree_rep I t" by (rule history_rep)
  obtain freed where f: "e_intervaltree_destroy I = Some freed" "mset freed = mset (ptrs t)"
    using destroy.loop_forest [of "nodes I" "[t]" "[]"] tree_rep_stored [OF I(2)]
    by (auto simp: e_intervaltree_destroy_def)
  have d: "distinct (ptrs t)" using I(2) by (simp add: tree_rep_def zrep_def apart_def)
  then have "distinct freed" using f(2) mset_eq_imp_distinct_iff by blast
  moreover have "set freed = ran (id_node_hash I)" using f(2) spans_card(2) [OF I(2)] by (metis mset_eq_setD)
  moreover have "length freed = card (dom (spans I))"
  proof -
    have "length freed = length (ptrs t)" using f(2) by (metis size_mset)
    also have "length (ptrs t) = size t" by (induction t) auto
    finally show ?thesis using spans_card(1) [OF I(2)] by simp
  qed
  ultimately show ?thesis using I(1) f(1) by blast
qed

text \<open>C20: The key of a component joins uid and recurrence id with an underscore and does not mark the
  boundary. A component whose uid is another's uid, an underscore and its recurrence id replaces that other
  one, which no search finds any more.\<close>

theorem intervaltree_key_collision:
  assumes "comp_rid c = Some r" and "comp_rid d = None" and "comp_uid d = comp_uid c @ [0x5f] @ r" and "c \<noteq> d"
  shows "\<exists>I cs. history tree_step [Insert s e c, Insert s' e' d] e_intervaltree_new = Some I \<and>
    e_intervaltree_search I s e = Some cs \<and> c \<notin> set cs \<and> spans I = [comp_key d \<mapsto> (s', e', d)]"
proof -
  obtain I t where I: "history tree_step [Insert s e c, Insert s' e' d] e_intervaltree_new = Some I" "tree_rep I t"
      "spans I = fold span_effect [Insert s e c, Insert s' e' d] Map.empty" by (rule history_rep)
  have "comp_key c = comp_key d" using assms(1-3) by (simp add: comp_key_def component_key_def)
  then have sp: "spans I = [comp_key d \<mapsto> (s', e', d)]" using I(3) by simp
  obtain cs where cs: "e_intervaltree_search I s e = Some cs" "mset cs = hits s e t"
    using tree_rep_search [OF I(2)] by blast
  have "set cs = {c. \<exists>k a b. spans I k = Some (a, b, c) \<and> a \<le> e \<and> s \<le> b}"
    using hits_spans [OF I(2)] cs(2) by (metis set_mset_mset)
  then have "set cs \<subseteq> {d}" by (auto simp: sp split: if_splits)
  then show ?thesis using I(1) cs(1) sp assms(4) by blast
qed

text \<open>Inserted intervals that end at or after \<^verbatim>\<open>_TIME_MIN\<close> and start at or before \<^verbatim>\<open>_TIME_MAX\<close> leave the exact
  extremes in every node.\<close>

lemma intervaltree_extremes:
  assumes "list_all op_in_range ops"
  obtains I t where "history tree_step ops e_intervaltree_new = Some I" "tree_rep I t"
    "spans I = fold span_effect ops Map.empty" "aug t"
  using exact_map.history_refines [of e_intervaltree_new Map.empty ops] assms tree_rep_new spans_new
  by (metis aug.simps(1))

section \<open>Witnesses\<close>

lemma intervaltree_balanced_witness:
  "\<exists>I p d. history tree_step [Insert 5 9 \<lparr>comp_uid = [0x61], comp_rid = None, comp_object = 1\<rparr>] e_intervaltree_new =
      Some I \<and> id_node_hash I [0x61] = Some p \<and> 0 < d \<and> ((\<lambda>p. iparent (nodes I p)) ^^ d) p = ROOT \<and>
      2 ^ (d div 2) \<le> (2::nat)"
proof -
  let ?ops = "[Insert 5 9 \<lparr>comp_uid = [0x61], comp_rid = None, comp_object = 1\<rparr>]"
  obtain I t where I: "history tree_step ?ops e_intervaltree_new = Some I" "tree_rep I t"
      "spans I = fold span_effect ?ops Map.empty" by (rule history_rep)
  have "spans I = [[0x61] \<mapsto> (5, 9, \<lparr>comp_uid = [0x61], comp_rid = None, comp_object = 1\<rparr>)]"
    using I(3) by (simp add: comp_key_def component_key_def)
  moreover from this obtain p where p: "id_node_hash I [0x61] = Some p"
    by (auto simp: spans_def fun_eq_iff split: if_splits)
  ultimately show ?thesis using intervaltree_balanced [OF I(1) p] I(1) p by auto
qed

lemma intervaltree_key_collision_witness:
  "\<exists>I cs c d. history tree_step [Insert 5 9 c, Insert 20 30 d] e_intervaltree_new = Some I \<and>
    e_intervaltree_search I 5 9 = Some cs \<and> c \<notin> set cs \<and> comp_uid c = [0x61] \<and> comp_uid d = [0x61, 0x5f, 0x62]"
proof -
  let ?c = "\<lparr>comp_uid = [0x61], comp_rid = Some [0x62], comp_object = 1\<rparr>"
  let ?d = "\<lparr>comp_uid = [0x61, 0x5f, 0x62], comp_rid = None, comp_object = 2\<rparr>"
  have "\<exists>I cs. history tree_step [Insert 5 9 ?c, Insert 20 30 ?d] e_intervaltree_new = Some I \<and>
      e_intervaltree_search I 5 9 = Some cs \<and> ?c \<notin> set cs \<and> spans I = [comp_key ?d \<mapsto> (20, 30, ?d)]"
    by (rule intervaltree_key_collision [of ?c "[0x62]" ?d]) simp_all
  moreover have "comp_uid ?c = [0x61]" "comp_uid ?d = [0x61, 0x5f, 0x62]" by simp_all
  ultimately show ?thesis by blast
qed

end
