(* ===== verification/EBook_VCard.thy ===== *)
theory EBook_VCard
  imports Camel_Strings Camel_Quoted
begin

text \<open>
  \<^verbatim>\<open>src/src/addressbook/libebook-contacts/e-vcard.c\<close>: the text form of contacts.

  A pointer into the text is the suffix it points at, without the terminating NUL, which is read from the empty
  suffix. Moving a pointer past the NUL and reading there is outside of the text: a function that does so gives
  \<open>None\<close>. A value that is read is collected in a string; stretches without special characters are not
  copied one by one, but from the pointer \<open>chunk\<close> when they end.
\<close>

section \<open>Characters\<close>

abbreviation DQUOTE :: byte where "DQUOTE \<equiv> 34"
abbreviation COMMA :: byte where "COMMA \<equiv> 44"
abbreviation COLON :: byte where "COLON \<equiv> 58"
abbreviation SEMICOLON :: byte where "SEMICOLON \<equiv> 59"
abbreviation BACKSLASH :: byte where "BACKSLASH \<equiv> 92"

fun char_at :: "cstring \<Rightarrow> byte" where
  "char_at [] = NUL"
| "char_at (c # s) = c"

definition newline :: "byte \<Rightarrow> bool" where
  "newline c \<longleftrightarrow> c = LF \<or> c = CR"

definition blank :: "byte \<Rightarrow> bool" where
  "blank c \<longleftrightarrow> c = SP \<or> c = TAB"

definition isalnum :: "byte \<Rightarrow> bool" where
  "isalnum c \<longleftrightarrow> 48 \<le> c \<and> c \<le> 57 \<or> 65 \<le> c \<and> c \<le> 90 \<or> 97 \<le> c \<and> c \<le> 122"

text \<open>What the GLib functions on text compute: the first invalid byte, conversion to UTF-8, and whether the character
  at a pointer is alphanumeric. A C string taken from a buffer ends at its first NUL.\<close>

record glib_text =
  g_utf8_validate :: "cstring \<Rightarrow> nat option"
  g_convert :: "cstring \<Rightarrow> cstring \<Rightarrow> cstring option"
  g_unichar_isalnum :: "cstring \<Rightarrow> bool"

definition c_str :: "byte list \<Rightarrow> cstring" where
  "c_str s = takeWhile (\<lambda>c. c \<noteq> NUL) s"

text \<open>\<^verbatim>\<open>make_utf8_valid\<close>: every invalid byte becomes U+FFFD.\<close>

function make_utf8_valid :: "glib_text \<Rightarrow> byte list \<Rightarrow> byte list" where
  "make_utf8_valid g s =
     (if s = [] then []
      else
        (case g_utf8_validate g s of
           None \<Rightarrow> s
         | Some valid \<Rightarrow> take valid s @ [0xEF, 0xBF, 0xBD] @ make_utf8_valid g (drop (valid + 1) s)))"
  by pat_completeness auto
termination
  by (relation "measure (\<lambda>(g, s). length s)") auto

declare make_utf8_valid.simps [simp del]

section \<open>Lines\<close>

definition skip_newline :: "cstring \<Rightarrow> bool \<Rightarrow> cstring" where
  "skip_newline s quoted_printable =
     (if quoted_printable \<and> char_at s = EQUALS then
        (let nxt = tl s in
         if newline (char_at nxt)
         then
           (let p = tl nxt in
            if newline (char_at p) \<and> char_at p \<noteq> char_at nxt
            then (let p = tl p in if blank (char_at p) then tl p else p)
            else p)
         else s)
      else if newline (char_at s) then
        (let nxt = tl s in
         if newline (char_at nxt) \<and> char_at s \<noteq> char_at nxt
         then (let nxt2 = tl nxt in if blank (char_at nxt2) then tl nxt2 else s)
         else if blank (char_at nxt) then tl nxt
         else s)
      else s)"

definition skip_to_next_line :: "cstring \<Rightarrow> cstring" where
  "skip_to_next_line s = dropWhile newline (dropWhile (\<lambda>c. \<not> newline c) s)"

definition skip_until :: "cstring \<Rightarrow> byte list \<Rightarrow> cstring" where
  "skip_until s cs = dropWhile (\<lambda>c. c \<noteq> CR \<and> c \<notin> set cs) s"

lemma suffix_skip_newline: "suffix (skip_newline s qp) s"
proof -
  have s: "suffix (tl u) u" "suffix (tl (tl u)) u" "suffix (tl (tl (tl u))) u" "suffix (tl (tl (tl (tl u)))) u" for u :: cstring
    by (metis suffix_tl suffix_order.trans)+
  then show ?thesis by (simp add: skip_newline_def Let_def)
qed

lemma length_skip_newline: "length (skip_newline s qp) \<le> length s"
  by (rule suffix_length_le [OF suffix_skip_newline])

lemma length_skip_to_next_line: "length (skip_to_next_line s) \<le> length s"
  using length_dropWhile_le le_trans unfolding skip_to_next_line_def by blast

lemma length_skip_until: "length (skip_until s cs) \<le> length s"
  by (simp add: skip_until_def length_dropWhile_le)

section \<open>Attributes\<close>

datatype EVCardEncoding = EVC_ENCODING_RAW | EVC_ENCODING_BASE64 | EVC_ENCODING_QP

record EVCardAttributeParam =
  param_name :: cstring
  param_values :: "cstring list"

record EVCardAttribute =
  group :: "cstring option"
  attr_name :: cstring
  params :: "EVCardAttributeParam list"
  vals :: "cstring list"
  encoding :: EVCardEncoding
  encoding_set :: bool

definition e_vcard_attribute_new :: "cstring option \<Rightarrow> cstring \<Rightarrow> EVCardAttribute" where
  "e_vcard_attribute_new attr_group name =
     \<lparr>group = (if attr_group = Some [] then None else attr_group), attr_name = name,
      params = [], vals = [], encoding = EVC_ENCODING_RAW, encoding_set = False\<rparr>"

definition is_singlevalue_type :: "cstring \<Rightarrow> bool" where
  "is_singlevalue_type name \<longleftrightarrow>
     camel_strcase_equal name (bytes ''KEY'') \<or> camel_strcase_equal name (bytes ''LOGO'') \<or>
     camel_strcase_equal name (bytes ''PHOTO'') \<or> camel_strcase_equal name (bytes ''SOUND'') \<or>
     camel_strcase_equal name (bytes ''TZ'')"

text \<open>The values of a parameter that an attribute has already are merged.\<close>

fun merge_values :: "cstring list \<Rightarrow> cstring list \<Rightarrow> cstring list" where
  "merge_values vals2 [] = vals2"
| "merge_values vals2 (v # vs) =
     merge_values (if \<exists>v2\<in>set vals2. camel_strcase_equal v2 v then vals2 else vals2 @ [v]) vs"

fun merge_param :: "EVCardAttributeParam list \<Rightarrow> EVCardAttributeParam \<Rightarrow> EVCardAttributeParam list option" where
  "merge_param [] p = None"
| "merge_param (p2 # ps) p =
     (if camel_strcase_equal (param_name p2) (param_name p)
      then Some (p2\<lparr>param_values := merge_values (param_values p2) (param_values p)\<rparr> # ps)
      else map_option (Cons p2) (merge_param ps p))"

definition e_vcard_attribute_add_param :: "EVCardAttribute \<Rightarrow> EVCardAttributeParam \<Rightarrow> EVCardAttribute" where
  "e_vcard_attribute_add_param attr p =
     (let attr = attr\<lparr>params := (case merge_param (params attr) p of Some ps \<Rightarrow> ps | None \<Rightarrow> p # params attr)\<rparr> in
      if camel_strcase_equal (param_name p) (bytes ''ENCODING'') \<and> \<not> encoding_set attr
      then
        (case param_values p of
           [] \<Rightarrow> attr
         | v # _ \<Rightarrow>
             attr\<lparr>encoding :=
                 (if camel_strcase_equal v (bytes ''b'') \<or> camel_strcase_equal v (bytes ''BASE64'') then EVC_ENCODING_BASE64
                  else if camel_strcase_equal v (bytes ''QUOTED-PRINTABLE'') then EVC_ENCODING_QP
                  else encoding attr),
               encoding_set := True\<rparr>)
      else attr)"

fun remove_first_param :: "EVCardAttributeParam list \<Rightarrow> cstring \<Rightarrow> EVCardAttributeParam list option" where
  "remove_first_param [] name = None"
| "remove_first_param (p # ps) name =
     (if camel_strcase_equal (param_name p) name then Some ps
      else map_option (Cons p) (remove_first_param ps name))"

definition e_vcard_attribute_remove_param :: "EVCardAttribute \<Rightarrow> cstring \<Rightarrow> EVCardAttribute" where
  "e_vcard_attribute_remove_param attr name =
     (case remove_first_param (params attr) name of
        None \<Rightarrow> attr
      | Some ps \<Rightarrow>
          (let attr = (if camel_strcase_equal name (bytes ''ENCODING'')
                       then attr\<lparr>encoding_set := False, encoding := EVC_ENCODING_RAW\<rparr> else attr)
           in attr\<lparr>params := ps\<rparr>))"

definition e_vcard_attribute_add_value :: "EVCardAttribute \<Rightarrow> cstring \<Rightarrow> EVCardAttribute" where
  "e_vcard_attribute_add_value attr v = attr\<lparr>vals := vals attr @ [v]\<rparr>"

section \<open>Reading a value\<close>

datatype 'a step = Stop 'a | Go 'a | Overrun

definition write_chunk :: "byte list \<Rightarrow> cstring option \<Rightarrow> cstring \<Rightarrow> byte list" where
  "write_chunk str chunk lp =
     (case chunk of None \<Rightarrow> str | Some start \<Rightarrow> str @ take (length start - length lp) start)"

record value_state =
  v_vals :: "cstring list"
  v_str :: "byte list"
  v_chunk :: "cstring option"
  v_lp :: cstring

text \<open>A value that is complete: converted from its character set, and made valid.\<close>

definition finish_value :: "glib_text \<Rightarrow> cstring option \<Rightarrow> byte list \<Rightarrow> cstring" where
  "finish_value g charset str =
     c_str (make_utf8_valid g
       (case charset of
          None \<Rightarrow> str
        | Some cs \<Rightarrow> (case g_convert g str cs of None \<Rightarrow> str | Some t \<Rightarrow> c_str t)))"

definition unescape_char :: "byte \<Rightarrow> byte option" where
  "unescape_char c =
     (if c = 110 \<or> c = 78 then Some LF
      else if c = 114 \<or> c = 82 then Some CR
      else if c = SEMICOLON \<or> c = COMMA \<or> c = BACKSLASH then Some c
      else None)"

definition xdigit_value :: "byte \<Rightarrow> byte" where
  "xdigit_value c = (if 97 \<le> c then c - 97 + 10 else if 65 \<le> c then c - 65 + 10 else c - 48)"

text \<open>One round of the loop of \<^verbatim>\<open>read_attribute_value\<close>, at a pointer that is not at the end of the line. In the branch
  for \<^verbatim>\<open>=\<close> the first digit may be missing because the text ends; the pointer has then moved past the NUL, and
  the line is looked through from there. After a backslash and a folded line the text may end as well.\<close>

definition value_step ::
    "glib_text \<Rightarrow> bool \<Rightarrow> bool \<Rightarrow> bool \<Rightarrow> cstring option \<Rightarrow> value_state \<Rightarrow> value_state step" where
  "value_step g single is_categories quoted_printable charset st =
     (let lp = v_lp st; str = write_chunk (v_str st) (v_chunk st) lp in
      if char_at lp = EQUALS \<and> quoted_printable then
        (let lp = skip_newline (tl lp) quoted_printable; a = char_at lp in
         if a = NUL then Overrun
         else
           (let lp = skip_newline (tl lp) quoted_printable; b = char_at lp in
            if b = NUL then Stop (st\<lparr>v_str := str, v_chunk := None, v_lp := lp\<rparr>)
            else if isxdigit a \<and> isxdigit b
            then Go (st\<lparr>v_str := str @ [push_bit 4 (xdigit_value a) OR xdigit_value b], v_chunk := None, v_lp := tl lp\<rparr>)
            else Go (st\<lparr>v_str := str @ [EQUALS, a, b], v_chunk := None, v_lp := tl lp\<rparr>)))
      else if char_at lp = BACKSLASH then
        (let lp = tl lp in
         if char_at lp = NUL then Stop (st\<lparr>v_str := str @ [BACKSLASH], v_chunk := None, v_lp := lp\<rparr>)
         else
           (let lp = skip_newline lp quoted_printable in
            case unescape_char (char_at lp) of
              Some c \<Rightarrow> Go (st\<lparr>v_str := str @ [c], v_chunk := None, v_lp := tl lp\<rparr>)
            | None \<Rightarrow>
                if char_at lp = NUL then Overrun
                else Go (st\<lparr>v_str := str @ [BACKSLASH], v_chunk := Some lp, v_lp := tl lp\<rparr>)))
      else if char_at lp = SEMICOLON \<and> \<not> single \<or> char_at lp = COMMA \<and> is_categories then
        Go (st\<lparr>v_vals := v_vals st @ [finish_value g charset str], v_str := [], v_chunk := None, v_lp := tl lp\<rparr>)
      else
        Go (st\<lparr>v_chunk := (case v_chunk st of None \<Rightarrow> Some lp | Some start \<Rightarrow> Some start), v_lp := tl lp\<rparr>))"

text \<open>At the end of a round a chunk is written when the line ends or is folded.\<close>

definition end_round :: "value_state \<Rightarrow> value_state" where
  "end_round st =
     (if newline (char_at (v_lp st))
      then st\<lparr>v_str := write_chunk (v_str st) (v_chunk st) (v_lp st), v_chunk := None\<rparr>
      else st)"

lemma end_round_lp [simp]: "v_lp (end_round st) = v_lp st"
  by (simp add: end_round_def)

lemma char_at_not_NUL: "char_at s \<noteq> NUL \<Longrightarrow> s \<noteq> []"
  by auto

lemma value_step_shorter:
  assumes "value_step g single cat qp charset st = Go st'" and "v_lp st \<noteq> []"
  shows "length (v_lp st') < length (v_lp st)"
  using assms unfolding value_step_def Let_def
  by (auto split: if_splits option.splits intro!: less_imp_diff_less le_less_trans [OF length_skip_newline])

function value_loop ::
    "glib_text \<Rightarrow> bool \<Rightarrow> bool \<Rightarrow> bool \<Rightarrow> cstring option \<Rightarrow> value_state \<Rightarrow> value_state option" where
  "value_loop g single is_categories quoted_printable charset st =
     (let st = st\<lparr>v_lp := skip_newline (v_lp st) quoted_printable\<rparr> in
      if char_at (v_lp st) = NUL \<or> newline (char_at (v_lp st)) then Some st
      else
        (case value_step g single is_categories quoted_printable charset st of
           Overrun \<Rightarrow> None
         | Stop st \<Rightarrow> Some st
         | Go st \<Rightarrow> value_loop g single is_categories quoted_printable charset (end_round st)))"
  by pat_completeness auto
termination
proof (relation "measure (\<lambda>(g, single, cat, qp, charset, st). length (v_lp st))", goal_cases)
  case (2 g single cat qp charset st st1 st2)
  then have "length (v_lp st2) < length (v_lp st1)" by (intro value_step_shorter) auto
  then show ?case using 2(1) length_skip_newline [of "v_lp st" qp] by simp
qed simp

declare value_loop.simps [simp del]

definition read_attribute_value ::
    "glib_text \<Rightarrow> EVCardAttribute \<Rightarrow> cstring \<Rightarrow> bool \<Rightarrow> cstring option \<Rightarrow> (EVCardAttribute \<times> cstring) option" where
  "read_attribute_value g attr p quoted_printable charset =
     Option.bind
       (value_loop g (is_singlevalue_type (attr_name attr)) (camel_strcase_equal (attr_name attr) (bytes ''CATEGORIES''))
          quoted_printable charset \<lparr>v_vals = [], v_str = [], v_chunk = None, v_lp = p\<rparr>)
       (\<lambda>st.
         let str = write_chunk (v_str st) (v_chunk st) (v_lp st);
             attr = attr\<lparr>vals := vals attr @ v_vals st @ [finish_value g charset str]\<rparr>
         in Some (attr, skip_to_next_line (v_lp st)))"

section \<open>Reading parameters\<close>

record param_state =
  p_attr :: EVCardAttribute
  p_param :: "EVCardAttributeParam option"
  p_in_quote :: bool
  p_str :: "byte list"
  p_chunk :: "cstring option"
  p_lp :: cstring
  p_quoted_printable :: bool
  p_charset :: "cstring option"

definition valid_str :: "glib_text \<Rightarrow> byte list \<Rightarrow> cstring" where
  "valid_str g str = c_str (make_utf8_valid g str)"

text \<open>The branch for \<^verbatim>\<open>;\<close>, \<^verbatim>\<open>:\<close> and \<^verbatim>\<open>,\<close> with a parameter at hand: its last value, and the two parameters
  that are for the reader itself.\<close>

definition param_value_end :: "glib_text \<Rightarrow> param_state \<Rightarrow> EVCardAttributeParam \<Rightarrow> param_state" where
  "param_value_end g st p =
     (let st = (if p_str st \<noteq> []
                then st\<lparr>p_param := Some (p\<lparr>param_values := param_values p @ [valid_str g (p_str st)]\<rparr>), p_str := []\<rparr>
                else if param_values p = [] then st\<lparr>p_param := None\<rparr>
                else st)
      in
      case p_param st of
        None \<Rightarrow> st
      | Some p \<Rightarrow>
          (case param_values p of
             [] \<Rightarrow> st
           | v # _ \<Rightarrow>
               if camel_strcase_equal (param_name p) (bytes ''encoding'') \<and> camel_strcase_equal v (bytes ''quoted-printable'')
               then st\<lparr>p_quoted_printable := True, p_param := None\<rparr>
               else if camel_strcase_equal (param_name p) (bytes ''charset'') \<and> \<not> camel_strcase_equal v (bytes ''utf-8'')
               then st\<lparr>p_charset := Some v, p_param := None\<rparr>
               else st))"

text \<open>The same branch without one: a value alone is an encoding or a type.\<close>

definition param_alone :: "glib_text \<Rightarrow> param_state \<Rightarrow> param_state" where
  "param_alone g st =
     (if p_str st = [] then st
      else if camel_strcase_equal (c_str (p_str st)) (bytes ''quoted-printable'')
      then st\<lparr>p_param := Some \<lparr>param_name = bytes ''ENCODING'', param_values = [valid_str g (p_str st)]\<rparr>, p_str := [],
             p_quoted_printable := True\<rparr>
      else if camel_strcase_equal (c_str (p_str st)) (bytes ''base64'')
      then st\<lparr>p_param := Some \<lparr>param_name = bytes ''ENCODING'', param_values = [valid_str g (bytes ''b'')]\<rparr>, p_str := []\<rparr>
      else st\<lparr>p_param := Some \<lparr>param_name = bytes ''TYPE'', param_values = [valid_str g (p_str st)]\<rparr>, p_str := []\<rparr>)"

definition param_separator :: "glib_text \<Rightarrow> param_state \<Rightarrow> param_state step" where
  "param_separator g st =
     (let c = char_at (p_lp st);
          st = (case p_param st of Some p \<Rightarrow> param_value_end g st p | None \<Rightarrow> param_alone g st);
          st = (if c = COLON then st else st\<lparr>p_lp := tl (p_lp st)\<rparr>);
          st = (case p_param st of
                  Some p \<Rightarrow>
                    if c \<noteq> COMMA then st\<lparr>p_attr := e_vcard_attribute_add_param (p_attr st) p, p_param := None\<rparr> else st
                | None \<Rightarrow> st)
      in if c = COLON then Stop st else Go st)"

definition param_step :: "glib_text \<Rightarrow> param_state \<Rightarrow> param_state step" where
  "param_step g st =
     (let lp = p_lp st; c = char_at lp; qp = p_quoted_printable st; str = write_chunk (p_str st) (p_chunk st) lp in
      if c = DQUOTE then Go (st\<lparr>p_str := str, p_chunk := None, p_in_quote := \<not> p_in_quote st, p_lp := tl lp\<rparr>)
      else if p_in_quote st \<or> c = 45 \<or> c = 95 \<or> isalnum c then
        (if p_in_quote st \<and> c = BACKSLASH
         then
           (let lp = skip_newline (tl lp) qp; d = char_at lp;
                str = (case unescape_char d of Some e \<Rightarrow> str @ [e] | None \<Rightarrow> str @ [BACKSLASH, d])
            in Go (st\<lparr>p_str := str, p_chunk := None, p_lp := (if d = NUL then lp else tl lp)\<rparr>))
         else Go (st\<lparr>p_str := str @ [c], p_chunk := None, p_lp := tl lp\<rparr>))
      else if c = EQUALS then
        (let st = st\<lparr>p_str := str, p_chunk := None\<rparr> in
         if str \<noteq> []
         then Go (st\<lparr>p_param := Some \<lparr>param_name = valid_str g str, param_values = []\<rparr>, p_str := [], p_lp := tl lp\<rparr>)
         else
           (let lp = skip_until lp [COLON, SEMICOLON] in
            if char_at lp = SEMICOLON then Go (st\<lparr>p_lp := tl lp\<rparr>)
            else if char_at lp = COLON then Go (st\<lparr>p_lp := lp\<rparr>)
            else Stop (st\<lparr>p_lp := skip_to_next_line lp\<rparr>)))
      else if c = SEMICOLON \<or> c = COLON \<or> c = COMMA then param_separator g (st\<lparr>p_str := str, p_chunk := None\<rparr>)
      else if p_param st \<noteq> None then
        Go (st\<lparr>p_chunk := (case p_chunk st of None \<Rightarrow> Some lp | Some start \<Rightarrow> Some start), p_lp := tl lp\<rparr>)
      else Go (st\<lparr>p_chunk := None, p_str := [], p_lp := skip_until lp [COLON, SEMICOLON]\<rparr>))"

definition end_param_round :: "param_state \<Rightarrow> param_state" where
  "end_param_round st =
     (if newline (char_at (p_lp st))
      then st\<lparr>p_str := write_chunk (p_str st) (p_chunk st) (p_lp st), p_chunk := None\<rparr>
      else st)"

lemma end_param_round_lp [simp]: "p_lp (end_param_round st) = p_lp st"
  by (simp add: end_param_round_def)

lemma param_parts_lp [simp]: "p_lp (param_value_end g st p) = p_lp st" "p_lp (param_alone g st) = p_lp st"
  by (simp_all add: param_value_end_def param_alone_def Let_def split: option.split list.split)

lemma skip_until_shorter:
  "s \<noteq> [] \<Longrightarrow> char_at s \<noteq> CR \<Longrightarrow> char_at s \<notin> set cs \<Longrightarrow> length (skip_until s cs) < length s"
  using length_dropWhile_le [of "\<lambda>c. c \<noteq> CR \<and> c \<notin> set cs"] by (cases s) (auto simp: skip_until_def le_imp_less_Suc)

lemma param_separator_lp:
  "param_separator g st = Go st' \<Longrightarrow> p_lp st' = tl (p_lp st)"
  by (auto simp: param_separator_def Let_def split: option.splits if_splits)

lemma param_step_shorter:
  assumes "param_step g st = Go st'" and "p_lp st \<noteq> []" and "\<not> newline (char_at (p_lp st))"
  shows "length (p_lp st') < length (p_lp st)"
proof -
  have u: "length (skip_until (p_lp st) [COLON, SEMICOLON]) < length (p_lp st)"
    if "char_at (p_lp st) \<noteq> COLON" "char_at (p_lp st) \<noteq> SEMICOLON"
    using skip_until_shorter [of "p_lp st" "[COLON, SEMICOLON]"] that assms(2,3) by (simp add: newline_def)
  show ?thesis
    using assms(1,2) u unfolding param_step_def Let_def
    by (auto split: if_splits option.splits dest!: param_separator_lp
        intro!: less_imp_diff_less le_less_trans [OF length_skip_newline])
qed

function param_loop :: "glib_text \<Rightarrow> param_state \<Rightarrow> param_state" where
  "param_loop g st =
     (let st = st\<lparr>p_lp := skip_newline (p_lp st) (p_quoted_printable st)\<rparr> in
      if char_at (p_lp st) = NUL \<or> newline (char_at (p_lp st)) then st
      else
        (case param_step g st of
           Go st \<Rightarrow> param_loop g (end_param_round st)
         | Stop st \<Rightarrow> st
         | Overrun \<Rightarrow> st))"
  by pat_completeness auto
termination
proof (relation "measure (\<lambda>(g, st). length (p_lp st))", goal_cases)
  case (2 g st st1 st2)
  then have "length (p_lp st2) < length (p_lp st1)" by (intro param_step_shorter) auto
  then show ?case using 2(1) length_skip_newline [of "p_lp st" "p_quoted_printable st"] by simp
qed simp

declare param_loop.simps [simp del]

definition read_attribute_params ::
    "glib_text \<Rightarrow> EVCardAttribute \<Rightarrow> cstring \<Rightarrow> EVCardAttribute \<times> cstring \<times> bool \<times> cstring option" where
  "read_attribute_params g attr p =
     (let st = param_loop g \<lparr>p_attr = attr, p_param = None, p_in_quote = False, p_str = [], p_chunk = None, p_lp = p,
            p_quoted_printable = False, p_charset = None\<rparr>
      in (p_attr st, p_lp st, p_quoted_printable st, p_charset st))"

section \<open>Reading an attribute\<close>

text \<open>The loop over the group and the name: the group, the name, and the pointer at the character that ended it; or only where
  to go on, when there is no attribute. \<open>start\<close> is where the line began.\<close>

datatype name_result = Named "cstring option" cstring cstring | Lost cstring

function name_loop :: "glib_text \<Rightarrow> cstring \<Rightarrow> cstring option \<Rightarrow> byte list \<Rightarrow> cstring \<Rightarrow> name_result" where
  "name_loop g start grp str lp =
     (let lp = skip_newline lp False; c = char_at lp in
      if c = NUL \<or> newline c then Lost (skip_to_next_line start)
      else if c = COLON \<or> c = SEMICOLON then
        (if str \<noteq> [] then Named grp (valid_str g str) lp else Lost (skip_to_next_line lp))
      else if c = DOT then
        (let str = (if grp \<noteq> None then [] else str) in
         if str \<noteq> [] then name_loop g start (Some (valid_str g str)) [] (tl lp)
         else name_loop g start grp str (tl lp))
      else if c = 45 \<or> c = 95 \<or> isalnum c then name_loop g start grp (str @ [c]) (tl lp)
      else Lost (skip_to_next_line lp))"
  by pat_completeness auto
termination
proof -
  have t: "length (tl (skip_newline lp False)) < length lp" if "char_at (skip_newline lp False) \<noteq> NUL" for lp
    using length_skip_newline [of lp False] that by (cases "skip_newline lp False") auto
  show ?thesis
    by (relation "measure (\<lambda>(g, start, grp, str, lp). length lp)") (use t in \<open>simp_all del: length_tl\<close>)
qed

declare name_loop.simps [simp del]

text \<open>The parameters, when there are any.\<close>

definition read_params ::
    "glib_text \<Rightarrow> EVCardAttribute \<Rightarrow> cstring \<Rightarrow> EVCardAttribute \<times> cstring \<times> bool \<times> cstring option" where
  "read_params g attr lp =
     (if char_at lp = SEMICOLON
      then
        (let (attr, lp, is_qp, charset) = read_attribute_params g attr (tl lp)
         in (if is_qp then attr\<lparr>encoding := EVC_ENCODING_RAW\<rparr> else attr, lp, is_qp, charset))
      else (attr, lp, False, None))"

definition read_attribute :: "glib_text \<Rightarrow> cstring \<Rightarrow> (EVCardAttribute option \<times> cstring) option" where
  "read_attribute g p =
     (case name_loop g p None [] p of
        Lost p \<Rightarrow> Some (None, p)
      | Named grp name lp \<Rightarrow>
          (case read_params g (e_vcard_attribute_new grp name) lp of
             (attr, lp, is_qp, charset) \<Rightarrow>
               Option.bind
                 (if char_at lp = COLON then read_attribute_value g attr (tl lp) is_qp charset else Some (attr, lp))
                 (\<lambda>(attr, lp). Some (if vals attr = [] then None else Some attr, lp))))"

section \<open>Reading a card\<close>

datatype EVCardVersion = E_VCARD_VERSION_UNKNOWN | E_VCARD_VERSION_21 | E_VCARD_VERSION_30 | E_VCARD_VERSION_40

record EVCard =
  attributes :: "EVCardAttribute list"
  vcard :: "cstring option"
  version :: EVCardVersion

definition e_vcard_version_from_string :: "cstring \<Rightarrow> EVCardVersion" where
  "e_vcard_version_from_string str =
     (if str = bytes ''2.1'' then E_VCARD_VERSION_21
      else if str = bytes ''3.0'' then E_VCARD_VERSION_30
      else if str = bytes ''4.0'' then E_VCARD_VERSION_40
      else E_VCARD_VERSION_UNKNOWN)"

fun e_vcard_version_to_string :: "EVCardVersion \<Rightarrow> cstring" where
  "e_vcard_version_to_string E_VCARD_VERSION_UNKNOWN = bytes ''unknown''"
| "e_vcard_version_to_string E_VCARD_VERSION_21 = bytes ''2.1''"
| "e_vcard_version_to_string E_VCARD_VERSION_30 = bytes ''3.0''"
| "e_vcard_version_to_string E_VCARD_VERSION_40 = bytes ''4.0''"

definition cache_version_from_attr :: "EVCard \<Rightarrow> EVCardAttribute \<Rightarrow> EVCard" where
  "cache_version_from_attr evc attr =
     (case vals attr of
        [v] \<Rightarrow>
          if camel_strcase_equal (attr_name attr) (bytes ''VERSION'')
          then evc\<lparr>version := e_vcard_version_from_string v\<rparr>
          else evc
      | _ \<Rightarrow> evc)"

text \<open>\<^verbatim>\<open>e_vcard_add_attribute\<close> on a card that is parsed.\<close>

definition prepend_attribute :: "EVCard \<Rightarrow> EVCardAttribute \<Rightarrow> EVCard" where
  "prepend_attribute evc attr = cache_version_from_attr (evc\<lparr>attributes := attr # attributes evc\<rparr>) attr"

abbreviation attr_is :: "EVCardAttribute \<Rightarrow> string \<Rightarrow> bool" where
  "attr_is attr name \<equiv> camel_strcase_equal (attr_name attr) (bytes name)"

lemma value_step_le: "value_step g single cat qp charset st = Stop st' \<Longrightarrow> length (v_lp st') \<le> length (v_lp st)"
  unfolding value_step_def Let_def
  by (auto split: if_splits option.splits intro!: diff_le_self [THEN le_trans] le_trans [OF length_skip_newline])

lemma value_loop_le: "value_loop g single cat qp charset st = Some st' \<Longrightarrow> length (v_lp st') \<le> length (v_lp st)"
proof (induction g single cat qp charset st rule: value_loop.induct)
  case (1 g single cat qp charset st)
  define st1 where "st1 = st\<lparr>v_lp := skip_newline (v_lp st) qp\<rparr>"
  have le: "length (v_lp st1) \<le> length (v_lp st)" by (simp add: st1_def length_skip_newline)
  show ?case
  proof (cases "char_at (v_lp st1) = NUL \<or> newline (char_at (v_lp st1))")
    case True
    then show ?thesis using 1(2) le by (subst (asm) value_loop.simps) (auto simp: st1_def Let_def)
  next
    case False
    show ?thesis
    proof (cases "value_step g single cat qp charset st1")
      case (Stop st2)
      then show ?thesis using 1(2) le value_step_le [OF Stop] False
        by (subst (asm) value_loop.simps) (auto simp: st1_def [symmetric] Let_def)
    next
      case (Go st2)
      have "v_lp st1 \<noteq> []" using False by auto
      note sh = value_step_shorter [OF Go this]
      have "value_loop g single cat qp charset (end_round st2) = Some st'"
        using 1(2) Go False by (subst (asm) value_loop.simps) (simp add: st1_def [symmetric] Let_def)
      from 1(1) [OF st1_def False Go this] show ?thesis using sh le by simp
    next
      case Overrun
      then show ?thesis using 1(2) False by (subst (asm) value_loop.simps) (simp add: st1_def [symmetric] Let_def)
    qed
  qed
qed

lemma param_step_le: "param_step g st = Stop st' \<Longrightarrow> length (p_lp st') \<le> length (p_lp st)"
  unfolding param_step_def param_separator_def Let_def
  by (auto split: if_splits option.splits intro: le_trans [OF length_skip_to_next_line length_skip_until])

lemma param_loop_le: "length (p_lp (param_loop g st)) \<le> length (p_lp st)"
proof (induction g st rule: param_loop.induct)
  case (1 g st)
  define st1 where "st1 = st\<lparr>p_lp := skip_newline (p_lp st) (p_quoted_printable st)\<rparr>"
  have le: "length (p_lp st1) \<le> length (p_lp st)" by (simp add: st1_def length_skip_newline)
  show ?case
  proof (cases "char_at (p_lp st1) = NUL \<or> newline (char_at (p_lp st1))")
    case True
    then show ?thesis using le by (subst param_loop.simps) (auto simp: st1_def Let_def)
  next
    case False
    show ?thesis
    proof (cases "param_step g st1")
      case (Stop st2)
      then show ?thesis using le param_step_le [OF Stop] False
        by (subst param_loop.simps) (auto simp: st1_def [symmetric] Let_def)
    next
      case (Go st2)
      have "p_lp st1 \<noteq> []" "\<not> newline (char_at (p_lp st1))" using False by auto
      note sh = param_step_shorter [OF Go this]
      have "param_loop g st = param_loop g (end_param_round st2)"
        using Go False by (subst param_loop.simps) (simp add: st1_def [symmetric] Let_def)
      then show ?thesis using 1 [OF st1_def False Go] sh le by simp
    next
      case Overrun
      then show ?thesis using le False by (subst param_loop.simps) (simp add: st1_def [symmetric] Let_def)
    qed
  qed
qed

lemma skip_to_next_line_shorter: "s \<noteq> [] \<Longrightarrow> length (skip_to_next_line s) < length s"
  using length_dropWhile_le [of newline "tl s"] length_dropWhile_le [of "\<lambda>c. \<not> newline c" "tl s"]
    length_dropWhile_le [of newline "dropWhile (\<lambda>c. \<not> newline c) (tl s)"]
  by (cases s) (auto simp: skip_to_next_line_def)

lemma name_loop_le:
  "length lp \<le> length start \<Longrightarrow> start \<noteq> [] \<Longrightarrow>
     (case name_loop g start grp str lp of
        Named grp' name lp' \<Rightarrow> length lp' \<le> length lp \<and> (str = [] \<longrightarrow> length lp' < length lp)
      | Lost p \<Rightarrow> length p < length start)"
proof (induction g start grp str lp rule: name_loop.induct)
  case (1 g start grp str lp)
  define lp1 where "lp1 = skip_newline lp False"
  have le: "length lp1 \<le> length lp" by (simp add: lp1_def length_skip_newline)
  have lost: "length (skip_to_next_line lp1) < length start" if "lp1 \<noteq> []"
    using skip_to_next_line_shorter [OF that] le 1(4) by simp
  note eq = name_loop.simps [of g start grp str lp, unfolded Let_def, folded lp1_def]
  show ?case
  proof (cases "char_at lp1 = NUL \<or> newline (char_at lp1)")
    case True
    then show ?thesis using skip_to_next_line_shorter [OF 1(5)] by (simp add: eq)
  next
    case False
    then have ne: "lp1 \<noteq> []" by auto
    then have tl: "length (tl lp1) < length lp" "length (tl lp1) \<le> length start" using le 1(4) by (cases lp1; simp)+
    show ?thesis
    proof (cases "char_at lp1 = COLON \<or> char_at lp1 = SEMICOLON")
      case True
      then show ?thesis using False lost [OF ne] le by (auto simp: eq)
    next
      case nsep: False
      consider (dot1) "char_at lp1 = DOT" "(if grp \<noteq> None then [] else str) \<noteq> []"
        | (dot2) "char_at lp1 = DOT" "(if grp \<noteq> None then [] else str) = []"
        | (ch) "char_at lp1 \<noteq> DOT" "char_at lp1 = 45 \<or> char_at lp1 = 95 \<or> isalnum (char_at lp1)"
        | (bad) "char_at lp1 \<noteq> DOT" "\<not> (char_at lp1 = 45 \<or> char_at lp1 = 95 \<or> isalnum (char_at lp1))"
        by blast
      then show ?thesis
      proof cases
        case dot1
        then show ?thesis
          using 1(1) [OF lp1_def refl False nsep dot1(1) refl dot1(2) tl(2) 1(5)] False nsep tl(1)
          by (auto simp: eq split: name_result.splits if_splits)
      next
        case dot2
        then show ?thesis
          using 1(2) [OF lp1_def refl False nsep dot2(1) refl _ tl(2) 1(5)] False nsep tl(1)
          by (auto simp: eq split: name_result.splits if_splits)
      next
        case ch
        then show ?thesis
          using 1(3) [OF lp1_def refl False nsep ch(1,2) tl(2) 1(5)] False nsep tl(1)
          by (auto simp: eq split: name_result.splits if_splits)
      next
        case bad
        then show ?thesis using False nsep lost [OF ne] by (simp add: eq)
      qed
    qed
  qed
qed

lemma read_params_le: "read_params g attr lp = (attr', lp', qp, charset) \<Longrightarrow> length lp' \<le> length lp"
  using param_loop_le [of g "\<lparr>p_attr = attr, p_param = None, p_in_quote = False, p_str = [], p_chunk = None, p_lp = tl lp,
            p_quoted_printable = False, p_charset = None\<rparr>"]
  by (auto simp: read_params_def read_attribute_params_def Let_def split: if_splits)

lemma read_value_le: "read_attribute_value g attr p qp charset = Some (attr', p') \<Longrightarrow> length p' \<le> length p"
  unfolding read_attribute_value_def bind_eq_Some_conv Let_def
  using le_trans [OF length_skip_to_next_line value_loop_le] by fastforce

lemma read_attribute_rest_shorter:
  assumes r: "read_attribute g p = Some (a, p')" and p: "p \<noteq> []"
  shows "length p' < length p"
proof (cases "name_loop g p None [] p")
  case (Lost q)
  then show ?thesis using r name_loop_le [where lp = p and start = p and g = g and grp = None and str = "[]"] p
    by (simp add: read_attribute_def)
next
  case (Named grp name lp)
  then have lp: "length lp < length p"
    using name_loop_le [where lp = p and start = p and g = g and grp = None and str = "[]"] p by simp
  obtain attr1 lp1 qp charset where q: "read_params g (e_vcard_attribute_new grp name) lp = (attr1, lp1, qp, charset)"
    by (metis prod_cases4)
  have "length p' \<le> length lp1"
  proof (cases "char_at lp1 = COLON")
    case True
    then obtain attr2 where rv: "read_attribute_value g attr1 (tl lp1) qp charset = Some (attr2, p')"
      using r Named q by (auto simp: read_attribute_def bind_eq_Some_conv)
    then show ?thesis using read_value_le [OF rv] by simp
  next
    case False
    then show ?thesis using r Named q by (simp add: read_attribute_def)
  qed
  then show ?thesis using lp read_params_le [OF q] by simp
qed

function parse_loop :: "glib_text \<Rightarrow> bool \<Rightarrow> EVCard \<Rightarrow> cstring \<Rightarrow> EVCard option" where
  "parse_loop g ignore_uid evc p =
     (if p = [] then Some evc
      else
        (case read_attribute g p of
           None \<Rightarrow> None
         | Some (None, p) \<Rightarrow> parse_loop g ignore_uid evc p
         | Some (Some attr, p) \<Rightarrow>
             if attr_is attr ''end'' then Some evc
             else if ignore_uid \<and> attr_is attr ''UID'' then parse_loop g ignore_uid evc p
             else parse_loop g ignore_uid (prepend_attribute evc attr) p))"
  by pat_completeness auto
termination
  by (relation "measure (\<lambda>(g, u, evc, p). length p)") (auto dest!: read_attribute_rest_shorter)

declare parse_loop.simps [simp del]

definition parse :: "glib_text \<Rightarrow> EVCard \<Rightarrow> cstring \<Rightarrow> bool \<Rightarrow> EVCard option" where
  "parse g evc str ignore_uid =
     Option.bind (read_attribute g str) (\<lambda>(attr, p).
       let evc = evc\<lparr>version := E_VCARD_VERSION_UNKNOWN\<rparr>;
           evc = (case attr of
                    None \<Rightarrow> evc
                  | Some attr \<Rightarrow>
                      if attr_is attr ''begin'' then evc
                      else if (\<not> ignore_uid \<or> \<not> attr_is attr ''UID'') \<and> \<not> attr_is attr ''end''
                      then prepend_attribute evc attr
                      else evc)
       in
        map_option (\<lambda>evc. evc\<lparr>attributes := rev (attributes evc)\<rparr>) (parse_loop g ignore_uid evc p))"

definition e_vcard_ensure_attributes :: "glib_text \<Rightarrow> EVCard \<Rightarrow> EVCard option" where
  "e_vcard_ensure_attributes g evc =
     (case vcard evc of
        None \<Rightarrow> Some evc
      | Some vcs \<Rightarrow> parse g (evc\<lparr>vcard := None\<rparr>) vcs (attributes evc \<noteq> []))"

definition e_vcard_new :: EVCard where
  "e_vcard_new = \<lparr>attributes = [], vcard = None, version = E_VCARD_VERSION_UNKNOWN\<rparr>"

text \<open>The text of a card is parsed when it is first needed. A card that has been constructed stays as it is.\<close>

definition e_vcard_construct_full :: "EVCard \<Rightarrow> cstring \<Rightarrow> cstring option \<Rightarrow> EVCard" where
  "e_vcard_construct_full evc str uid =
     (if vcard evc \<noteq> None \<or> attributes evc \<noteq> [] then evc
      else
        (let evc = evc\<lparr>version := E_VCARD_VERSION_UNKNOWN\<rparr>;
             evc = (if str \<noteq> [] then evc\<lparr>vcard := Some str\<rparr> else evc)
         in
          case uid of
            None \<Rightarrow> evc
          | Some uid \<Rightarrow>
              evc\<lparr>attributes :=
                e_vcard_attribute_add_value (e_vcard_attribute_new None (bytes ''UID'')) uid # attributes evc\<rparr>))"

definition e_vcard_new_from_string :: "cstring \<Rightarrow> EVCard" where
  "e_vcard_new_from_string str = e_vcard_construct_full e_vcard_new str None"

definition e_vcard_add_attribute :: "glib_text \<Rightarrow> EVCard \<Rightarrow> EVCardAttribute \<Rightarrow> EVCard option" where
  "e_vcard_add_attribute g evc attr =
     (if vcard evc \<noteq> None \<and> attr_is attr ''UID''
      then Some (evc\<lparr>attributes := attr # attributes evc\<rparr>)
      else map_option (\<lambda>evc. prepend_attribute evc attr) (e_vcard_ensure_attributes g evc))"

definition e_vcard_append_attribute :: "glib_text \<Rightarrow> EVCard \<Rightarrow> EVCardAttribute \<Rightarrow> EVCard option" where
  "e_vcard_append_attribute g evc attr =
     (if vcard evc \<noteq> None \<and> attr_is attr ''UID''
      then Some (evc\<lparr>attributes := attributes evc @ [attr]\<rparr>)
      else
        map_option (\<lambda>evc. cache_version_from_attr (evc\<lparr>attributes := attributes evc @ [attr]\<rparr>) attr)
          (e_vcard_ensure_attributes g evc))"

definition e_vcard_get_attribute :: "glib_text \<Rightarrow> EVCard \<Rightarrow> cstring \<Rightarrow> (EVCard \<times> EVCardAttribute option) option" where
  "e_vcard_get_attribute g evc name =
     (case (if vcard evc \<noteq> None \<and> camel_strcase_equal name (bytes ''UID'')
            then find (\<lambda>attr. camel_strcase_equal (attr_name attr) name) (attributes evc) else None) of
        Some attr \<Rightarrow> Some (evc, Some attr)
      | None \<Rightarrow>
          map_option (\<lambda>evc. (evc, find (\<lambda>attr. camel_strcase_equal (attr_name attr) name) (attributes evc)))
            (e_vcard_ensure_attributes g evc))"

end
