(* ===== verification/EBook_VCardWrite.thy ===== *)
theory EBook_VCardWrite
  imports EBook_VCard
begin

text \<open>
  \<^verbatim>\<open>e-vcard.c\<close>, the other direction: escaping, quoted-printable, folding of long lines, and the text of a card in
  versions 2.1, 3.0 and 4.0.
\<close>

section \<open>Escaping\<close>

function e_vcard_escape_string_internal :: "cstring \<Rightarrow> bool \<Rightarrow> cstring" where
  "e_vcard_escape_string_internal s skip_double_quotes =
     (case s of
        [] \<Rightarrow> []
      | c # p \<Rightarrow>
          if skip_double_quotes \<and> c = DQUOTE then e_vcard_escape_string_internal p skip_double_quotes
          else if c = LF then [BACKSLASH, 110] @ e_vcard_escape_string_internal p skip_double_quotes
          else if c = CR then
            [BACKSLASH, 110] @ e_vcard_escape_string_internal (if char_at p = LF then tl p else p) skip_double_quotes
          else if c = SEMICOLON \<or> c = COMMA \<or> c = BACKSLASH then
            [BACKSLASH, c] @ e_vcard_escape_string_internal p skip_double_quotes
          else c # e_vcard_escape_string_internal p skip_double_quotes)"
  by pat_completeness auto
termination
  by (relation "measure (\<lambda>(s, q). length s)") auto

declare e_vcard_escape_string_internal.simps [simp del]

definition e_vcard_escape_string :: "cstring \<Rightarrow> cstring" where
  "e_vcard_escape_string s = e_vcard_escape_string_internal s False"

fun e_vcard_unescape_string :: "cstring \<Rightarrow> cstring" where
  "e_vcard_unescape_string [] = []"
| "e_vcard_unescape_string [c] = [c]"
| "e_vcard_unescape_string (c # d # p) =
     (if c = BACKSLASH
      then (if d = 110 then [LF] else if d = 114 then [CR]
            else if d = SEMICOLON \<or> d = COMMA \<or> d = BACKSLASH then [d] else [BACKSLASH, d]) @
        e_vcard_unescape_string p
      else c # e_vcard_unescape_string (d # p))"

fun e_vcard_escape_semicolons :: "cstring \<Rightarrow> cstring" where
  "e_vcard_escape_semicolons [] = []"
| "e_vcard_escape_semicolons (c # p) =
     (if c = SEMICOLON then [BACKSLASH, c] else [c]) @ e_vcard_escape_semicolons p"

text \<open>\<^verbatim>\<open>"=" CRLF " "\<close>, the soft line break.\<close>

definition soft_break :: cstring where
  "soft_break = [EQUALS, CR, LF, SP]"

fun qp_encode_loop :: "bool \<Rightarrow> int \<Rightarrow> cstring \<Rightarrow> cstring" where
  "qp_encode_loop can_wrap col [] = []"
| "qp_encode_loop can_wrap col (c # p) =
     (if 33 \<le> c \<and> c \<le> 60 \<or> 62 \<le> c \<and> c \<le> 126
      then
        (if can_wrap \<and> col = 75 then soft_break @ c # qp_encode_loop can_wrap 2 p
         else c # qp_encode_loop can_wrap (col + 1) p)
      else if col \<ge> 73 \<and> can_wrap then soft_break @ hex_escape c @ qp_encode_loop can_wrap 4 p
      else hex_escape c @ qp_encode_loop can_wrap (col + 3) p)"

definition e_vcard_qp_encode :: "cstring \<Rightarrow> bool \<Rightarrow> cstring" where
  "e_vcard_qp_encode txt can_wrap = qp_encode_loop can_wrap 0 txt"

function e_vcard_qp_decode :: "cstring \<Rightarrow> cstring" where
  "e_vcard_qp_decode txt =
     (case txt of
        [] \<Rightarrow> []
      | c # p \<Rightarrow>
          if c = EQUALS \<and> newline (char_at p)
          then e_vcard_qp_decode (drop (if char_at (tl p) = LF then 2 else 1) p)
          else if c = EQUALS \<and> char_at p \<noteq> NUL \<and> char_at (tl p) \<noteq> NUL
          then
            (let a = ascii_toupper (char_at p); b = ascii_toupper (char_at (tl p)) in
             (if isxdigit a \<and> isxdigit b then [push_bit 4 (hex_value a) OR hex_value b]
              else [EQUALS, char_at p, char_at (tl p)]) @
             e_vcard_qp_decode (drop 2 p))
          else c # e_vcard_qp_decode p)"
  by pat_completeness auto
termination
  by (relation "measure length") auto

declare e_vcard_qp_decode.simps [simp del]

section \<open>Names that are valid in a version\<close>

fun split_words :: "cstring \<Rightarrow> cstring list" where
  "split_words [] = [[]]"
| "split_words (c # s) =
     (if c = COMMA then [] # split_words s
      else (case split_words s of [] \<Rightarrow> [[c]] | w # ws \<Rightarrow> (c # w) # ws))"

text \<open>\<^verbatim>\<open>generate_dict_validator\<close>: the table of the words, \<^verbatim>\<open>NULL\<close> without any; and the test that the writers make
  with it.\<close>

definition generate_dict_validator :: "cstring option \<Rightarrow> cstring list option" where
  "generate_dict_validator wds = map_option (\<lambda>w. if w = [] then [] else split_words w) wds"

definition accepts :: "cstring list option \<Rightarrow> cstring \<Rightarrow> bool" where
  "accepts dict name \<longleftrightarrow>
     (case dict of
        None \<Rightarrow> True
      | Some ws \<Rightarrow> camel_strcase_equal (take 2 name) (bytes ''X-'') \<or> (\<exists>w\<in>set ws. camel_strcase_equal w name))"

definition E_VCARD_21_VALID_PROPERTIES :: cstring where
  "E_VCARD_21_VALID_PROPERTIES = bytes (''ADR,ORG,N,AGENT,LOGO,PHOTO,LABEL,FN,TITLE,SOUND,VERSION,TEL,'' @
     ''EMAIL,TZ,GEO,NOTE,URL,BDAY,ROLE,REV,UID,KEY,MAILER'')"

definition E_VCARD_21_VALID_PARAMETERS :: cstring where
  "E_VCARD_21_VALID_PARAMETERS = bytes (''TYPE,VALUE,ENCODING,CHARSET,LANGUAGE,DOM,INTL,POSTAL,PARCEL,'' @
     ''HOME,WORK,PREF,VOICE,FAX,MSG,CELL,PAGER,BBS,MODEM,CAR,ISDN,VIDEO,'' @
     ''AOL,APPLELINK,ATTMAIL,CIS,EWORLD,INTERNET,IBMMAIL,MCIMAIL,'' @
     ''POWERSHARE,PRODIGY,TLX,X400,GIF,CGM,WMF,BMP,MET,PMB,DIB,PICT,TIFF,'' @
     ''PDF,PS,JPEG,QTIME,MPEG,MPEG2,AVI,WAVE,AIFF,PCM,X509,PGP'')"

definition E_VCARD_30_VALID_PROPERTIES :: cstring where
  "E_VCARD_30_VALID_PROPERTIES = bytes (''NAME,PROFILE,SOURCE,FN,N,NICKNAME,PHOTO,BDAY,ADR,LABEL,TEL,EMAIL,MAILER,TZ,GEO,'' @
     ''TITLE,ROLE,LOGO,AGENT,ORG,CATEGORIES,NOTE,PRODID,REV,SORT-STRING,'' @
     ''SOUND,UID,URL,VERSION,CLASS,KEY,'' @ ''FBURL,CAPURI,CALURI'')"

definition E_VCARD_30_VALID_PARAMETERS :: cstring where
  "E_VCARD_30_VALID_PARAMETERS = bytes (''VALUE,CONTEXT,TYPE,PREF,ENCODING,LANGUAGE,'' @
     ''HOME,WORK,PREF,VOICE,FAX,MSG,CELL,PAGER,BBS,MODEM,CAR,ISDN,VIDEO,PCS,'' @ ''INTERNET,X400,'' @ ''X509,PGP,'' @
     ''DOM,INTL,POSTAL,PARCEL,HOME,WORK,PREF'')"

definition E_VCARD_40_VALID_PROPERTIES :: cstring where
  "E_VCARD_40_VALID_PROPERTIES = bytes (''SOURCE,KIND,XML,FN,N,NICKNAME,PHOTO,BDAY,ANNIVERSARY,GENDER,ADR,TEL,EMAIL,IMPP,'' @
     ''LANG,TZ,GEO,TITLE,ROLE,LOGO,ORG,MEMBER,RELATED,CATEGORIES,NOTE,PRODID,REV,'' @
     ''SOUND,UID,CLIENTPIDMAP,URL,VERSION,KEY,FBURL,CALADRURI,CALURI,'' @ ''BIRTHPLACE,DEATHPLACE,DEATHDATE,'' @
     ''EXPERTISE,HOBBY,INTEREST,ORG-DIRECTORY,'' @ ''CONTACT-URI,'' @
     ''CREATED,LANGUAGE,GRAMGENDER,PRONOUNS,SOCIALPROFILE,'' @ ''JSPROP'')"

definition E_VCARD_40_VALID_PARAMETERS :: cstring where
  "E_VCARD_40_VALID_PARAMETERS = bytes (''LANGUAGE,VALUE,PREF,ALTID,PID,TYPE,MEDIATYPE,CALSCALE,SORT-AS,GEO,TZ,'' @
     ''WORK,HOME,TEXT,VOICE,FAX,CELL,VIDEO,PAGER,TEXTPHONE,GREGORIAN,CONTACT,'' @
     ''ACQUAINTANCE,FRIEND,MET,CO-WORKER,COLLEAGUE,CO-RESIDENT,NEIGHBOR,CHILD,'' @
     ''PARENT,SIBLING,SPOUSE,KIN,MUSE,CRUSH,DATE,SWEETHEART,ME,AGENT,EMERGENCY,'' @
     ''INDEX,LEVEL,BEGINNER,AVERAGE,EXPERT,HIGH,MEDIUM,LOW,'' @
     ''AUTHOR,AUTHOR-NAME,CREATED,DERIVED,LABEL,PHONETIC,PROP-ID,SCRIPT,SERVICE-TYPE,USERNAME,'' @
     ''ANIMATE,COMMON,FEMININE,INANIMATE,MASCULINE,NEUTER,'' @ ''IPA,PINY,JYUT,SCRIPT,BILLING,DELIVERY'')"

section \<open>Folding\<close>

text \<open>Lengths are in characters; \<open>utf8_skip\<close> is GLib's table of the lengths of sequences by their first byte.\<close>

definition utf8_skip :: "byte \<Rightarrow> nat" where
  "utf8_skip c =
     (if c < 0xC0 then 1 else if c < 0xE0 then 2 else if c < 0xF0 then 3 else if c < 0xF8 then 4
      else if c < 0xFC then 5 else if c < 0xFE then 6 else 1)"

lemma utf8_skip_pos [simp]: "0 < utf8_skip c"
  by (simp add: utf8_skip_def)

fun utf8_offset :: "cstring \<Rightarrow> nat \<Rightarrow> cstring" where
  "utf8_offset s 0 = s"
| "utf8_offset [] (Suc n) = []"
| "utf8_offset (c # s) (Suc n) = utf8_offset (drop (utf8_skip c) (c # s)) n"

function utf8_strlen :: "cstring \<Rightarrow> nat" where
  "utf8_strlen [] = 0"
| "utf8_strlen (c # s) = Suc (utf8_strlen (drop (utf8_skip c) (c # s)))"
  by pat_completeness auto
termination
  by (relation "measure length") auto

function fold_rest :: "nat \<Rightarrow> cstring \<Rightarrow> cstring" where
  "fold_rest len pos1 =
     (if len \<le> 74 then pos1
      else
        (let pos2 = utf8_offset pos1 74
         in take (length pos1 - length pos2) pos1 @ [CR, LF, SP] @ fold_rest (len - 74) pos2))"
  by pat_completeness auto
termination
  by (relation "measure fst") auto

declare fold_rest.simps [simp del]

definition fold_line :: "cstring \<Rightarrow> cstring" where
  "fold_line s =
     (let len = utf8_strlen s in
      if len > 75
      then (let pos2 = utf8_offset s 75 in take (length s - length pos2) s @ [CR, LF, SP] @ fold_rest (len - 75) pos2)
      else s)"

section \<open>Versions 3.0 and 4.0\<close>

fun join :: "byte \<Rightarrow> cstring list \<Rightarrow> cstring" where
  "join sep [] = []"
| "join sep [x] = x"
| "join sep (x # y # xs) = x @ sep # join sep (y # xs)"

function needs_quotes :: "glib_text \<Rightarrow> cstring \<Rightarrow> bool" where
  "needs_quotes g [] = False"
| "needs_quotes g (c # s) = (\<not> g_unichar_isalnum g (c # s) \<or> needs_quotes g (drop (utf8_skip c) (c # s)))"
  by pat_completeness auto
termination
  by (relation "measure (\<lambda>(g, s). length s)") auto

definition param_value_text :: "glib_text \<Rightarrow> cstring \<Rightarrow> cstring" where
  "param_value_text g v =
     (if needs_quotes g v then [DQUOTE] @ e_vcard_escape_string_internal v True @ [DQUOTE] else v)"

definition param_text :: "glib_text \<Rightarrow> EVCardAttributeParam \<Rightarrow> cstring" where
  "param_text g p =
     [SEMICOLON] @ param_name p @
     (if param_values p = [] then [] else [EQUALS] @ join COMMA (map (param_value_text g) (param_values p)))"

definition is_quoted_printable :: "EVCardAttributeParam \<Rightarrow> bool" where
  "is_quoted_printable p \<longleftrightarrow>
     (case param_values p of
        [v] \<Rightarrow> camel_strcase_equal (param_name p) (bytes ''ENCODING'') \<and> camel_strcase_equal v (bytes ''quoted-printable'')
      | _ \<Rightarrow> False)"

text \<open>The text of the parameters, and the name of one that says the values are in quoted-printable.\<close>

fun params_text ::
    "glib_text \<Rightarrow> cstring list option \<Rightarrow> cstring option \<Rightarrow> EVCardAttributeParam list \<Rightarrow> cstring \<times> cstring option" where
  "params_text g evc_params qp [] = ([], qp)"
| "params_text g evc_params qp (p # ps) =
     (if qp = None \<and> is_quoted_printable p then params_text g evc_params (Some (param_name p)) ps
      else if \<not> accepts evc_params (param_name p) then params_text g evc_params qp ps
      else (let (text, qp) = params_text g evc_params qp ps in (param_text g p @ text, qp)))"

text \<open>The line of an attribute, and the attribute with its values decoded.\<close>

definition attribute_text ::
    "glib_text \<Rightarrow> cstring list option \<Rightarrow> EVCardAttribute \<Rightarrow> cstring \<times> EVCardAttribute" where
  "attribute_text g evc_params attr =
     (let (ptext, qp) = params_text g evc_params None (params attr);
          attr = (if qp \<noteq> None then attr\<lparr>vals := map e_vcard_qp_decode (vals attr)\<rparr> else attr);
          sep = (if camel_strcase_equal (attr_name attr) (bytes ''CATEGORIES'') then COMMA else SEMICOLON);
          text = (case group attr of Some grp \<Rightarrow> grp @ [DOT] | None \<Rightarrow> []) @ attr_name attr @ ptext @ [COLON] @
            join sep (map e_vcard_escape_string (vals attr))
      in (fold_line text @ [CR, LF],
          case qp of Some name \<Rightarrow> e_vcard_attribute_remove_param attr name | None \<Rightarrow> attr))"

fun attributes_text ::
    "glib_text \<Rightarrow> cstring list option \<Rightarrow> cstring list option \<Rightarrow> EVCardAttribute list \<Rightarrow> cstring \<times> EVCardAttribute list" where
  "attributes_text g evc_prop evc_params [] = ([], [])"
| "attributes_text g evc_prop evc_params (attr # attrs) =
     (let (text, attrs) = attributes_text g evc_prop evc_params attrs in
      if attr_is attr ''VERSION'' \<or> \<not> accepts evc_prop (attr_name attr) then (text, attr # attrs)
      else (let (line, attr) = attribute_text g evc_params attr in (line @ text, attr # attrs)))"

definition e_vcard_to_string_vcard ::
    "glib_text \<Rightarrow> EVCard \<Rightarrow> EVCardVersion \<Rightarrow> cstring option \<Rightarrow> cstring option \<Rightarrow> (cstring \<times> EVCard) option" where
  "e_vcard_to_string_vcard g evc to_version valid_properties valid_parameters =
     map_option
       (\<lambda>evc.
         let (text, attrs) = attributes_text g (generate_dict_validator valid_properties)
               (generate_dict_validator valid_parameters) (attributes evc)
         in (bytes ''BEGIN:VCARD'' @ [CR, LF] @ bytes ''VERSION:'' @ e_vcard_version_to_string to_version @ [CR, LF] @
               text @ bytes ''END:VCARD'',
             evc\<lparr>attributes := attrs\<rparr>))
       (e_vcard_ensure_attributes g evc)"

section \<open>Version 2.1\<close>

definition param_text_21 :: "EVCardAttributeParam \<Rightarrow> cstring" where
  "param_text_21 p =
     [SEMICOLON] @ param_name p @
     (case param_values p of
        [] \<Rightarrow> []
      | v # vs \<Rightarrow>
          [EQUALS] @ e_vcard_escape_semicolons v @
          concat (map (\<lambda>v. [SEMICOLON] @ param_name p @ [EQUALS] @ e_vcard_escape_semicolons v) vs))"

definition attribute_text_21 :: "cstring list option \<Rightarrow> EVCardAttribute \<Rightarrow> cstring" where
  "attribute_text_21 evc_params attr =
     (let encode = (\<exists>v\<in>set (vals attr). LF \<in> set v) in
      (case group attr of Some grp \<Rightarrow> grp @ [DOT] | None \<Rightarrow> []) @ attr_name attr @
      concat (map param_text_21 (filter (\<lambda>p. accepts evc_params (param_name p)) (params attr))) @
      (if encode then bytes '';ENCODING=QUOTED-PRINTABLE'' else []) @ [COLON] @
      join SEMICOLON (map (\<lambda>v. if encode then e_vcard_qp_encode v True else v) (vals attr)) @ [CR, LF])"

definition e_vcard_to_string_vcard_21 :: "glib_text \<Rightarrow> EVCard \<Rightarrow> cstring option" where
  "e_vcard_to_string_vcard_21 g evc =
     map_option
       (\<lambda>evc.
         let evc_prop = generate_dict_validator (Some E_VCARD_21_VALID_PROPERTIES);
             evc_params = generate_dict_validator (Some E_VCARD_21_VALID_PARAMETERS)
         in bytes ''BEGIN:VCARD'' @ [CR, LF] @ bytes ''VERSION:2.1'' @ [CR, LF] @
            concat (map (attribute_text_21 evc_params)
              (filter (\<lambda>attr. \<not> attr_is attr ''VERSION'' \<and> accepts evc_prop (attr_name attr) \<and> (\<exists>v\<in>set (vals attr). v \<noteq> []))
                (attributes evc))) @
            bytes ''END:VCARD'')
       (e_vcard_ensure_attributes g evc)"

end
