(* ===== verification/EBook_VCardProps.thy ===== *)
theory EBook_VCardProps
  imports EBook_VCardWrite
begin

text \<open>What is written is read back: escaping, quoted-printable, folded lines, and cards.\<close>

section \<open>Escaping\<close>

text \<open>The line ends of a text as line feeds.\<close>

function line_feeds :: "cstring \<Rightarrow> cstring" where
  "line_feeds s =
     (case s of
        [] \<Rightarrow> []
      | c # p \<Rightarrow> if c = CR then LF # line_feeds (if char_at p = LF then tl p else p) else c # line_feeds p)"
  by pat_completeness auto
termination
  by (relation "measure length") auto

declare line_feeds.simps [simp del]

definition escape_char :: "byte \<Rightarrow> cstring" where
  "escape_char c =
     (if c = LF then [BACKSLASH, 110]
      else if c = SEMICOLON \<or> c = COMMA \<or> c = BACKSLASH then [BACKSLASH, c]
      else [c])"

lemma escape_line_feeds: "e_vcard_escape_string_internal s False = concat (map escape_char (line_feeds s))"
proof (induction s rule: line_feeds.induct)
  case (1 s)
  show ?case
  proof (cases s)
    case (Cons c p)
    show ?thesis
    proof (cases "c = CR")
      case True
      then show ?thesis using 1(1) [OF Cons]
        by (simp add: Cons e_vcard_escape_string_internal.simps [of "CR # p"] line_feeds.simps [of "CR # p"] escape_char_def)
    next
      case False
      then show ?thesis using 1(2) [OF Cons]
        by (simp add: Cons e_vcard_escape_string_internal.simps [of "c # p"] line_feeds.simps [of "c # p"] escape_char_def)
    qed
  qed (simp add: e_vcard_escape_string_internal.simps line_feeds.simps)
qed

lemma unescape_escape_char: "c \<noteq> CR \<Longrightarrow> e_vcard_unescape_string (escape_char c @ s) = c # e_vcard_unescape_string s"
  by (cases s) (auto simp: escape_char_def)

lemma line_feeds_no_CR: "CR \<notin> set (line_feeds s)"
proof (induction s rule: line_feeds.induct)
  case (1 s)
  show ?case
  proof (cases s)
    case (Cons c p)
    then show ?thesis using 1(1) [OF Cons] 1(2) [OF Cons] by (cases "c = CR") (auto simp: line_feeds.simps [of "c # p"] line_feeds.simps [of "CR # p"])
  qed (simp add: line_feeds.simps)
qed

lemma unescape_escapes: "CR \<notin> set s \<Longrightarrow> e_vcard_unescape_string (concat (map escape_char s)) = s"
  by (induction s) (auto simp: unescape_escape_char)

text \<open>C25: escaping a text and undoing it gives the text, with its line ends, of any of the three kinds, as line feeds.\<close>

theorem vcard_escape_roundtrip: "e_vcard_unescape_string (e_vcard_escape_string s) = line_feeds s"
  using unescape_escapes [OF line_feeds_no_CR] by (simp add: e_vcard_escape_string_def escape_line_feeds)

lemma line_feeds_same: "CR \<notin> set s \<Longrightarrow> line_feeds s = s"
  by (induction s) (simp_all add: line_feeds.simps)

lemma escape_quoted: "CR \<notin> set s \<Longrightarrow> DQUOTE \<notin> set s \<Longrightarrow> e_vcard_escape_string_internal s True = concat (map escape_char s)"
proof (induction s)
  case (Cons c s)
  then show ?case by (auto simp: e_vcard_escape_string_internal.simps [of "c # s"] escape_char_def)
qed (simp add: e_vcard_escape_string_internal.simps)

lemma escape_plain: "CR \<notin> set s \<Longrightarrow> e_vcard_escape_string s = concat (map escape_char s)"
  by (simp add: e_vcard_escape_string_def escape_line_feeds line_feeds_same)

section \<open>Quoted-printable\<close>

lemma qp_decode_char:
  "33 \<le> c \<and> c \<le> 60 \<or> 62 \<le> c \<and> c \<le> 126 \<Longrightarrow> e_vcard_qp_decode (c # s) = c # e_vcard_qp_decode s"
  by (subst e_vcard_qp_decode.simps) (auto simp: newline_def)

lemma xdigit_toupper: "isxdigit x \<Longrightarrow> isxdigit (ascii_toupper x)"
proof -
  assume x: "isxdigit x"
  have "97 \<le> x \<Longrightarrow> unat (x - 32) = unat x - 32" by (simp add: unat_sub word_le_nat_alt)
  then show ?thesis using x by (auto simp: isxdigit_def ascii_toupper_def word_le_nat_alt)
qed

lemma qp_decode_hex: "e_vcard_qp_decode (hex_escape c @ s) = c # e_vcard_qp_decode s"
proof -
  define a where "a = tohex (unat (drop_bit 4 c AND 0xf))"
  define b where "b = tohex (unat (c AND 0xf))"
  have h: "isxdigit a" "isxdigit b" "push_bit 4 (hex_value (ascii_toupper a)) OR hex_value (ascii_toupper b) = c"
    using hex_escape_value [of c] by (simp_all add: a_def b_def)
  have "a \<noteq> NUL" "b \<noteq> NUL" "\<not> newline a" using h(1,2) by (auto simp: isxdigit_def newline_def)
  then show ?thesis using h xdigit_toupper
    by (subst e_vcard_qp_decode.simps) (simp add: hex_escape_def a_def [symmetric] b_def [symmetric] Let_def)
qed

lemma qp_decode_encode: "e_vcard_qp_decode (qp_encode_loop False col s) = s"
proof (induction s arbitrary: col)
  case Nil
  then show ?case by (simp add: e_vcard_qp_decode.simps)
next
  case (Cons c s)
  show ?case
  proof (cases "33 \<le> c \<and> c \<le> 60 \<or> 62 \<le> c \<and> c \<le> 126")
    case True
    then show ?thesis using qp_decode_char [OF True] Cons.IH by simp
  next
    case False
    then have "qp_encode_loop False col (c # s) = hex_escape c @ qp_encode_loop False (col + 3) s" by auto
    then show ?thesis using qp_decode_hex Cons.IH by simp
  qed
qed

text \<open>C40: Quoted-printable values without soft line breaks are decoded to what was encoded, for every text.\<close>

theorem vcard_qp_roundtrip: "e_vcard_qp_decode (e_vcard_qp_encode s False) = s"
  by (simp add: e_vcard_qp_encode_def qp_decode_encode)

section \<open>Folded text\<close>

definition plain :: "byte \<Rightarrow> bool" where
  "plain c \<longleftrightarrow> c \<noteq> NUL \<and> \<not> newline c"

text \<open>\<open>folds t f u\<close>: \<open>f\<close> is \<open>u\<close> with folds in the part before \<open>t\<close>, which is the end of the line and what follows.\<close>

inductive folds :: "cstring \<Rightarrow> cstring \<Rightarrow> cstring \<Rightarrow> bool" for t where
  Tail: "folds t t t"
| Char: "folds t f u \<Longrightarrow> plain c \<Longrightarrow> folds t (c # f) (c # u)"
| Fold: "folds t f u \<Longrightarrow> plain (char_at f) \<Longrightarrow> folds t (CR # LF # SP # f) u"

definition line_end :: "cstring \<Rightarrow> bool" where
  "line_end t \<longleftrightarrow> t = [] \<or> (\<exists>r. t = CR # LF # r \<and> \<not> blank (char_at r))"

lemma folds_append: "\<forall>c\<in>set w. plain c \<Longrightarrow> folds t f u \<Longrightarrow> folds t (w @ f) (w @ u)"
  by (induction w) (auto intro: folds.Char)

lemma plain_char_at [simp]: "plain (char_at f) \<Longrightarrow> f \<noteq> []"
  by (auto simp: plain_def)

lemma not_plain_CR [simp]: "\<not> plain CR" "\<not> plain LF" "\<not> plain NUL"
  by (auto simp: plain_def newline_def)

text \<open>What \<^verbatim>\<open>skip_newline\<close> sees.\<close>

lemma folds_skip:
  assumes "folds t f u" and "line_end t"
  shows "folds t (skip_newline f False) u \<and> char_at (skip_newline f False) = char_at u \<and>
    (\<forall>c u'. u = c # u' \<longrightarrow> plain c \<longrightarrow> (\<exists>f'. skip_newline f False = c # f' \<and> folds t f' u')) \<and>
    (u = t \<longrightarrow> skip_newline f False = t)"
  using assms
proof (cases rule: folds.cases)
  case Tail
  have "skip_newline t False = t" using assms(2) by (auto simp: line_end_def skip_newline_def newline_def blank_def Let_def)
  moreover have "\<not> plain (char_at t)" using assms(2) by (auto simp: line_end_def)
  ultimately show ?thesis using Tail by (auto intro: folds.Tail)
next
  case (Char f1 u1 c)
  then have "skip_newline f False = f" by (auto simp: skip_newline_def plain_def)
  moreover have "u \<noteq> t" using Char(2,4) assms(2) by (auto simp: line_end_def)
  ultimately show ?thesis using Char assms(1) by auto
next
  case (Fold f1)
  have sk: "skip_newline f False = f1" using Fold(1) by (simp add: skip_newline_def newline_def blank_def Let_def)
  have "u \<noteq> t \<and> char_at f1 = char_at u \<and> (\<forall>c u'. u = c # u' \<longrightarrow> (\<exists>f'. f1 = c # f' \<and> folds t f' u'))"
    using Fold(2)
  proof (cases rule: folds.cases)
    case Tail
    then show ?thesis using Fold(3) assms(2) by (auto simp: line_end_def)
  next
    case (Char f2 u2 c)
    then show ?thesis using assms(2) by (auto simp: line_end_def)
  next
    case (Fold f2)
    then show ?thesis using \<open>plain (char_at f1)\<close> by simp
  qed
  then show ?thesis using Fold(2) by (simp add: sk)
qed

lemma folds_skipD:
  assumes "folds t f (c # u)" and "line_end t" and "plain c"
  obtains f' where "skip_newline f False = c # f'" and "folds t f' u"
  using folds_skip [OF assms(1,2)] assms(3) by blast

lemma folds_not_NUL: "folds t f (c # u) \<Longrightarrow> plain c \<Longrightarrow> char_at f \<noteq> NUL"
proof -
  assume "folds t f (c # u)" "plain c"
  then show ?thesis
  proof (cases rule: folds.cases)
    case Tail
    then show ?thesis using \<open>plain c\<close> by (auto simp: plain_def)
  qed (auto simp: plain_def)
qed

lemma utf8_offset_suffix: "suffix (utf8_offset s n) s"
proof (induction s n rule: utf8_offset.induct)
  case (3 c s n)
  then show ?case using suffix_drop suffix_order.trans by (metis utf8_offset.simps(3))
qed simp_all

lemma utf8_strlen_offset: "utf8_strlen (utf8_offset s n) = utf8_strlen s - n"
  by (induction s n rule: utf8_offset.induct) auto

lemma fold_rest_folds:
  "len = utf8_strlen s \<Longrightarrow> \<forall>c\<in>set s. plain c \<Longrightarrow> s \<noteq> [] \<Longrightarrow>
     folds t (fold_rest len s @ t) (s @ t) \<and> plain (char_at (fold_rest len s))"
proof (induction len s rule: fold_rest.induct)
  case (1 len s)
  show ?case
  proof (cases "len \<le> 74")
    case True
    then show ?thesis using 1(3,4) folds_append [OF 1(3) folds.Tail, of t]
      by (cases s) (simp_all add: fold_rest.simps)
  next
    case False
    define pos2 where "pos2 = utf8_offset s 74"
    define w where "w = take (length s - length pos2) s"
    have sw: "s = w @ pos2"
      unfolding w_def pos2_def by (rule suffix_take [OF utf8_offset_suffix])
    have len2: "len - 74 = utf8_strlen pos2" using 1(2) by (simp add: pos2_def utf8_strlen_offset)
    then have ne: "pos2 \<noteq> []" using False by auto
    have pl: "\<forall>c\<in>set pos2. plain c" "\<forall>c\<in>set w. plain c" using 1(3) sw by auto
    have "w \<noteq> []"
    proof
      assume "w = []"
      then have "utf8_strlen pos2 = len" using sw 1(2) by simp
      then show False using len2 False by simp
    qed
    have fr: "fold_rest len s = w @ [CR, LF, SP] @ fold_rest (len - 74) pos2"
      using False by (subst fold_rest.simps) (simp add: pos2_def w_def Let_def)
    have IH: "folds t (fold_rest (len - 74) pos2 @ t) (pos2 @ t)" "plain (char_at (fold_rest (len - 74) pos2))"
      using 1(1) [OF False pos2_def len2 pl(1) ne] by simp_all
    have "plain (char_at (fold_rest (len - 74) pos2 @ t))"
      using IH(2) by (cases "fold_rest (len - 74) pos2") auto
    from folds.Fold [OF IH(1) this] have "folds t (w @ CR # LF # SP # fold_rest (len - 74) pos2 @ t) (w @ pos2 @ t)"
      by (rule folds_append [OF pl(2)])
    moreover have "plain (char_at (fold_rest len s))" using pl(2) \<open>w \<noteq> []\<close> unfolding fr by (cases w) auto
    ultimately show ?thesis using sw fr by simp
  qed
qed

lemma fold_line_folds:
  assumes "\<forall>c\<in>set s. plain c"
  shows "folds t (fold_line s @ t) (s @ t)"
proof (cases "utf8_strlen s > 75")
  case False
  then show ?thesis using folds_append [OF assms folds.Tail, of t] by (simp add: fold_line_def Let_def)
next
  case True
  define pos2 where "pos2 = utf8_offset s 75"
  define w where "w = take (length s - length pos2) s"
  have sw: "s = w @ pos2" unfolding w_def pos2_def by (rule suffix_take [OF utf8_offset_suffix])
  have len2: "utf8_strlen s - 75 = utf8_strlen pos2" by (simp add: pos2_def utf8_strlen_offset)
  then have ne: "pos2 \<noteq> []" using True by auto
  have pl: "\<forall>c\<in>set pos2. plain c" "\<forall>c\<in>set w. plain c" using assms sw by auto
  have IH: "folds t (fold_rest (utf8_strlen s - 75) pos2 @ t) (pos2 @ t)" "plain (char_at (fold_rest (utf8_strlen s - 75) pos2))"
    using fold_rest_folds [OF len2 pl(1) ne] by simp_all
  have "plain (char_at (fold_rest (utf8_strlen s - 75) pos2 @ t))"
    using IH(2) by (cases "fold_rest (utf8_strlen s - 75) pos2") auto
  from folds.Fold [OF IH(1) this] have "folds t (w @ CR # LF # SP # fold_rest (utf8_strlen s - 75) pos2 @ t) (w @ pos2 @ t)"
    by (rule folds_append [OF pl(2)])
  moreover have "fold_line s = w @ [CR, LF, SP] @ fold_rest (utf8_strlen s - 75) pos2"
    using True by (simp add: fold_line_def pos2_def w_def Let_def)
  ultimately show ?thesis using sw by simp
qed

section \<open>Collecting text\<close>

text \<open>What was collected, with the chunk that is not yet written. A chunk never crosses a fold.\<close>

definition collected :: "byte list \<Rightarrow> cstring option \<Rightarrow> cstring \<Rightarrow> byte list \<Rightarrow> bool" where
  "collected str chunk lp e \<longleftrightarrow> write_chunk str chunk lp = e \<and>
     (chunk \<noteq> None \<longrightarrow> (\<exists>w. chunk = Some (w @ lp)) \<and> \<not> newline (char_at lp))"

lemma collected_None [simp]: "collected str None lp e \<longleftrightarrow> str = e"
  by (simp add: collected_def write_chunk_def)

lemma collected_skip:
  "collected str chunk lp e \<Longrightarrow> collected str chunk (skip_newline lp False) e"
  by (cases chunk) (auto simp: collected_def skip_newline_def write_chunk_def)

lemma collected_write: "collected str chunk lp e \<Longrightarrow> write_chunk str chunk lp = e"
  by (simp add: collected_def)

lemma collected_more:
  assumes "collected str chunk (c # lp) e"
  defines "chunk' \<equiv> (case chunk of None \<Rightarrow> Some (c # lp) | Some start \<Rightarrow> Some start)"
  shows "write_chunk str chunk' lp = e @ [c]" and "\<exists>w. chunk' = Some (w @ lp)"
proof -
  have "write_chunk str chunk' lp = e @ [c] \<and> (\<exists>w. chunk' = Some (w @ lp))"
  proof (cases chunk)
    case None
    then show ?thesis using assms(1) by (auto simp: chunk'_def write_chunk_def)
  next
    case (Some start)
    then obtain w where "start = w @ c # lp" using assms(1) by (auto simp: collected_def)
    then show ?thesis using assms(1) Some by (auto simp: chunk'_def write_chunk_def collected_def)
  qed
  then show "write_chunk str chunk' lp = e @ [c]" "\<exists>w. chunk' = Some (w @ lp)" by simp_all
qed

section \<open>Reading a value back\<close>

definition reads_value :: "cstring \<Rightarrow> value_state \<Rightarrow> cstring list \<Rightarrow> byte list \<Rightarrow> cstring \<Rightarrow> bool" where
  "reads_value t st vs e u \<longleftrightarrow> v_vals st = vs \<and> collected (v_str st) (v_chunk st) (v_lp st) e \<and> folds t (v_lp st) u"

lemma reads_end_round:
  assumes "v_vals st = vs" and "write_chunk (v_str st) (v_chunk st) (v_lp st) = e" and "folds t (v_lp st) u"
    and "v_chunk st \<noteq> None \<longrightarrow> (\<exists>w. v_chunk st = Some (w @ v_lp st))"
  shows "reads_value t (end_round st) vs e u"
  using assms by (auto simp: reads_value_def end_round_def collected_def write_chunk_def)

lemma value_round:
  assumes "reads_value t st vs e (c # u)" and "line_end t" and "plain c"
  obtains lp where "folds t lp u" and "collected (v_str st) (v_chunk st) (c # lp) e"
    and "value_loop g single cat False charset st =
      (case value_step g single cat False charset (st\<lparr>v_lp := c # lp\<rparr>) of
         Overrun \<Rightarrow> None
       | Stop st \<Rightarrow> Some st
       | Go st \<Rightarrow> value_loop g single cat False charset (end_round st))"
proof -
  obtain lp where lp: "skip_newline (v_lp st) False = c # lp" "folds t lp u"
    using assms folds_skipD unfolding reads_value_def by blast
  have "collected (v_str st) (v_chunk st) (c # lp) e"
    using collected_skip [of "v_str st" "v_chunk st" "v_lp st" e] assms(1) lp(1) by (simp add: reads_value_def)
  moreover have "value_loop g single cat False charset st =
      (case value_step g single cat False charset (st\<lparr>v_lp := c # lp\<rparr>) of
         Overrun \<Rightarrow> None
       | Stop st \<Rightarrow> Some st
       | Go st \<Rightarrow> value_loop g single cat False charset (end_round st))"
    using assms(3) by (subst value_loop.simps) (simp add: lp(1) Let_def plain_def)
  ultimately show ?thesis using that lp(2) by blast
qed

lemma value_reads_char:
  assumes r: "reads_value t st vs e (c # u)" and t: "line_end t" and c: "plain c" "c \<noteq> BACKSLASH"
    and sep: "c \<noteq> SEMICOLON" "c \<noteq> COMMA"
  shows "\<exists>st'. value_loop g single cat False charset st = value_loop g single cat False charset st' \<and>
    reads_value t st' vs (e @ [c]) u"
proof -
  obtain lp where lp: "folds t lp u" "collected (v_str st) (v_chunk st) (c # lp) e"
    "value_loop g single cat False charset st =
      (case value_step g single cat False charset (st\<lparr>v_lp := c # lp\<rparr>) of
         Overrun \<Rightarrow> None
       | Stop st \<Rightarrow> Some st
       | Go st \<Rightarrow> value_loop g single cat False charset (end_round st))"
    using value_round [OF r t c(1)] by metis
  define st1 where "st1 = st\<lparr>v_chunk := (case v_chunk st of None \<Rightarrow> Some (c # lp) | Some start \<Rightarrow> Some start), v_lp := lp\<rparr>"
  have "value_step g single cat False charset (st\<lparr>v_lp := c # lp\<rparr>) = Go st1"
    using c sep by (simp add: value_step_def st1_def Let_def)
  then have "value_loop g single cat False charset st = value_loop g single cat False charset (end_round st1)"
    using lp(3) by simp
  moreover have "reads_value t (end_round st1) vs (e @ [c]) u"
    by (rule reads_end_round) (use collected_more [OF lp(2)] r lp(1) in \<open>simp_all add: st1_def reads_value_def\<close>)
  ultimately show ?thesis by blast
qed

lemma value_reads_escape:
  assumes r: "reads_value t st vs e (BACKSLASH # d # u)" and t: "line_end t" and d: "plain d" "unescape_char d = Some c"
  shows "\<exists>st'. value_loop g single cat False charset st = value_loop g single cat False charset st' \<and>
    reads_value t st' vs (e @ [c]) u"
proof -
  have b: "plain BACKSLASH" by (simp add: plain_def newline_def)
  obtain lp where lp: "folds t lp (d # u)" "collected (v_str st) (v_chunk st) (BACKSLASH # lp) e"
    "value_loop g single cat False charset st =
      (case value_step g single cat False charset (st\<lparr>v_lp := BACKSLASH # lp\<rparr>) of
         Overrun \<Rightarrow> None
       | Stop st \<Rightarrow> Some st
       | Go st \<Rightarrow> value_loop g single cat False charset (end_round st))"
    using value_round [OF r t b] by metis
  obtain lp2 where lp2: "skip_newline lp False = d # lp2" "folds t lp2 u" by (rule folds_skipD [OF lp(1) t d(1)])
  define st1 where "st1 = st\<lparr>v_str := e @ [c], v_chunk := None, v_lp := lp2\<rparr>"
  have "value_step g single cat False charset (st\<lparr>v_lp := BACKSLASH # lp\<rparr>) = Go st1"
    using folds_not_NUL [OF lp(1) d(1)] lp2(1) d(2) collected_write [OF lp(2)]
    by (simp add: value_step_def st1_def Let_def)
  then have "value_loop g single cat False charset st = value_loop g single cat False charset (end_round st1)"
    using lp(3) by simp
  moreover have "reads_value t (end_round st1) vs (e @ [c]) u"
    by (rule reads_end_round) (use r lp2(2) in \<open>simp_all add: st1_def reads_value_def write_chunk_def\<close>)
  ultimately show ?thesis by blast
qed

lemma value_reads_escaped:
  assumes "reads_value t st vs e (escape_char c @ u)" and "line_end t" and "c \<noteq> CR" "c \<noteq> NUL"
  shows "\<exists>st'. value_loop g single cat False charset st = value_loop g single cat False charset st' \<and>
    reads_value t st' vs (e @ [c]) u"
proof -
  consider "c = LF" | "c = SEMICOLON \<or> c = COMMA \<or> c = BACKSLASH" "c \<noteq> LF"
    | "c \<noteq> LF" "c \<noteq> SEMICOLON" "c \<noteq> COMMA" "c \<noteq> BACKSLASH" by blast
  then show ?thesis
  proof cases
    case 1
    show ?thesis
      by (rule value_reads_escape [where d = 110]) (use assms 1 in \<open>simp_all add: escape_char_def plain_def newline_def unescape_char_def\<close>)
  next
    case 2
    show ?thesis
      by (rule value_reads_escape [where d = c])
        (use assms 2 in \<open>auto simp: escape_char_def plain_def newline_def unescape_char_def\<close>)
  next
    case 3
    show ?thesis
      by (rule value_reads_char) (use assms 3 in \<open>auto simp: escape_char_def plain_def newline_def\<close>)
  qed
qed

lemma value_reads_text:
  "reads_value t st vs e (concat (map escape_char w) @ u) \<Longrightarrow> line_end t \<Longrightarrow> CR \<notin> set w \<Longrightarrow> NUL \<notin> set w \<Longrightarrow>
     \<exists>st'. value_loop g single cat False charset st = value_loop g single cat False charset st' \<and>
       reads_value t st' vs (e @ w) u"
proof (induction w arbitrary: st e)
  case Nil
  then show ?case by auto
next
  case (Cons c w)
  then obtain st1 where st1: "value_loop g single cat False charset st = value_loop g single cat False charset st1"
      "reads_value t st1 vs (e @ [c]) (concat (map escape_char w) @ u)"
    using value_reads_escaped [where g = g and single = single and cat = cat and charset = charset, of t st vs e c "concat (map escape_char w) @ u"] by auto
  then show ?case using Cons.IH [OF st1(2)] Cons.prems by auto
qed

lemma value_reads_separator:
  assumes r: "reads_value t st vs e (c # u)" and t: "line_end t" and c: "c = SEMICOLON \<and> \<not> single \<or> c = COMMA \<and> cat"
  shows "\<exists>st'. value_loop g single cat False charset st = value_loop g single cat False charset st' \<and>
    reads_value t st' (vs @ [finish_value g charset e]) [] u"
proof -
  have p: "plain c" using c by (auto simp: plain_def newline_def)
  obtain lp where lp: "folds t lp u" "collected (v_str st) (v_chunk st) (c # lp) e"
    "value_loop g single cat False charset st =
      (case value_step g single cat False charset (st\<lparr>v_lp := c # lp\<rparr>) of
         Overrun \<Rightarrow> None
       | Stop st \<Rightarrow> Some st
       | Go st \<Rightarrow> value_loop g single cat False charset (end_round st))"
    using value_round [OF r t p] by metis
  define st1 where "st1 = st\<lparr>v_vals := vs @ [finish_value g charset e], v_str := [], v_chunk := None, v_lp := lp\<rparr>"
  have "value_step g single cat False charset (st\<lparr>v_lp := c # lp\<rparr>) = Go st1"
    using c collected_write [OF lp(2)] r by (auto simp: value_step_def st1_def Let_def reads_value_def)
  then have "value_loop g single cat False charset st = value_loop g single cat False charset (end_round st1)"
    using lp(3) by simp
  moreover have "reads_value t (end_round st1) (vs @ [finish_value g charset e]) [] u"
    by (rule reads_end_round) (use lp(1) in \<open>simp_all add: st1_def write_chunk_def\<close>)
  ultimately show ?thesis by blast
qed

lemma value_reads_end:
  assumes r: "reads_value t st vs e t" and t: "line_end t"
  shows "\<exists>st'. value_loop g single cat False charset st = Some st' \<and> v_vals st' = vs \<and> v_lp st' = t \<and>
    write_chunk (v_str st') (v_chunk st') t = e"
proof -
  have sk: "skip_newline (v_lp st) False = t" using folds_skip r t unfolding reads_value_def by blast
  have "char_at t = NUL \<or> newline (char_at t)" using t by (auto simp: line_end_def newline_def)
  then have "value_loop g single cat False charset st = Some (st\<lparr>v_lp := t\<rparr>)"
    by (subst value_loop.simps) (simp add: sk Let_def)
  moreover have "collected (v_str st) (v_chunk st) t e" using collected_skip r sk unfolding reads_value_def by metis
  ultimately show ?thesis using r by (simp add: reads_value_def collected_def)
qed

lemma value_reads_values:
  "reads_value t st vs [] (join sep (map (\<lambda>w. concat (map escape_char w)) ws) @ t) \<Longrightarrow> line_end t \<Longrightarrow> ws \<noteq> [] \<Longrightarrow>
     \<forall>w\<in>set ws. CR \<notin> set w \<and> NUL \<notin> set w \<Longrightarrow> length ws = 1 \<or> sep = SEMICOLON \<and> \<not> single \<or> sep = COMMA \<and> cat \<Longrightarrow>
     \<exists>st'. value_loop g single cat False charset st = Some st' \<and> v_lp st' = t \<and>
       v_vals st' @ [finish_value g charset (write_chunk (v_str st') (v_chunk st') t)] = vs @ map (finish_value g charset) ws"
proof (induction ws arbitrary: st vs rule: induct_list012)
  case 1
  then show ?case by simp
next
  case (2 w)
  then obtain st1 where st1: "value_loop g single cat False charset st = value_loop g single cat False charset st1"
      "reads_value t st1 vs w t"
    using value_reads_text [where g = g and single = single and cat = cat and charset = charset, of t st vs "[]" w t] by auto
  then show ?case using value_reads_end [OF st1(2) 2(2), of g single cat charset] by auto
next
  case (3 w w' ws)
  define rest where "rest = join sep (map (\<lambda>w. concat (map escape_char w)) (w' # ws)) @ t"
  have "reads_value t st vs [] (concat (map escape_char w) @ sep # rest)" using 3(3) by (simp add: rest_def)
  then obtain st1 where st1: "value_loop g single cat False charset st = value_loop g single cat False charset st1"
      "reads_value t st1 vs w (sep # rest)"
    using value_reads_text [where g = g and single = single and cat = cat and charset = charset, of t st vs "[]" w "sep # rest"] 3(4,6) by auto
  obtain st2 where st2: "value_loop g single cat False charset st1 = value_loop g single cat False charset st2"
      "reads_value t st2 (vs @ [finish_value g charset w]) [] rest"
    using value_reads_separator [OF st1(2) 3(4), of single cat g charset] 3(7) by auto
  have "length (w' # ws) = 1 \<or> sep = SEMICOLON \<and> \<not> single \<or> sep = COMMA \<and> cat" using 3(7) by auto
  then show ?case using 3(2) [OF st2(2) [unfolded rest_def] 3(4)] st1(1) st2(1) 3(6) by auto
qed

end
