(* ===== verification/EBook_VCardRound.thy ===== *)
theory EBook_VCardRound
  imports EBook_VCardProps
begin

text \<open>Cards are read back as they were written.\<close>

section \<open>Reading parameters back\<close>

definition reads_params ::
    "cstring \<Rightarrow> param_state \<Rightarrow> EVCardAttribute \<Rightarrow> EVCardAttributeParam option \<Rightarrow> bool \<Rightarrow> byte list \<Rightarrow> cstring \<Rightarrow> bool" where
  "reads_params t st a p q e u \<longleftrightarrow> p_attr st = a \<and> p_param st = p \<and> p_in_quote st = q \<and>
     collected (p_str st) (p_chunk st) (p_lp st) e \<and> folds t (p_lp st) u \<and> \<not> p_quoted_printable st \<and> p_charset st = None"

lemma reads_end_param_round:
  assumes "p_attr st = a" "p_param st = p" "p_in_quote st = q" "\<not> p_quoted_printable st" "p_charset st = None"
    and "write_chunk (p_str st) (p_chunk st) (p_lp st) = e" and "folds t (p_lp st) u"
    and "p_chunk st \<noteq> None \<longrightarrow> (\<exists>w. p_chunk st = Some (w @ p_lp st))"
  shows "reads_params t (end_param_round st) a p q e u"
  using assms by (auto simp: reads_params_def end_param_round_def collected_def write_chunk_def)

lemma param_round:
  assumes "reads_params t st a p q e (c # u)" and "line_end t" and "plain c"
  obtains lp where "folds t lp u" and "collected (p_str st) (p_chunk st) (c # lp) e"
    and "param_loop g st =
      (case param_step g (st\<lparr>p_lp := c # lp\<rparr>) of
         Go st \<Rightarrow> param_loop g (end_param_round st)
       | Stop st \<Rightarrow> st
       | Overrun \<Rightarrow> st\<lparr>p_lp := c # lp\<rparr>)"
proof -
  have qp: "p_quoted_printable st = False" using assms(1) by (simp add: reads_params_def)
  obtain lp where lp: "skip_newline (p_lp st) False = c # lp" "folds t lp u"
    using assms folds_skipD unfolding reads_params_def by blast
  have "collected (p_str st) (p_chunk st) (c # lp) e"
    using collected_skip [of "p_str st" "p_chunk st" "p_lp st" e] assms(1) lp(1) by (simp add: reads_params_def)
  moreover have "param_loop g st =
      (case param_step g (st\<lparr>p_lp := c # lp\<rparr>) of
         Go st \<Rightarrow> param_loop g (end_param_round st)
       | Stop st \<Rightarrow> st
       | Overrun \<Rightarrow> st\<lparr>p_lp := c # lp\<rparr>)"
    using assms(3) by (subst param_loop.simps) (simp add: qp lp(1) Let_def plain_def)
  ultimately show ?thesis using that lp(2) by blast
qed

text \<open>A round that goes on.\<close>

lemma param_goes:
  assumes r: "reads_params t st a p q e (c # u)" and t: "line_end t" "plain c"
    and go: "\<And>lp. folds t lp u \<Longrightarrow> collected (p_str st) (p_chunk st) (c # lp) e \<Longrightarrow>
      \<exists>st1. param_step g (st\<lparr>p_lp := c # lp\<rparr>) = Go st1 \<and> reads_params t (end_param_round st1) a' p' q' e' u'"
  shows "\<exists>st'. param_loop g st = param_loop g st' \<and> reads_params t st' a' p' q' e' u'"
proof -
  obtain lp where lp: "folds t lp u" "collected (p_str st) (p_chunk st) (c # lp) e"
    "param_loop g st =
      (case param_step g (st\<lparr>p_lp := c # lp\<rparr>) of
         Go st \<Rightarrow> param_loop g (end_param_round st)
       | Stop st \<Rightarrow> st
       | Overrun \<Rightarrow> st\<lparr>p_lp := c # lp\<rparr>)"
    using param_round [OF r t, where g = g] by metis
  obtain st1 where "param_step g (st\<lparr>p_lp := c # lp\<rparr>) = Go st1" "reads_params t (end_param_round st1) a' p' q' e' u'"
    using go [OF lp(1,2)] by blast
  then show ?thesis using lp(3) by auto
qed

definition name_char :: "byte \<Rightarrow> bool" where
  "name_char c \<longleftrightarrow> c = 45 \<or> c = 95 \<or> isalnum c"

lemma name_char_plain:
  assumes "name_char c"
  shows "plain c \<and> c < 128 \<and> c \<noteq> DQUOTE \<and> c \<noteq> EQUALS \<and> c \<noteq> COLON \<and> c \<noteq> SEMICOLON \<and> c \<noteq> COMMA \<and> c \<noteq> DOT \<and> \<not> blank c"
proof -
  have "unat c \<in> {45, 95} \<union> {48..57} \<union> {65..90} \<union> {97..122}"
    using assms by (auto simp: name_char_def isalnum_def word_le_nat_alt)
  then show ?thesis by (auto simp: plain_def newline_def blank_def word_less_nat_alt)
qed

lemma param_reads_name_char:
  assumes r: "reads_params t st a p False e (c # u)" and t: "line_end t" and c: "name_char c"
  shows "\<exists>st'. param_loop g st = param_loop g st' \<and> reads_params t st' a p False (e @ [c]) u"
proof (rule param_goes [OF r t])
  show "plain c" using name_char_plain [OF c] by simp
  fix lp assume lp: "folds t lp u" "collected (p_str st) (p_chunk st) (c # lp) e"
  define st1 where "st1 = st\<lparr>p_str := e @ [c], p_chunk := None, p_lp := lp\<rparr>"
  have "param_step g (st\<lparr>p_lp := c # lp\<rparr>) = Go st1"
    using c name_char_plain [OF c] r collected_write [OF lp(2)]
    by (auto simp: param_step_def st1_def Let_def name_char_def reads_params_def)
  moreover have "reads_params t (end_param_round st1) a p False (e @ [c]) u"
    by (rule reads_end_param_round) (use r lp(1) in \<open>simp_all add: st1_def reads_params_def write_chunk_def\<close>)
  ultimately show "\<exists>st1. param_step g (st\<lparr>p_lp := c # lp\<rparr>) = Go st1 \<and> reads_params t (end_param_round st1) a p False (e @ [c]) u"
    by blast
qed

lemma param_reads_name:
  "reads_params t st a p False e (w @ u) \<Longrightarrow> line_end t \<Longrightarrow> \<forall>c\<in>set w. name_char c \<Longrightarrow>
     \<exists>st'. param_loop g st = param_loop g st' \<and> reads_params t st' a p False (e @ w) u"
proof (induction w arbitrary: st e)
  case Nil
  then show ?case by auto
next
  case (Cons c w)
  then obtain st1 where st1: "param_loop g st = param_loop g st1" "reads_params t st1 a p False (e @ [c]) (w @ u)"
    using param_reads_name_char [of t st a p e c "w @ u" g] by auto
  then show ?case using Cons.IH [OF st1(2)] Cons.prems by auto
qed

lemma param_reads_equals:
  assumes r: "reads_params t st a p False e (EQUALS # u)" and t: "line_end t" and e: "e \<noteq> []"
  shows "\<exists>st'. param_loop g st = param_loop g st' \<and>
    reads_params t st' a (Some \<lparr>param_name = valid_str g e, param_values = []\<rparr>) False [] u"
proof (rule param_goes [OF r t])
  show "plain EQUALS" by (simp add: plain_def newline_def)
  fix lp assume lp: "folds t lp u" "collected (p_str st) (p_chunk st) (EQUALS # lp) e"
  define st1 where
    "st1 = st\<lparr>p_param := Some \<lparr>param_name = valid_str g e, param_values = []\<rparr>, p_str := [], p_chunk := None, p_lp := lp\<rparr>"
  have "param_step g (st\<lparr>p_lp := EQUALS # lp\<rparr>) = Go st1"
    using e r collected_write [OF lp(2)] by (simp add: param_step_def st1_def Let_def reads_params_def isalnum_def)
  moreover have "reads_params t (end_param_round st1) a (Some \<lparr>param_name = valid_str g e, param_values = []\<rparr>) False [] u"
    by (rule reads_end_param_round) (use r lp(1) in \<open>simp_all add: st1_def reads_params_def write_chunk_def\<close>)
  ultimately show "\<exists>st1. param_step g (st\<lparr>p_lp := EQUALS # lp\<rparr>) = Go st1 \<and>
      reads_params t (end_param_round st1) a (Some \<lparr>param_name = valid_str g e, param_values = []\<rparr>) False [] u"
    by blast
qed

text \<open>A character of a value that is not quoted: alphanumeric or not ASCII.\<close>

lemma param_reads_bare_char:
  assumes r: "reads_params t st a (Some p) False e (c # u)" and t: "line_end t" and c: "isalnum c \<or> 128 \<le> c"
  shows "\<exists>st'. param_loop g st = param_loop g st' \<and> reads_params t st' a (Some p) False (e @ [c]) u"
proof (cases "isalnum c")
  case True
  then show ?thesis using param_reads_name_char [OF r t] by (simp add: name_char_def)
next
  case False
  then have c: "128 \<le> c" using c by simp
  then have d: "plain c" "c \<noteq> DQUOTE" "c \<noteq> 45" "c \<noteq> 95" "c \<noteq> EQUALS" "c \<noteq> SEMICOLON" "c \<noteq> COLON" "c \<noteq> COMMA"
    by (auto simp: plain_def newline_def)
  show ?thesis
  proof (rule param_goes [OF r t d(1)])
    fix lp assume lp: "folds t lp u" "collected (p_str st) (p_chunk st) (c # lp) e"
    define st1 where "st1 = st\<lparr>p_chunk := (case p_chunk st of None \<Rightarrow> Some (c # lp) | Some start \<Rightarrow> Some start), p_lp := lp\<rparr>"
    have "param_step g (st\<lparr>p_lp := c # lp\<rparr>) = Go st1"
      using False d r by (simp add: param_step_def st1_def Let_def reads_params_def)
    moreover have "reads_params t (end_param_round st1) a (Some p) False (e @ [c]) u"
      by (rule reads_end_param_round)
        (use collected_more [OF lp(2)] r lp(1) in \<open>simp_all add: st1_def reads_params_def\<close>)
    ultimately show "\<exists>st1. param_step g (st\<lparr>p_lp := c # lp\<rparr>) = Go st1 \<and>
        reads_params t (end_param_round st1) a (Some p) False (e @ [c]) u" by blast
  qed
qed

lemma param_reads_quote:
  assumes r: "reads_params t st a p q e (DQUOTE # u)" and t: "line_end t"
  shows "\<exists>st'. param_loop g st = param_loop g st' \<and> reads_params t st' a p (\<not> q) e u"
proof (rule param_goes [OF r t])
  show "plain DQUOTE" by (simp add: plain_def newline_def)
  fix lp assume lp: "folds t lp u" "collected (p_str st) (p_chunk st) (DQUOTE # lp) e"
  define st1 where "st1 = st\<lparr>p_str := e, p_chunk := None, p_in_quote := \<not> q, p_lp := lp\<rparr>"
  have "param_step g (st\<lparr>p_lp := DQUOTE # lp\<rparr>) = Go st1"
    using r collected_write [OF lp(2)] by (simp add: param_step_def st1_def Let_def reads_params_def)
  moreover have "reads_params t (end_param_round st1) a p (\<not> q) e u"
    by (rule reads_end_param_round) (use r lp(1) in \<open>simp_all add: st1_def reads_params_def write_chunk_def\<close>)
  ultimately show "\<exists>st1. param_step g (st\<lparr>p_lp := DQUOTE # lp\<rparr>) = Go st1 \<and>
      reads_params t (end_param_round st1) a p (\<not> q) e u" by blast
qed

lemma param_reads_quoted_char:
  assumes r: "reads_params t st a p True e (c # u)" and t: "line_end t" and c: "plain c" "c \<noteq> DQUOTE" "c \<noteq> BACKSLASH"
  shows "\<exists>st'. param_loop g st = param_loop g st' \<and> reads_params t st' a p True (e @ [c]) u"
proof (rule param_goes [OF r t c(1)])
  fix lp assume lp: "folds t lp u" "collected (p_str st) (p_chunk st) (c # lp) e"
  define st1 where "st1 = st\<lparr>p_str := e @ [c], p_chunk := None, p_lp := lp\<rparr>"
  have "param_step g (st\<lparr>p_lp := c # lp\<rparr>) = Go st1"
    using c r collected_write [OF lp(2)] by (simp add: param_step_def st1_def Let_def reads_params_def)
  moreover have "reads_params t (end_param_round st1) a p True (e @ [c]) u"
    by (rule reads_end_param_round) (use r lp(1) in \<open>simp_all add: st1_def reads_params_def write_chunk_def\<close>)
  ultimately show "\<exists>st1. param_step g (st\<lparr>p_lp := c # lp\<rparr>) = Go st1 \<and>
      reads_params t (end_param_round st1) a p True (e @ [c]) u" by blast
qed

lemma param_reads_quoted_escape:
  assumes r: "reads_params t st a p True e (BACKSLASH # d # u)" and t: "line_end t" and d: "plain d" "unescape_char d = Some c"
  shows "\<exists>st'. param_loop g st = param_loop g st' \<and> reads_params t st' a p True (e @ [c]) u"
proof (rule param_goes [OF r t])
  show "plain BACKSLASH" by (simp add: plain_def newline_def)
  fix lp assume lp: "folds t lp (d # u)" "collected (p_str st) (p_chunk st) (BACKSLASH # lp) e"
  obtain lp2 where lp2: "skip_newline lp False = d # lp2" "folds t lp2 u" by (rule folds_skipD [OF lp(1) t d(1)])
  have nz: "d \<noteq> NUL" using d(1) by (auto simp: plain_def)
  define st1 where "st1 = st\<lparr>p_str := e @ [c], p_chunk := None, p_lp := lp2\<rparr>"
  have "param_step g (st\<lparr>p_lp := BACKSLASH # lp\<rparr>) = Go st1"
    using r collected_write [OF lp(2)] d(2) nz by (simp add: param_step_def st1_def Let_def reads_params_def lp2(1))
  moreover have "reads_params t (end_param_round st1) a p True (e @ [c]) u"
    by (rule reads_end_param_round) (use r lp2(2) in \<open>simp_all add: st1_def reads_params_def write_chunk_def\<close>)
  ultimately show "\<exists>st1. param_step g (st\<lparr>p_lp := BACKSLASH # lp\<rparr>) = Go st1 \<and>
      reads_params t (end_param_round st1) a p True (e @ [c]) u" by blast
qed

lemma param_reads_quoted:
  "reads_params t st a p True e (concat (map escape_char w) @ u) \<Longrightarrow> line_end t \<Longrightarrow>
     \<forall>c\<in>set w. c \<noteq> CR \<and> c \<noteq> NUL \<and> c \<noteq> DQUOTE \<Longrightarrow>
     \<exists>st'. param_loop g st = param_loop g st' \<and> reads_params t st' a p True (e @ w) u"
proof (induction w arbitrary: st e)
  case Nil
  then show ?case by auto
next
  case (Cons c w)
  define rest where "rest = concat (map escape_char w) @ u"
  have r: "reads_params t st a p True e (escape_char c @ rest)" using Cons.prems(1) by (simp add: rest_def)
  consider "c = LF" | "c = SEMICOLON \<or> c = COMMA \<or> c = BACKSLASH" "c \<noteq> LF"
    | "c \<noteq> LF" "c \<noteq> SEMICOLON" "c \<noteq> COMMA" "c \<noteq> BACKSLASH" by blast
  then have "\<exists>st1. param_loop g st = param_loop g st1 \<and> reads_params t st1 a p True (e @ [c]) rest"
  proof cases
    case 1
    show ?thesis
      by (rule param_reads_quoted_escape [where d = 110])
        (use r Cons.prems(2) 1 in \<open>simp_all add: escape_char_def plain_def newline_def unescape_char_def\<close>)
  next
    case 2
    then have d: "plain c" "unescape_char c = Some c" "escape_char c = [BACKSLASH, c]"
      by (auto simp: plain_def newline_def unescape_char_def escape_char_def)
    show ?thesis by (rule param_reads_quoted_escape [OF _ Cons.prems(2) d(1,2)]) (use r d(3) in simp)
  next
    case 3
    then have d: "plain c" "c \<noteq> DQUOTE" "escape_char c = [c]"
      using Cons.prems(3) by (simp_all add: plain_def newline_def escape_char_def)
    show ?thesis by (rule param_reads_quoted_char [OF _ Cons.prems(2) d(1,2) 3(4)]) (use r d(3) in simp)
  qed
  then obtain st1 where st1: "param_loop g st = param_loop g st1" "reads_params t st1 a p True (e @ [c]) rest" by blast
  then show ?case using Cons.IH [OF st1(2) [unfolded rest_def]] Cons.prems by auto
qed

end
