(* ===== verification/EBook_VCardCard.thy ===== *)
theory EBook_VCardCard
  imports EBook_VCardRound
begin

text \<open>Parameters, attributes and cards that are written are read back.\<close>

section \<open>Text that GLib accepts\<close>

text \<open>In UTF-8 only the first byte of a character can be ASCII.\<close>

function char_seq :: "cstring \<Rightarrow> bool" where
  "char_seq [] = True"
| "char_seq (c # s) = ((\<forall>d\<in>set (take (utf8_skip c) (c # s)). c < 128 \<or> 128 \<le> d) \<and> char_seq (drop (utf8_skip c) (c # s)))"
  by pat_completeness auto
termination
  by (relation "measure length") auto

text \<open>What is used of the GLib functions: ASCII text without NUL is valid, valid text is a sequence of characters, and the ASCII characters
  that are alphanumeric are the letters and digits.\<close>

definition glib_text_ok :: "glib_text \<Rightarrow> bool" where
  "glib_text_ok g \<longleftrightarrow>
     (\<forall>s. (\<forall>c\<in>set s. c < 128 \<and> c \<noteq> NUL) \<longrightarrow> g_utf8_validate g s = None) \<and>
     (\<forall>s. g_utf8_validate g s = None \<longrightarrow> char_seq s) \<and>
     (\<forall>c s. c < 128 \<longrightarrow> g_unichar_isalnum g (c # s) = isalnum c)"

definition text_ok :: "glib_text \<Rightarrow> cstring \<Rightarrow> bool" where
  "text_ok g s \<longleftrightarrow> NUL \<notin> set s \<and> CR \<notin> set s \<and> g_utf8_validate g s = None"

definition name_ok :: "cstring \<Rightarrow> bool" where
  "name_ok s \<longleftrightarrow> s \<noteq> [] \<and> (\<forall>c\<in>set s. name_char c)"

lemma c_str_id: "NUL \<notin> set s \<Longrightarrow> c_str s = s"
  by (auto simp: c_str_def takeWhile_eq_all_conv)

lemma valid_text: "text_ok g s \<Longrightarrow> valid_str g s = s"
  by (auto simp: text_ok_def valid_str_def make_utf8_valid.simps [of g s] c_str_id)

lemma finish_text: "text_ok g s \<Longrightarrow> finish_value g None s = s"
  using valid_text by (simp add: finish_value_def valid_str_def)

lemma name_text_ok: "glib_text_ok g \<Longrightarrow> name_ok s \<Longrightarrow> text_ok g s"
  using name_char_plain unfolding glib_text_ok_def name_ok_def text_ok_def plain_def newline_def by metis

lemma valid_name: "glib_text_ok g \<Longrightarrow> name_ok s \<Longrightarrow> valid_str g s = s"
  by (rule valid_text [OF name_text_ok])

lemma bare_value:
  "char_seq v \<Longrightarrow> glib_text_ok g \<Longrightarrow> \<not> needs_quotes g v \<Longrightarrow> c \<in> set v \<Longrightarrow> isalnum c \<or> 128 \<le> c"
proof (induction v arbitrary: c rule: char_seq.induct)
  case (2 d s)
  have split: "set (d # s) = set (take (utf8_skip d) (d # s)) \<union> set (drop (utf8_skip d) (d # s))"
    by (metis append_take_drop_id set_append)
  show ?case
  proof (cases "c \<in> set (drop (utf8_skip d) (d # s))")
    case True
    then show ?thesis using 2 by simp
  next
    case False
    then have c: "c \<in> set (take (utf8_skip d) (d # s))" using 2(5) split by blast
    show ?thesis
    proof (cases "d < 128")
      case True
      then have "utf8_skip d = 1" using less_trans [OF True, of 192] by (simp add: utf8_skip_def)
      then have "c = d" using c by simp
      then show ?thesis using 2(3,4) True by (auto simp: glib_text_ok_def)
    next
      case False
      then show ?thesis using 2(2) c by auto
    qed
  qed
qed simp

section \<open>Parameters\<close>

lemma param_reads_bare:
  "reads_params t st a (Some p) False e (w @ u) \<Longrightarrow> line_end t \<Longrightarrow> \<forall>c\<in>set w. isalnum c \<or> 128 \<le> c \<Longrightarrow>
     \<exists>st'. param_loop g st = param_loop g st' \<and> reads_params t st' a (Some p) False (e @ w) u"
proof (induction w arbitrary: st e)
  case Nil
  then show ?case by auto
next
  case (Cons c w)
  then obtain st1 where st1: "param_loop g st = param_loop g st1" "reads_params t st1 a (Some p) False (e @ [c]) (w @ u)"
    using param_reads_bare_char [of t st a p e c "w @ u" g] by auto
  then show ?case using Cons.IH [OF st1(2)] Cons.prems by auto
qed

definition param_value_ok :: "glib_text \<Rightarrow> cstring \<Rightarrow> bool" where
  "param_value_ok g v \<longleftrightarrow> v \<noteq> [] \<and> text_ok g v \<and> DQUOTE \<notin> set v"

lemma param_reads_value:
  assumes r: "reads_params t st a (Some p) False [] (param_value_text g v @ u)" and t: "line_end t"
    and g: "glib_text_ok g" and v: "param_value_ok g v"
  shows "\<exists>st'. param_loop g st = param_loop g st' \<and> reads_params t st' a (Some p) False v u"
proof (cases "needs_quotes g v")
  case False
  have "\<forall>c\<in>set v. isalnum c \<or> 128 \<le> c"
    using bare_value [OF _ g False] v g by (auto simp: param_value_ok_def text_ok_def glib_text_ok_def)
  then show ?thesis using param_reads_bare [of t st a p "[]" v u g] r t False by (simp add: param_value_text_def)
next
  case True
  have ok: "\<forall>c\<in>set v. c \<noteq> CR \<and> c \<noteq> NUL \<and> c \<noteq> DQUOTE" using v by (auto simp: param_value_ok_def text_ok_def)
  have eq: "e_vcard_escape_string_internal v True = concat (map escape_char v)" using ok by (intro escape_quoted) auto
  have "reads_params t st a (Some p) False [] (DQUOTE # concat (map escape_char v) @ DQUOTE # u)"
    using r True eq by (simp add: param_value_text_def)
  then obtain st1 where st1: "param_loop g st = param_loop g st1"
      "reads_params t st1 a (Some p) True [] (concat (map escape_char v) @ DQUOTE # u)"
    using param_reads_quote [of t st a "Some p" False "[]" "concat (map escape_char v) @ DQUOTE # u" g] t by auto
  obtain st2 where st2: "param_loop g st1 = param_loop g st2" "reads_params t st2 a (Some p) True v (DQUOTE # u)"
    using param_reads_quoted [OF st1(2) t ok, of g] by auto
  then show ?thesis using param_reads_quote [OF st2(2) t, of g] st1(1) by auto
qed

text \<open>Parameters that are not for the reader.\<close>

definition for_reader :: "cstring \<Rightarrow> cstring \<Rightarrow> bool" where
  "for_reader name v \<longleftrightarrow>
     camel_strcase_equal name (bytes ''encoding'') \<and> camel_strcase_equal v (bytes ''quoted-printable'') \<or>
     camel_strcase_equal name (bytes ''charset'') \<and> \<not> camel_strcase_equal v (bytes ''utf-8'')"

lemma param_value_end_keeps:
  assumes "p_str st = v" "v \<noteq> []" "valid_str g v = v" "p_param st = Some p"
    and "\<not> for_reader (param_name p) (hd (param_values p @ [v]))"
  shows "param_value_end g st p = st\<lparr>p_param := Some (p\<lparr>param_values := param_values p @ [v]\<rparr>), p_str := []\<rparr>"
  using assms by (cases "param_values p") (auto simp: param_value_end_def for_reader_def Let_def)

lemma param_reads_comma:
  assumes r: "reads_params t st a (Some p) False v (COMMA # u)" and t: "line_end t"
    and v: "v \<noteq> []" "valid_str g v = v" "\<not> for_reader (param_name p) (hd (param_values p @ [v]))"
  shows "\<exists>st'. param_loop g st = param_loop g st' \<and>
    reads_params t st' a (Some (p\<lparr>param_values := param_values p @ [v]\<rparr>)) False [] u"
proof (rule param_goes [OF r t])
  show "plain COMMA" by (simp add: plain_def newline_def)
  fix lp assume lp: "folds t lp u" "collected (p_str st) (p_chunk st) (COMMA # lp) v"
  let ?st = "st\<lparr>p_lp := COMMA # lp, p_str := v, p_chunk := None\<rparr>"
  let ?p = "p\<lparr>param_values := param_values p @ [v]\<rparr>"
  have pp: "p_param st = Some p" "\<not> p_in_quote st" using r by (simp_all add: reads_params_def)
  have pv: "param_value_end g ?st p = ?st\<lparr>p_param := Some ?p, p_str := []\<rparr>"
    by (rule param_value_end_keeps) (use v pp in simp_all)
  define st1 where "st1 = ?st\<lparr>p_param := Some ?p, p_str := [], p_lp := lp\<rparr>"
  have "param_step g (st\<lparr>p_lp := COMMA # lp\<rparr>) = param_separator g ?st"
    using pp collected_write [OF lp(2)] by (simp add: param_step_def Let_def isalnum_def)
  also have "\<dots> = Go st1" using pv pp by (simp add: param_separator_def Let_def st1_def)
  finally have "param_step g (st\<lparr>p_lp := COMMA # lp\<rparr>) = Go st1" .
  moreover have "reads_params t (end_param_round st1) a (Some ?p) False [] u"
    by (rule reads_end_param_round) (use r lp(1) in \<open>simp_all add: st1_def reads_params_def write_chunk_def\<close>)
  ultimately show "\<exists>st1. param_step g (st\<lparr>p_lp := COMMA # lp\<rparr>) = Go st1 \<and> reads_params t (end_param_round st1) a (Some ?p) False [] u"
    by blast
qed

lemma param_reads_semicolon:
  assumes r: "reads_params t st a (Some p) False v (SEMICOLON # u)" and t: "line_end t"
    and v: "v \<noteq> []" "valid_str g v = v" "\<not> for_reader (param_name p) (hd (param_values p @ [v]))"
  shows "\<exists>st'. param_loop g st = param_loop g st' \<and>
    reads_params t st' (e_vcard_attribute_add_param a (p\<lparr>param_values := param_values p @ [v]\<rparr>)) None False [] u"
proof (rule param_goes [OF r t])
  show "plain SEMICOLON" by (simp add: plain_def newline_def)
  fix lp assume lp: "folds t lp u" "collected (p_str st) (p_chunk st) (SEMICOLON # lp) v"
  let ?st = "st\<lparr>p_lp := SEMICOLON # lp, p_str := v, p_chunk := None\<rparr>"
  let ?p = "p\<lparr>param_values := param_values p @ [v]\<rparr>"
  have pp: "p_param st = Some p" "\<not> p_in_quote st" using r by (simp_all add: reads_params_def)
  have pv: "param_value_end g ?st p = ?st\<lparr>p_param := Some ?p, p_str := []\<rparr>"
    by (rule param_value_end_keeps) (use v pp in simp_all)
  define st1 where "st1 = ?st\<lparr>p_attr := e_vcard_attribute_add_param (p_attr st) ?p, p_param := None, p_str := [], p_lp := lp\<rparr>"
  have "param_step g (st\<lparr>p_lp := SEMICOLON # lp\<rparr>) = param_separator g ?st"
    using pp collected_write [OF lp(2)] by (simp add: param_step_def Let_def isalnum_def)
  also have "\<dots> = Go st1" using pv pp by (simp add: param_separator_def Let_def st1_def)
  finally have "param_step g (st\<lparr>p_lp := SEMICOLON # lp\<rparr>) = Go st1" .
  moreover have "reads_params t (end_param_round st1) (e_vcard_attribute_add_param a ?p) None False [] u"
    by (rule reads_end_param_round) (use r lp(1) in \<open>simp_all add: st1_def reads_params_def write_chunk_def\<close>)
  ultimately show "\<exists>st1. param_step g (st\<lparr>p_lp := SEMICOLON # lp\<rparr>) = Go st1 \<and>
      reads_params t (end_param_round st1) (e_vcard_attribute_add_param a ?p) None False [] u"
    by blast
qed

lemma param_reads_colon:
  assumes r: "reads_params t st a (Some p) False v (COLON # u)" and t: "line_end t"
    and v: "v \<noteq> []" "valid_str g v = v" "\<not> for_reader (param_name p) (hd (param_values p @ [v]))"
  shows "\<exists>st' lp. param_loop g st = st' \<and> p_attr st' = e_vcard_attribute_add_param a (p\<lparr>param_values := param_values p @ [v]\<rparr>) \<and>
    p_lp st' = COLON # lp \<and> folds t lp u \<and> \<not> p_quoted_printable st' \<and> p_charset st' = None"
proof -
  have pl: "plain COLON" by (simp add: plain_def newline_def)
  obtain lp where lp: "folds t lp u" "collected (p_str st) (p_chunk st) (COLON # lp) v"
    "param_loop g st =
      (case param_step g (st\<lparr>p_lp := COLON # lp\<rparr>) of
         Go st \<Rightarrow> param_loop g (end_param_round st)
       | Stop st \<Rightarrow> st
       | Overrun \<Rightarrow> st\<lparr>p_lp := COLON # lp\<rparr>)"
    using param_round [OF r t pl, where g = g] by metis
  let ?st = "st\<lparr>p_lp := COLON # lp, p_str := v, p_chunk := None\<rparr>"
  let ?p = "p\<lparr>param_values := param_values p @ [v]\<rparr>"
  have pp: "p_param st = Some p" "\<not> p_in_quote st" using r by (simp_all add: reads_params_def)
  have pv: "param_value_end g ?st p = ?st\<lparr>p_param := Some ?p, p_str := []\<rparr>"
    by (rule param_value_end_keeps) (use v pp in simp_all)
  define st1 where "st1 = ?st\<lparr>p_attr := e_vcard_attribute_add_param (p_attr st) ?p, p_param := None, p_str := []\<rparr>"
  have "param_step g (st\<lparr>p_lp := COLON # lp\<rparr>) = param_separator g ?st"
    using pp collected_write [OF lp(2)] by (simp add: param_step_def Let_def isalnum_def)
  also have "\<dots> = Stop st1" using pv pp by (simp add: param_separator_def Let_def st1_def)
  finally have "param_loop g st = st1" using lp(3) by simp
  then show ?thesis using lp(1) r by (auto simp: st1_def reads_params_def)
qed

lemma param_reads_values:
  assumes "line_end t" and "glib_text_ok g"
  shows "reads_params t st a (Some p) False [] (join COMMA (map (param_value_text g) ws) @ u) \<Longrightarrow> ws \<noteq> [] \<Longrightarrow>
     \<forall>v\<in>set ws. param_value_ok g v \<Longrightarrow> \<not> for_reader (param_name p) (hd (param_values p @ ws)) \<Longrightarrow>
     \<exists>st'. param_loop g st = param_loop g st' \<and>
       reads_params t st' a (Some (p\<lparr>param_values := param_values p @ butlast ws\<rparr>)) False (last ws) u"
proof (induction ws arbitrary: st p rule: induct_list012)
  case 1
  then show ?case by simp
next
  case (2 w)
  then show ?case using param_reads_value [of t st a p g w u] assms by simp
next
  case (3 w w' ws)
  define rest where "rest = join COMMA (map (param_value_text g) (w' # ws)) @ u"
  define p1 where "p1 = p\<lparr>param_values := param_values p @ [w]\<rparr>"
  have w: "param_value_ok g w" using 3(5) by simp
  have "reads_params t st a (Some p) False [] (param_value_text g w @ COMMA # rest)" using 3(3) by (simp add: rest_def)
  then obtain st1 where st1: "param_loop g st = param_loop g st1" "reads_params t st1 a (Some p) False w (COMMA # rest)"
    using param_reads_value [of t st a p g w "COMMA # rest"] assms w by blast
  have "w \<noteq> []" "valid_str g w = w" "\<not> for_reader (param_name p) (hd (param_values p @ [w]))"
    using w valid_text 3(6) by (auto simp: param_value_ok_def hd_append)
  from param_reads_comma [OF st1(2) assms(1) this]
  obtain st2 where st2: "param_loop g st1 = param_loop g st2" "reads_params t st2 a (Some p1) False [] rest"
    unfolding p1_def by blast
  have "\<not> for_reader (param_name p1) (hd (param_values p1 @ w' # ws))" using 3(6) by (simp add: p1_def)
  then obtain st3 where "param_loop g st2 = param_loop g st3"
      "reads_params t st3 a (Some (p1\<lparr>param_values := param_values p1 @ butlast (w' # ws)\<rparr>)) False (last (w' # ws)) u"
    using 3(2) [of st2 p1] st2(2) 3(5) unfolding rest_def by auto
  then show ?case using st1(1) st2(1) by (auto simp: p1_def)
qed

definition param_ok :: "glib_text \<Rightarrow> EVCardAttributeParam \<Rightarrow> bool" where
  "param_ok g p \<longleftrightarrow>
     name_ok (param_name p) \<and> param_values p \<noteq> [] \<and> (\<forall>v\<in>set (param_values p). param_value_ok g v) \<and>
     \<not> for_reader (param_name p) (hd (param_values p))"

text \<open>All of a parameter but its end.\<close>

lemma param_reads_param:
  assumes r: "reads_params t st a None False [] (tl (param_text g p) @ u)" and t: "line_end t"
    and g: "glib_text_ok g" and p: "param_ok g p"
  obtains st' where "param_loop g st = param_loop g st'"
    and "reads_params t st' a (Some (p\<lparr>param_values := butlast (param_values p)\<rparr>)) False (last (param_values p)) u"
proof -
  define p0 where "p0 = p\<lparr>param_values := []\<rparr>"
  define rest where "rest = join COMMA (map (param_value_text g) (param_values p)) @ u"
  have p': "name_ok (param_name p)" "param_values p \<noteq> []" "\<forall>v\<in>set (param_values p). param_value_ok g v"
    "\<not> for_reader (param_name p0) (hd (param_values p0 @ param_values p))"
    using p by (simp_all add: param_ok_def p0_def)
  have "reads_params t st a None False [] (param_name p @ EQUALS # rest)"
    using r p'(2) by (simp add: param_text_def rest_def)
  then obtain st1 where st1: "param_loop g st = param_loop g st1"
      "reads_params t st1 a None False (param_name p) (EQUALS # rest)"
    using param_reads_name [of t st a None "[]" "param_name p" "EQUALS # rest" g] t p'(1) by (auto simp: name_ok_def)
  have "param_name p \<noteq> []" using p'(1) by (simp add: name_ok_def)
  moreover have "\<lparr>param_name = valid_str g (param_name p), param_values = []\<rparr> = p0"
    using valid_name [OF g p'(1)] by (simp add: p0_def)
  ultimately obtain st2 where st2: "param_loop g st1 = param_loop g st2" "reads_params t st2 a (Some p0) False [] rest"
    using param_reads_equals [OF st1(2) t, where g = g] by auto
  from param_reads_values [OF t g st2(2) [unfolded rest_def] p'(2,3,4)]
  obtain st3 where st3: "param_loop g st2 = param_loop g st3"
      "reads_params t st3 a (Some (p0\<lparr>param_values := param_values p0 @ butlast (param_values p)\<rparr>)) False (last (param_values p)) u"
    by blast
  have "p0\<lparr>param_values := param_values p0 @ butlast (param_values p)\<rparr> = p\<lparr>param_values := butlast (param_values p)\<rparr>"
    by (simp add: p0_def)
  then show ?thesis using that [of st3] st1(1) st2(1) st3 by simp
qed

lemma param_last_value:
  assumes "param_ok g p"
  defines "p1 \<equiv> p\<lparr>param_values := butlast (param_values p)\<rparr>" and "v \<equiv> last (param_values p)"
  shows "v \<noteq> []" "valid_str g v = v" "\<not> for_reader (param_name p1) (hd (param_values p1 @ [v]))"
    "p1\<lparr>param_values := param_values p1 @ [v]\<rparr> = p"
proof -
  have "last (param_values p) \<in> set (param_values p)" using assms(1) by (simp add: param_ok_def)
  then have "param_value_ok g v" using assms(1) unfolding param_ok_def v_def by blast
  then show "v \<noteq> []" "valid_str g v = v" by (simp_all add: param_value_ok_def valid_text)
  show "\<not> for_reader (param_name p1) (hd (param_values p1 @ [v]))" "p1\<lparr>param_values := param_values p1 @ [v]\<rparr> = p"
    using assms(1) by (simp_all add: param_ok_def p1_def v_def)
qed

lemma param_text_Cons: "\<exists>x. param_text g p = SEMICOLON # x"
  by (simp add: param_text_def)

lemma reads_all_params:
  assumes t: "line_end t" and g: "glib_text_ok g"
  shows "reads_params t st a None False [] (tl (concat (map (param_text g) ps)) @ COLON # u) \<Longrightarrow> ps \<noteq> [] \<Longrightarrow>
     \<forall>p\<in>set ps. param_ok g p \<Longrightarrow>
     \<exists>st' lp. param_loop g st = st' \<and> p_attr st' = foldl e_vcard_attribute_add_param a ps \<and>
       p_lp st' = COLON # lp \<and> folds t lp u \<and> \<not> p_quoted_printable st' \<and> p_charset st' = None"
proof (induction ps arbitrary: st a rule: induct_list012)
  case 1
  then show ?case by simp
next
  case (2 p)
  have p: "param_ok g p" using 2(3) by simp
  obtain st1 where st1: "param_loop g st = param_loop g st1"
      "reads_params t st1 a (Some (p\<lparr>param_values := butlast (param_values p)\<rparr>)) False (last (param_values p)) (COLON # u)"
    by (rule param_reads_param [OF _ t g p]) (use 2(1) in auto)
  show ?case using param_reads_colon [OF st1(2) t param_last_value(1-3) [OF p]] st1(1) param_last_value(4) [OF p] by simp
next
  case (3 p p' ps)
  have p: "param_ok g p" using 3(5) by simp
  define rest where "rest = tl (concat (map (param_text g) (p' # ps))) @ COLON # u"
  have "reads_params t st a None False [] (tl (param_text g p) @ SEMICOLON # rest)"
    using 3(3) param_text_Cons [of g p] param_text_Cons [of g p'] by (auto simp: rest_def)
  from param_reads_param [OF this t g p]
  obtain st1 where st1: "param_loop g st = param_loop g st1"
      "reads_params t st1 a (Some (p\<lparr>param_values := butlast (param_values p)\<rparr>)) False (last (param_values p)) (SEMICOLON # rest)"
    by blast
  obtain st2 where st2: "param_loop g st1 = param_loop g st2"
      "reads_params t st2 (e_vcard_attribute_add_param a p) None False [] rest"
    using param_reads_semicolon [OF st1(2) t param_last_value(1-3) [OF p]] param_last_value(4) [OF p] by auto
  show ?case using 3(2) [OF st2(2) [unfolded rest_def]] 3(5) st1(1) st2(1) by simp
qed

end
