(* ===== verification/EBook_VCardLines.thy ===== *)
theory EBook_VCardLines
  imports EBook_VCardCard
begin

text \<open>Lines that are written for attributes are read back, and the cards made of them.\<close>

declare plain_char_at [simp del]

section \<open>Names\<close>

lemma name_round:
  assumes "folds t lp (c # u)" and "line_end t" and "plain c"
  obtains lp' where "folds t lp' u" and "skip_newline lp False = c # lp'"
  using folds_skipD [OF assms] by blast

lemma name_reads_chars:
  "folds t lp (w @ u) \<Longrightarrow> line_end t \<Longrightarrow> \<forall>c\<in>set w. name_char c \<Longrightarrow>
     \<exists>lp'. name_loop g start grp str lp = name_loop g start grp (str @ w) lp' \<and> folds t lp' u"
proof (induction w arbitrary: lp str)
  case Nil
  then show ?case by auto
next
  case (Cons c w)
  have nc: "name_char c" using Cons.prems(3) by simp
  have c: "plain c" "c \<noteq> COLON" "c \<noteq> SEMICOLON" "c \<noteq> DOT" "c \<noteq> NUL" "\<not> newline c"
    using name_char_plain [OF nc] by (simp_all add: plain_def)
  have f: "folds t lp (c # w @ u)" using Cons.prems(1) by simp
  obtain lp1 where lp1: "folds t lp1 (w @ u)" "skip_newline lp False = c # lp1"
    by (rule name_round [OF f Cons.prems(2) c(1)])
  have "name_loop g start grp str lp = name_loop g start grp (str @ [c]) lp1"
    using c nc by (subst name_loop.simps) (simp add: lp1(2) Let_def name_char_def)
  then show ?case using Cons.IH [OF lp1(1) Cons.prems(2), of "str @ [c]"] Cons.prems(3) by auto
qed

lemma name_reads_dot:
  assumes "folds t lp (DOT # u)" and "line_end t" and "str \<noteq> []"
  shows "\<exists>lp'. name_loop g start None str lp = name_loop g start (Some (valid_str g str)) [] lp' \<and> folds t lp' u"
proof -
  have "plain DOT" by (simp add: plain_def newline_def)
  from name_round [OF assms(1,2) this] obtain lp1 where lp1: "folds t lp1 u" "skip_newline lp False = DOT # lp1" by blast
  have "name_loop g start None str lp = name_loop g start (Some (valid_str g str)) [] lp1"
    using assms(3) by (subst name_loop.simps) (simp add: lp1(2) Let_def newline_def)
  then show ?thesis using lp1(1) by blast
qed

lemma name_reads_end:
  assumes "folds t lp (c # u)" and "line_end t" and "str \<noteq> []" and c: "c = COLON \<or> c = SEMICOLON"
  shows "\<exists>lp'. name_loop g start grp str lp = Named grp (valid_str g str) (c # lp') \<and> folds t lp' u"
proof -
  have pl: "plain c" using c by (auto simp: plain_def newline_def)
  from name_round [OF assms(1,2) pl] obtain lp1 where lp1: "folds t lp1 u" "skip_newline lp False = c # lp1" by blast
  have "name_loop g start grp str lp = Named grp (valid_str g str) (c # lp1)"
    using assms(3) c by (subst name_loop.simps) (auto simp: lp1(2) Let_def newline_def)
  then show ?thesis using lp1(1) by blast
qed

definition group_text :: "cstring option \<Rightarrow> cstring" where
  "group_text grp = (case grp of Some grp \<Rightarrow> grp @ [DOT] | None \<Rightarrow> [])"

definition group_ok :: "cstring option \<Rightarrow> bool" where
  "group_ok grp \<longleftrightarrow> (case grp of Some grp \<Rightarrow> name_ok grp | None \<Rightarrow> True)"

lemma name_reads:
  assumes f: "folds t lp (group_text grp @ name @ c # u)" and t: "line_end t" and g: "glib_text_ok g"
    and n: "group_ok grp" "name_ok name" and c: "c = COLON \<or> c = SEMICOLON"
  shows "\<exists>lp'. name_loop g start None [] lp = Named grp name (c # lp') \<and> folds t lp' u"
proof -
  obtain lp1 where lp1: "name_loop g start None [] lp = name_loop g start grp [] lp1" "folds t lp1 (name @ c # u)"
  proof (cases grp)
    case None
    then show ?thesis using that [of lp] f by (simp add: group_text_def)
  next
    case (Some w)
    have w: "name_ok w" using n(1) Some by (simp add: group_ok_def)
    then obtain lp2 where lp2: "name_loop g start None [] lp = name_loop g start None w lp2" "folds t lp2 (DOT # name @ c # u)"
      using name_reads_chars [of t lp w "DOT # name @ c # u" g start None "[]"] f t Some by (auto simp: group_text_def name_ok_def)
    then show ?thesis using name_reads_dot [OF lp2(2) t, where str = w and g = g and start = start] w that Some valid_name [OF g w]
      by (auto simp: name_ok_def)
  qed
  then obtain lp2 where lp2: "name_loop g start None [] lp = name_loop g start grp name lp2" "folds t lp2 (c # u)"
    using name_reads_chars [of t lp1 name "c # u" g start grp "[]"] t n(2) by (auto simp: name_ok_def)
  then show ?thesis using name_reads_end [OF lp2(2) t _ c, where str = name and g = g and start = start and grp = grp]
    n(2) valid_name [OF g n(2)] by (simp add: name_ok_def)
qed

section \<open>Lines\<close>

text \<open>The attribute that the line of an attribute is read as.\<close>

definition as_read :: "cstring option \<Rightarrow> cstring \<Rightarrow> EVCardAttributeParam list \<Rightarrow> cstring list \<Rightarrow> EVCardAttribute" where
  "as_read grp name ps vs = (foldl e_vcard_attribute_add_param (e_vcard_attribute_new grp name) ps)\<lparr>vals := vs\<rparr>"

lemma add_param_keeps [simp]:
  "vals (e_vcard_attribute_add_param a p) = vals a"
  "attr_name (e_vcard_attribute_add_param a p) = attr_name a"
  "group (e_vcard_attribute_add_param a p) = group a"
  by (simp_all add: e_vcard_attribute_add_param_def Let_def split: list.split)

lemma add_params_keep [simp]:
  "vals (foldl e_vcard_attribute_add_param a ps) = vals a"
  "attr_name (foldl e_vcard_attribute_add_param a ps) = attr_name a"
  "group (foldl e_vcard_attribute_add_param a ps) = group a"
  by (induction ps arbitrary: a) simp_all

definition values_text :: "cstring \<Rightarrow> cstring list \<Rightarrow> cstring" where
  "values_text name vs =
     join (if camel_strcase_equal name (bytes ''CATEGORIES'') then COMMA else SEMICOLON) (map e_vcard_escape_string vs)"

definition attr_values_ok :: "glib_text \<Rightarrow> cstring \<Rightarrow> cstring list \<Rightarrow> bool" where
  "attr_values_ok g name vs \<longleftrightarrow>
     vs \<noteq> [] \<and> (\<forall>v\<in>set vs. text_ok g v) \<and>
     (is_singlevalue_type name \<and> \<not> camel_strcase_equal name (bytes ''CATEGORIES'') \<longrightarrow> length vs = 1)"

lemma reads_values:
  assumes f: "folds t lp (values_text (attr_name a) vs @ t)" and t: "line_end t" and v: "attr_values_ok g (attr_name a) vs"
  shows "read_attribute_value g a lp False None = Some (a\<lparr>vals := vals a @ vs\<rparr>, skip_to_next_line t)"
proof -
  define single where "single = is_singlevalue_type (attr_name a)"
  define cat where "cat = camel_strcase_equal (attr_name a) (bytes ''CATEGORIES'')"
  define sep where "sep = (if cat then COMMA else SEMICOLON)"
  define st where "st = \<lparr>v_vals = [], v_str = [], v_chunk = None, v_lp = lp\<rparr>"
  have ok: "\<forall>w\<in>set vs. CR \<notin> set w \<and> NUL \<notin> set w" using v by (auto simp: attr_values_ok_def text_ok_def)
  then have eq: "map e_vcard_escape_string vs = map (\<lambda>w. concat (map escape_char w)) vs" using escape_plain by auto
  have "values_text (attr_name a) vs = join sep (map (\<lambda>w. concat (map escape_char w)) vs)"
    unfolding values_text_def eq sep_def cat_def ..
  then have r: "reads_value t st [] [] (join sep (map (\<lambda>w. concat (map escape_char w)) vs) @ t)"
    using f by (simp add: reads_value_def st_def write_chunk_def)
  have "vs \<noteq> []" "length vs = 1 \<or> sep = SEMICOLON \<and> \<not> single \<or> sep = COMMA \<and> cat"
    using v by (auto simp: attr_values_ok_def single_def cat_def sep_def)
  from value_reads_values [OF r t this(1) ok this(2), of g None]
  obtain st' where st': "value_loop g single cat False None st = Some st'" "v_lp st' = t"
      "v_vals st' @ [finish_value g None (write_chunk (v_str st') (v_chunk st') t)] = map (finish_value g None) vs"
    by auto
  have "map (finish_value g None) vs = vs" using v by (auto simp: attr_values_ok_def intro!: map_idI finish_text)
  then show ?thesis using st' by (simp add: read_attribute_value_def st_def single_def cat_def Let_def)
qed

lemma reads_params_and_values:
  assumes f: "folds t lp (tl (concat (map (param_text g) ps) @ COLON # values_text (attr_name a) vs @ t))"
    and t: "line_end t" and g: "glib_text_ok g"
    and ps: "\<forall>p\<in>set ps. param_ok g p" and v: "attr_values_ok g (attr_name a) vs" and a: "vals a = []"
    and c: "c = (if ps = [] then COLON else SEMICOLON)"
  shows "\<exists>lp'. read_params g a (c # lp) = (foldl e_vcard_attribute_add_param a ps, COLON # lp', False, None) \<and>
    folds t lp' (values_text (attr_name a) vs @ t)"
proof (cases "ps = []")
  case True
  then show ?thesis using f c by (simp add: read_params_def)
next
  case False
  define st where "st = \<lparr>p_attr = a, p_param = None, p_in_quote = False, p_str = [], p_chunk = None, p_lp = lp,
    p_quoted_printable = False, p_charset = None\<rparr>"
  obtain p ps' where "ps = p # ps'" using False by (cases ps) auto
  then have "folds t lp (tl (concat (map (param_text g) ps)) @ COLON # values_text (attr_name a) vs @ t)"
    using f param_text_Cons [of g p] by auto
  then have "reads_params t st a None False [] (tl (concat (map (param_text g) ps)) @ COLON # values_text (attr_name a) vs @ t)"
    by (simp add: reads_params_def st_def)
  from reads_all_params [OF t g this False ps]
  show ?thesis using c False by (auto simp: read_params_def read_attribute_params_def st_def [symmetric])
qed

definition line_text :: "glib_text \<Rightarrow> cstring option \<Rightarrow> cstring \<Rightarrow> EVCardAttributeParam list \<Rightarrow> cstring list \<Rightarrow> cstring" where
  "line_text g grp name ps vs =
     group_text grp @ name @ concat (map (param_text g) ps) @ COLON # values_text name vs"

lemma reads_line:
  assumes f: "folds t lp (line_text g grp name ps vs @ t)" and t: "line_end t" and g: "glib_text_ok g"
    and n: "group_ok grp" "name_ok name" and ps: "\<forall>p\<in>set ps. param_ok g p" and v: "attr_values_ok g name vs"
  shows "read_attribute g lp = Some (Some (as_read grp name ps vs), skip_to_next_line t)"
proof -
  define c where "c = (if ps = [] then COLON else SEMICOLON)"
  define a where "a = e_vcard_attribute_new grp name"
  define rest where "rest = concat (map (param_text g) ps) @ COLON # values_text name vs @ t"
  have a: "attr_name a = name" "vals a = []" by (simp_all add: a_def e_vcard_attribute_new_def)
  have rest: "rest = c # tl rest" using param_text_Cons [of g "hd ps"] by (cases ps) (auto simp: rest_def c_def)
  have "folds t lp (group_text grp @ name @ c # tl rest)"
    using f rest by (simp add: line_text_def rest_def)
  moreover have "c = COLON \<or> c = SEMICOLON" by (simp add: c_def)
  ultimately obtain lp1 where lp1: "name_loop g lp None [] lp = Named grp name (c # lp1)" "folds t lp1 (tl rest)"
    using name_reads [OF _ t g n, of lp c "tl rest" lp] by blast
  obtain lp2 where lp2: "read_params g a (c # lp1) = (foldl e_vcard_attribute_add_param a ps, COLON # lp2, False, None)"
      "folds t lp2 (values_text name vs @ t)"
    using reads_params_and_values [of t lp1 g ps a vs c] lp1(2) t g ps v a c_def unfolding rest_def by auto
  have "read_attribute_value g (foldl e_vcard_attribute_add_param a ps) lp2 False None =
      Some (as_read grp name ps vs, skip_to_next_line t)"
    using reads_values [of t lp2 "foldl e_vcard_attribute_add_param a ps" vs g] lp2(2) t v a
    by (simp add: as_read_def a_def [symmetric])
  moreover have "vals (as_read grp name ps vs) \<noteq> []" using v by (simp add: as_read_def attr_values_ok_def)
  ultimately show ?thesis using lp1(1) lp2(1) by (simp add: read_attribute_def a_def)
qed

section \<open>Cards\<close>

lemma line_start:
  assumes "group_ok grp" and "name_ok name"
  shows "\<exists>c s. line_text g grp name ps vs = c # s \<and> name_char c"
proof -
  have *: "\<exists>c s. w @ u = c # s \<and> name_char c" if "name_ok w" for w u
    using that by (cases w) (auto simp: name_ok_def)
  show ?thesis
  proof (cases grp)
    case None
    then show ?thesis using * [OF assms(2)] by (simp add: line_text_def group_text_def)
  next
    case (Some w)
    then have "name_ok w" using assms(1) by (simp add: group_ok_def)
    from * [OF this] show ?thesis using Some by (simp add: line_text_def group_text_def)
  qed
qed

lemma utf8_offset_shorter: "s \<noteq> [] \<Longrightarrow> 0 < n \<Longrightarrow> length (utf8_offset s n) < length s"
proof -
  assume "s \<noteq> []" "0 < n"
  then obtain c u m where s: "s = c # u" "n = Suc m" by (cases s; cases n) auto
  have "length (utf8_offset s n) \<le> length (drop (utf8_skip c) s)"
    using suffix_length_le [OF utf8_offset_suffix [of "drop (utf8_skip c) s" m]] s by simp
  also have "\<dots> < length s" using s by simp
  finally show ?thesis .
qed

lemma fold_line_start: "\<exists>w. fold_line (c # s) = c # w"
proof (cases "utf8_strlen (c # s) > 75")
  case False
  then show ?thesis by (simp add: fold_line_def)
next
  case True
  have "0 < length (c # s) - length (utf8_offset (c # s) 75)" using utf8_offset_shorter [of "c # s" 75] by simp
  then show ?thesis using True by (auto simp: fold_line_def Let_def take_Cons split: nat.split)
qed

lemma line_starts_plain: "name_char (char_at r) \<Longrightarrow> line_end (CR # LF # r) \<and> skip_to_next_line (CR # LF # r) = r"
proof -
  assume c: "name_char (char_at r)"
  have b: "\<not> blank (char_at r)" using name_char_plain [OF c] by simp
  have "\<not> newline (char_at r)" "r \<noteq> []" using name_char_plain [OF c] by (auto simp: plain_def)
  then have "dropWhile newline r = r" by (cases r) simp_all
  then show ?thesis using b by (simp add: line_end_def skip_to_next_line_def newline_def)
qed

lemma set_join: "set (join sep xs) \<subseteq> {sep} \<union> \<Union> (set ` set xs)"
  by (induction xs rule: induct_list012) auto

lemma plain_join: "plain sep \<Longrightarrow> \<forall>x\<in>set xs. \<forall>c\<in>set x. plain c \<Longrightarrow> \<forall>c\<in>set (join sep xs). plain c"
  using set_join by fastforce

lemma plain_escaped: "CR \<notin> set w \<Longrightarrow> NUL \<notin> set w \<Longrightarrow> \<forall>c\<in>set (concat (map escape_char w)). plain c"
proof (induction w)
  case (Cons c w)
  have "\<forall>d\<in>set (escape_char c). plain d"
    using Cons.prems by (auto simp: escape_char_def plain_def newline_def)
  then show ?case using Cons by auto
qed simp

lemma plain_param_value:
  assumes g: "glib_text_ok g" and v: "param_value_ok g v"
  shows "\<forall>c\<in>set (param_value_text g v). plain c"
proof (cases "needs_quotes g v")
  case True
  have eq: "e_vcard_escape_string_internal v True = concat (map escape_char v)"
    using v by (intro escape_quoted) (auto simp: param_value_ok_def text_ok_def)
  have "\<forall>c\<in>set (concat (map escape_char v)). plain c"
    using v by (intro plain_escaped) (auto simp: param_value_ok_def text_ok_def)
  moreover have "plain DQUOTE" by (simp add: plain_def newline_def)
  ultimately show ?thesis using True by (simp add: param_value_text_def eq)
next
  case False
  have cs: "char_seq v" using v g by (simp add: param_value_ok_def text_ok_def glib_text_ok_def)
  have "plain c" if "c \<in> set v" for c
    using bare_value [OF cs g False that] by (auto simp: plain_def newline_def isalnum_def)
  then show ?thesis using False by (simp add: param_value_text_def)
qed

lemma plain_param:
  assumes g: "glib_text_ok g" and p: "param_ok g p"
  shows "\<forall>c\<in>set (param_text g p). plain c"
proof -
  have "\<forall>c\<in>set (join COMMA (map (param_value_text g) (param_values p))). plain c"
    using plain_param_value [OF g] p by (intro plain_join) (auto simp: param_ok_def plain_def newline_def)
  moreover have "plain SEMICOLON" "plain EQUALS" by (simp_all add: plain_def newline_def)
  moreover have "\<forall>c\<in>set (param_name p). plain c" using p name_char_plain by (auto simp: param_ok_def name_ok_def)
  ultimately show ?thesis by (auto simp: param_text_def)
qed

lemma plain_line:
  assumes g: "glib_text_ok g" and n: "group_ok grp" "name_ok name"
    and ps: "\<forall>p\<in>set ps. param_ok g p" and v: "attr_values_ok g name vs"
  shows "\<forall>c\<in>set (line_text g grp name ps vs). plain c"
proof -
  have "\<forall>c\<in>set (values_text name vs). plain c"
    unfolding values_text_def
  proof (rule plain_join)
    have "\<forall>c\<in>set (e_vcard_escape_string w). plain c" if "w \<in> set vs" for w
      using v that plain_escaped [of w] escape_plain [of w] by (auto simp: attr_values_ok_def text_ok_def)
    then show "\<forall>x\<in>set (map e_vcard_escape_string vs). \<forall>c\<in>set x. plain c" by simp
  qed (simp add: plain_def newline_def)
  moreover have "\<forall>c\<in>set (group_text grp). plain c"
    using n(1) name_char_plain by (auto simp: group_text_def group_ok_def name_ok_def plain_def newline_def split: option.splits)
  moreover have "\<forall>c\<in>set name. plain c" using n(2) name_char_plain by (auto simp: name_ok_def)
  moreover have "\<forall>c\<in>set (concat (map (param_text g) ps)). plain c" using plain_param [OF g] ps by auto
  moreover have "plain COLON" by (simp add: plain_def newline_def)
  ultimately show ?thesis by (auto simp: line_text_def)
qed

text \<open>A line, folded, is read back, and reading goes on with what follows it.\<close>

lemma reads_folded_line:
  assumes g: "glib_text_ok g" and n: "group_ok grp" "name_ok name"
    and ps: "\<forall>p\<in>set ps. param_ok g p" and v: "attr_values_ok g name vs" and r: "name_char (char_at r)"
  shows "read_attribute g (fold_line (line_text g grp name ps vs) @ CR # LF # r) = Some (Some (as_read grp name ps vs), r)"
  using reads_line [OF fold_line_folds [OF plain_line [OF g n ps v]] _ g n ps v, of "CR # LF # r"] line_starts_plain [OF r] by simp

end
