(* ===== verification/EBook_VCardErrors.thy ===== *)
theory EBook_VCardErrors
  imports EBook_VCardWrite
begin

text \<open>
  When the reader of cards stays inside of the text.
\<close>

section \<open>Pointers only move forward\<close>

lemma suffix_skip_until: "suffix (skip_until s cs) s"
  by (simp add: skip_until_def suffix_dropWhile)

lemma suffix_skip_to_next_line: "suffix (skip_to_next_line s) s"
  unfolding skip_to_next_line_def by (metis suffix_dropWhile suffix_order.trans)

lemma suffix_skip_tl: "suffix (tl (skip_newline s qp)) s" "suffix (skip_newline (tl s) qp) s"
  by (metis suffix_tl suffix_skip_newline suffix_order.trans)+

lemma suffix_value_step:
  assumes "value_step g single cat qp charset st = Go st' \<or> value_step g single cat qp charset st = Stop st'"
  shows "suffix (v_lp st') (v_lp st)"
proof -
  have s: "suffix (skip_newline (tl u) q) u" "suffix (tl (skip_newline (tl u) q)) u"
    "suffix (skip_newline (tl (skip_newline (tl u) q)) q) u"
    "suffix (tl (skip_newline (tl (skip_newline (tl u) q)) q)) u" for u q
    by (metis suffix_skip_tl suffix_tl suffix_order.trans)+
  show ?thesis using assms s unfolding value_step_def Let_def by (auto split: if_splits option.splits)
qed

lemma suffix_value_loop: "value_loop g single cat qp charset st = Some st' \<Longrightarrow> suffix (v_lp st') (v_lp st)"
proof (induction g single cat qp charset st rule: value_loop.induct)
  case (1 g single cat qp charset st)
  define st1 where "st1 = st\<lparr>v_lp := skip_newline (v_lp st) qp\<rparr>"
  have sf: "suffix (v_lp st1) (v_lp st)" by (simp add: st1_def suffix_skip_newline)
  note eq = value_loop.simps [of g single cat qp charset st, folded st1_def, unfolded Let_def]
  show ?case
  proof (cases "char_at (v_lp st1) = NUL \<or> newline (char_at (v_lp st1))")
    case True
    then show ?thesis using 1(2) sf by (subst (asm) eq) auto
  next
    case False
    show ?thesis
    proof (cases "value_step g single cat qp charset st1")
      case (Go st2)
      then have "value_loop g single cat qp charset (end_round st2) = Some st'" using 1(2) False by (subst (asm) eq) simp
      then have "suffix (v_lp st') (v_lp st2)" using 1(1) [OF st1_def False Go] by simp
      then show ?thesis using suffix_value_step [of g single cat qp charset st1 st2] Go sf by (metis suffix_order.trans)
    next
      case (Stop st2)
      then have "st' = st2" using 1(2) False by (subst (asm) eq) simp
      then show ?thesis using suffix_value_step [of g single cat qp charset st1 st2] Stop sf by (metis suffix_order.trans)
    next
      case Overrun
      then show ?thesis using 1(2) False by (subst (asm) eq) simp
    qed
  qed
qed

lemma suffix_param_step:
  assumes "param_step g st = Go st' \<or> param_step g st = Stop st'"
  shows "suffix (p_lp st') (p_lp st)"
proof -
  have s: "suffix (skip_newline (tl u) q) u" "suffix (tl (skip_newline (tl u) q)) u" "suffix (skip_until u cs) u"
    "suffix (tl (skip_until u cs)) u" "suffix (skip_to_next_line (skip_until u cs)) u" for u q cs
    by (metis suffix_skip_tl suffix_skip_until suffix_skip_to_next_line suffix_tl suffix_order.trans)+
  show ?thesis using assms s unfolding param_step_def param_separator_def Let_def by (auto split: if_splits option.splits)
qed

lemma suffix_param_loop: "suffix (p_lp (param_loop g st)) (p_lp st)"
proof (induction g st rule: param_loop.induct)
  case (1 g st)
  define st1 where "st1 = st\<lparr>p_lp := skip_newline (p_lp st) (p_quoted_printable st)\<rparr>"
  have sf: "suffix (p_lp st1) (p_lp st)" by (simp add: st1_def suffix_skip_newline)
  note eq = param_loop.simps [of g st, folded st1_def, unfolded Let_def]
  show ?case
  proof (cases "char_at (p_lp st1) = NUL \<or> newline (char_at (p_lp st1))")
    case True
    then show ?thesis using sf by (subst eq) auto
  next
    case False
    show ?thesis
    proof (cases "param_step g st1")
      case (Go st2)
      have "suffix (p_lp (param_loop g (end_param_round st2))) (p_lp st2)" using 1 [OF st1_def False Go] by simp
      then show ?thesis using suffix_param_step [of g st1 st2] Go sf False by (subst eq) (auto intro: suffix_order.trans)
    next
      case (Stop st2)
      then show ?thesis using suffix_param_step [of g st1 st2] sf False by (subst eq) (auto intro: suffix_order.trans)
    next
      case Overrun
      then show ?thesis using sf False by (subst eq) simp
    qed
  qed
qed

lemma suffix_name_loop:
  "suffix lp start \<Longrightarrow>
     (case name_loop g start grp str lp of Named grp' name lp' \<Rightarrow> suffix lp' start | Lost p \<Rightarrow> suffix p start)"
proof (induction g start grp str lp rule: name_loop.induct)
  case (1 g start grp str lp)
  define lp1 where "lp1 = skip_newline lp False"
  have lp1: "suffix lp1 start" "suffix (tl lp1) start" "suffix (skip_to_next_line lp1) start" "suffix (skip_to_next_line start) start"
    using 1(4) unfolding lp1_def
    by (metis suffix_skip_newline suffix_skip_to_next_line suffix_tl suffix_order.trans)+
  note eq = name_loop.simps [of g start grp str lp, unfolded Let_def, folded lp1_def]
  show ?case
    using 1(1-3) [OF lp1_def refl] lp1 by (subst eq) (auto split: if_splits)
qed

section \<open>Texts that are read without leaving them\<close>

text \<open>The text, without the line ends at its end, ends in a character that is neither \<^verbatim>\<open>=\<close> nor blank.\<close>

fun ends_well :: "cstring \<Rightarrow> bool" where
  "ends_well [] = True"
| "ends_well (c # s) = ((c = EQUALS \<or> blank c \<longrightarrow> (\<exists>d\<in>set s. \<not> newline d)) \<and> ends_well s)"

definition safe_text :: "cstring \<Rightarrow> bool" where
  "safe_text s \<longleftrightarrow> NUL \<notin> set s \<and> ends_well s"

lemma ends_well_suffix: "suffix p s \<Longrightarrow> ends_well s \<Longrightarrow> ends_well p"
  by (induction s) (auto simp: suffix_Cons)

lemma safe_suffix: "suffix p s \<Longrightarrow> safe_text s \<Longrightarrow> safe_text p"
  using ends_well_suffix set_mono_suffix unfolding safe_text_def by blast

lemma char_at_NUL: "safe_text s \<Longrightarrow> char_at s = NUL \<longleftrightarrow> s = []"
  by (cases s) (auto simp: safe_text_def)

lemma skip_newline_not_end:
  assumes "safe_text s" and "s \<noteq> []"
  shows "skip_newline s qp \<noteq> []"
proof
  assume e: "skip_newline s qp = []"
  consider (one) a where "s = [a]" | (two) a b where "s = [a, b]" | (three) a b c where "s = [a, b, c]"
    | (more) a b c d u where "s = a # b # c # d # u"
    using assms(2) by (cases s rule: list.exhaust; metis list.exhaust)
  then show False
  proof cases
    case one
    then show ?thesis using e assms by (auto simp: skip_newline_def safe_text_def newline_def blank_def Let_def split: if_splits)
  next
    case two
    then show ?thesis using e assms by (auto simp: skip_newline_def safe_text_def newline_def blank_def Let_def split: if_splits)
  next
    case three
    then show ?thesis using e assms by (auto simp: skip_newline_def safe_text_def newline_def blank_def Let_def split: if_splits)
  next
    case more
    then show ?thesis using e assms by (auto simp: skip_newline_def safe_text_def newline_def blank_def Let_def split: if_splits)
  qed
qed

lemma value_step_stays:
  assumes "safe_text (v_lp st)" and "v_lp st \<noteq> []"
  shows "value_step g single cat qp charset st \<noteq> Overrun"
proof
  assume o: "value_step g single cat qp charset st = Overrun"
  obtain c s where cs: "v_lp st = c # s" using assms(2) by (cases "v_lp st") auto
  have s: "safe_text s" using safe_suffix assms(1) cs suffix_ConsI by (metis suffix_order.refl)
  have sk: "char_at (skip_newline s qp) \<noteq> NUL" if "s \<noteq> []"
    using char_at_NUL [OF safe_suffix [OF suffix_skip_newline s]] skip_newline_not_end [OF s that] by blast
  show False
  proof (cases "s = []")
    case True
    then have "c \<noteq> EQUALS" using assms(1) cs by (auto simp: safe_text_def)
    then show ?thesis using o True cs unfolding value_step_def Let_def by (auto split: if_splits option.splits)
  next
    case False
    then show ?thesis using o sk cs unfolding value_step_def Let_def by (auto split: if_splits option.splits)
  qed
qed

lemma value_loop_stays: "safe_text (v_lp st) \<Longrightarrow> value_loop g single cat qp charset st \<noteq> None"
proof (induction g single cat qp charset st rule: value_loop.induct)
  case (1 g single cat qp charset st)
  define st1 where "st1 = st\<lparr>v_lp := skip_newline (v_lp st) qp\<rparr>"
  have safe: "safe_text (v_lp st1)" using safe_suffix [OF suffix_skip_newline 1(2)] by (simp add: st1_def)
  note eq = value_loop.simps [of g single cat qp charset st, folded st1_def, unfolded Let_def]
  show ?case
  proof (cases "char_at (v_lp st1) = NUL \<or> newline (char_at (v_lp st1))")
    case True
    then show ?thesis by (subst eq) simp
  next
    case False
    then have ne: "v_lp st1 \<noteq> []" by auto
    show ?thesis
    proof (cases "value_step g single cat qp charset st1")
      case (Go st2)
      then have "suffix (v_lp st2) (v_lp st1)" using suffix_value_step [of g single cat qp charset st1 st2] by simp
      then have "safe_text (v_lp (end_round st2))" using safe_suffix safe by simp
      then show ?thesis using 1(1) [OF st1_def False Go] Go False by (subst eq) simp
    next
      case (Stop st2)
      then show ?thesis using False by (subst eq) simp
    next
      case Overrun
      then show ?thesis using value_step_stays [OF safe ne] by simp
    qed
  qed
qed

lemma suffix_read_params: "read_params g attr lp = (attr', lp', qp, charset) \<Longrightarrow> suffix lp' lp"
  using suffix_param_loop [of g "\<lparr>p_attr = attr, p_param = None, p_in_quote = False, p_str = [], p_chunk = None, p_lp = tl lp,
            p_quoted_printable = False, p_charset = None\<rparr>"]
  by (auto simp: read_params_def read_attribute_params_def Let_def split: if_splits intro: suffix_order.trans [OF _ suffix_tl])

lemma suffix_read_value:
  "read_attribute_value g attr p qp charset = Some (attr', p') \<Longrightarrow> suffix p' p"
  unfolding read_attribute_value_def bind_eq_Some_conv Let_def
  using suffix_order.trans [OF suffix_skip_to_next_line suffix_value_loop] by fastforce

lemma read_attribute_stays:
  assumes "safe_text p"
  shows "\<exists>a p'. read_attribute g p = Some (a, p') \<and> suffix p' p"
proof (cases "name_loop g p None [] p")
  case (Lost q)
  then show ?thesis using suffix_name_loop [of p p g None "[]"] by (simp add: read_attribute_def)
next
  case (Named grp name lp)
  then have lp: "suffix lp p" using suffix_name_loop [of p p g None "[]"] by simp
  obtain attr1 lp1 qp charset where q: "read_params g (e_vcard_attribute_new grp name) lp = (attr1, lp1, qp, charset)"
    by (metis prod_cases4)
  have lp1: "suffix lp1 p" using suffix_read_params [OF q] lp by (metis suffix_order.trans)
  show ?thesis
  proof (cases "char_at lp1 = COLON")
    case True
    have tl1: "suffix (tl lp1) p" using lp1 by (metis suffix_tl suffix_order.trans)
    have "value_loop g (is_singlevalue_type (attr_name attr1)) (camel_strcase_equal (attr_name attr1) (bytes ''CATEGORIES'')) qp charset
        \<lparr>v_vals = [], v_str = [], v_chunk = None, v_lp = tl lp1\<rparr> \<noteq> None"
      by (rule value_loop_stays) (simp add: safe_suffix [OF tl1 assms])
    then obtain attr2 p' where rv: "read_attribute_value g attr1 (tl lp1) qp charset = Some (attr2, p')"
      by (auto simp: read_attribute_value_def Let_def)
    then show ?thesis using Named q True suffix_read_value [OF rv] tl1
      by (auto simp: read_attribute_def intro: suffix_order.trans)
  next
    case False
    then show ?thesis using Named q lp1 by (simp add: read_attribute_def)
  qed
qed

lemma parse_loop_stays: "safe_text p \<Longrightarrow> parse_loop g ignore_uid evc p \<noteq> None"
proof (induction g ignore_uid evc p rule: parse_loop.induct)
  case (1 g ignore_uid evc p)
  obtain a p' where r: "read_attribute g p = Some (a, p')" "suffix p' p" using read_attribute_stays [OF 1(4)] by blast
  have "safe_text p'" using safe_suffix [OF r(2) 1(4)] .
  then show ?case using 1(1-3) r(1) by (subst parse_loop.simps) (auto split: option.splits)
qed

text \<open>C6: reading a card never reads past the end of its text, when the last line ends in a character that is neither
  \<^verbatim>\<open>=\<close> nor blank, as the line \<^verbatim>\<open>END:VCARD\<close> does: whatever the rest of the text is, cut off, badly encoded
  or folded in strange ways.\<close>

theorem vcard_reader_stays_in_text: "safe_text str \<Longrightarrow> parse g evc str ignore_uid \<noteq> None"
proof -
  assume str: "safe_text str"
  obtain a p where r: "read_attribute g str = Some (a, p)" "suffix p str" using read_attribute_stays [OF str] by blast
  then show ?thesis using parse_loop_stays [OF safe_suffix [OF r(2) str]] by (simp add: parse_def Let_def)
qed

section \<open>A text\<close>

text \<open>ASCII text, and what GLib computes on it.\<close>

definition ascii_text :: glib_text where
  "ascii_text =
     \<lparr>g_utf8_validate =
        (\<lambda>s. if \<forall>c\<in>set s. c < 128 \<and> c \<noteq> NUL then None else Some (length (takeWhile (\<lambda>c. c < 128 \<and> c \<noteq> NUL) s))),
      g_convert = (\<lambda>s cs. None),
      g_unichar_isalnum = (\<lambda>s. isalnum (char_at s))\<rparr>"

theorem vcard_reader_stays_in_text_witness:
  "parse ascii_text e_vcard_new (bytes ''N;QUOTED-PRINTABLE:a=ZZ'' @ [BACKSLASH, CR, LF, SP, EQUALS, CR, LF, 9, 120, LF]) False \<noteq> None"
  by (rule vcard_reader_stays_in_text) code_simp

end
