(* ===== verification/EBook_VCardRead.thy ===== *)
theory EBook_VCardRead
  imports EBook_VCardLines EBook_VCardErrors
begin

text \<open>Whole cards: what \<^verbatim>\<open>e_vcard_to_string_vcard\<close> writes, \<^verbatim>\<open>parse\<close> reads.\<close>

section \<open>What can be written\<close>

definition writable :: "glib_text \<Rightarrow> EVCardAttribute \<Rightarrow> bool" where
  "writable g a \<longleftrightarrow>
     group_ok (group a) \<and> name_ok (attr_name a) \<and> \<not> attr_is a ''END'' \<and>
     (\<forall>p\<in>set (params a). param_ok g p) \<and> attr_values_ok g (attr_name a) (vals a)"

definition written :: "cstring list option \<Rightarrow> EVCardAttribute \<Rightarrow> bool" where
  "written evc_prop a \<longleftrightarrow> \<not> attr_is a ''VERSION'' \<and> accepts evc_prop (attr_name a)"

definition written_params :: "cstring list option \<Rightarrow> EVCardAttribute \<Rightarrow> EVCardAttributeParam list" where
  "written_params evc_params a = filter (\<lambda>p. accepts evc_params (param_name p)) (params a)"

text \<open>The attribute that is read back: its parameters are added one after the other to a new attribute.\<close>

definition read_back :: "cstring list option \<Rightarrow> EVCardAttribute \<Rightarrow> EVCardAttribute" where
  "read_back evc_params a = as_read (group a) (attr_name a) (written_params evc_params a) (vals a)"

definition attribute_line :: "glib_text \<Rightarrow> cstring list option \<Rightarrow> EVCardAttribute \<Rightarrow> cstring" where
  "attribute_line g evc_params a =
     fold_line (line_text g (group a) (attr_name a) (written_params evc_params a) (vals a)) @ [CR, LF]"

section \<open>The text\<close>

lemma upper_lower:
  "camel_strcase_equal s (bytes ''ENCODING'') = camel_strcase_equal s (bytes ''encoding'')"
  "camel_strcase_equal s (bytes ''END'') = camel_strcase_equal s (bytes ''end'')"
proof -
  have "map ascii_toupper (bytes ''ENCODING'') = map ascii_toupper (bytes ''encoding'')"
    "map ascii_toupper (bytes ''END'') = map ascii_toupper (bytes ''end'')" by code_simp+
  then show "camel_strcase_equal s (bytes ''ENCODING'') = camel_strcase_equal s (bytes ''encoding'')"
    "camel_strcase_equal s (bytes ''END'') = camel_strcase_equal s (bytes ''end'')"
    unfolding camel_strcase_equal_def by metis+
qed

lemma not_quoted_printable: "param_ok g p \<Longrightarrow> \<not> is_quoted_printable p"
  unfolding param_ok_def is_quoted_printable_def for_reader_def upper_lower by (auto split: list.split)

lemma params_text_plain:
  "\<forall>p\<in>set ps. param_ok g p \<Longrightarrow>
     params_text g evc_params None ps = (concat (map (param_text g) (filter (\<lambda>p. accepts evc_params (param_name p)) ps)), None)"
  by (induction ps) (auto simp: not_quoted_printable)

lemma attribute_text_line:
  assumes "writable g a"
  shows "attribute_text g evc_params a = (attribute_line g evc_params a, a)"
proof -
  have ps: "params_text g evc_params None (params a) = (concat (map (param_text g) (written_params evc_params a)), None)"
    using params_text_plain [of "params a" g evc_params] assms by (simp add: writable_def written_params_def)
  show ?thesis
    unfolding attribute_text_def ps Let_def attribute_line_def line_text_def group_text_def values_text_def by simp
qed

lemma attributes_text_lines:
  "\<forall>a\<in>set as. written evc_prop a \<longrightarrow> writable g a \<Longrightarrow>
     attributes_text g evc_prop evc_params as = (concat (map (attribute_line g evc_params) (filter (written evc_prop) as)), as)"
proof (induction as)
  case (Cons a as)
  then show ?case
    using attribute_text_line [where g = g and a = a and evc_params = evc_params]
    by (cases "written evc_prop a") (auto simp: written_def Let_def)
qed simp

section \<open>Reading it\<close>

lemma attribute_line_start:
  assumes "writable g a"
  shows "name_char (char_at (attribute_line g evc_params a @ r))"
proof -
  obtain c s where cs: "line_text g (group a) (attr_name a) (written_params evc_params a) (vals a) = c # s" "name_char c"
    using line_start assms unfolding writable_def by meson
  then show ?thesis using fold_line_start [of c s] by (auto simp: attribute_line_def)
qed

lemma reads_attribute_line:
  assumes g: "glib_text_ok g" and a: "writable g a" and r: "name_char (char_at r)"
  shows "read_attribute g (attribute_line g evc_params a @ r) = Some (Some (read_back evc_params a), r)"
proof -
  have "\<forall>p\<in>set (written_params evc_params a). param_ok g p" using a by (auto simp: writable_def written_params_def)
  then show ?thesis using reads_folded_line [OF g _ _ _ _ r] a
    by (simp add: writable_def attribute_line_def read_back_def)
qed

lemma read_back_keeps [simp]: "attr_name (read_back evc_params a) = attr_name a" "vals (read_back evc_params a) = vals a"
  by (simp_all add: read_back_def as_read_def e_vcard_attribute_new_def)

lemma prepend_other: "\<not> attr_is a ''VERSION'' \<Longrightarrow> prepend_attribute evc a = evc\<lparr>attributes := a # attributes evc\<rparr>"
  by (simp add: prepend_attribute_def cache_version_from_attr_def split: list.split)

definition end_text :: cstring where
  "end_text = bytes ''END:VCARD''"

lemma end_text_start [simp]: "name_char (char_at end_text)"
  by code_simp

lemma vcard_text_ok: "glib_text_ok g \<Longrightarrow> \<forall>c\<in>set s. c < 128 \<and> c \<noteq> NUL \<and> c \<noteq> CR \<Longrightarrow> text_ok g s"
  unfolding text_ok_def glib_text_ok_def by blast

lemma reads_end:
  assumes g: "glib_text_ok g"
  shows "\<exists>a. read_attribute g end_text = Some (Some a, []) \<and> attr_is a ''END''"
proof -
  define name where "name = bytes ''END''"
  define vs where "vs = [bytes ''VCARD'']"
  have n: "group_ok None" "name_ok name" unfolding name_def by code_simp+
  have ps: "\<forall>p\<in>set []. param_ok g p" by simp
  have "text_ok g (bytes ''VCARD'')" by (rule vcard_text_ok [OF g]) code_simp
  then have v: "attr_values_ok g name vs" by (simp add: attr_values_ok_def vs_def)
  have e: "end_text = line_text g None name [] vs @ []"
    unfolding line_text_def values_text_def name_def vs_def by code_simp
  have "folds [] end_text (line_text g None name [] vs @ [])"
    using folds_append [OF plain_line [OF g n ps v] folds.Tail, of "[]"] e by simp
  from reads_line [OF this _ g n ps v]
  have "read_attribute g end_text = Some (Some (as_read None name [] vs), [])"
    by (simp add: line_end_def skip_to_next_line_def)
  moreover have "attr_is (as_read None name [] vs) ''END''"
    unfolding as_read_def name_def e_vcard_attribute_new_def by (simp add: camel_strcase_equal_def)
  ultimately show ?thesis by blast
qed

text \<open>The lines of \<^verbatim>\<open>BEGIN\<close> and \<^verbatim>\<open>VERSION\<close>.\<close>

definition heading :: "cstring \<Rightarrow> cstring \<Rightarrow> EVCardAttribute" where
  "heading name v = (e_vcard_attribute_new None name)\<lparr>vals := [v]\<rparr>"

lemma reads_heading:
  assumes g: "glib_text_ok g" and n: "name_ok name" and v: "v \<in> set [bytes ''VCARD'', bytes ''2.1'', bytes ''3.0'', bytes ''4.0'', bytes ''unknown'']"
    and r: "name_char (char_at r)"
  shows "read_attribute g (name @ COLON # v @ CR # LF # r) = Some (Some (heading name v), r)"
proof -
  have "text_ok g v" using v by (intro vcard_text_ok [OF g]) auto
  then have vs: "attr_values_ok g name [v]" by (simp add: attr_values_ok_def)
  have n0: "group_ok None" by (simp add: group_ok_def)
  have ps: "\<forall>p\<in>set []. param_ok g p" by simp
  have "e_vcard_escape_string v = v" using v by (auto simp: escape_plain escape_char_def)
  then have l: "line_text g None name [] [v] = name @ COLON # v"
    by (simp add: line_text_def group_text_def values_text_def)
  have f: "folds (CR # LF # r) (name @ COLON # v @ CR # LF # r) (line_text g None name [] [v] @ CR # LF # r)"
    using folds_append [OF plain_line [OF g n0 n ps vs] folds.Tail, of "CR # LF # r"] l by simp
  show ?thesis using reads_line [OF f _ g n0 n ps vs] line_starts_plain [OF r] by (simp add: as_read_def heading_def)
qed

lemma parse_loop_reads:
  assumes g: "glib_text_ok g"
  shows "\<forall>a\<in>set as. writable g a \<and> \<not> attr_is a ''VERSION'' \<Longrightarrow>
    parse_loop g False evc (concat (map (attribute_line g evc_params) as) @ end_text) =
      Some (evc\<lparr>attributes := rev (map (read_back evc_params) as) @ attributes evc\<rparr>)"
proof (induction as arbitrary: evc)
  case Nil
  obtain a where "read_attribute g end_text = Some (Some a, [])" "attr_is a ''end''"
    using reads_end [OF g] unfolding upper_lower by blast
  moreover have "end_text \<noteq> []" by (simp add: end_text_def)
  ultimately show ?case by (simp add: parse_loop.simps [of g False evc end_text])
next
  case (Cons a as)
  define r where "r = concat (map (attribute_line g evc_params) as) @ end_text"
  have a: "writable g a" "\<not> attr_is a ''VERSION''" "\<not> attr_is a ''end''"
    using Cons.prems unfolding writable_def upper_lower by simp_all
  have "name_char (char_at r)"
    using Cons.prems attribute_line_start [where g = g and evc_params = evc_params] by (cases as) (auto simp: r_def)
  from reads_attribute_line [OF g a(1) this, of evc_params]
  have rd: "read_attribute g (attribute_line g evc_params a @ r) = Some (Some (read_back evc_params a), r)" .
  have ne: "attribute_line g evc_params a \<noteq> []" by (simp add: attribute_line_def)
  have "parse_loop g False evc (attribute_line g evc_params a @ r) = parse_loop g False (evc\<lparr>attributes := read_back evc_params a # attributes evc\<rparr>) r"
    using ne rd a(2,3) prepend_other [of "read_back evc_params a" evc]
    by (subst parse_loop.simps) simp
  then show ?case using Cons.IH [of "evc\<lparr>attributes := read_back evc_params a # attributes evc\<rparr>"] Cons.prems
    by (simp add: r_def)
qed

section \<open>The round trip\<close>

definition version_attribute :: "EVCardVersion \<Rightarrow> EVCardAttribute" where
  "version_attribute v = heading (bytes ''VERSION'') (e_vcard_version_to_string v)"

lemma prepend_version:
  "prepend_attribute evc (version_attribute v) = evc\<lparr>attributes := version_attribute v # attributes evc, version := v\<rparr>"
proof -
  have "e_vcard_version_from_string (e_vcard_version_to_string v) = v"
    by (cases v) (simp_all add: e_vcard_version_from_string_def)
  moreover have "attr_is (version_attribute v) ''VERSION''" "vals (version_attribute v) = [e_vcard_version_to_string v]"
    by (simp_all add: version_attribute_def heading_def e_vcard_attribute_new_def camel_strcase_equal_def)
  ultimately show ?thesis by (simp add: prepend_attribute_def cache_version_from_attr_def)
qed

text \<open>A card, behind the two lines of every card, is what its attributes make of it.\<close>

lemma parse_card_rest:
  assumes g: "glib_text_ok g" and r: "name_char (char_at r)"
    and rest: "\<And>evc. parse_loop g False evc r = Some (evc\<lparr>attributes := as @ attributes evc\<rparr>)"
  shows "parse g evc (bytes ''BEGIN:VCARD'' @ [CR, LF] @ bytes ''VERSION:'' @ e_vcard_version_to_string v @ [CR, LF] @ r) False =
    Some (evc\<lparr>attributes := rev (attributes evc) @ version_attribute v # rev as, version := v\<rparr>)"
proof -
  define r2 where "r2 = bytes ''VERSION:'' @ e_vcard_version_to_string v @ [CR, LF] @ r"
  have r2: "name_char (char_at r2)" by (simp add: r2_def name_char_def isalnum_def)
  have "name_ok (bytes ''BEGIN'')" "name_ok (bytes ''VERSION'')" by code_simp+
  note h = reads_heading [OF g this(1), of "bytes ''VCARD''", OF _ r2] reads_heading [OF g this(2) _ r]
  have 1: "read_attribute g (bytes ''BEGIN:VCARD'' @ [CR, LF] @ r2) = Some (Some (heading (bytes ''BEGIN'') (bytes ''VCARD'')), r2)"
    using h(1) by simp
  have 2: "read_attribute g r2 = Some (Some (version_attribute v), r)"
    using h(2) [of "e_vcard_version_to_string v"] by (cases v) (simp_all add: version_attribute_def r2_def)
  have b: "attr_is (heading (bytes ''BEGIN'') (bytes ''VCARD'')) ''begin''"
    and e: "\<not> attr_is (version_attribute v) ''end''"
    unfolding version_attribute_def heading_def e_vcard_attribute_new_def by (simp_all, code_simp+)
  have "r2 \<noteq> []" by (simp add: r2_def)
  then have "parse_loop g False evc' r2 = parse_loop g False (evc'\<lparr>attributes := version_attribute v # attributes evc', version := v\<rparr>) r" for evc'
    using 2 e prepend_version [of evc' v] by (subst parse_loop.simps) simp
  then have "parse g evc (bytes ''BEGIN:VCARD'' @ [CR, LF] @ r2) False =
      Some (evc\<lparr>attributes := rev (attributes evc) @ version_attribute v # rev as, version := v\<rparr>)"
    using 1 b rest by (simp add: parse_def Let_def)
  then show ?thesis by (simp add: r2_def)
qed

lemma parse_card:
  assumes g: "glib_text_ok g" and as: "\<forall>a\<in>set as. writable g a \<and> \<not> attr_is a ''VERSION''"
  shows "parse g evc (bytes ''BEGIN:VCARD'' @ [CR, LF] @ bytes ''VERSION:'' @ e_vcard_version_to_string v @ [CR, LF] @
      concat (map (attribute_line g evc_params) as) @ end_text) False =
    Some (evc\<lparr>attributes := rev (attributes evc) @ version_attribute v # map (read_back evc_params) as, version := v\<rparr>)"
proof -
  define r where "r = concat (map (attribute_line g evc_params) as) @ end_text"
  have r: "name_char (char_at r)"
    using as attribute_line_start [where g = g and evc_params = evc_params] by (cases as) (auto simp: r_def)
  have "parse_loop g False evc r = Some (evc\<lparr>attributes := rev (map (read_back evc_params) as) @ attributes evc\<rparr>)" for evc
    unfolding r_def by (rule parse_loop_reads [OF g as])
  from parse_card_rest [OF g r this] show ?thesis by (simp add: r_def)
qed

text \<open>C5: a card that \<^verbatim>\<open>e_vcard_to_string_vcard\<close> writes is read back by \<^verbatim>\<open>parse\<close>: the version attribute,
  then every attribute that the version knows, in order, with its group, its name, its values, and the parameters that
  the version knows, added one after the other. Long lines are folded and unfolded, values and parameters are escaped, quoted and read
  back. The names have to be words of letters, digits, hyphens and underscores, the texts valid and without carriage returns, and no
  parameter may announce quoted-printable or another character set.\<close>

theorem vcard_roundtrip:
  assumes g: "glib_text_ok g" and evc: "vcard evc = None"
    and w: "\<forall>a\<in>set (attributes evc).
      written (generate_dict_validator valid_properties) a \<longrightarrow> writable g a"
  shows "\<exists>text. e_vcard_to_string_vcard g evc to_version valid_properties valid_parameters = Some (text, evc) \<and>
    parse g e_vcard_new text False =
      Some \<lparr>attributes = version_attribute to_version #
          map (read_back (generate_dict_validator valid_parameters))
            (filter (written (generate_dict_validator valid_properties)) (attributes evc)),
        vcard = None, version = to_version\<rparr>"
proof -
  define evc_params where "evc_params = generate_dict_validator valid_parameters"
  define evc_prop where "evc_prop = generate_dict_validator valid_properties"
  define as where "as = filter (written evc_prop) (attributes evc)"
  have "attributes_text g evc_prop evc_params (attributes evc) = (concat (map (attribute_line g evc_params) as), attributes evc)"
    unfolding as_def by (rule attributes_text_lines) (use w in \<open>simp add: evc_prop_def\<close>)
  moreover have "\<forall>a\<in>set as. writable g a \<and> \<not> attr_is a ''VERSION''"
    using w by (auto simp: as_def evc_prop_def written_def)
  ultimately show ?thesis
    using parse_card [OF g, of as e_vcard_new to_version evc_params] evc
    by (simp add: e_vcard_to_string_vcard_def e_vcard_ensure_attributes_def evc_params_def [symmetric] evc_prop_def [symmetric]
        as_def [symmetric] end_text_def e_vcard_new_def)
qed

lemma ascii_char_seq: "\<forall>c\<in>set s. c < 128 \<Longrightarrow> char_seq s"
proof (induction s)
  case (Cons c s)
  then have "utf8_skip c = 1" using less_trans [of c 128 192] by (simp add: utf8_skip_def)
  then show ?case using Cons by simp
qed simp

lemma ascii_text_ok: "glib_text_ok ascii_text"
  using ascii_char_seq by (auto simp: glib_text_ok_def ascii_text_def split: if_splits)

text \<open>A card with a group, a folded line, escaped values, quoted parameter values, and an attribute that version 3.0 does not have.\<close>

definition sample_card :: EVCard where
  "sample_card =
     e_vcard_new\<lparr>attributes :=
       [(e_vcard_attribute_new None (bytes ''N''))\<lparr>vals := [bytes ''Doe;x'', [65, LF, BACKSLASH, COMMA]]\<rparr>,
        (e_vcard_attribute_new None (bytes ''GENDER''))\<lparr>vals := [bytes ''F'']\<rparr>,
        (e_vcard_attribute_new (Some (bytes ''item1'')) (bytes ''TEL''))
          \<lparr>params := [\<lparr>param_name = bytes ''TYPE'', param_values = [bytes ''HOME'', bytes ''a b;c'']\<rparr>,
                     \<lparr>param_name = bytes ''X-FOO'', param_values = [[97, LF, 98]]\<rparr>],
           vals := [replicate 90 49]\<rparr>]\<rparr>"

theorem vcard_roundtrip_witness:
  "\<exists>text. e_vcard_to_string_vcard ascii_text sample_card E_VCARD_VERSION_30 (Some E_VCARD_30_VALID_PROPERTIES)
        (Some E_VCARD_30_VALID_PARAMETERS) = Some (text, sample_card) \<and>
     parse ascii_text e_vcard_new text False =
       Some \<lparr>attributes =
           [version_attribute E_VCARD_VERSION_30,
            (e_vcard_attribute_new None (bytes ''N''))\<lparr>vals := [bytes ''Doe;x'', [65, LF, BACKSLASH, COMMA]]\<rparr>,
            (e_vcard_attribute_new (Some (bytes ''item1'')) (bytes ''TEL''))
              \<lparr>params := [\<lparr>param_name = bytes ''X-FOO'', param_values = [[97, LF, 98]]\<rparr>,
                         \<lparr>param_name = bytes ''TYPE'', param_values = [bytes ''HOME'', bytes ''a b;c'']\<rparr>],
               vals := [replicate 90 49]\<rparr>],
         vcard = None, version = E_VCARD_VERSION_30\<rparr>"
proof -
  have none: "vcard sample_card = None" by code_simp
  have ok: "\<forall>a\<in>set (attributes sample_card).
      written (generate_dict_validator (Some E_VCARD_30_VALID_PROPERTIES)) a \<longrightarrow> writable ascii_text a"
    by code_simp
  have eq: "map (read_back (generate_dict_validator (Some E_VCARD_30_VALID_PARAMETERS)))
      (filter (written (generate_dict_validator (Some E_VCARD_30_VALID_PROPERTIES))) (attributes sample_card)) =
     [(e_vcard_attribute_new None (bytes ''N''))\<lparr>vals := [bytes ''Doe;x'', [65, LF, BACKSLASH, COMMA]]\<rparr>,
            (e_vcard_attribute_new (Some (bytes ''item1'')) (bytes ''TEL''))
              \<lparr>params := [\<lparr>param_name = bytes ''X-FOO'', param_values = [[97, LF, 98]]\<rparr>,
                         \<lparr>param_name = bytes ''TYPE'', param_values = [bytes ''HOME'', bytes ''a b;c'']\<rparr>],
               vals := [replicate 90 49]\<rparr>]"
    by code_simp
  show ?thesis
    using vcard_roundtrip [OF ascii_text_ok none ok, of E_VCARD_VERSION_30 "Some E_VCARD_30_VALID_PARAMETERS"] unfolding eq .
qed

text \<open>Parameters with different names are read in the opposite order.\<close>

lemma merge_param_new:
  "\<forall>p2\<in>set ps. \<not> camel_strcase_equal (param_name p2) (param_name p) \<Longrightarrow> merge_param ps p = None"
  by (induction ps) auto

lemma add_params_rev:
  "\<forall>p\<in>set ps. \<forall>p2\<in>set (params a). \<not> camel_strcase_equal (param_name p2) (param_name p) \<Longrightarrow>
     sorted_wrt (\<lambda>p p2. \<not> camel_strcase_equal (param_name p) (param_name p2)) ps \<Longrightarrow>
     params (foldl e_vcard_attribute_add_param a ps) = rev ps @ params a"
proof (induction ps arbitrary: a)
  case (Cons p ps)
  have "params (e_vcard_attribute_add_param a p) = p # params a"
    using merge_param_new [of "params a" p] Cons.prems(1)
    by (auto simp: e_vcard_attribute_add_param_def Let_def split: list.split)
  then show ?case using Cons.IH [of "e_vcard_attribute_add_param a p"] Cons.prems by simp
qed simp

end
