(* ===== verification/EBook_VCardQuoted.thy ===== *)
theory EBook_VCardQuoted
  imports EBook_VCardRead
begin

text \<open>
  Quoted-printable values, where the reader goes wrong: what the writer of version 2.1 cards puts into a long value
  stays in the value that is read, and a value that is cut off makes the reader leave the text.
\<close>

section \<open>Lines without folds up to the value\<close>

lemma skip_newline_other: "\<not> newline c \<Longrightarrow> c \<noteq> EQUALS \<Longrightarrow> skip_newline (c # s) qp = c # s"
  by (simp add: skip_newline_def)

lemma name_chars_read:
  "\<forall>c\<in>set w. name_char c \<Longrightarrow> name_loop g start grp str (w @ u) = name_loop g start grp (str @ w) u"
proof (induction w arbitrary: str)
  case (Cons c w)
  then have c: "name_char c" by simp
  note p = name_char_plain [OF c]
  then have "skip_newline (c # w @ u) False = c # w @ u"
    by (intro skip_newline_other) (simp_all add: plain_def)
  then have "name_loop g start grp str (c # w @ u) = name_loop g start grp (str @ [c]) (w @ u)"
    using p c by (subst name_loop.simps) (auto simp: Let_def plain_def name_char_def)
  then show ?case using Cons by simp
qed simp

lemma name_read:
  assumes "glib_text_ok g" and "name_ok name" and "c = COLON \<or> c = SEMICOLON"
  shows "name_loop g start None [] (name @ c # u) = Named None name (c # u)"
proof -
  have "skip_newline (c # u) False = c # u" using assms(3) by (auto simp: skip_newline_def newline_def)
  then have "name_loop g start None name (c # u) = Named None name (c # u)"
    using assms valid_name [OF assms(1,2)] by (subst name_loop.simps) (auto simp: newline_def name_ok_def Let_def)
  then show ?thesis using name_chars_read [of name g start None "[]" "c # u"] assms(2) by (simp add: name_ok_def)
qed

lemma param_chars_read:
  "\<forall>c\<in>set w. name_char c \<Longrightarrow> \<not> p_in_quote st \<Longrightarrow> p_chunk st = None \<Longrightarrow>
     param_loop g (st\<lparr>p_lp := w @ u\<rparr>) = param_loop g (st\<lparr>p_str := p_str st @ w, p_lp := u\<rparr>)"
proof (induction w arbitrary: st)
  case (Cons c w)
  then have c: "name_char c" by simp
  note p = name_char_plain [OF c]
  have s: "skip_newline (c # w @ u) (p_quoted_printable st) = c # w @ u"
    using p by (intro skip_newline_other) (simp_all add: plain_def)
  define st1 where "st1 = st\<lparr>p_str := p_str st @ [c]\<rparr>"
  have "param_step g (st\<lparr>p_lp := c # w @ u\<rparr>) = Go (st1\<lparr>p_lp := w @ u\<rparr>)"
    using c p Cons.prems by (auto simp: param_step_def st1_def write_chunk_def name_char_def Let_def)
  moreover have "end_param_round (st1\<lparr>p_lp := w @ u\<rparr>) = st1\<lparr>p_lp := w @ u\<rparr>"
    using Cons.prems by (simp add: end_param_round_def st1_def write_chunk_def)
  ultimately have "param_loop g (st\<lparr>p_lp := c # w @ u\<rparr>) = param_loop g (st1\<lparr>p_lp := w @ u\<rparr>)"
    using p by (subst param_loop.simps) (simp add: s Let_def plain_def)
  then show ?case using Cons.IH [of st1] Cons.prems by (simp add: st1_def)
qed simp

definition qp_param :: cstring where
  "qp_param = bytes '';ENCODING=QUOTED-PRINTABLE''"

lemma qp_param_read:
  assumes g: "glib_text_ok g"
  shows "read_params g attr (qp_param @ COLON # u) = (attr\<lparr>encoding := EVC_ENCODING_RAW\<rparr>, COLON # u, True, None)"
proof -
  define e q where "e = bytes ''ENCODING''" and "q = bytes ''QUOTED-PRINTABLE''"
  have ok: "name_ok e" "name_ok q" unfolding e_def q_def by code_simp+
  then have ch: "\<forall>c\<in>set e. name_char c" "\<forall>c\<in>set q. name_char c" "e \<noteq> []" "q \<noteq> []" by (simp_all add: name_ok_def)
  have eq: "camel_strcase_equal e (bytes ''encoding'')" "camel_strcase_equal q (bytes ''quoted-printable'')"
    unfolding e_def q_def by code_simp+
  define st where "st = \<lparr>p_attr = attr, p_param = None, p_in_quote = False, p_str = [], p_chunk = None, p_lp = [],
    p_quoted_printable = False, p_charset = None\<rparr>"
  define p where "p = \<lparr>param_name = e, param_values = []\<rparr>"
  have "param_loop g (st\<lparr>p_str := e, p_lp := EQUALS # q @ COLON # u\<rparr>) =
      param_loop g (end_param_round (st\<lparr>p_param := Some p, p_lp := q @ COLON # u\<rparr>))"
    using ch(3) valid_name [OF g ok(1)]
    by (subst param_loop.simps)
      (simp add: st_def p_def param_step_def write_chunk_def skip_newline_def newline_def isalnum_def Let_def)
  moreover have "end_param_round (st\<lparr>p_param := Some p, p_lp := q @ COLON # u\<rparr>) = st\<lparr>p_param := Some p, p_lp := q @ COLON # u\<rparr>"
    by (simp add: end_param_round_def st_def write_chunk_def)
  moreover have "param_loop g (st\<lparr>p_param := Some p, p_str := q, p_lp := COLON # u\<rparr>) =
      st\<lparr>p_lp := COLON # u, p_quoted_printable := True\<rparr>"
    using ch(4) valid_name [OF g ok(2)] eq
    by (subst param_loop.simps)
      (simp add: st_def p_def param_step_def param_separator_def param_value_end_def write_chunk_def skip_newline_def
        newline_def isalnum_def Let_def)
  ultimately have "param_loop g (st\<lparr>p_lp := e @ EQUALS # q @ COLON # u\<rparr>) = st\<lparr>p_lp := COLON # u, p_quoted_printable := True\<rparr>"
    using param_chars_read [OF ch(1), of st g "EQUALS # q @ COLON # u"]
      param_chars_read [OF ch(2), of "st\<lparr>p_param := Some p\<rparr>" g "COLON # u"]
    by (simp add: st_def)
  moreover have qp: "qp_param @ COLON # u = SEMICOLON # e @ EQUALS # q @ COLON # u"
    unfolding qp_param_def e_def q_def by simp
  ultimately show ?thesis unfolding qp by (simp add: read_params_def read_attribute_params_def Let_def st_def)
qed

text \<open>The line of an attribute is read like its value.\<close>

definition read_line :: "glib_text \<Rightarrow> cstring \<Rightarrow> bool \<Rightarrow> cstring \<Rightarrow> (EVCardAttribute \<times> cstring) option" where
  "read_line g name qp u = read_attribute_value g (e_vcard_attribute_new None name) u qp None"

lemma value_vals: "read_attribute_value g attr p qp charset = Some (attr', p') \<Longrightarrow> vals attr' \<noteq> []"
  by (auto simp: read_attribute_value_def Let_def bind_eq_Some_conv)

lemma attribute_read:
  assumes g: "glib_text_ok g" and n: "name_ok name"
  shows "read_attribute g (name @ (if qp then qp_param else []) @ COLON # u) =
    map_option (\<lambda>(attr, p). (Some attr, p)) (read_line g name qp u)"
proof -
  define lp where "lp = (if qp then qp_param else []) @ COLON # u"
  have new: "(e_vcard_attribute_new None name)\<lparr>encoding := EVC_ENCODING_RAW\<rparr> = e_vcard_attribute_new None name"
    by (simp add: e_vcard_attribute_new_def)
  obtain c v where lp': "lp = c # v" "c = COLON \<or> c = SEMICOLON" 
    by (cases qp) (simp_all add: lp_def qp_param_def)
  then have "name_loop g (name @ lp) None [] (name @ lp) = Named None name lp" using name_read [OF g n] by simp
  moreover have "read_params g (e_vcard_attribute_new None name) lp = (e_vcard_attribute_new None name, COLON # u, qp, None)"
    using qp_param_read [OF g, of "e_vcard_attribute_new None name" u] by (cases qp) (simp_all add: lp_def new, simp add: read_params_def)
  ultimately have "read_attribute g (name @ lp) =
      Option.bind (read_line g name qp u) (\<lambda>(attr, p). Some (if vals attr = [] then None else Some attr, p))"
    by (simp add: read_attribute_def read_line_def)
  then show ?thesis unfolding lp_def [symmetric]
    by (cases "read_line g name qp u") (auto simp: read_line_def dest: value_vals)
qed

section \<open>Texts that end too early\<close>

text \<open>A character that every mode of the reader takes as it is, or as a separator.\<close>

definition ordinary :: "byte \<Rightarrow> bool" where
  "ordinary c \<longleftrightarrow> c \<notin> {NUL, CR, LF, EQUALS, BACKSLASH}"

lemma value_chars_overrun:
  assumes e: "\<And>st. v_lp st = e \<Longrightarrow> value_loop g single cat qp charset st = None"
  shows "\<forall>c\<in>set w. ordinary c \<Longrightarrow> v_lp st = w @ e \<Longrightarrow> value_loop g single cat qp charset st = None"
proof (induction w arbitrary: st)
  case Nil
  then show ?case using e by simp
next
  case (Cons c w)
  then have c: "c \<noteq> NUL" "\<not> newline c" "c \<noteq> EQUALS" "c \<noteq> BACKSLASH" by (auto simp: ordinary_def newline_def)
  then have sk: "skip_newline (v_lp st) qp = v_lp st"
    using Cons.prems skip_newline_other [OF c(2,3), of "w @ e" qp] by simp
  have same: "st\<lparr>v_lp := v_lp st\<rparr> = st" by simp
  obtain st' where st': "value_step g single cat qp charset st = Go st'" "v_lp st' = w @ e"
    using c Cons.prems
    by (cases "c = SEMICOLON \<and> \<not> single \<or> c = COMMA \<and> cat") (simp_all add: value_step_def Let_def)
  then have "value_loop g single cat qp charset (end_round st') = None" using Cons by simp
  then show ?case using c Cons.prems st'(1) by (subst value_loop.simps, unfold sk same Let_def) simp
qed

lemma equals_overruns: "v_lp st = [EQUALS] \<Longrightarrow> value_loop g single cat True charset st = None"
  by (subst value_loop.simps) (simp add: skip_newline_def newline_def value_step_def Let_def)

text \<open>A fold, and nothing behind it.\<close>

definition last_fold :: "cstring \<Rightarrow> bool" where
  "last_fold s \<longleftrightarrow> s \<noteq> [] \<and> blank (last s) \<and> butlast s \<in> {[CR, LF], [LF, CR], [LF], [CR]}"

lemma last_fold_cases:
  assumes "last_fold s"
  obtains nl b where "s = nl @ [b]" "blank b" "nl \<in> {[CR, LF], [LF, CR], [LF], [CR]}"
  using assms that [of "butlast s" "last s"] by (simp add: last_fold_def)

lemma backslash_overruns:
  assumes "v_lp st = BACKSLASH # s" and "last_fold s"
  shows "value_loop g single cat qp charset st = None"
proof -
  obtain nl b where s: "s = nl @ [b]" "blank b" "nl \<in> {[CR, LF], [LF, CR], [LF], [CR]}"
    using assms(2) by (rule last_fold_cases)
  then have "skip_newline s qp = []" "char_at s \<noteq> NUL" by (auto simp: skip_newline_def newline_def blank_def)
  then show ?thesis using assms(1)
    by (subst value_loop.simps) (simp add: skip_newline_other newline_def value_step_def unescape_char_def Let_def)
qed

text \<open>C38: the reader leaves the text when the text ends in an equals sign in a quoted-printable value, or in a fold
  after a backslash, and the value has no line end, equals sign or backslash before. The pointer is moved past the
  NUL, and the text is looked through from there.\<close>

theorem vcard_reader_overruns:
  assumes "glib_text_ok g" and "name_ok name" and "\<forall>c\<in>set w. ordinary c" and "last_fold s"
  shows "parse g evc (name @ bytes '';ENCODING=QUOTED-PRINTABLE:'' @ w @ [EQUALS]) ignore_uid = None \<and>
    parse g evc (name @ bytes '':'' @ w @ BACKSLASH # s) ignore_uid = None"
proof -
  have *: "parse g evc (name @ (if qp then qp_param else []) @ COLON # w @ e) ignore_uid = None"
    if "\<And>single cat st. v_lp st = e \<Longrightarrow> value_loop g single cat qp None st = None" for qp e
  proof -
    have "read_line g name qp (w @ e) = None"
      unfolding read_line_def read_attribute_value_def
      using value_chars_overrun [OF that assms(3), where st = "\<lparr>v_vals = [], v_str = [], v_chunk = None, v_lp = w @ e\<rparr>"]
      by (simp add: Let_def)
    then show ?thesis using attribute_read [OF assms(1,2), of qp "w @ e"] by (simp add: parse_def)
  qed
  show ?thesis
    using * [of "[EQUALS]" True] equals_overruns * [of "BACKSLASH # s" False] backslash_overruns [OF _ assms(4)]
    by (simp add: qp_param_def)
qed

theorem vcard_reader_overruns_witness:
  "parse ascii_text e_vcard_new (bytes ''N;ENCODING=QUOTED-PRINTABLE:a'' @ [EQUALS]) False = None \<and>
   parse ascii_text e_vcard_new (bytes ''N:a'' @ [BACKSLASH, CR, LF, SP]) False = None"
proof -
  have "name_ok (bytes ''N'')" "\<forall>c\<in>set [97]. ordinary c" "last_fold [CR, LF, SP]" by code_simp+
  from vcard_reader_overruns [OF ascii_text_ok this, of e_vcard_new False] show ?thesis by simp
qed

section \<open>Soft line breaks\<close>




















end
