(* ===== verification/Spec2Isabelle.thy ===== *)
theory Spec2Isabelle
  imports Camel_Strings Camel_StringPool Camel_NameValueArray Camel_NamedFlags Camel_ObjectBag Camel_Trie Camel_Utf8 Camel_Utf7
    Camel_MimeTables Camel_Quoted Camel_MimeFilter Camel_FilterCrlf Camel_FilterCanon Camel_FilterFrom
    Camel_Sexp Camel_SexpProps Camel_SexpParser
    Camel_FolderThread Camel_ThreadTree Camel_ThreadLink Camel_ThreadGroup Camel_ThreadMerge Camel_ThreadRoots
    Camel_ThreadPhases Camel_ThreadSort Camel_ThreadFinish Camel_ThreadProps
    Cal_IntervalTree Cal_IntervalAbs Cal_IntervalRefine Cal_IntervalRemove Cal_IntervalCover Cal_IntervalProps
    EBook_VCard EBook_VCardWrite EBook_VCardProps EBook_VCardRound EBook_VCardCard EBook_VCardLines EBook_VCardErrors EBook_VCardRead
    EBook_VCardQuoted
begin

text \<open>
  Evolution Data Server: the mail library Camel (\<^verbatim>\<open>src/src/camel\<close>), the interval tree of the
  calendar's file backend (\<^verbatim>\<open>src/src/calendar/libedata-cal\<close>) and the text form of contacts
  (\<^verbatim>\<open>src/src/addressbook/libebook-contacts\<close>).

  The server keeps address books, calendars and, in Camel, mail. The program is large; most of its
  code moves data between D-Bus, SQLite, network protocols and GObject. The development is about the
  code that computes: the string and container types everything else uses, the character and
  transfer encodings, the stream filters that messages pass through, and the language in which
  searches, filters and virtual folders are written, the threading of messages, the index by time of a calendar, and vCards.

  \<^bold>\<open>Theories and sources.\<close> File names are below \<^verbatim>\<open>src/src/camel\<close>, those of the \<open>Cal\<close> theories below
  \<^verbatim>\<open>src/src/calendar/libedata-cal\<close>, those of the \<open>EBook\<close> theories below
  \<^verbatim>\<open>src/src/addressbook/libebook-contacts\<close>.

  \<^item> \<open>EDS_Prelude\<close>: bytes, C strings, the ASCII tests, list and word lemmas, and the machines that
    consume bytes one by one (\<open>run_steps\<close>) with the law for input in pieces.
  \<^item> \<open>Camel_Strings\<close>, \<open>Camel_StringPool\<close> (\<^verbatim>\<open>camel-string-utils.c\<close>): case-insensitive equality, hash and
    search; the pool of interned strings as a map from contents to address and reference count. A
    client's use of the pool is the step relation \<open>pool_run\<close>, the invariant is \<open>pool_inv\<close>.
  \<^item> \<open>Camel_NameValueArray\<close> (\<^verbatim>\<open>camel-name-value-array.c\<close>) and \<open>Camel_NamedFlags\<close>
    (\<^verbatim>\<open>camel-named-flags.c\<close>): the two containers, as lists updated by index. The abstract
    specifications are a finite map and a set.
  \<^item> \<open>Camel_ObjectBag\<close> (\<^verbatim>\<open>camel-object-bag.c\<close>): the table of live objects with reservable keys, and the
    threads that share it. A call that waits on a condition variable is cut there. \<open>thread_step\<close> has threads that
    call any function with any key and object; that reservations are exclusive is proved of it. \<open>bag_step\<close> has those
    that keep to a contract the code does not check: a key is given an object by the thread that reserved it, and
    objects are rekeyed only to keys neither in use nor reserved. Its invariant is \<open>bag_inv\<close>; \<open>pending\<close> decreases
    with every step that finishes a call (\<open>finish_step\<close>).
  \<^item> \<open>Camel_Trie\<close> (\<^verbatim>\<open>camel-trie.c\<close>): the automaton that looks for several patterns at once. \<open>trie_inv\<close> says
    which word each state stands for, \<open>good\<close> that its failure edge leads to the longest proper suffix that
    is a word and that it knows of every pattern that ends there.
  \<^item> \<open>Camel_Utf8\<close>, \<open>Camel_Utf7\<close> (\<^verbatim>\<open>camel-utf8.c\<close>): characters, and the modified UTF-7 of IMAP names.
  \<^item> \<open>Camel_MimeTables\<close> (\<^verbatim>\<open>camel-mime-utils.h\<close>, \<^verbatim>\<open>camel-gen-tables.c\<close>) and \<open>Camel_Quoted\<close>
    (\<^verbatim>\<open>camel-mime-utils.c\<close>): the character classes, quoted-printable and the Q encoding.
  \<^item> \<open>Camel_MimeFilter\<close> (\<^verbatim>\<open>camel-mime-filter.c\<close>): the base class, which hands unfinished input back to
    the next call and owns the output buffer. Its locales state the contract of a filter; the
    subclasses \<open>Camel_FilterCrlf\<close>, \<open>Camel_FilterCanon\<close> and \<open>Camel_FilterFrom\<close>
    (\<^verbatim>\<open>camel-mime-filter-crlf.c\<close>, \<^verbatim>\<open>-canon.c\<close>, \<^verbatim>\<open>-from.c\<close>) interpret them.
  \<^item> \<open>Camel_Sexp\<close> (\<^verbatim>\<open>camel-sexp.c\<close>): terms, values, the built-in functions, the evaluator and the time
    window of a calendar query. \<open>Camel_SexpProps\<close> proves what they compute, \<open>Camel_SexpParser\<close> holds
    the parser.
  \<^item> \<open>Camel_FolderThread\<close> (\<^verbatim>\<open>camel-folder-thread.c\<close>): message threading, on an explicit store of nodes linked
    by pointers. \<open>Camel_ThreadTree\<close> has the trees such a store holds (\<open>trees_at\<close>, \<open>kin\<close>), what a loop leaves alone
    (\<open>slot_frame\<close>), and the pruning of empty nodes; \<open>Camel_ThreadLink\<close> the linking by references, with the relation
    \<open>up\<close> between a node and its parent kept acyclic; \<open>Camel_ThreadGroup\<close>, \<open>Camel_ThreadMerge\<close>, \<open>Camel_ThreadRoots\<close> and
    \<open>Camel_ThreadPhases\<close> the grouping by subject, whose invariant is \<open>group_inv\<close>; \<open>Camel_ThreadSort\<close> the sorting;
    \<open>Camel_ThreadFinish\<close> the removal of empty roots. \<open>Camel_ThreadProps\<close> composes the phases and treats subjects.
  \<^item> \<open>Cal_IntervalTree\<close> (\<^verbatim>\<open>e-cal-backend-intervaltree.c\<close>): the code of the interval tree on an explicit
    store of nodes. \<open>Cal_IntervalAbs\<close> is the same red-black tree as a value with a path to the position
    the code is at, with the lemmas on colours, order and extremes; \<open>Cal_IntervalCover\<close> has the bounds the
    search needs; \<open>Cal_IntervalRefine\<close> (rotations, insertion) and \<open>Cal_IntervalRemove\<close> (removal) prove that
    the code does to the store what the functions of \<open>Cal_IntervalAbs\<close> do to the tree (\<open>zrep\<close>).
    \<open>Cal_IntervalProps\<close> has the invariant \<open>tree_rep\<close>, the map \<open>spans\<close> from keys to intervals that the
    hash table gives, the nodes that the links lead to (\<open>walk\<close>), and the traversals.
  \<^item> \<open>EBook_VCard\<close>, \<open>EBook_VCardWrite\<close> (\<^verbatim>\<open>e-vcard.c\<close>): the parser, with the pointer into the text as the
    suffix it points at, and the writers. \<open>EBook_VCardProps\<close> has escaping, quoted-printable and folded text (\<open>folds\<close>) and
    how values are read; \<open>EBook_VCardRound\<close> and \<open>EBook_VCardCard\<close> how parameters are, \<open>EBook_VCardLines\<close> attributes and
    \<open>EBook_VCardRead\<close> cards. \<open>EBook_VCardErrors\<close> says which texts the parser does not leave,
    \<open>EBook_VCardQuoted\<close> which quoted-printable values it leaves, or does not read as they were meant.

  \<^bold>\<open>State and data.\<close> A byte is an \<^verbatim>\<open>8 word\<close>, \<^verbatim>\<open>guint32\<close> a \<^verbatim>\<open>32 word\<close>, \<^verbatim>\<open>time_t\<close> a \<^verbatim>\<open>64 word\<close>;
  arithmetic wraps as in C, and \<^verbatim>\<open>gchar\<close> is signed, as with the compilers for x86. Reference counts (\<^verbatim>\<open>gulong\<close>),
  lengths and positions in a buffer are natural numbers, taken not to reach the limit of their C type. A string is the list of its bytes; where the code reads up to the
  terminating NUL the buffer and the NUL are explicit, and a read past its end is \<open>None\<close>. An output
  buffer that can hold bytes never written is a list of options. The private structure of a filter
  or codec is a record, and each call returns it updated. Errors that leave by \<^verbatim>\<open>longjmp\<close> are the
  left values of a sum.

  \<^bold>\<open>What the lemmas show.\<close> The codecs: decoding what was encoded gives the input, however the input
  is cut into calls, and no call writes more than the caller has to reserve. The containers: each
  operation does to the abstract map or set what its name says. The pool: contents, addresses and
  counts agree with the references that clients hold. The bag: reservations are exclusive, no wake-up is
  lost, and every waiting call returns unless the owners of keys wait themselves. The trie: the search decides as looking for every pattern at every
  place does. Threading: it ends, and every message is in exactly one place of the trees. The filters: the output for a stream does not
  depend on how it arrives, and is the transformation of its lines. The interval tree: after any history
  it is the map its operations describe, stays balanced, finds exactly what overlaps, and no loop of it
  runs for ever. Cards: what is written is read back, and a text that ends as cards do is never left. The expressions: the boolean and
  list meaning of \<^verbatim>\<open>and\<close>, \<^verbatim>\<open>or\<close>, \<^verbatim>\<open>not\<close>, and that a time window misses no match. Several theorems
  record where the code falls short of that: they state for which inputs, and the result.

  \<^bold>\<open>Bounds and fuel.\<close> Loops are structural or have a measure; those of the interval tree, which follow
  pointers, are partial functions that are proved to return on every reachable tree, and so are the loops of threading, for
  fewer than \<^verbatim>\<open>2^31\<close> distinct messages. Only the parser takes fuel, because its
  three functions hand each other the rest of the input; twice the number of tokens and one is
  enough (\<open>parser_ok\<close>).

  \<^bold>\<open>Parameters.\<close> The functions a client adds to an expression and the visiting order of a GLib hash
  table (\<open>sexp_env\<close>, \<open>glib\<close>), its sorting function, and the functions by which threading reads an item
  (\<open>ItemFunctions\<close>); GLib's tests and conversions of UTF-8 text (\<open>glib_text\<close>, with what is used of them in
  \<open>glib_text_ok\<close>). The lexer of expressions is GLib's \<^verbatim>\<open>GScanner\<close>: the parser starts from tokens.

  \<^bold>\<open>Not modelled.\<close> GObject construction and reference counts of objects, locking (an operation under
  a mutex is one step), allocation failure, and the components that rest on SQLite, D-Bus, sockets,
  libical, NSS or the file system.

  \<^bold>\<open>Plan.\<close> Uuencoding and the remaining filters (\<^verbatim>\<open>basic\<close>, \<^verbatim>\<open>linewrap\<close>, \<^verbatim>\<open>bestenc\<close>, \<^verbatim>\<open>pgp\<close>); the
  RFC 822 tokenizers of \<^verbatim>\<open>camel-mime-utils.c\<close>; \<^verbatim>\<open>camel-url.c\<close>; the UID sets of the IMAP provider; the conversion of
  vCards between versions and address-book queries.
\<close>

end
